(* ===== verification/Prelude.thy ===== *)
theory Prelude
  imports Main "HOL-Library.Word" "HOL-Library.Monad_Syntax"
begin

text \<open>
  Shared vocabulary of the development.

  The program is C for 64-bit Linux: \<open>char\<close> is a signed byte, \<open>int\<close> and \<open>unsigned int\<close> have
  32 bits, pointers 8 bytes.  A computation that the C standard leaves undefined (a read or write
  outside a block, a dereferenced null pointer, a signed overflow) has no result in the model:
  its value is \<^term>\<open>None\<close>.  Everything else the code computes is under \<^term>\<open>Some\<close>, the error
  codes and null results of the source included, so that \<open>\<exists>r. f x = Some r\<close> says that the call
  is free of undefined behaviour.  Computations are chained with the \<open>do\<close> notation of the
  option monad.

  A block of memory is the list of its cells: \<open>rd\<close> and \<open>wr\<close> are a checked read and write,
  \<open>blit\<close> is \<open>memcpy\<close>, \<open>fill\<close> is \<open>memset\<close>.  A C string is the list of its bytes up to the
  terminating NUL.
\<close>

unbundle bit_operations_syntax

named_theorems cmem \<open>checked memory operations whose side conditions are known\<close>
named_theorems cdefs \<open>definitions that proofs about the C helpers unfold\<close>

type_synonym u8 = "8 word"
type_synonym u32 = "32 word"
type_synonym u64 = "64 word"
type_synonym bytes = "u8 list"

text \<open>Bytes of a string literal.\<close>

definition bytes_of :: "string \<Rightarrow> bytes" where
  "bytes_of s = map of_char s"

lemma bytes_of_length [simp]: "length (bytes_of s) = length s"
  by (simp add: bytes_of_def)

text \<open>The value of an \<open>unsigned int\<close> computed from a natural number.\<close>

definition wrap32 :: "nat \<Rightarrow> nat" where
  "wrap32 n = n mod 2 ^ 32"

lemma wrap32_small [simp]: "n < 2 ^ 32 \<Longrightarrow> wrap32 n = n"
  by (simp add: wrap32_def)

lemma wrap32_bound [simp]: "wrap32 n < 2 ^ 32" "wrap32 n < 4294967296"
  by (simp_all add: wrap32_def)

text \<open>Conversions between \<open>unsigned int\<close> and \<open>int\<close>, and the range of \<open>int\<close>.\<close>

definition to_int32 :: "nat \<Rightarrow> int" where
  "to_int32 n = (if n < 2 ^ 31 then int n else int n - 2 ^ 32)"

definition to_uint32 :: "int \<Rightarrow> nat" where
  "to_uint32 i = nat (i mod 2 ^ 32)"

definition int32 :: "int \<Rightarrow> int option" where
  "int32 i = (if - (2 ^ 31) \<le> i \<and> i < 2 ^ 31 then Some i else None)"

lemma to_int32_small [simp]: "n < 2 ^ 31 \<Longrightarrow> to_int32 n = int n"
  by (simp add: to_int32_def)

lemma to_uint32_small [simp]: "0 \<le> i \<Longrightarrow> i < 2 ^ 32 \<Longrightarrow> to_uint32 i = nat i"
  by (simp add: to_uint32_def)

section \<open>Checked memory operations\<close>

definition rd :: "'a list \<Rightarrow> nat \<Rightarrow> 'a option" where
  "rd m i = (if i < length m then Some (m ! i) else None)"

definition wr :: "'a list \<Rightarrow> nat \<Rightarrow> 'a \<Rightarrow> 'a list option" where
  "wr m i x = (if i < length m then Some (m[i := x]) else None)"

text \<open>\<open>memcpy(dst + off, src, n)\<close> on disjoint blocks.\<close>

definition blit :: "'a list \<Rightarrow> nat \<Rightarrow> 'a list \<Rightarrow> nat \<Rightarrow> 'a list option" where
  "blit dst off src n =
     (if n \<le> length src \<and> off + n \<le> length dst
      then Some (take off dst @ take n src @ drop (off + n) dst) else None)"

text \<open>\<open>memset(dst + off, x, n)\<close>.\<close>

definition fill :: "'a list \<Rightarrow> nat \<Rightarrow> 'a \<Rightarrow> nat \<Rightarrow> 'a list option" where
  "fill dst off x n = blit dst off (replicate n x) n"

lemma rd_Some [cmem]: "i < length m \<Longrightarrow> rd m i = Some (m ! i)"
  by (simp add: rd_def)

lemma rd_None [cmem]: "length m \<le> i \<Longrightarrow> rd m i = None"
  by (simp add: rd_def)

lemma wr_Some [cmem]: "i < length m \<Longrightarrow> wr m i x = Some (m[i := x])"
  by (simp add: wr_def)

lemma wr_None [cmem]: "length m \<le> i \<Longrightarrow> wr m i x = None"
  by (simp add: wr_def)

lemma blit_Some [cmem]:
  "n \<le> length src \<Longrightarrow> off + n \<le> length dst
   \<Longrightarrow> blit dst off src n = Some (take off dst @ take n src @ drop (off + n) dst)"
  by (simp add: blit_def)

lemma fill_Some [cmem]:
  "off + n \<le> length dst
   \<Longrightarrow> fill dst off x n = Some (take off dst @ replicate n x @ drop (off + n) dst)"
  by (simp add: fill_def blit_def)

lemma rd_iff: "rd m i = Some x \<longleftrightarrow> i < length m \<and> x = m ! i"
  by (auto simp: rd_def)

lemma wr_iff: "wr m i x = Some m' \<longleftrightarrow> i < length m \<and> m' = m[i := x]"
  by (auto simp: wr_def)

lemma blit_iff:
  "blit dst off src n = Some d \<longleftrightarrow>
   n \<le> length src \<and> off + n \<le> length dst \<and> d = take off dst @ take n src @ drop (off + n) dst"
  by (auto simp: blit_def)

lemma blit_length: "blit dst off src n = Some d \<Longrightarrow> length d = length dst"
  by (auto simp: blit_iff)

section \<open>Lists cut and glued\<close>

lemma take_append_exact [simp]: "n = length xs \<Longrightarrow> take n (xs @ ys) = xs"
  by simp

lemma drop_append_exact [simp]: "n = length xs \<Longrightarrow> drop n (xs @ ys) = ys"
  by simp

lemma take_update_end: "n < length xs \<Longrightarrow> take (Suc n) (xs[n := x]) = take n xs @ [x]"
  by (simp add: take_Suc_conv_app_nth)

lemma take_take_drop: "i + j \<le> k \<Longrightarrow> take j (drop i (take k xs)) = take j (drop i xs)"
  by (simp add: drop_take min_def)

lemma nth_drop_take: "i < j \<Longrightarrow> j \<le> length xs \<Longrightarrow> take j xs ! i = xs ! i"
  by simp

lemma drop_replicate_tail: "drop n (replicate m x) = replicate (m - n) x"
  by (rule drop_replicate)

lemma take_drop_Cons: "i < length xs \<Longrightarrow> drop i xs = xs ! i # drop (Suc i) xs"
  by (rule Cons_nth_drop_Suc [symmetric])

section \<open>The loops that move a part of a block\<close>

text \<open>The loop \<open>for ( i = size - 1; i >= l; i-- ) buffer[i+len] = buffer[i]\<close>; \<open>n\<close> is \<open>i + 1\<close>.\<close>

fun shift_up :: "'a list \<Rightarrow> nat \<Rightarrow> nat \<Rightarrow> nat \<Rightarrow> 'a list option" where
  "shift_up buf len l 0 = Some buf"
| "shift_up buf len l (Suc i) =
     (if l \<le> i then do {
        x \<leftarrow> rd buf i;
        buf \<leftarrow> wr buf (i + len) x;
        shift_up buf len l i }
      else Some buf)"

text \<open>The loop \<open>for ( i = idx + len; i < size; i++ ) buffer[i-len] = buffer[i]\<close>, \<open>n\<close> steps of it.\<close>

fun shift_down :: "'a list \<Rightarrow> nat \<Rightarrow> nat \<Rightarrow> nat \<Rightarrow> 'a list option" where
  "shift_down buf len i 0 = Some buf"
| "shift_down buf len i (Suc n) = do {
     x \<leftarrow> rd buf i;
     buf \<leftarrow> wr buf (i - len) x;
     shift_down buf len (Suc i) n }"

lemma shift_up_moves:
  "len \<le> length r \<Longrightarrow>
   \<exists>g. length g = len \<and> shift_up (p @ q @ r) len (length p) (length p + length q) = Some (p @ g @ q @ drop len r)"
proof (induction q arbitrary: r rule: rev_induct)
  case Nil
  have "shift_up (p @ r) len (length p) (length p) = Some (p @ r)" by (cases p) auto
  with Nil show ?case by (intro exI [of _ "take len r"]) auto
next
  case (snoc x q)
  let ?i = "length p + length q"
  let ?r = "take len (x # r) @ x # drop len r"
  have len: "len \<le> length ?r" "drop len ?r = x # drop len r" using snoc.prems by auto
  have up: "([x] @ r)[len := x] = ?r" using snoc.prems by (cases len) (auto simp: upd_conv_take_nth_drop)
  have "(p @ q @ [x] @ r)[?i + len := x] = p @ q @ ?r"
    using up by (simp add: list_update_append)
  moreover obtain g where "length g = len" "shift_up (p @ q @ ?r) len (length p) ?i = Some (p @ g @ q @ drop len ?r)"
    using snoc.IH [OF len(1)] by blast
  ultimately show ?case
    using snoc.prems len(2) by (intro exI [of _ g]) (simp add: rd_def wr_def nth_append)
qed

lemma shift_down_moves:
  "length m = len \<Longrightarrow>
   \<exists>g. length g = len \<and> shift_down (p @ m @ q @ r) len (length p + len) (length q) = Some (p @ q @ g @ r)"
proof (induction q arbitrary: p m)
  case Nil
  then show ?case by (intro exI [of _ m]) auto
next
  case (Cons x q)
  let ?m = "tl (m @ [x])"
  have "(p @ m @ x # q @ r)[length p := x] = (p @ [x]) @ ?m @ q @ r"
    by (cases m) (auto simp: list_update_append)
  moreover have "length ?m = len" using Cons.prems by simp
  then obtain g where "length g = len"
    "shift_down ((p @ [x]) @ ?m @ q @ r) len (length (p @ [x]) + len) (length q) = Some ((p @ [x]) @ q @ g @ r)"
    using Cons.IH by blast
  ultimately show ?case
    using Cons.prems by (intro exI [of _ g]) (simp add: rd_def wr_def nth_append)
qed

section \<open>C strings\<close>

text \<open>The string stored at the start of a block, without its NUL.\<close>

definition cstr :: "bytes \<Rightarrow> bytes" where
  "cstr buf = takeWhile (\<lambda>b. b \<noteq> 0) buf"

definition no_nul :: "bytes \<Rightarrow> bool" where
  "no_nul s \<longleftrightarrow> 0 \<notin> set s"

lemma no_nul_simps [simp]:
  "no_nul []" "no_nul (b # s) \<longleftrightarrow> b \<noteq> 0 \<and> no_nul s" "no_nul (s @ t) \<longleftrightarrow> no_nul s \<and> no_nul t"
  by (auto simp: no_nul_def)

lemma cstr_terminated [simp]: "no_nul s \<Longrightarrow> cstr (s @ 0 # r) = s"
  by (induction s) (auto simp: cstr_def)

lemma cstr_id [simp]: "no_nul s \<Longrightarrow> cstr s = s"
  by (induction s) (auto simp: cstr_def)

lemma no_nul_cstr [simp]: "no_nul (cstr s)"
  by (induction s) (auto simp: cstr_def)

lemma no_nul_take: "no_nul s \<Longrightarrow> no_nul (take n s)"
  by (meson in_set_takeD no_nul_def)

lemma no_nul_drop: "no_nul s \<Longrightarrow> no_nul (drop n s)"
  by (meson in_set_dropD no_nul_def)

text \<open>\<open>strlen\<close> of a block: undefined when the block has no NUL.\<close>

definition strlen :: "bytes \<Rightarrow> nat option" where
  "strlen buf = (if 0 \<in> set buf then Some (length (cstr buf)) else None)"

lemma strlen_terminated [simp]: "no_nul s \<Longrightarrow> strlen (s @ 0 # r) = Some (length s)"
  by (simp add: strlen_def)

lemma terminatedE:
  assumes "0 \<in> set buf"
  obtains r where "buf = cstr buf @ 0 # r"
proof -
  have "\<exists>r. buf = cstr buf @ 0 # r"
    using assms by (induction buf) (auto simp: cstr_def)
  then show ?thesis using that by blast
qed

section \<open>Numbers in memory and in text\<close>

text \<open>A 32-bit value stored at an address of the (little-endian) machine.\<close>

definition le32 :: "u8 \<Rightarrow> u8 \<Rightarrow> u8 \<Rightarrow> u8 \<Rightarrow> u32" where
  "le32 b0 b1 b2 b3 =
     ucast b0 OR push_bit 8 (ucast b1) OR push_bit 16 (ucast b2) OR push_bit 24 (ucast b3)"

text \<open>\<open>%02x\<close> of a byte: two lower-case hexadecimal digits.\<close>

definition hex_digit :: "nat \<Rightarrow> u8" where
  "hex_digit n = (if n < 10 then word_of_nat (48 + n) else word_of_nat (87 + n))"

definition hex2 :: "u8 \<Rightarrow> bytes" where
  "hex2 b = [hex_digit (unat b div 16), hex_digit (unat b mod 16)]"

text \<open>\<open>%x\<close> and \<open>%d\<close>: the digits of a number, most significant first.\<close>

fun digits_of :: "nat \<Rightarrow> nat \<Rightarrow> nat list" where
  "digits_of b n = (if b \<le> 1 \<or> n < b then [n] else digits_of b (n div b) @ [n mod b])"

declare digits_of.simps [simp del]

definition dec_digits :: "nat \<Rightarrow> bytes" where
  "dec_digits n = map (\<lambda>d. word_of_nat (48 + d)) (digits_of 10 n)"

definition hex_digits :: "nat \<Rightarrow> bytes" where
  "hex_digits n = map hex_digit (digits_of 16 n)"

text \<open>The padding of a field width: \<open>%08x\<close> pads with zeros, \<open>%8x\<close> with blanks.\<close>

definition pad_left :: "u8 \<Rightarrow> nat \<Rightarrow> bytes \<Rightarrow> bytes" where
  "pad_left c w s = replicate (w - length s) c @ s"

lemma length_pad_left: "length (pad_left c w s) = max w (length s)"
  by (simp add: pad_left_def)

lemma length_hex2 [simp]: "length (hex2 b) = 2"
  by (simp add: hex2_def)

lemma digits_of_bound: "1 < b \<Longrightarrow> d \<in> set (digits_of b n) \<Longrightarrow> d < b"
proof (induction b n rule: digits_of.induct)
  case (1 b n)
  show ?case
    using "1.prems" "1.IH" by (cases "n < b") (auto simp: digits_of.simps [of b n])
qed

lemma length_digits_of: "1 < b \<Longrightarrow> n < b ^ k \<Longrightarrow> 0 < k \<Longrightarrow> length (digits_of b n) \<le> k"
proof (induction k arbitrary: n)
  case 0
  then show ?case by simp
next
  case (Suc k)
  show ?case
  proof (cases "n < b")
    case True
    then show ?thesis by (simp add: digits_of.simps)
  next
    case False
    with Suc.prems have "0 < k" by (cases k) auto
    moreover from Suc.prems have "n div b < b ^ k"
      by (simp add: less_mult_imp_div_less mult.commute)
    ultimately have "length (digits_of b (n div b)) \<le> k"
      using Suc by simp
    then show ?thesis by (subst digits_of.simps) simp
  qed
qed

lemma length_dec_digits: "n < 10 ^ k \<Longrightarrow> 0 < k \<Longrightarrow> length (dec_digits n) \<le> k"
  by (simp add: dec_digits_def length_digits_of)

lemma length_hex_digits: "n < 16 ^ k \<Longrightarrow> 0 < k \<Longrightarrow> length (hex_digits n) \<le> k"
  by (simp add: hex_digits_def length_digits_of)

lemma unat_hex_digit: "n < 16 \<Longrightarrow> unat (hex_digit n) = (if n < 10 then 48 + n else 87 + n)"
  by (simp add: hex_digit_def unat_of_nat take_bit_nat_def del: of_nat_add)

lemma hex_digit_nonzero [simp]: "n < 16 \<Longrightarrow> hex_digit n \<noteq> 0"
  by (metis unat_hex_digit unsigned_0 add_is_0 zero_neq_numeral)

lemma dec_digits_no_nul [simp]: "no_nul (dec_digits n)"
proof -
  have "word_of_nat (48 + d) \<noteq> (0::u8)" if "d < 10" for d
    using that by (simp add: word_unat_eq_iff unat_of_nat del: of_nat_add)
  then show ?thesis
    by (auto simp: dec_digits_def no_nul_def dest: digits_of_bound [rotated])
qed

lemma unat_byte_bound [simp]: "unat (b :: u8) < 256"
  using unsigned_less [of b] by simp

lemma hex2_no_nul [simp]: "no_nul (hex2 b)"
  by (simp add: hex2_def eq_commute [of 0] less_mult_imp_div_less)

lemma hex_digit_inj: "hex_digit m = hex_digit n \<Longrightarrow> m < 16 \<Longrightarrow> n < 16 \<Longrightarrow> m = n"
  by (drule arg_cong [where f = unat]) (simp add: unat_hex_digit split: if_splits)

lemma hex2_inj: "hex2 a = hex2 b \<Longrightarrow> a = b"
proof -
  assume "hex2 a = hex2 b"
  then have "unat a div 16 = unat b div 16" and "unat a mod 16 = unat b mod 16"
    by (auto simp: hex2_def less_mult_imp_div_less dest!: hex_digit_inj)
  then have "unat a = unat b" by (metis div_mult_mod_eq)
  then show "a = b" by (simp add: word_unat_eq_iff)
qed

end
