(* ===== verification/CelMath.thy ===== *)
theory CelMath
  imports Prelude
begin

text \<open>
  \<open>src/main/cel_math.c\<close>: the primality test and the search for the next prime that sizes
  the hash table.  \<open>int\<close> arithmetic that overflows is undefined (\<^term>\<open>None\<close>): the square
  \<open>j * j\<close> of the trial divisor and the step \<open>n + 2\<close> are checked.  The lemmas show which numbers
  the test accepts (the primes, and the squares of odd primes too) and that the search returns.
\<close>

definition INT_MAX :: int where
  "INT_MAX = 2147483647"

section \<open>The code\<close>

text \<open>The loop \<open>for ( j = 3; j * j < n; j++ )\<close> of \<open>cel_is_prime\<close>.\<close>

function is_prime_loop :: "int \<Rightarrow> int \<Rightarrow> int option" where
  "is_prime_loop n j =
     (if j * j > INT_MAX then None
      else if j * j < n then (if n mod j = 0 then Some 0 else is_prime_loop n (j + 1))
      else Some 1)"
  by pat_completeness auto

termination
proof (relation "measure (\<lambda>(n, j). nat (46341 - j))")
  fix n j :: int
  assume le: "\<not> j * j > INT_MAX" and "j * j < n" and "n mod j \<noteq> 0"
  have "j \<le> 46340"
  proof (rule ccontr)
    assume "\<not> j \<le> 46340"
    then have "46341 * 46341 \<le> j * j" by (intro mult_mono) auto
    with le show False by (simp add: INT_MAX_def)
  qed
  then show "((n, j + 1), n, j) \<in> measure (\<lambda>(n, j). nat (46341 - j))" by simp
qed simp

declare is_prime_loop.simps [simp del]

definition cel_is_prime :: "int \<Rightarrow> int option" where
  "cel_is_prime n =
     (if n = 2 \<or> n = 3 then Some 1
      else if n \<le> 1 \<or> n mod 2 = 0 then Some 0
      else is_prime_loop n 3)"

text \<open>The loop \<open>for ( ; ! cel_is_prime( n ); n = n + 2 )\<close>.\<close>

function next_prime_loop :: "int \<Rightarrow> int option" where
  "next_prime_loop n =
     (case cel_is_prime n of None \<Rightarrow> None
      | Some r \<Rightarrow>
          if r \<noteq> 0 then Some n
          else if n + 2 > INT_MAX then None
          else next_prime_loop (n + 2))"
  by pat_completeness auto

termination
  by (relation "measure (\<lambda>n. nat (INT_MAX - n))") auto

declare next_prime_loop.simps [simp del]

definition cel_next_prime :: "int \<Rightarrow> int option" where
  "cel_next_prime n = next_prime_loop (if n mod 2 = 0 then n + 1 else n)"

section \<open>Which numbers are accepted\<close>

definition prime_int :: "int \<Rightarrow> bool" where
  "prime_int n \<longleftrightarrow> 1 < n \<and> (\<forall>d. 1 < d \<and> d < n \<longrightarrow> \<not> d dvd n)"

text \<open>No trial divisor from \<open>j\<close> on divides \<open>n\<close>.\<close>

definition no_divisor_from :: "int \<Rightarrow> int \<Rightarrow> bool" where
  "no_divisor_from n j \<longleftrightarrow> (\<forall>k. j \<le> k \<and> k * k < n \<longrightarrow> \<not> k dvd n)"

lemma no_divisor_step:
  assumes "0 < j" "j * j < n"
  shows "no_divisor_from n j \<longleftrightarrow> \<not> j dvd n \<and> no_divisor_from n (j + 1)"
proof -
  have "j \<le> k \<longleftrightarrow> k = j \<or> j + 1 \<le> k" for k by auto
  with assms show ?thesis by (auto simp: no_divisor_from_def)
qed

lemma no_divisor_stop: "0 < j \<Longrightarrow> n \<le> j * j \<Longrightarrow> no_divisor_from n j"
proof -
  assume "0 < j" "n \<le> j * j"
  then have "n \<le> k * k" if "j \<le> k" for k
    using that mult_mono [of j k j k] by linarith
  then show ?thesis by (auto simp: no_divisor_from_def dest: leD)
qed

lemma is_prime_loop_eq:
  assumes "0 < j" "j \<le> 46340" "(j - 1) * (j - 1) < n" "n \<le> 2147395600"
  shows "is_prime_loop n j = Some (if no_divisor_from n j then 1 else 0)"
  using assms
proof (induction n j rule: is_prime_loop.induct)
  case (1 n j)
  have "j * j \<le> 46340 * 46340" using "1.prems" by (intro mult_mono) auto
  then have no_ovf: "\<not> j * j > INT_MAX" by (simp add: INT_MAX_def)
  show ?case
  proof (cases "j * j < n")
    case False
    with no_ovf "1.prems" show ?thesis by (simp add: is_prime_loop.simps no_divisor_stop)
  next
    case lt: True
    have "j < 46340"
    proof (rule ccontr)
      assume "\<not> j < 46340"
      with "1.prems"(2) have "j = 46340" by simp
      with lt "1.prems"(4) show False by simp
    qed
    then have "n mod j \<noteq> 0 \<Longrightarrow>
        is_prime_loop n (j + 1) = Some (if no_divisor_from n (j + 1) then 1 else 0)"
      using "1.IH" no_ovf lt "1.prems" by simp
    with no_ovf lt "1.prems"(1) show ?thesis
      by (subst is_prime_loop.simps) (simp add: no_divisor_step dvd_eq_mod_eq_0)
  qed
qed

lemma prime_square_divisor:
  assumes p: "prime_int p" and k: "1 < k" "k < p"
  shows "\<not> k dvd p * p"
proof
  assume dvd: "k dvd p * p"
  have g: "gcd k p dvd p" "gcd k p \<le> k" "0 < gcd k p"
    using k by (auto intro: zdvd_imp_le)
  have "gcd k p = 1"
  proof (rule ccontr)
    assume "gcd k p \<noteq> 1"
    with g k have "1 < gcd k p" "gcd k p < p" by linarith+
    with p g(1) show False by (auto simp: prime_int_def)
  qed
  then have "coprime k p" by (simp add: coprime_iff_gcd_eq_1)
  with dvd have "k dvd p" by (simp add: coprime_dvd_mult_left_iff)
  with p k show False by (auto simp: prime_int_def)
qed

lemma accepted_prime: "prime_int n \<Longrightarrow> no_divisor_from n 3"
proof (unfold no_divisor_from_def, intro allI impI)
  fix k assume n: "prime_int n" and k: "3 \<le> k \<and> k * k < n"
  then have "k < n" using mult_left_mono [of 1 k k] by linarith
  with n k show "\<not> k dvd n" by (auto simp: prime_int_def)
qed

lemma accepted_square: "prime_int p \<Longrightarrow> no_divisor_from (p * p) 3"
proof (unfold no_divisor_from_def, intro allI impI)
  fix k assume p: "prime_int p" and k: "3 \<le> k \<and> k * k < p * p"
  then have "k < p"
    using mult_mono [of p k p k] by (force simp: prime_int_def)
  with p k show "\<not> k dvd p * p" by (intro prime_square_divisor) auto
qed

lemma odd_divisor_ge_3: "d dvd n \<Longrightarrow> odd n \<Longrightarrow> 1 < d \<Longrightarrow> 3 \<le> (d :: int)"
  by (cases "d = 2") auto

lemma accepted_only:
  assumes n: "1 < n" "odd n" and nd: "no_divisor_from n 3"
  shows "prime_int n \<or> (\<exists>p. prime_int p \<and> n = p * p)"
proof (cases "prime_int n")
  case False
  then obtain d where d: "1 < d" "d < n" "d dvd n"
    using n by (auto simp: prime_int_def)
  then obtain e where e: "n = d * e" by auto
  have big: "n \<le> c * c" if "c dvd n" "1 < c" for c
    using nd odd_divisor_ge_3 [OF that(1) n(2) that(2)] that
    by (auto simp: no_divisor_from_def not_less [symmetric])
  from d e have "1 < e"
    by (metis mult_cancel_left1 mult_le_cancel_left1 not_less order_less_le zero_less_mult_pos less_trans zero_less_one)
  with e have "e dvd n" by simp
  from big [OF d(3) d(1)] e d(1) have "e \<le> d" by simp
  moreover from big [OF \<open>e dvd n\<close> \<open>1 < e\<close>] e \<open>1 < e\<close> have "d \<le> e" by simp
  ultimately have sq: "n = d * d" using e by simp
  have "prime_int d"
  proof (rule ccontr)
    assume "\<not> prime_int d"
    then obtain c where c: "1 < c" "c < d" "c dvd d"
      using d(1) by (auto simp: prime_int_def)
    then have "c dvd n" using sq by simp
    then have "n \<le> c * c" using big c by simp
    moreover have "c * c < d * d" using c by (intro mult_strict_mono) auto
    ultimately show False using sq by simp
  qed
  with sq show ?thesis by auto
qed simp

definition accepted :: "int \<Rightarrow> bool" where
  "accepted n \<longleftrightarrow> prime_int n \<or> (\<exists>p. prime_int p \<and> odd p \<and> n = p * p)"

lemma odd_prime_int: "prime_int n \<Longrightarrow> n \<noteq> 2 \<Longrightarrow> odd n"
  by (cases "n < 3") (auto simp: prime_int_def)

lemma prime_int_2: "prime_int 2" and prime_int_3: "prime_int 3"
proof -
  show "prime_int 2" by (auto simp: prime_int_def)
  have "\<not> d dvd 3" if "1 < d" "d < 3" for d :: int
  proof -
    from that have "d = 2" by simp
    then show ?thesis by simp
  qed
  then show "prime_int 3" by (auto simp: prime_int_def)
qed

lemma accepted_cases: "accepted n \<Longrightarrow> n = 2 \<or> n = 3 \<or> 4 < n \<and> odd n"
proof -
  assume "accepted n"
  then consider "prime_int n" | p where "prime_int p" "odd p" "n = p * p"
    by (auto simp: accepted_def)
  then show ?thesis
  proof cases
    case 1
    then have "1 < n" "n = 2 \<or> odd n"
      using odd_prime_int [of n] by (auto simp: prime_int_def)
    then show ?thesis by presburger
  next
    case 2
    then have "1 < p" by (simp add: prime_int_def)
    with \<open>odd p\<close> have "3 \<le> p" by presburger
    then have "3 * 3 \<le> p * p" by (intro mult_mono) auto
    with 2 show ?thesis by simp
  qed
qed

text \<open>The primality test accepts exactly the primes and the squares of odd primes, and
  for no \<open>int\<close> up to \<open>46340\<^sup>2\<close> does it overflow.\<close>

theorem cel_is_prime_accepts:
  assumes "n \<le> 2147395600"
  shows "cel_is_prime n = Some (if accepted n then 1 else 0)"
proof (cases "n \<le> 3 \<or> even n")
  case True
  moreover have "accepted 2" "accepted 3"
    using prime_int_2 prime_int_3 by (simp_all add: accepted_def)
  ultimately have "accepted n \<longleftrightarrow> n = 2 \<or> n = 3"
    using accepted_cases [of n] by auto
  with True show ?thesis
    by (auto simp: cel_is_prime_def dvd_eq_mod_eq_0 [symmetric])
next
  case False
  then have n: "3 < n" "odd n" "4 < n" by presburger+
  then have "is_prime_loop n 3 = Some (if no_divisor_from n 3 then 1 else 0)"
    using assms by (intro is_prime_loop_eq) auto
  moreover have "no_divisor_from n 3 \<longleftrightarrow> accepted n"
    unfolding accepted_def
    using accepted_only [of n] accepted_prime [of n] accepted_square n(1,2) by fastforce
  ultimately show ?thesis
    using n by (auto simp: cel_is_prime_def dvd_eq_mod_eq_0)
qed

theorem cel_is_prime_accepts_witness: "cel_is_prime 25 = Some (if accepted 25 then 1 else 0)"
  by (rule cel_is_prime_accepts) simp

section \<open>The search returns\<close>

text \<open>
  A number the search cannot pass: the square of the prime 46337, the largest prime whose square
  is reached without overflow.
\<close>

lemma prime_46337: "prime_int 46337"
proof -
  have "is_prime_loop 46337 3 = Some 1" by code_simp
  then have "no_divisor_from 46337 3"
    using is_prime_loop_eq [of 3 46337] by (simp split: if_splits)
  then consider "prime_int 46337" | p where "prime_int p" "46337 = p * p"
    using accepted_only [of 46337] by auto
  then show ?thesis
  proof cases
    case 2
    then have "0 < p" by (simp add: prime_int_def)
    have "\<not> p \<le> 215" using 2 mult_mono [of p 215 p 215] \<open>0 < p\<close> by auto
    moreover have "\<not> 216 \<le> p" using 2 mult_mono [of 216 p 216 p] by auto
    ultimately show ?thesis by simp
  qed
qed

definition search_limit :: int where
  "search_limit = 2147117569"

lemma accepted_search_limit: "accepted search_limit" "odd search_limit"
proof -
  have "search_limit = 46337 * 46337" by (simp add: search_limit_def)
  then show "accepted search_limit"
    using prime_46337 unfolding accepted_def by (intro disjI2 exI [of _ 46337]) simp
  show "odd search_limit" by (simp add: search_limit_def)
qed

lemma cel_is_prime_limit:
  "n \<le> search_limit \<Longrightarrow> cel_is_prime n = Some (if accepted n then 1 else 0)"
  by (rule cel_is_prime_accepts) (simp add: search_limit_def)

lemma next_prime_loop_least:
  assumes "odd n" "n \<le> search_limit"
  shows "\<exists>m. next_prime_loop n = Some m \<and> n \<le> m \<and> m \<le> search_limit \<and> odd m \<and> accepted m
           \<and> (\<forall>k. n \<le> k \<and> k < m \<and> odd k \<longrightarrow> \<not> accepted k)"
  using assms
proof (induction n rule: next_prime_loop.induct)
  case (1 n)
  show ?case
  proof (cases "accepted n")
    case True
    with "1.prems" show ?thesis
      by (intro exI [of _ n]) (auto simp: next_prime_loop.simps cel_is_prime_limit)
  next
    case False
    with "1.prems" accepted_search_limit have "n < search_limit"
      by (cases "n = search_limit") auto
    with "1.prems"(1) accepted_search_limit(2) have le: "n + 2 \<le> search_limit" by presburger
    then have ovf: "\<not> n + 2 > INT_MAX" by (simp add: search_limit_def INT_MAX_def)
    obtain m where m: "next_prime_loop (n + 2) = Some m" "n + 2 \<le> m" "m \<le> search_limit"
        "odd m" "accepted m" "\<forall>k. n + 2 \<le> k \<and> k < m \<and> odd k \<longrightarrow> \<not> accepted k"
      using "1.IH" [OF cel_is_prime_limit] False ovf "1.prems" le by auto
    have "\<not> accepted k" if "n \<le> k" "k < m" "odd k" for k
    proof (cases "k = n")
      case False
      with that(1,3) "1.prems"(1) have "n + 2 \<le> k" by presburger
      with m(6) that show ?thesis by auto
    qed (use \<open>\<not> accepted n\<close> in simp)
    with m False ovf "1.prems" show ?thesis
      by (intro exI [of _ m]) (simp add: next_prime_loop.simps [of n] cel_is_prime_limit)
  qed
qed

text \<open>\<open>cel_next_prime\<close> returns, without overflow, the least odd number not below its argument
  that the primality test accepts, for every argument up to 2147117569.\<close>

theorem cel_next_prime_least:
  assumes "n \<le> 2147117569"
  shows "\<exists>m. cel_next_prime n = Some m \<and> n \<le> m \<and> m \<le> 2147117569 \<and> odd m \<and> accepted m
           \<and> (\<forall>k. n \<le> k \<and> k < m \<and> odd k \<longrightarrow> \<not> accepted k)"
proof -
  let ?n = "if n mod 2 = 0 then n + 1 else n"
  have "odd ?n" "?n \<le> search_limit"
    using assms by (auto simp: search_limit_def)
  from next_prime_loop_least [OF this] obtain m where m: "next_prime_loop ?n = Some m"
      "?n \<le> m" "m \<le> search_limit" "odd m" "accepted m"
      "\<forall>k. ?n \<le> k \<and> k < m \<and> odd k \<longrightarrow> \<not> accepted k" by blast
  have "\<not> accepted k" if "n \<le> k" "k < m" "odd k" for k
  proof -
    from that have "?n \<le> k" by (cases "n = k") (auto simp: dvd_eq_mod_eq_0)
    with m(6) that show ?thesis by blast
  qed
  with m show ?thesis
    by (intro exI [of _ m]) (auto simp: cel_next_prime_def search_limit_def split: if_splits)
qed

theorem cel_next_prime_least_witness:
  "\<exists>m. cel_next_prime 8 = Some m \<and> 8 \<le> m \<and> m \<le> 2147117569 \<and> odd m \<and> accepted m
       \<and> (\<forall>k. 8 \<le> k \<and> k < m \<and> odd k \<longrightarrow> \<not> accepted k)"
  by (rule cel_next_prime_least) simp

lemma cel_next_prime_positive:
  assumes "0 \<le> n" "n \<le> 2147117569"
  shows "\<exists>m. cel_next_prime n = Some m \<and> n \<le> m \<and> 0 < m \<and> m \<le> 2147117569"
proof -
  let ?n = "if n mod 2 = 0 then n + 1 else n"
  have "odd ?n" "?n \<le> search_limit" "n \<le> ?n"
    using assms by (auto simp: search_limit_def)
  with next_prime_loop_least [of ?n] assms show ?thesis
    by (auto simp: cel_next_prime_def search_limit_def intro!: exI dest: accepted_cases)
qed

end
