(* ===== verification/CelHash.thy ===== *)
theory CelHash
  imports Prelude
begin

text \<open>
  \<open>src/main/cel_hash.c\<close>: the string hash functions.  A string is its bytes before the NUL; the
  code adds a \<open>char\<close>, so each byte is sign-extended to 32 bits first (\<open>schar\<close>), and all
  arithmetic is that of \<open>uint32_t\<close>.  The loop \<open>while ( *str != '\0' )\<close> is a fold over the
  bytes.  The lemmas give the range of the hashes and the polynomial behind the multiplicative
  ones.
\<close>

text \<open>A \<open>char\<close> in an \<open>uint32_t\<close> expression, and the final \<open>h & 0x7FFFFFFF\<close>.\<close>

definition schar :: "u8 \<Rightarrow> u32" where
  "schar b = scast b"

definition mask31 :: "u32 \<Rightarrow> u32" where
  "mask31 h = h AND 0x7FFFFFFF"

section \<open>One accumulator\<close>

definition cel_bkdr_hash :: "bytes \<Rightarrow> u32" where
  "cel_bkdr_hash s = mask31 (fold (\<lambda>c h. h * 131 + schar c) s 0)"

definition cel_fnv_hash :: "bytes \<Rightarrow> u32" where
  "cel_fnv_hash s = mask31 (fold (\<lambda>c h. (h * 16777619) XOR schar c) s 2166136261)"

definition cel_fnv1a_hash :: "bytes \<Rightarrow> u32" where
  "cel_fnv1a_hash s = mask31 (fold (\<lambda>c h. (h XOR schar c) * 16777619) s 2166136261)"

definition cel_djp_hash :: "bytes \<Rightarrow> u32" where
  "cel_djp_hash s = mask31 (fold (\<lambda>c h. h + (push_bit 5 h + schar c)) s 5381)"

definition cel_djp2_hash :: "bytes \<Rightarrow> u32" where
  "cel_djp2_hash s = mask31 (fold (\<lambda>c h. (h * 33) XOR schar c) s 5381)"

definition cel_js_hash :: "bytes \<Rightarrow> u32" where
  "cel_js_hash s = mask31 (fold (\<lambda>c h. h XOR (push_bit 5 h + schar c + push_bit 2 h)) s 0)"

definition cel_sdms_hash :: "bytes \<Rightarrow> u32" where
  "cel_sdms_hash s = mask31 (fold (\<lambda>c h. 65599 * h + schar c) s 0)"

definition cel_dek_hash :: "bytes \<Rightarrow> u32" where
  "cel_dek_hash s = mask31 (fold (\<lambda>c h. push_bit 5 h XOR drop_bit 27 h XOR schar c) s 0)"

section \<open>An index, a growing factor or a carry beside it\<close>

definition cel_ap_hash :: "bytes \<Rightarrow> u32" where
  "cel_ap_hash s = mask31 (snd (fold
     (\<lambda>c (i, h).
        if i AND 1 = (0 :: u32)
        then (i + 1, h XOR (push_bit 7 h XOR schar c XOR push_bit 3 h))
        else (i + 1, h XOR NOT (push_bit 11 h XOR schar c XOR push_bit 5 h))) s (0, 0)))"

definition cel_rs_hash :: "bytes \<Rightarrow> u32" where
  "cel_rs_hash s = mask31 (fst (fold
     (\<lambda>c (h, magic). (h * magic + schar c, magic * 378551)) s (0, 63689 :: u32)))"

definition cel_elf_hash :: "bytes \<Rightarrow> u32" where
  "cel_elf_hash s = mask31 (fold
     (\<lambda>c h.
        let h = push_bit 24 h + schar c; x = h AND 0xF0000000
        in if x \<noteq> 0 then (let h = h XOR drop_bit 24 h in h AND NOT x) else h) s 0)"

section \<open>Bob Jenkins' hash\<close>

definition cel_bj_mix :: "u32 \<Rightarrow> u32 \<Rightarrow> u32 \<Rightarrow> u32 \<times> u32 \<times> u32" where
  "cel_bj_mix a b c =
    (let a = a - b; a = a - c; a = a XOR drop_bit 13 c;
         b = b - c; b = b - a; b = b XOR push_bit 8 a;
         c = c - a; c = c - b; c = c XOR drop_bit 13 b;
         a = a - b; a = a - c; a = a XOR drop_bit 12 c;
         b = b - c; b = b - a; b = b XOR push_bit 16 a;
         c = c - a; c = c - b; c = c XOR drop_bit 5 b;
         a = a - b; a = a - c; a = a XOR drop_bit 3 c;
         b = b - c; b = b - a; b = b XOR push_bit 10 a;
         c = c - a; c = c - b; c = c XOR drop_bit 15 b
     in (a, b, c))"

text \<open>
  \<open>get32bits(k)\<close>: four bytes read as a little-endian number, undefined past the end of the key.
\<close>

definition get32bits :: "bytes \<Rightarrow> nat \<Rightarrow> u32 option" where
  "get32bits k i = do {
     b0 \<leftarrow> rd k i; b1 \<leftarrow> rd k (i + 1); b2 \<leftarrow> rd k (i + 2); b3 \<leftarrow> rd k (i + 3);
     Some (le32 b0 b1 b2 b3) }"

text \<open>The loop \<open>while ( len >= 12 )\<close>; \<open>k\<close> is the key from the current position on.\<close>

fun bj_loop :: "bytes \<Rightarrow> nat \<Rightarrow> u32 \<Rightarrow> u32 \<Rightarrow> u32 \<Rightarrow> (bytes \<times> nat \<times> u32 \<times> u32 \<times> u32) option" where
  "bj_loop k len a b c =
     (if 12 \<le> len then
        (case (get32bits k 0, get32bits k 4, get32bits k 8) of
           (Some x, Some y, Some z) \<Rightarrow>
             (let (a, b, c) = cel_bj_mix (a + x) (b + y) (c + z)
              in bj_loop (drop 12 k) (len - 12) a b c)
         | _ \<Rightarrow> None)
      else Some (k, len, a, b, c))"

declare bj_loop.simps [simp del]

text \<open>A \<open>case n: acc += (uint32_t) k[i] << sh\<close> of the switch: executed for every \<open>len \<ge> n\<close>,
  because each case falls through to the next.\<close>

definition bj_tail :: "bytes \<Rightarrow> nat \<Rightarrow> nat \<Rightarrow> nat \<Rightarrow> u32 \<Rightarrow> u32 option" where
  "bj_tail k len n sh acc =
     (if n \<le> len then do { x \<leftarrow> rd k (n - 1); Some (acc + push_bit sh (ucast x)) } else Some acc)"

definition cel_bobJenkins_hash32 :: "bytes \<Rightarrow> nat \<Rightarrow> u32 \<Rightarrow> u32 option" where
  "cel_bobJenkins_hash32 str n initval = do {
     (k, len, a, b, c) \<leftarrow> bj_loop str n 0x9e3779b9 0x9e3779b9 initval;
     let c = c + word_of_nat n;
     c \<leftarrow> bj_tail k len 11 24 c;
     c \<leftarrow> bj_tail k len 10 16 c;
     c \<leftarrow> bj_tail k len 9 8 c;
     b \<leftarrow> bj_tail k len 8 24 b;
     b \<leftarrow> bj_tail k len 7 16 b;
     b \<leftarrow> bj_tail k len 6 8 b;
     b \<leftarrow> bj_tail k len 5 0 b;
     a \<leftarrow> bj_tail k len 4 24 a;
     a \<leftarrow> bj_tail k len 3 16 a;
     a \<leftarrow> bj_tail k len 2 8 a;
     a \<leftarrow> bj_tail k len 1 0 a;
     let (a, b, c) = cel_bj_mix a b c;
     Some c }"

definition cel_bobJenkins32_hash :: "bytes \<Rightarrow> u32 option" where
  "cel_bobJenkins32_hash str = cel_bobJenkins_hash32 str (length str) 0"

section \<open>Murmur hash\<close>

definition murmur_m :: u32 where
  "murmur_m = 0x5bd1e995"

fun murmur_loop :: "bytes \<Rightarrow> nat \<Rightarrow> u32 \<Rightarrow> (bytes \<times> nat \<times> u32) option" where
  "murmur_loop data len h =
     (if 4 \<le> len then
        (case get32bits data 0 of None \<Rightarrow> None
         | Some k \<Rightarrow>
             (let k = k * murmur_m; k = k XOR drop_bit 24 k; k = k * murmur_m;
                  h = h * murmur_m; h = h XOR k
              in murmur_loop (drop 4 data) (len - 4) h))
      else Some (data, len, h))"

declare murmur_loop.simps [simp del]

text \<open>The switch on the last bytes: here every case ends with \<open>break\<close>.\<close>

definition cel_murmur_hash32 :: "bytes \<Rightarrow> nat \<Rightarrow> u32 \<Rightarrow> u32 option" where
  "cel_murmur_hash32 str n seed = do {
     (data, len, h) \<leftarrow> murmur_loop str n (seed AND word_of_nat n);
     h \<leftarrow> (if len = 3 then do { x \<leftarrow> rd data 2; Some (h XOR push_bit 16 (ucast x)) }
           else if len = 2 then do { x \<leftarrow> rd data 1; Some (h XOR push_bit 8 (ucast x)) }
           else if len = 1 then do { x \<leftarrow> rd data 0; Some ((h XOR ucast x) * murmur_m) }
           else Some h);
     let h = h XOR drop_bit 13 h;
     let h = h * murmur_m;
     let h = h XOR drop_bit 15 h;
     Some (mask31 h) }"

section \<open>Range of the hashes\<close>

lemma mask31_mask: "mask31 h = take_bit 31 h"
proof -
  have "(0x7FFFFFFF :: u32) = mask 31" by (simp add: mask_eq_exp_minus_1)
  then show ?thesis by (simp add: mask31_def take_bit_eq_mask)
qed

lemma unat_mask31: "unat (mask31 h) = unat h mod 2 ^ 31"
  unfolding mask31_mask unsigned_take_bit_eq by (simp add: take_bit_eq_mod)

lemma mask31_bound: "unat (mask31 h) < 2 ^ 31"
  by (simp add: unat_mask31)

lemmas mask31_less = mask31_bound [simplified]

text \<open>The string hashes that end with the 31-bit mask.\<close>

definition masked_hashes :: "(bytes \<Rightarrow> u32) list" where
  "masked_hashes = [cel_bkdr_hash, cel_fnv_hash, cel_fnv1a_hash, cel_ap_hash, cel_djp_hash,
     cel_djp2_hash, cel_js_hash, cel_sdms_hash, cel_rs_hash, cel_dek_hash, cel_elf_hash]"

lemmas masked_hash_defs =
  cel_bkdr_hash_def cel_fnv_hash_def cel_fnv1a_hash_def cel_ap_hash_def cel_djp_hash_def
  cel_djp2_hash_def cel_js_hash_def cel_sdms_hash_def cel_rs_hash_def cel_dek_hash_def
  cel_elf_hash_def

section \<open>The multiplicative hashes are polynomials\<close>

text \<open>The value of a string as the digits of a number in base \<open>k\<close>, after the digit \<open>h\<close>.\<close>

definition poly :: "u32 \<Rightarrow> u32 \<Rightarrow> bytes \<Rightarrow> u32" where
  "poly k h s = h * k ^ length s + (\<Sum>i<length s. schar (s ! i) * k ^ (length s - 1 - i))"

lemma poly_snoc: "poly k h (s @ [c]) = poly k h s * k + schar c"
proof -
  have "k ^ (length s - i) = k ^ (length s - 1 - i) * k" if "i < length s" for i
    using that by (metis Suc_diff_1 Suc_diff_Suc diff_Suc_eq_diff_pred power_Suc2)
  then have "(\<Sum>i<length s. schar ((s @ [c]) ! i) * k ^ (length s - i))
      = (\<Sum>i<length s. schar (s ! i) * k ^ (length s - 1 - i)) * k"
    by (simp add: sum_distrib_right nth_append mult.assoc)
  then show ?thesis by (simp add: poly_def algebra_simps)
qed

lemma fold_poly: "fold (\<lambda>c h. h * k + schar c) s h = poly k h s"
  by (induction s rule: rev_induct) (simp add: poly_def, simp only: poly_snoc fold_append o_apply fold.simps id_apply)

lemma poly_append: "poly k h (s @ t) = poly k (poly k h s) t"
  by (simp flip: fold_poly)

text \<open>The three multiplicative hashes compute one and the same polynomial of the bytes, with
  the factors 131, 33 and 65599, reduced to 31 bits.\<close>

theorem multiplicative_hashes:
  "cel_bkdr_hash s = mask31 (poly 131 0 s) \<and> cel_djp_hash s = mask31 (poly 33 5381 s)
   \<and> cel_sdms_hash s = mask31 (poly 65599 0 s)"
proof (intro conjI)
  show "cel_bkdr_hash s = mask31 (poly 131 0 s)"
    by (simp add: cel_bkdr_hash_def fold_poly)
  have "(\<lambda>c h. h + (push_bit 5 h + schar c)) = (\<lambda>c h. h * 33 + schar c)"
    by (simp add: fun_eq_iff push_bit_eq_mult algebra_simps)
  then show "cel_djp_hash s = mask31 (poly 33 5381 s)"
    by (simp add: cel_djp_hash_def fold_poly)
  show "cel_sdms_hash s = mask31 (poly 65599 0 s)"
    by (simp add: cel_sdms_hash_def fold_poly mult.commute [of 65599])
qed

section \<open>The block hashes stay inside the key\<close>

lemma get32bits_Some: "i + 3 < length k \<Longrightarrow> \<exists>x. get32bits k i = Some x"
  by (simp add: get32bits_def cmem)

lemma bj_loop_defined:
  "len \<le> length k \<Longrightarrow>
   \<exists>k' len' a' b' c'. bj_loop k len a b c = Some (k', len', a', b', c')
     \<and> len' \<le> length k' \<and> len' < 12"
proof (induction k len a b c rule: bj_loop.induct)
  case (1 k len a b c)
  show ?case
  proof (cases "12 \<le> len")
    case True
    then have "12 \<le> length k" using "1.prems" by simp
    then obtain x y z where
      get: "get32bits k 0 = Some x" "get32bits k 4 = Some y" "get32bits k 8 = Some z"
      using get32bits_Some [of 0 k] get32bits_Some [of 4 k] get32bits_Some [of 8 k] by fastforce
    obtain a' b' c' where mix: "cel_bj_mix (a + x) (b + y) (c + z) = (a', b', c')"
      by (cases "cel_bj_mix (a + x) (b + y) (c + z)") auto
    have "len - 12 \<le> length (drop 12 k)" using "1.prems" by simp
    with "1.IH" [OF True _ _ _ _ _ refl mix [symmetric] refl] get
    have "\<exists>k' len' a'' b'' c''. bj_loop (drop 12 k) (len - 12) a' b' c' = Some (k', len', a'', b'', c'')
       \<and> len' \<le> length k' \<and> len' < 12" by blast
    with True get mix show ?thesis by (subst bj_loop.simps) simp
  next
    case False
    with "1.prems" show ?thesis by (subst bj_loop.simps) simp
  qed
qed

lemma bj_tail_eq:
  "len \<le> length k \<Longrightarrow> 0 < n \<Longrightarrow>
   bj_tail k len n sh acc = Some (if n \<le> len then acc + push_bit sh (ucast (k ! (n - 1))) else acc)"
  by (simp add: bj_tail_def cmem)

lemma bobJenkins_defined:
  "n \<le> length str \<Longrightarrow> \<exists>h. cel_bobJenkins_hash32 str n initval = Some h"
proof -
  assume len: "n \<le> length str"
  from bj_loop_defined [OF this] obtain k l a b c where
    loop: "bj_loop str n 0x9e3779b9 0x9e3779b9 initval = Some (k, l, a, b, c)"
    and l: "l \<le> length k" by blast
  show ?thesis
    by (simp add: cel_bobJenkins_hash32_def loop bj_tail_eq [OF l] Let_def split_beta)
qed

lemma murmur_loop_defined:
  "len \<le> length d \<Longrightarrow>
   \<exists>d' len' h'. murmur_loop d len h = Some (d', len', h') \<and> len' \<le> length d' \<and> len' < 4"
proof (induction d len h rule: murmur_loop.induct)
  case (1 d len h)
  show ?case
  proof (cases "4 \<le> len")
    case True
    with "1.prems" obtain x where get: "get32bits d 0 = Some x"
      using get32bits_Some [of 0 d] by auto
    have "len - 4 \<le> length (drop 4 d)" using "1.prems" by simp
    with "1.IH" [OF True get refl refl refl refl refl] True get show ?thesis
      by (subst murmur_loop.simps) (simp add: Let_def)
  next
    case False
    with "1.prems" show ?thesis by (subst murmur_loop.simps) simp
  qed
qed

lemma murmur_defined:
  assumes "n \<le> length str"
  shows "\<exists>h. cel_murmur_hash32 str n seed = Some h \<and> unat h < 2 ^ 31"
proof -
  from murmur_loop_defined [OF assms] obtain d l h where
    loop: "murmur_loop str n (seed AND word_of_nat n) = Some (d, l, h)"
    and l: "l \<le> length d" "l < 4" by blast
  from l(2) have "l = 0 \<or> l = 1 \<or> l = 2 \<or> l = 3" by auto
  with l(1) show ?thesis
    by (auto simp: cel_murmur_hash32_def loop cmem mask31_less Let_def Suc_le_eq)
qed

text \<open>Every hash of a string is defined (the two block hashes read no byte outside the key)
  and, but for Bob Jenkins', is a non-negative \<open>int\<close>.\<close>

theorem hashes_in_range:
  "(\<forall>h \<in> set masked_hashes. unat (h s) < 2 ^ 31)
   \<and> (\<exists>h. cel_bobJenkins32_hash s = Some h)
   \<and> (\<exists>h. cel_murmur_hash32 s (length s) seed = Some h \<and> unat h < 2 ^ 31)"
proof (intro conjI)
  show "\<forall>h \<in> set masked_hashes. unat (h s) < 2 ^ 31"
    by (simp add: masked_hashes_def masked_hash_defs mask31_bound del: power_numeral)
  show "\<exists>h. cel_bobJenkins32_hash s = Some h"
    by (simp add: cel_bobJenkins32_hash_def bobJenkins_defined)
  show "\<exists>h. cel_murmur_hash32 s (length s) seed = Some h \<and> unat h < 2 ^ 31"
    by (rule murmur_defined) simp
qed

text \<open>The bounded quantifier of C4 ranges over a non-empty list of functions.\<close>

theorem hashes_in_range_witness: "unat (cel_bkdr_hash (bytes_of ''sarah'')) < 2 ^ 31"
  using hashes_in_range [of "bytes_of ''sarah''" 0] by (simp add: masked_hashes_def del: power_numeral)

end
