(* ===== verification/CelStrbuff.thy ===== *)
theory CelStrbuff
  imports Prelude
begin

text \<open>
  The string buffer of \<open>src/main/cel_string.c\<close> (\<open>cel_strbuff_t\<close>), the receive buffer of every
  HTTP client of the program and the output buffer of the executor.

  State: the allocated block, its size \<open>opacity\<close> and the number \<open>size\<close> of bytes in use.  A null
  \<open>buffer\<close> is a block without cells.  \<open>unsigned int\<close> sums wrap (\<open>wrap32\<close>); a capacity of
  \<open>2\<^sup>31\<close> or more is a negative \<open>int\<close>, for which \<open>malloc\<close> fails.  The argument \<open>al\<close> says for which
  sizes \<open>malloc\<close> succeeds.

  Shown: every operation keeps the buffer well-formed, that is zero-filled from \<open>size\<close> on and with
  room for the terminating NUL, and acts on the contents as the corresponding list operation.  The
  interface the clients use is the locale \<open>byte_sink\<close>.
\<close>

record strbuff =
  sb_buffer :: bytes
  sb_opacity :: nat
  sb_size :: nat

section \<open>The code\<close>

definition create_buffer :: "(nat \<Rightarrow> bool) \<Rightarrow> nat \<Rightarrow> bytes option" where
  "create_buffer al n = (if n < 2 ^ 31 \<and> al n then Some (replicate n 0) else None)"

definition resize_buffer :: "(nat \<Rightarrow> bool) \<Rightarrow> strbuff \<Rightarrow> nat \<Rightarrow> (strbuff \<times> nat) option" where
  "resize_buffer al sb n =
     (case create_buffer al n of
        None \<Rightarrow> Some (sb, 0)
      | Some str \<Rightarrow> do {
          str \<leftarrow> blit str 0 (sb_buffer sb) (if n > sb_size sb then sb_size sb else n);
          Some (sb\<lparr>sb_opacity := n, sb_buffer := str\<rparr>, 1) })"

text \<open>\<open>new_cel_strbuff_opacity\<close>: null (\<open>Inl ()\<close> here and below) when an allocation fails.\<close>

definition new_cel_strbuff_opacity :: "(nat \<Rightarrow> bool) \<Rightarrow> nat \<Rightarrow> unit + strbuff" where
  "new_cel_strbuff_opacity al n =
     (if \<not> al 16 then Inl ()
      else case create_buffer al n of
        None \<Rightarrow> Inl ()
      | Some buf \<Rightarrow> Inr \<lparr>sb_buffer = buf, sb_opacity = n, sb_size = 0\<rparr>)"

definition new_cel_strbuff_string :: "(nat \<Rightarrow> bool) \<Rightarrow> bytes \<Rightarrow> (unit + strbuff) option" where
  "new_cel_strbuff_string al str =
     (if \<not> al 16 then Some (Inl ())
      else let len = wrap32 (length str); n = wrap32 (len + 8) in
        case create_buffer al n of
          None \<Rightarrow> Some (Inl ())
        | Some buf \<Rightarrow> do {
            buf \<leftarrow> blit buf 0 str len;
            Some (Inr \<lparr>sb_buffer = buf, sb_opacity = n, sb_size = len\<rparr>) })"

definition cel_strbuff_init ::
  "(nat \<Rightarrow> bool) \<Rightarrow> strbuff \<Rightarrow> nat \<Rightarrow> bytes option \<Rightarrow> (strbuff \<times> nat) option" where
  "cel_strbuff_init al sb n str =
     (let len = (case str of None \<Rightarrow> 0 | Some s \<Rightarrow> wrap32 (length s));
          n = wrap32 (n + len)
      in case create_buffer al n of
           None \<Rightarrow> Some (sb\<lparr>sb_buffer := []\<rparr>, 0)
         | Some buf \<Rightarrow> do {
             buf \<leftarrow> (case str of None \<Rightarrow> Some buf | Some s \<Rightarrow> blit buf 0 s len);
             Some (sb\<lparr>sb_buffer := buf, sb_opacity := n, sb_size := len\<rparr>, 1) })"

definition cel_strbuff_destroy :: "strbuff \<Rightarrow> strbuff \<times> nat" where
  "cel_strbuff_destroy sb = (sb\<lparr>sb_buffer := []\<rparr>, 1)"

text \<open>The loop \<open>while ( count-- > 0 )\<close> runs \<open>count\<close> times.\<close>

fun cel_strbuff_append_from ::
  "(nat \<Rightarrow> bool) \<Rightarrow> strbuff \<Rightarrow> bytes \<Rightarrow> nat \<Rightarrow> nat \<Rightarrow> (strbuff \<times> nat) option" where
  "cel_strbuff_append_from al sb src len 0 = Some (sb, 1)"
| "cel_strbuff_append_from al sb src len (Suc count) = do {
     (sb, ok) \<leftarrow> (if wrap32 (sb_size sb + len) \<ge> sb_opacity sb
                   then resize_buffer al sb (wrap32 (wrap32 (sb_size sb + len) * 2 + 1))
                   else Some (sb, 1));
     (if ok = 0 then Some (sb, 0)
      else if len = 1 then do {
        x \<leftarrow> rd src 0;
        buf \<leftarrow> wr (sb_buffer sb) (sb_size sb) x;
        cel_strbuff_append_from al (sb\<lparr>sb_buffer := buf, sb_size := wrap32 (sb_size sb + 1)\<rparr>) src len count }
      else do {
        buf \<leftarrow> blit (sb_buffer sb) (sb_size sb) src len;
        cel_strbuff_append_from al (sb\<lparr>sb_buffer := buf, sb_size := wrap32 (sb_size sb + len)\<rparr>) src len count
      }) }"

fun cel_strbuff_append_char ::
  "(nat \<Rightarrow> bool) \<Rightarrow> strbuff \<Rightarrow> u8 \<Rightarrow> nat \<Rightarrow> (strbuff \<times> nat) option" where
  "cel_strbuff_append_char al sb ch 0 = Some (sb, 1)"
| "cel_strbuff_append_char al sb ch (Suc count) = do {
     (sb, ok) \<leftarrow> (if wrap32 (sb_size sb + 1) \<ge> sb_opacity sb
                   then resize_buffer al sb (wrap32 (sb_opacity sb * 2 + 1))
                   else Some (sb, 1));
     (if ok = 0 then Some (sb, 0)
      else do {
        buf \<leftarrow> wr (sb_buffer sb) (sb_size sb) ch;
        cel_strbuff_append_char al (sb\<lparr>sb_buffer := buf, sb_size := wrap32 (sb_size sb + 1)\<rparr>) ch count }) }"

text \<open>The text after \<open>idx\<close> is moved up by the loop \<open>shift_up\<close> of the prelude.\<close>

fun cel_strbuff_insert_from ::
  "(nat \<Rightarrow> bool) \<Rightarrow> strbuff \<Rightarrow> nat \<Rightarrow> bytes \<Rightarrow> nat \<Rightarrow> nat \<Rightarrow> (strbuff \<times> nat) option" where
  "cel_strbuff_insert_from al sb idx src len 0 = Some (sb, 1)"
| "cel_strbuff_insert_from al sb idx src len (Suc count) =
     (if idx > sb_size sb then Some (sb, 1)
      else do {
        (sb, ok) \<leftarrow> (if wrap32 (sb_size sb + len) \<ge> sb_opacity sb
                      then resize_buffer al sb (wrap32 (wrap32 (sb_size sb + len) * 2 + 1))
                      else Some (sb, 1));
        (if ok = 0 then Some (sb, 0)
         else do {
           buf \<leftarrow> shift_up (sb_buffer sb) len idx (sb_size sb);
           buf \<leftarrow> blit buf idx src len;
           cel_strbuff_insert_from al (sb\<lparr>sb_buffer := buf, sb_size := wrap32 (sb_size sb + len)\<rparr>)
             (wrap32 (idx + len)) src len count }) })"

text \<open>The code of \<open>cel_strbuff_insert_char\<close> stores at \<open>buffer[size]\<close>, whatever \<open>idx\<close> is.\<close>

fun cel_strbuff_insert_char ::
  "(nat \<Rightarrow> bool) \<Rightarrow> strbuff \<Rightarrow> nat \<Rightarrow> u8 \<Rightarrow> nat \<Rightarrow> (strbuff \<times> nat) option" where
  "cel_strbuff_insert_char al sb idx ch 0 = Some (sb, 1)"
| "cel_strbuff_insert_char al sb idx ch (Suc count) =
     (if idx > sb_size sb then Some (sb, 0)
      else do {
        (sb, ok) \<leftarrow> (if wrap32 (sb_size sb + 1) \<ge> sb_opacity sb
                      then resize_buffer al sb (wrap32 (sb_size sb * 2 + 1))
                      else Some (sb, 1));
        (if ok = 0 then Some (sb, 0)
         else do {
           buf \<leftarrow> wr (sb_buffer sb) (sb_size sb) ch;
           cel_strbuff_insert_char al (sb\<lparr>sb_buffer := buf, sb_size := wrap32 (sb_size sb + 1)\<rparr>)
             (wrap32 (idx + 1)) ch count }) })"

text \<open>The text after the removed part is moved down by \<open>shift_down\<close>.\<close>

definition cel_strbuff_remove :: "strbuff \<Rightarrow> nat \<Rightarrow> nat \<Rightarrow> (strbuff \<times> nat) option" where
  "cel_strbuff_remove sb idx len =
     (if idx \<ge> sb_size sb then Some (sb, 0)
      else let len = (if len > sb_size sb - idx then sb_size sb - idx else len) in do {
        buf \<leftarrow> shift_down (sb_buffer sb) len (idx + len) (sb_size sb - (idx + len));
        buf \<leftarrow> fill buf (sb_size sb - len) 0 len;
        Some (sb\<lparr>sb_buffer := buf, sb_size := sb_size sb - len\<rparr>, 1) })"

definition cel_strbuff_clear :: "strbuff \<Rightarrow> (strbuff \<times> nat) option" where
  "cel_strbuff_clear sb = do {
     buf \<leftarrow> fill (sb_buffer sb) 0 0 (sb_size sb);
     Some (sb\<lparr>sb_buffer := buf, sb_size := 0\<rparr>, 1) }"

section \<open>Contents and well-formedness\<close>

definition content :: "strbuff \<Rightarrow> bytes" where
  "content sb = take (sb_size sb) (sb_buffer sb)"

definition sb_wf :: "strbuff \<Rightarrow> bool" where
  "sb_wf sb \<longleftrightarrow> length (sb_buffer sb) = sb_opacity sb \<and> sb_size sb < sb_opacity sb \<and> sb_opacity sb < 2 ^ 31
     \<and> drop (sb_size sb) (sb_buffer sb) = replicate (sb_opacity sb - sb_size sb) 0"

lemma sb_wf_buffer: "sb_wf sb \<Longrightarrow> sb_buffer sb = content sb @ replicate (sb_opacity sb - sb_size sb) 0"
  unfolding sb_wf_def content_def by (metis append_take_drop_id)

lemma length_content: "sb_wf sb \<Longrightarrow> length (content sb) = sb_size sb"
  by (simp add: sb_wf_def content_def)

text \<open>A buffer is well-formed when it is its contents followed by at least one zero.\<close>

lemma sb_wfI:
  "sb_buffer sb = xs @ replicate k 0 \<Longrightarrow> sb_size sb = length xs \<Longrightarrow> sb_opacity sb = length xs + k \<Longrightarrow> 0 < k
   \<Longrightarrow> sb_opacity sb < 2 ^ 31 \<Longrightarrow> sb_wf sb \<and> content sb = xs"
  by (simp add: sb_wf_def content_def)

lemma sb_wf_cstr:
  assumes "sb_wf sb"
  shows "0 \<in> set (sb_buffer sb)" "cstr (sb_buffer sb) = cstr (content sb)"
proof -
  from assms have pos: "0 < sb_opacity sb - sb_size sb" by (simp add: sb_wf_def)
  then obtain k where k: "sb_opacity sb - sb_size sb = Suc k" by (cases "sb_opacity sb - sb_size sb") auto
  then have buf: "sb_buffer sb = content sb @ 0 # replicate k 0"
    using sb_wf_buffer [OF assms] by simp
  then show "0 \<in> set (sb_buffer sb)" by simp
  show "cstr (sb_buffer sb) = cstr (content sb)"
  proof (cases "no_nul (content sb)")
    case True
    then show ?thesis by (simp add: buf)
  next
    case False
    then show ?thesis by (simp add: buf cstr_def no_nul_def takeWhile_append1 [of 0])
  qed
qed

section \<open>Room, then the bytes\<close>

lemma resize_buffer_wf:
  assumes "sb_wf sb" "sb_size sb < n"
  shows "resize_buffer al sb n =
    (if n < 2 ^ 31 \<and> al n
     then Some (sb\<lparr>sb_opacity := n, sb_buffer := content sb @ replicate (n - sb_size sb) 0\<rparr>, 1)
     else Some (sb, 0))"
  using assms
  by (simp add: resize_buffer_def create_buffer_def blit_def sb_wf_def content_def)

definition same_text :: "strbuff \<Rightarrow> strbuff \<Rightarrow> bool" where
  "same_text sb sb' \<longleftrightarrow> sb_wf sb' \<and> content sb' = content sb \<and> sb_size sb' = sb_size sb"

lemma resize_buffer_room:
  assumes "sb_wf sb" "sb_size sb < n"
  obtains sb' ok where "resize_buffer al sb n = Some (sb', ok)" "same_text sb sb'"
    "ok = 0 \<and> sb' = sb \<and> \<not> ((\<forall>n. al n) \<and> n < 2 ^ 31) \<or> ok = 1 \<and> sb_opacity sb' = n"
proof (cases "n < 2 ^ 31 \<and> al n")
  case True
  let ?sb = "sb\<lparr>sb_opacity := n, sb_buffer := content sb @ replicate (n - sb_size sb) 0\<rparr>"
  have "sb_wf ?sb \<and> content ?sb = content sb"
    using assms True by (intro sb_wfI) (auto simp: length_content)
  with True assms that [of ?sb 1] show ?thesis by (simp add: resize_buffer_wf same_text_def)
next
  case False
  then have "\<not> ((\<forall>n. al n) \<and> n < 2 ^ 31)" by blast
  with False assms that [of sb 0] show ?thesis by (simp add: resize_buffer_wf same_text_def)
qed

text \<open>The guard in front of every write: afterwards the buffer has the same text and, unless the
  allocation failed, room for \<open>len\<close> more bytes and the NUL.\<close>

lemma make_room:
  assumes wf: "sb_wf sb" and small: "sb_size sb + len < 2 ^ 31"
    and n: "sb_size sb + len \<ge> sb_opacity sb \<Longrightarrow> sb_size sb + len < n sb \<and> n sb \<le> 2 * (sb_size sb + len) + 1"
  obtains sb' ok where
    "(if wrap32 (sb_size sb + len) \<ge> sb_opacity sb then resize_buffer al sb (wrap32 (n sb))
      else Some (sb, 1)) = Some (sb', ok)"
    "same_text sb sb'"
    "ok = 0 \<and> sb' = sb \<and> \<not> ((\<forall>n. al n) \<and> sb_size sb + len < 2 ^ 30)
     \<or> ok = 1 \<and> sb_size sb + len < sb_opacity sb'"
proof (cases "sb_size sb + len \<ge> sb_opacity sb")
  case True
  with n small have b: "sb_size sb < n sb" "sb_size sb + len < n sb" "n sb < 2 ^ 32" by auto
  obtain sb' ok where r: "resize_buffer al sb (n sb) = Some (sb', ok)" "same_text sb sb'"
      "ok = 0 \<and> sb' = sb \<and> \<not> ((\<forall>n. al n) \<and> n sb < 2 ^ 31) \<or> ok = 1 \<and> sb_opacity sb' = n sb"
    using resize_buffer_room [OF wf b(1), of al] by blast
  have "n sb < 2 ^ 31" if "sb_size sb + len < 2 ^ 30" using n [OF True] that by simp
  with r b True small that [of sb' ok] show ?thesis by auto
next
  case False
  with wf small that [of sb 1] show ?thesis by (simp add: same_text_def)
qed

lemma put_bytes:
  assumes wf: "sb_wf sb" and room: "sb_size sb + len < sb_opacity sb" and len: "len \<le> length src"
  obtains buf where "blit (sb_buffer sb) (sb_size sb) src len = Some buf"
    "sb_wf (sb\<lparr>sb_buffer := buf, sb_size := sb_size sb + len\<rparr>)"
    "content (sb\<lparr>sb_buffer := buf, sb_size := sb_size sb + len\<rparr>) = content sb @ take len src"
proof
  let ?buf = "content sb @ take len src @ replicate (sb_opacity sb - (sb_size sb + len)) 0"
  let ?sb = "sb\<lparr>sb_buffer := ?buf, sb_size := sb_size sb + len\<rparr>"
  have "drop (sb_size sb + len) (sb_buffer sb) = replicate (sb_opacity sb - (sb_size sb + len)) 0"
    using wf by (simp add: sb_wf_def add.commute drop_drop [symmetric])
  then show "blit (sb_buffer sb) (sb_size sb) src len = Some ?buf"
    using wf room len by (simp add: blit_def sb_wf_def content_def)
  have "sb_wf ?sb \<and> content ?sb = content sb @ take len src"
    using wf room len by (intro sb_wfI) (auto simp: length_content, auto simp: sb_wf_def)
  then show "sb_wf ?sb" "content ?sb = content sb @ take len src" by auto
qed

lemma wr_blit: "wr m i x = blit m i [x] 1"
  by (simp add: wr_def blit_def upd_conv_take_nth_drop)

lemma put_byte:
  assumes "sb_wf sb" "sb_size sb + 1 < sb_opacity sb"
  obtains buf where "wr (sb_buffer sb) (sb_size sb) x = Some buf"
    "sb_wf (sb\<lparr>sb_buffer := buf, sb_size := sb_size sb + 1\<rparr>)"
    "content (sb\<lparr>sb_buffer := buf, sb_size := sb_size sb + 1\<rparr>) = content sb @ [x]"
  using put_bytes [of sb 1 "[x]"] assms unfolding wr_blit by auto

section \<open>Appending\<close>

text \<open>\<open>k\<close> of the \<open>count\<close> copies were stored; the code returns 1 exactly when all were.\<close>

definition stored :: "(nat \<Rightarrow> bool) \<Rightarrow> strbuff \<Rightarrow> bytes \<Rightarrow> nat \<Rightarrow> strbuff \<Rightarrow> nat \<Rightarrow> bool" where
  "stored al sb s count sb' r \<longleftrightarrow>
     (\<exists>k \<le> count. sb_wf sb' \<and> content sb' = content sb @ concat (replicate k s)
        \<and> r = (if k = count then 1 else 0)
        \<and> ((\<forall>n. al n) \<and> sb_size sb + length s * count < 2 ^ 30 \<longrightarrow> k = count))"

lemma stored_0: "sb_wf sb \<Longrightarrow> stored al sb s 0 sb 1"
  by (simp add: stored_def)

lemma stored_fail:
  "sb_wf sb \<Longrightarrow> \<not> ((\<forall>n. al n) \<and> sb_size sb + length s < 2 ^ 30) \<Longrightarrow> stored al sb s (Suc count) sb 0"
  unfolding stored_def by (rule exI [of _ 0]) auto

lemma stored_Suc:
  assumes "content sb1 = content sb @ s" "sb_size sb1 = sb_size sb + length s"
    "stored al sb1 s count sb' r"
  shows "stored al sb s (Suc count) sb' r"
proof -
  from assms(3) obtain k where "k \<le> count" "sb_wf sb'"
    "content sb' = content sb1 @ concat (replicate k s)" "r = (if k = count then 1 else 0)"
    "(\<forall>n. al n) \<and> sb_size sb1 + length s * count < 2 ^ 30 \<longrightarrow> k = count"
    by (auto simp: stored_def)
  with assms(1,2) show ?thesis
    unfolding stored_def by (intro exI [of _ "Suc k"]) (auto simp: algebra_simps)
qed

lemma append_from_stored:
  "sb_wf sb \<Longrightarrow> len \<le> length src \<Longrightarrow> sb_size sb + len * count < 2 ^ 31 \<Longrightarrow>
   \<exists>sb' r. cel_strbuff_append_from al sb src len count = Some (sb', r)
     \<and> stored al sb (take len src) count sb' r"
proof (induction count arbitrary: sb)
  case 0
  then show ?case by (simp add: stored_0 [simplified])
next
  case (Suc count)
  then have small: "sb_size sb + len < 2 ^ 31" by simp
  obtain sb1 ok where room:
    "(if wrap32 (sb_size sb + len) \<ge> sb_opacity sb
      then resize_buffer al sb (wrap32 (wrap32 (sb_size sb + len) * 2 + 1))
      else Some (sb, 1)) = Some (sb1, ok)" "same_text sb sb1"
    "ok = 0 \<and> sb1 = sb \<and> \<not> ((\<forall>n. al n) \<and> sb_size sb + len < 2 ^ 30)
     \<or> ok = 1 \<and> sb_size sb + len < sb_opacity sb1"
    using make_room [OF Suc.prems(1) small, of "\<lambda>sb. wrap32 (sb_size sb + len) * 2 + 1" al] small
    by (auto simp: mult.commute)
  show ?case
  proof (cases "ok = 0")
    case True
    with room Suc.prems show ?thesis
      by (auto intro!: stored_fail)
  next
    case False
    with room have r: "sb_wf sb1" "content sb1 = content sb" "sb_size sb1 = sb_size sb"
      "sb_size sb1 + len < sb_opacity sb1" by (auto simp: same_text_def)
    from put_bytes [OF r(1,4) Suc.prems(2)] obtain buf where
      buf: "blit (sb_buffer sb1) (sb_size sb1) src len = Some buf"
      "sb_wf (sb1\<lparr>sb_buffer := buf, sb_size := sb_size sb1 + len\<rparr>)"
      "content (sb1\<lparr>sb_buffer := buf, sb_size := sb_size sb1 + len\<rparr>) = content sb1 @ take len src"
      by blast
    let ?sb2 = "sb1\<lparr>sb_buffer := buf, sb_size := sb_size sb1 + len\<rparr>"
    obtain sb' r where IH: "cel_strbuff_append_from al ?sb2 src len count = Some (sb', r)"
      "stored al ?sb2 (take len src) count sb' r"
      using Suc.IH [OF buf(2) Suc.prems(2)] Suc.prems(3) r(3) by auto
    then have "stored al sb (take len src) (Suc count) sb' r"
      using buf(3) r Suc.prems(2) by (intro stored_Suc [of ?sb2]) auto
    moreover have "len = 1 \<Longrightarrow> \<exists>x. rd src 0 = Some x \<and> wr (sb_buffer sb1) (sb_size sb1) x = Some buf"
      using buf(1) Suc.prems(2) by (cases src) (auto simp: wr_blit rd_def blit_def split: if_splits)
    ultimately show ?thesis
      using False room(1) buf(1) IH(1) r(3) small by auto
  qed
qed

lemma append_char_stored:
  "sb_wf sb \<Longrightarrow> sb_size sb + count < 2 ^ 31 \<Longrightarrow>
   \<exists>sb' r. cel_strbuff_append_char al sb ch count = Some (sb', r) \<and> stored al sb [ch] count sb' r"
proof (induction count arbitrary: sb)
  case 0
  then show ?case by (simp add: stored_0 [simplified])
next
  case (Suc count)
  then have small: "sb_size sb + 1 < 2 ^ 31" by simp
  have grow: "sb_size sb + 1 < sb_opacity sb * 2 + 1 \<and> sb_opacity sb * 2 + 1 \<le> 2 * (sb_size sb + 1) + 1"
    if "sb_size sb + 1 \<ge> sb_opacity sb"
    using that Suc.prems(1) by (simp add: sb_wf_def)
  obtain sb1 ok where room:
    "(if wrap32 (sb_size sb + 1) \<ge> sb_opacity sb
      then resize_buffer al sb (wrap32 (sb_opacity sb * 2 + 1))
      else Some (sb, 1)) = Some (sb1, ok)" "same_text sb sb1"
    "ok = 0 \<and> sb1 = sb \<and> \<not> ((\<forall>n. al n) \<and> sb_size sb + 1 < 2 ^ 30)
     \<or> ok = 1 \<and> sb_size sb + 1 < sb_opacity sb1"
    using make_room [OF Suc.prems(1) small, of "\<lambda>sb. sb_opacity sb * 2 + 1" al] grow
    by blast
  show ?case
  proof (cases "ok = 0")
    case True
    with room Suc.prems show ?thesis by (auto intro!: stored_fail)
  next
    case False
    with room have r: "sb_wf sb1" "content sb1 = content sb" "sb_size sb1 = sb_size sb"
      "sb_size sb1 + 1 < sb_opacity sb1" by (auto simp: same_text_def)
    from put_byte [OF r(1,4)] obtain buf where
      buf: "wr (sb_buffer sb1) (sb_size sb1) ch = Some buf"
      "sb_wf (sb1\<lparr>sb_buffer := buf, sb_size := sb_size sb1 + 1\<rparr>)"
      "content (sb1\<lparr>sb_buffer := buf, sb_size := sb_size sb1 + 1\<rparr>) = content sb1 @ [ch]"
      by blast
    let ?sb2 = "sb1\<lparr>sb_buffer := buf, sb_size := sb_size sb1 + 1\<rparr>"
    obtain sb' r where IH: "cel_strbuff_append_char al ?sb2 ch count = Some (sb', r)"
      "stored al ?sb2 [ch] count sb' r"
      using Suc.IH [OF buf(2)] Suc.prems(2) r(3) by auto
    then have "stored al sb [ch] (Suc count) sb' r"
      using buf(3) r by (intro stored_Suc [of ?sb2]) auto
    then show ?thesis
      using False room(1) buf(1) IH(1) r(3) small by auto
  qed
qed

section \<open>Inserting and removing\<close>

lemma open_gap:
  assumes wf: "sb_wf sb" and room: "sb_size sb + len < sb_opacity sb" and len: "len \<le> length src"
    and idx: "idx \<le> sb_size sb"
  obtains buf buf' where "shift_up (sb_buffer sb) len idx (sb_size sb) = Some buf"
    "blit buf idx src len = Some buf'"
    "sb_wf (sb\<lparr>sb_buffer := buf', sb_size := sb_size sb + len\<rparr>)"
    "content (sb\<lparr>sb_buffer := buf', sb_size := sb_size sb + len\<rparr>)
     = take idx (content sb) @ take len src @ drop idx (content sb)"
proof -
  let ?p = "take idx (content sb)" and ?q = "drop idx (content sb)"
  let ?r = "replicate (sb_opacity sb - sb_size sb) (0 :: u8)"
  have lp: "length ?p = idx" "length ?p + length ?q = sb_size sb" "len \<le> length ?r"
    using wf idx room by (auto simp: length_content)
  have eq: "sb_buffer sb = ?p @ ?q @ ?r" using sb_wf_buffer [OF wf] by simp
  obtain g where g: "length g = len" "shift_up (sb_buffer sb) len idx (sb_size sb) = Some (?p @ g @ ?q @ drop len ?r)"
    using shift_up_moves [OF lp(3), of ?p ?q] lp eq by metis
  let ?buf' = "?p @ take len src @ ?q @ drop len ?r"
  have b: "blit (?p @ g @ ?q @ drop len ?r) idx src len = Some ?buf'"
    using g(1) lp len by (simp add: blit_def)
  let ?sb = "sb\<lparr>sb_buffer := ?buf', sb_size := sb_size sb + len\<rparr>"
  have "sb_wf ?sb \<and> content ?sb = ?p @ take len src @ ?q"
    using wf room len idx lp
    by (intro sb_wfI [of _ _ "sb_opacity sb - sb_size sb - len"]) (auto simp: length_content, auto simp: sb_wf_def)
  with g(2) b that show ?thesis by blast
qed

text \<open>As \<open>stored\<close>, for copies that go in at \<open>idx\<close>.\<close>

definition inserted :: "(nat \<Rightarrow> bool) \<Rightarrow> strbuff \<Rightarrow> nat \<Rightarrow> bytes \<Rightarrow> nat \<Rightarrow> strbuff \<Rightarrow> nat \<Rightarrow> bool" where
  "inserted al sb idx s count sb' r \<longleftrightarrow>
     (\<exists>k \<le> count. sb_wf sb'
        \<and> content sb' = take idx (content sb) @ concat (replicate k s) @ drop idx (content sb)
        \<and> r = (if k = count then 1 else 0)
        \<and> ((\<forall>n. al n) \<and> sb_size sb + length s * count < 2 ^ 30 \<longrightarrow> k = count))"

lemma inserted_0: "sb_wf sb \<Longrightarrow> inserted al sb idx s 0 sb 1"
  by (simp add: inserted_def)

lemma inserted_fail:
  "sb_wf sb \<Longrightarrow> \<not> ((\<forall>n. al n) \<and> sb_size sb + length s < 2 ^ 30) \<Longrightarrow> inserted al sb idx s (Suc count) sb 0"
  unfolding inserted_def by (rule exI [of _ 0]) auto

lemma inserted_Suc:
  assumes "idx \<le> length (content sb)"
    "content sb1 = take idx (content sb) @ s @ drop idx (content sb)" "sb_size sb1 = sb_size sb + length s"
    "inserted al sb1 (idx + length s) s count sb' r"
  shows "inserted al sb idx s (Suc count) sb' r"
proof -
  from assms(4) obtain k where "k \<le> count" "sb_wf sb'" "r = (if k = count then 1 else 0)"
    "content sb' = take (idx + length s) (content sb1) @ concat (replicate k s) @ drop (idx + length s) (content sb1)"
    "(\<forall>n. al n) \<and> sb_size sb1 + length s * count < 2 ^ 30 \<longrightarrow> k = count"
    by (auto simp: inserted_def)
  with assms(1-3) show ?thesis
    unfolding inserted_def by (intro exI [of _ "Suc k"]) (auto simp: algebra_simps)
qed

lemma insert_from_inserted:
  "sb_wf sb \<Longrightarrow> len \<le> length src \<Longrightarrow> idx \<le> sb_size sb \<Longrightarrow> sb_size sb + len * count < 2 ^ 31 \<Longrightarrow>
   \<exists>sb' r. cel_strbuff_insert_from al sb idx src len count = Some (sb', r)
     \<and> inserted al sb idx (take len src) count sb' r"
proof (induction count arbitrary: sb idx)
  case 0
  then show ?case by (simp add: inserted_0 [simplified])
next
  case (Suc count)
  then have small: "sb_size sb + len < 2 ^ 31" by simp
  obtain sb1 ok where room:
    "(if wrap32 (sb_size sb + len) \<ge> sb_opacity sb
      then resize_buffer al sb (wrap32 (wrap32 (sb_size sb + len) * 2 + 1))
      else Some (sb, 1)) = Some (sb1, ok)" "same_text sb sb1"
    "ok = 0 \<and> sb1 = sb \<and> \<not> ((\<forall>n. al n) \<and> sb_size sb + len < 2 ^ 30)
     \<or> ok = 1 \<and> sb_size sb + len < sb_opacity sb1"
    using make_room [OF Suc.prems(1) small, of "\<lambda>sb. wrap32 (sb_size sb + len) * 2 + 1" al] small
    by (auto simp: mult.commute)
  show ?case
  proof (cases "ok = 0")
    case True
    with room Suc.prems show ?thesis by (auto intro!: inserted_fail)
  next
    case False
    with room have r: "sb_wf sb1" "content sb1 = content sb" "sb_size sb1 = sb_size sb"
      "sb_size sb1 + len < sb_opacity sb1" by (auto simp: same_text_def)
    from r(3) Suc.prems(3) have idx: "idx \<le> sb_size sb1" by simp
    from open_gap [OF r(1,4) Suc.prems(2) idx] obtain buf0 buf where
      buf: "shift_up (sb_buffer sb1) len idx (sb_size sb1) = Some buf0" "blit buf0 idx src len = Some buf"
      "sb_wf (sb1\<lparr>sb_buffer := buf, sb_size := sb_size sb1 + len\<rparr>)"
      "content (sb1\<lparr>sb_buffer := buf, sb_size := sb_size sb1 + len\<rparr>)
       = take idx (content sb1) @ take len src @ drop idx (content sb1)"
      by blast
    let ?sb2 = "sb1\<lparr>sb_buffer := buf, sb_size := sb_size sb1 + len\<rparr>"
    obtain sb' r where IH: "cel_strbuff_insert_from al ?sb2 (idx + len) src len count = Some (sb', r)"
      "inserted al ?sb2 (idx + len) (take len src) count sb' r"
      using Suc.IH [OF buf(3) Suc.prems(2), of "idx + len"] Suc.prems(3,4) r(3) by auto
    then have "inserted al sb idx (take len src) (Suc count) sb' r"
      using buf(4) r Suc.prems(1-3) by (intro inserted_Suc [of _ _ ?sb2]) (auto simp: length_content)
    then show ?thesis
      using False room(1) buf(1,2) IH(1) r(3) small Suc.prems(3) by auto
  qed
qed

lemma remove_content:
  assumes wf: "sb_wf sb" and idx: "idx < sb_size sb"
  obtains sb' where "cel_strbuff_remove sb idx len = Some (sb', 1)" "sb_wf sb'"
    "content sb' = take idx (content sb) @ drop (idx + len) (content sb)"
proof -
  obtain L where L: "(if len > sb_size sb - idx then sb_size sb - idx else len) = L" by blast
  let ?p = "take idx (content sb)" and ?m = "take L (drop idx (content sb))"
  let ?q = "drop (idx + L) (content sb)" and ?r = "replicate (sb_opacity sb - sb_size sb) (0 :: u8)"
  have le: "L \<le> sb_size sb - idx" using L by (auto split: if_splits)
  have lm: "length ?m = L" using wf idx le by (simp add: length_content)
  have lp: "length ?p = idx" "length ?q = sb_size sb - (idx + L)"
    using wf idx by (auto simp: length_content)
  have q: "?q = drop (idx + len) (content sb)" using wf L by (auto simp: length_content split: if_splits)
  have "content sb = ?p @ ?m @ ?q" by (metis append_take_drop_id drop_drop add.commute)
  then have eq: "sb_buffer sb = ?p @ ?m @ ?q @ ?r" using sb_wf_buffer [OF wf] by (metis append_assoc)
  obtain g where g: "length g = L"
    "shift_down (sb_buffer sb) L (idx + L) (sb_size sb - (idx + L)) = Some (?p @ ?q @ g @ ?r)"
    using shift_down_moves [OF lm, of ?p ?q ?r] lp eq by metis
  have f: "fill (?p @ ?q @ g @ ?r) (sb_size sb - L) 0 L = Some ((?p @ ?q) @ replicate L 0 @ ?r)"
    using lp g(1) idx le by (simp add: fill_def blit_def)
  let ?sb = "sb\<lparr>sb_buffer := (?p @ ?q) @ replicate L 0 @ ?r, sb_size := sb_size sb - L\<rparr>"
  have lpq: "length (?p @ ?q) = sb_size sb - L" using lp le idx by simp
  have bounds: "L \<le> sb_size sb" "sb_size sb < sb_opacity sb" "sb_opacity sb < 2 ^ 31"
    using wf le by (auto simp: sb_wf_def)
  have zeros: "replicate L 0 @ ?r = replicate (L + (sb_opacity sb - sb_size sb)) 0"
    by (simp only: replicate_add)
  have "sb_wf ?sb \<and> content ?sb = ?p @ ?q"
    using zeros lpq bounds
    by (intro sb_wfI [of _ _ "L + (sb_opacity sb - sb_size sb)"]) (simp_all del: append_assoc)
  moreover have "cel_strbuff_remove sb idx len = Some (?sb, 1)"
    unfolding cel_strbuff_remove_def Let_def L using idx g(2) f by simp
  ultimately show ?thesis using that q by metis
qed

lemma clear_content:
  assumes wf: "sb_wf sb"
  obtains sb' where "cel_strbuff_clear sb = Some (sb', 1)" "sb_wf sb'" "content sb' = []"
    "sb_opacity sb' = sb_opacity sb"
proof -
  let ?sb = "sb\<lparr>sb_buffer := replicate (sb_opacity sb) 0, sb_size := 0\<rparr>"
  from wf have b: "length (sb_buffer sb) = sb_opacity sb" "sb_size sb < sb_opacity sb" "sb_opacity sb < 2 ^ 31"
    "drop (sb_size sb) (sb_buffer sb) = replicate (sb_opacity sb - sb_size sb) 0" by (auto simp: sb_wf_def)
  have "cel_strbuff_clear sb = Some (?sb, 1)"
    using b by (simp add: cel_strbuff_clear_def fill_def blit_def flip: replicate_add)
  moreover have "sb_wf ?sb \<and> content ?sb = []" using b by (intro sb_wfI) auto
  ultimately show ?thesis using that [of ?sb] by simp
qed

text \<open>\<open>cel_strbuff_insert_char\<close> stores at the end, wherever it is told to insert; on an empty
  buffer of one byte it also uses up the byte of the NUL.\<close>

lemma insert_char_stored:
  "sb_wf sb \<Longrightarrow> sb_size sb + count < 2 ^ 31 \<Longrightarrow> idx \<le> sb_size sb \<Longrightarrow> 0 < sb_size sb \<or> 1 < sb_opacity sb \<Longrightarrow>
   \<exists>sb' r. cel_strbuff_insert_char al sb idx ch count = Some (sb', r) \<and> stored al sb [ch] count sb' r"
proof (induction count arbitrary: sb idx)
  case 0
  then show ?case by (simp add: stored_0 [simplified])
next
  case (Suc count)
  then have small: "sb_size sb + 1 < 2 ^ 31" by simp
  have grow: "sb_size sb + 1 < sb_size sb * 2 + 1 \<and> sb_size sb * 2 + 1 \<le> 2 * (sb_size sb + 1) + 1"
    if "sb_size sb + 1 \<ge> sb_opacity sb"
    using that Suc.prems(4) by auto
  obtain sb1 ok where room:
    "(if wrap32 (sb_size sb + 1) \<ge> sb_opacity sb
      then resize_buffer al sb (wrap32 (sb_size sb * 2 + 1))
      else Some (sb, 1)) = Some (sb1, ok)" "same_text sb sb1"
    "ok = 0 \<and> sb1 = sb \<and> \<not> ((\<forall>n. al n) \<and> sb_size sb + 1 < 2 ^ 30)
     \<or> ok = 1 \<and> sb_size sb + 1 < sb_opacity sb1"
    using make_room [OF Suc.prems(1) small, of "\<lambda>sb. sb_size sb * 2 + 1" al] grow
    by blast
  show ?case
  proof (cases "ok = 0")
    case True
    with room Suc.prems show ?thesis by (auto intro!: stored_fail)
  next
    case False
    with room have r: "sb_wf sb1" "content sb1 = content sb" "sb_size sb1 = sb_size sb"
      "sb_size sb1 + 1 < sb_opacity sb1" by (auto simp: same_text_def)
    from put_byte [OF r(1,4)] obtain buf where
      buf: "wr (sb_buffer sb1) (sb_size sb1) ch = Some buf"
      "sb_wf (sb1\<lparr>sb_buffer := buf, sb_size := sb_size sb1 + 1\<rparr>)"
      "content (sb1\<lparr>sb_buffer := buf, sb_size := sb_size sb1 + 1\<rparr>) = content sb1 @ [ch]"
      by blast
    let ?sb2 = "sb1\<lparr>sb_buffer := buf, sb_size := sb_size sb1 + 1\<rparr>"
    obtain sb' r where IH: "cel_strbuff_insert_char al ?sb2 (idx + 1) ch count = Some (sb', r)"
      "stored al ?sb2 [ch] count sb' r"
      using Suc.IH [OF buf(2), of "idx + 1"] Suc.prems(2,3) r(3) by auto
    then have "stored al sb [ch] (Suc count) sb' r"
      using buf(3) r by (intro stored_Suc [of ?sb2]) auto
    then show ?thesis
      using False room(1) buf(1) IH(1) r(3) small Suc.prems(3) by auto
  qed
qed

lemma new_opacity_wf:
  "0 < n \<Longrightarrow> n < 2 ^ 31 \<Longrightarrow> al 16 \<Longrightarrow> al n \<Longrightarrow>
   \<exists>sb. new_cel_strbuff_opacity al n = Inr sb \<and> sb_wf sb \<and> content sb = []"
  by (simp add: new_cel_strbuff_opacity_def create_buffer_def sb_wf_def content_def)

lemma append_once:
  assumes "sb_wf sb" "sb_size sb + length s < 2 ^ 30"
  shows "\<exists>sb'. cel_strbuff_append_from (\<lambda>_. True) sb s (length s) 1 = Some (sb', 1) \<and> sb_wf sb' \<and> content sb' = content sb @ s"
proof -
  have "sb_size sb + length s * 1 < 2 ^ 31" using assms(2) by simp
  from append_from_stored [OF assms(1) order_refl this, of "\<lambda>_. True"] obtain sb' r where
    "cel_strbuff_append_from (\<lambda>_. True) sb s (length s) 1 = Some (sb', r)" "stored (\<lambda>_. True) sb s 1 sb' r" by auto
  with assms(2) show ?thesis by (auto simp: stored_def simp del: cel_strbuff_append_from.simps)
qed

lemma strbuff_init_law:
  "0 < n \<Longrightarrow> n < 2 ^ 31 \<Longrightarrow> al n \<Longrightarrow>
   \<exists>sb'. cel_strbuff_init al sb n None = Some (sb', 1) \<and> sb_wf sb' \<and> content sb' = []"
  by (auto simp: cel_strbuff_init_def create_buffer_def sb_wf_def content_def Let_def)

lemma strbuff_init_fail: "n < 2 ^ 31 \<Longrightarrow> \<not> al n \<Longrightarrow> \<exists>sb'. cel_strbuff_init al sb n None = Some (sb', 0)"
  by (auto simp: cel_strbuff_init_def create_buffer_def Let_def)

lemma init_wf:
  assumes "n + length s < 2 ^ 31" "0 < n" "al (n + length s)"
  shows "\<exists>sb'. cel_strbuff_init al sb n (Some s) = Some (sb', 1) \<and> sb_wf sb' \<and> content sb' = s"
proof -
  let ?sb = "sb\<lparr>sb_buffer := s @ replicate n 0, sb_opacity := n + length s, sb_size := length s\<rparr>"
  have "sb_wf ?sb \<and> content ?sb = s" using assms by (intro sb_wfI) auto
  then show ?thesis
    using assms by (simp add: cel_strbuff_init_def create_buffer_def blit_def Let_def)
qed

section \<open>The interface of the receive callbacks\<close>

text \<open>What \<open>_post_recv_callback\<close> (executor.c) and its copies in \<open>app_executor.c\<close>,
  \<open>app_collector.c\<close> and \<open>app_updater.c\<close> do with a chunk: append it, and report all of it consumed,
  whether or not the append found memory.\<close>

definition post_recv_callback :: "('s \<Rightarrow> bytes \<Rightarrow> ('s \<times> nat) option) \<Rightarrow> 's \<Rightarrow> bytes \<Rightarrow> ('s \<times> nat) option" where
  "post_recv_callback put s chunk = do {
     (s, _) \<leftarrow> put s chunk;
     Some (s, length chunk) }"

text \<open>curl hands the body of a response to the callback in chunks, and stops when the callback
  does not report the whole chunk.\<close>

fun deliver :: "('s \<Rightarrow> bytes \<Rightarrow> ('s \<times> nat) option) \<Rightarrow> 's \<Rightarrow> bytes list \<Rightarrow> ('s \<times> bool) option" where
  "deliver cb s [] = Some (s, True)"
| "deliver cb s (c # cs) = do {
     (s, n) \<leftarrow> cb s c;
     (if n = length c then deliver cb s cs else Some (s, False)) }"

locale byte_sink =
  fixes put :: "'s \<Rightarrow> bytes \<Rightarrow> ('s \<times> nat) option"
    and text_of :: "'s \<Rightarrow> bytes"
    and ok :: "'s \<Rightarrow> bool"
    and cap :: nat
  assumes put_ok: "ok s \<Longrightarrow> length (text_of s) + length b < cap \<Longrightarrow>
      \<exists>s'. put s b = Some (s', 1) \<and> ok s' \<and> text_of s' = text_of s @ b"
begin

lemma deliver_all:
  "ok s \<Longrightarrow> length (text_of s) + length (concat cs) < cap \<Longrightarrow>
   \<exists>s'. deliver (post_recv_callback put) s cs = Some (s', True) \<and> ok s' \<and> text_of s' = text_of s @ concat cs"
proof (induction cs arbitrary: s)
  case Nil
  then show ?case by simp
next
  case (Cons c cs)
  then obtain s1 where s1: "put s c = Some (s1, 1)" "ok s1" "text_of s1 = text_of s @ c"
    using put_ok [of s c] by auto
  then obtain s' where "deliver (post_recv_callback put) s1 cs = Some (s', True)" "ok s'"
    "text_of s' = text_of s1 @ concat cs"
    using Cons.IH [of s1] Cons.prems by auto
  with s1 show ?case by (simp add: post_recv_callback_def [of put s c])
qed

end

definition strbuff_put :: "strbuff \<Rightarrow> bytes \<Rightarrow> (strbuff \<times> nat) option" where
  "strbuff_put sb b = cel_strbuff_append_from (\<lambda>_. True) sb b (length b) 1"

interpretation sink: byte_sink strbuff_put content sb_wf "2 ^ 30"
proof
  fix s :: strbuff and b :: bytes
  assume wf: "sb_wf s" and small: "length (content s) + length b < 2 ^ 30"
  then have "sb_size s + length b * 1 < 2 ^ 31" by (simp add: length_content)
  then obtain s' r where "strbuff_put s b = Some (s', r)" "stored (\<lambda>_. True) s b 1 s' r"
    using append_from_stored [OF wf order_refl, of b 1 "\<lambda>_. True"] by (auto simp: strbuff_put_def)
  moreover from this small wf have "stored (\<lambda>_. True) s b 1 s' 1 \<and> r = 1"
    by (auto simp: stored_def length_content)
  ultimately show "\<exists>s'. strbuff_put s b = Some (s', 1) \<and> sb_wf s' \<and> content s' = content s @ b"
    using small wf by (auto simp: stored_def length_content)
qed

section \<open>Properties\<close>

text \<open>C34: \<open>cel_strbuff_append_from\<close> is free of undefined behaviour and keeps the buffer
  well-formed whatever \<open>malloc\<close> does: it stores some number \<open>k\<close> of the \<open>count\<close> copies at the end and
  returns 1 exactly when it stored them all, which it does when the allocations succeed and the
  result stays below \<open>2\<^sup>30\<close> bytes.\<close>

theorem append_from_appends:
  assumes "sb_wf sb" "len \<le> length src" "sb_size sb + len * count < 2 ^ 31"
  shows "\<exists>sb' r k. cel_strbuff_append_from al sb src len count = Some (sb', r) \<and> sb_wf sb' \<and> k \<le> count
     \<and> content sb' = content sb @ concat (replicate k (take len src))
     \<and> (r = 1 \<and> k = count \<or> r = 0 \<and> k < count)
     \<and> ((\<forall>n. al n) \<longrightarrow> sb_size sb + len * count < 2 ^ 30 \<longrightarrow> k = count)"
proof -
  obtain sb' r where a: "cel_strbuff_append_from al sb src len count = Some (sb', r)"
    "stored al sb (take len src) count sb' r"
    using append_from_stored [OF assms] by blast
  from a(2) assms(2) obtain k where "k \<le> count" "sb_wf sb'" "r = (if k = count then 1 else 0)"
    "content sb' = content sb @ concat (replicate k (take len src))"
    "(\<forall>n. al n) \<and> sb_size sb + len * count < 2 ^ 30 \<longrightarrow> k = count"
    unfolding stored_def by (auto simp: min_absorb2)
  with a(1) show ?thesis by (auto intro!: exI [of _ k])
qed

text \<open>A buffer of four bytes with two in use.\<close>

definition sample_buffer :: strbuff where
  "sample_buffer = \<lparr>sb_buffer = [104, 105, 0, 0], sb_opacity = 4, sb_size = 2\<rparr>"

lemma sample_buffer_wf: "sb_wf sample_buffer \<and> content sample_buffer = [104, 105]"
proof -
  have "[0, 0] = replicate 2 (0 :: u8)" by (simp add: numeral_2_eq_2)
  then show ?thesis by (simp add: sample_buffer_def sb_wf_def content_def)
qed

lemma append_from_appends_witness:
  "\<exists>sb' r k. cel_strbuff_append_from (\<lambda>_. True) sample_buffer [97, 98, 99] 2 3 = Some (sb', r) \<and> sb_wf sb' \<and> k \<le> 3
     \<and> content sb' = content sample_buffer @ concat (replicate k [97, 98])"
  using append_from_appends [of sample_buffer 2 "[97, 98, 99]" 3 "\<lambda>_. True"] sample_buffer_wf
  by (auto simp: sample_buffer_def)

text \<open>\<open>cel_strbuff_insert_from\<close> puts the copies in at \<open>idx\<close> and moves the rest of the text up,
  with the same guarantees.\<close>

theorem insert_from_inserts:
  assumes "sb_wf sb" "len \<le> length src" "idx \<le> sb_size sb" "sb_size sb + len * count < 2 ^ 31"
  shows "\<exists>sb' r k. cel_strbuff_insert_from al sb idx src len count = Some (sb', r) \<and> sb_wf sb' \<and> k \<le> count
     \<and> content sb' = take idx (content sb) @ concat (replicate k (take len src)) @ drop idx (content sb)
     \<and> (r = 1 \<and> k = count \<or> r = 0 \<and> k < count)
     \<and> ((\<forall>n. al n) \<longrightarrow> sb_size sb + len * count < 2 ^ 30 \<longrightarrow> k = count)"
proof -
  obtain sb' r where a: "cel_strbuff_insert_from al sb idx src len count = Some (sb', r)"
    "inserted al sb idx (take len src) count sb' r"
    using insert_from_inserted [OF assms] by blast
  from a(2) assms(2) obtain k where "k \<le> count" "sb_wf sb'" "r = (if k = count then 1 else 0)"
    "content sb' = take idx (content sb) @ concat (replicate k (take len src)) @ drop idx (content sb)"
    "(\<forall>n. al n) \<and> sb_size sb + len * count < 2 ^ 30 \<longrightarrow> k = count"
    unfolding inserted_def by (auto simp: min_absorb2)
  with a(1) show ?thesis by (auto intro!: exI [of _ k])
qed

lemma insert_from_inserts_witness:
  "\<exists>sb' r k. cel_strbuff_insert_from (\<lambda>_. True) sample_buffer 1 [97, 98, 99] 2 3 = Some (sb', r) \<and> sb_wf sb' \<and> k \<le> 3
     \<and> content sb' = take 1 (content sample_buffer) @ concat (replicate k [97, 98]) @ drop 1 (content sample_buffer)"
  using insert_from_inserts [of sample_buffer 2 "[97, 98, 99]" 1 3 "\<lambda>_. True"] sample_buffer_wf
  by (auto simp: sample_buffer_def)

text \<open>\<open>cel_strbuff_remove\<close> deletes \<open>len\<close> bytes at \<open>idx\<close> (fewer at the end of the text), refuses an
  index outside the text and leaves a well-formed buffer.\<close>

theorem remove_deletes:
  assumes "sb_wf sb"
  shows "\<exists>sb' r. cel_strbuff_remove sb idx len = Some (sb', r) \<and> sb_wf sb'
     \<and> r = (if idx < sb_size sb then 1 else 0)
     \<and> content sb' = (if idx < sb_size sb then take idx (content sb) @ drop (idx + len) (content sb) else content sb)"
proof (cases "idx < sb_size sb")
  case True
  with remove_content [OF assms True, of len] show ?thesis by auto
next
  case False
  with assms show ?thesis by (simp add: cel_strbuff_remove_def)
qed

lemma remove_deletes_witness:
  "\<exists>sb' r. cel_strbuff_remove sample_buffer 0 1 = Some (sb', r) \<and> sb_wf sb' \<and> r = 1 \<and> content sb' = [105]"
  using remove_deletes [of sample_buffer 0 1] sample_buffer_wf by (auto simp: sample_buffer_def)

text \<open>C11: a response body that arrives in any chunks, of less than \<open>2\<^sup>30\<close> bytes in all, is in the
  buffer afterwards, after what was there and followed by a NUL: when it has no NUL of its own, the
  C string the caller hands to the JSON parser is the concatenation of the chunks.\<close>

theorem body_received:
  assumes "sb_wf sb" "content sb = []" "length (concat chunks) < 2 ^ 30" "no_nul (concat chunks)"
  shows "\<exists>sb'. deliver (post_recv_callback (\<lambda>sb b. cel_strbuff_append_from (\<lambda>_. True) sb b (length b) 1)) sb chunks
           = Some (sb', True)
     \<and> sb_wf sb' \<and> 0 \<in> set (sb_buffer sb') \<and> cstr (sb_buffer sb') = concat chunks"
proof -
  obtain sb' where "deliver (post_recv_callback strbuff_put) sb chunks = Some (sb', True)" "sb_wf sb'"
    "content sb' = concat chunks"
    using sink.deliver_all [of sb chunks] assms by auto
  moreover have "strbuff_put = (\<lambda>sb b. cel_strbuff_append_from (\<lambda>_. True) sb b (length b) 1)"
    by (simp add: strbuff_put_def fun_eq_iff)
  ultimately show ?thesis using assms(4) sb_wf_cstr [of sb'] by auto
qed

lemma body_received_witness:
  "\<exists>sb sb'. new_cel_strbuff_opacity (\<lambda>_. True) 2 = Inr sb
     \<and> deliver (post_recv_callback (\<lambda>sb b. cel_strbuff_append_from (\<lambda>_. True) sb b (length b) 1)) sb
         [[123, 34], [], [97], [34, 125, 10]] = Some (sb', True)
     \<and> sb_wf sb' \<and> 0 \<in> set (sb_buffer sb') \<and> cstr (sb_buffer sb') = [123, 34, 97, 34, 125, 10]"
proof -
  obtain sb where "new_cel_strbuff_opacity (\<lambda>_. True) 2 = Inr sb" "sb_wf sb" "content sb = []"
    using new_opacity_wf [of 2 "\<lambda>_. True"] by auto
  then show ?thesis
    using body_received [of sb "[[123, 34], [], [97], [34, 125, 10]]"] by simp
qed

end
