(* ===== verification/CelText.thy ===== *)
theory CelText
  imports CelStrbuff
begin

text \<open>
  The string helpers of \<open>src/main/cel_string.c\<close>: trimming, case conversion, \<open>cel_string_t\<close> and
  the conversion between UTF-8 and code points.

  A \<open>char *\<close> argument is the block it points into; what is in the block after the NUL matters for
  the bounds only.  The characters are those of the C locale.

  Shown: the trims and case conversions are the list functions they stand for and stay inside the
  block, \<open>cel_right_trim\<close> leaves an all-blank string alone, and decoding inverts encoding on the
  code points up to \<open>0xFFFF\<close> and yields 0 above.
\<close>

section \<open>Trimming\<close>

definition blank :: "u8 \<Rightarrow> bool" where
  "blank c \<longleftrightarrow> c = 32 \<or> c = 9 \<or> c = 13"

text \<open>The first loop of \<open>cel_left_trim\<close>: \<open>n\<close> characters are left, \<open>i\<close> is the next one.\<close>

fun left_scan :: "bytes \<Rightarrow> nat \<Rightarrow> nat \<Rightarrow> nat option" where
  "left_scan str i 0 = Some i"
| "left_scan str i (Suc n) = do {
     c \<leftarrow> rd str i;
     (if \<not> blank c then Some i else left_scan str (Suc i) n) }"

text \<open>Its second loop copies \<open>str[i]\<close> to \<open>str[j]\<close> with \<open>i - j\<close> constant, which is \<open>shift_down\<close>.\<close>

definition cel_left_trim :: "bytes \<Rightarrow> bytes option" where
  "cel_left_trim str = do {
     slen \<leftarrow> strlen str;
     i \<leftarrow> left_scan str 0 slen;
     (if i > 0 then do {
        str \<leftarrow> shift_down str i i (slen - i);
        wr str (slen - i) 0 }
      else Some str) }"

text \<open>The loop of \<open>cel_right_trim\<close>; the count is \<open>i + 1\<close>.\<close>

fun right_scan :: "bytes \<Rightarrow> nat \<Rightarrow> bytes option" where
  "right_scan str 0 = Some str"
| "right_scan str (Suc i) = do {
     c \<leftarrow> rd str i;
     (if \<not> blank c then wr str (i + 1) 0 else right_scan str i) }"

definition cel_right_trim :: "bytes \<Rightarrow> bytes option" where
  "cel_right_trim str = do {
     slen \<leftarrow> strlen str;
     right_scan str slen }"

section \<open>Case\<close>

definition to_lower :: "u8 \<Rightarrow> u8" where
  "to_lower c = (if 65 \<le> c \<and> c \<le> 90 then c + 32 else c)"

definition to_upper :: "u8 \<Rightarrow> u8" where
  "to_upper c = (if 97 \<le> c \<and> c \<le> 122 then c - 32 else c)"

fun case_loop :: "(u8 \<Rightarrow> u8) \<Rightarrow> bytes \<Rightarrow> nat \<Rightarrow> nat \<Rightarrow> bytes option" where
  "case_loop f src i 0 = Some src"
| "case_loop f src i (Suc n) = do {
     c \<leftarrow> rd src i;
     src \<leftarrow> wr src i (f c);
     case_loop f src (Suc i) n }"

definition cel_strtolower :: "bytes \<Rightarrow> nat \<Rightarrow> bytes option" where
  "cel_strtolower src n = case_loop to_lower src 0 n"

definition cel_strtoupper :: "bytes \<Rightarrow> nat \<Rightarrow> bytes option" where
  "cel_strtoupper src n = case_loop to_upper src 0 n"

section \<open>\<open>cel_string_t\<close>\<close>

record cel_string =
  cs_str :: bytes
  cs_len :: nat

text \<open>Null is \<open>Inl ()\<close>.  The structure is used without a check of its own \<open>malloc\<close>.\<close>

definition new_cel_string :: "(nat \<Rightarrow> bool) \<Rightarrow> bytes option \<Rightarrow> (unit + cel_string) option" where
  "new_cel_string al str =
     (case str of
        None \<Rightarrow> Some (Inl ())
      | Some s \<Rightarrow>
          if \<not> al 16 then None
          else if \<not> al (wrap32 (length s)) then Some (Inl ())
          else do {
            buf \<leftarrow> blit (replicate (wrap32 (length s)) 0) 0 s (wrap32 (length s));
            Some (Inr \<lparr>cs_str = buf, cs_len = wrap32 (length s)\<rparr>) })"

section \<open>UTF-8\<close>

text \<open>The loop \<open>for ( ; ( ch & 0x80 ) != 0; ch <<= 1 ) t++\<close>.  After eight shifts \<open>ch\<close> is 0, so the
  count 8 never runs out.\<close>

fun leading_ones :: "nat \<Rightarrow> u8 \<Rightarrow> nat" where
  "leading_ones 0 ch = 0"
| "leading_ones (Suc n) ch =
     (if ch AND 0x80 \<noteq> 0 then Suc (leading_ones n (push_bit 1 ch)) else 0)"

definition cel_utf8_charbytes :: "u8 \<Rightarrow> nat" where
  "cel_utf8_charbytes ch = (if 0 \<le> sint ch then 1 else leading_ones 8 ch)"

text \<open>The code point is assembled in the two low bytes of \<open>code\<close>.\<close>

definition two_bytes :: "u8 \<Rightarrow> u8 \<Rightarrow> u32" where
  "two_bytes lo hi = ucast lo OR push_bit 8 (ucast hi)"

definition cel_utf8_to_ucode :: "bytes \<Rightarrow> u32 option" where
  "cel_utf8_to_ucode word = do {
     b1 \<leftarrow> rd word 0;
     (case cel_utf8_charbytes b1 of
        Suc 0 \<Rightarrow> Some (two_bytes b1 0)
      | Suc (Suc 0) \<Rightarrow> do {
          b2 \<leftarrow> rd word 1;
          Some (two_bytes (push_bit 6 b1 + (b2 AND 0x3F)) (drop_bit 2 b1 AND 0x07)) }
      | Suc (Suc (Suc 0)) \<Rightarrow> do {
          b2 \<leftarrow> rd word 1;
          b3 \<leftarrow> rd word 2;
          Some (two_bytes (push_bit 6 b2 + (b3 AND 0x3F)) (push_bit 4 b1 + (drop_bit 2 b2 AND 0x0F))) }
      | _ \<Rightarrow> Some 0) }"

text \<open>One byte of the encoding: \<open>((u >> sh) & mask) | mark\<close>.\<close>

definition utf8_part :: "u32 \<Rightarrow> nat \<Rightarrow> u32 \<Rightarrow> u32 \<Rightarrow> u8" where
  "utf8_part u sh m mark = ucast ((drop_bit sh u AND m) OR mark)"

definition utf8_word :: "u32 \<Rightarrow> bytes" where
  "utf8_word u =
     (if u \<le> 0x7F then [ucast (u AND 0x7F)]
      else if u \<le> 0x7FF then [utf8_part u 6 0x1F 0xC0, utf8_part u 0 0x3F 0x80]
      else if u \<le> 0xFFFF then
        [utf8_part u 12 0x0F 0xE0, utf8_part u 6 0x3F 0x80, utf8_part u 0 0x3F 0x80]
      else if u \<le> 0x1FFFFF then
        [utf8_part u 18 0x07 0xF0, utf8_part u 12 0x3F 0x80, utf8_part u 6 0x3F 0x80,
         utf8_part u 0 0x3F 0x80]
      else if u \<le> 0x3FFFFFF then
        [utf8_part u 24 0x03 0xF8, utf8_part u 18 0x3F 0x80, utf8_part u 12 0x3F 0x80,
         utf8_part u 6 0x3F 0x80, utf8_part u 0 0x3F 0x80]
      else if u \<le> 0x7FFFFFFF then
        [utf8_part u 30 0x01 0xFC, utf8_part u 24 0x3F 0x80, utf8_part u 18 0x3F 0x80,
         utf8_part u 12 0x3F 0x80, utf8_part u 6 0x3F 0x80, utf8_part u 0 0x3F 0x80]
      else [])"

text \<open>The bytes go to the start of the caller's buffer, which is not terminated.\<close>

definition cel_ucode_to_utf8 :: "u32 \<Rightarrow> bytes \<Rightarrow> (bytes \<times> nat) option" where
  "cel_ucode_to_utf8 u buf = do {
     buf \<leftarrow> blit buf 0 (utf8_word u) (length (utf8_word u));
     Some (buf, length (utf8_word u)) }"

section \<open>Lemmas: trimming\<close>

lemma left_scan_run:
  "length p = i \<Longrightarrow> left_scan (p @ s @ r) i (length s) = Some (i + length (takeWhile blank s))"
proof (induction s arbitrary: p i)
  case Nil
  then show ?case by simp
next
  case (Cons c s)
  then show ?case using Cons.IH [of "p @ [c]" "Suc i"] by (simp add: rd_def nth_append)
qed

lemma left_trim_terminated:
  assumes "no_nul s"
  shows "\<exists>g. length g = length (takeWhile blank s)
     \<and> cel_left_trim (s @ 0 # r) = Some (dropWhile blank s @ 0 # g @ r)"
proof -
  let ?b = "takeWhile blank s" and ?t = "dropWhile blank s"
  have scan: "left_scan (s @ 0 # r) 0 (length s) = Some (length ?b)"
    using left_scan_run [of "[]" 0 s "0 # r"] by simp
  show ?thesis
  proof (cases ?b)
    case Nil
    then have "?t = s" using takeWhile_dropWhile_id [of blank s] by simp
    with Nil scan assms show ?thesis by (simp add: cel_left_trim_def)
  next
    case (Cons x b)
    obtain g where g: "length g = length ?b"
      "shift_down ([] @ ?b @ ?t @ 0 # r) (length ?b) (length ([] :: bytes) + length ?b) (length ?t)
       = Some ([] @ ?t @ g @ 0 # r)"
      using shift_down_moves [of ?b "length ?b" "[]" ?t "0 # r"] by blast
    have len: "length s - length ?b = length ?t"
      by (metis add_diff_cancel_left' length_append takeWhile_dropWhile_id)
    have "?b @ ?t @ 0 # r = s @ 0 # r" by (metis append_assoc takeWhile_dropWhile_id)
    with g(2) have sd: "shift_down (s @ 0 # r) (length ?b) (length ?b) (length ?t) = Some (?t @ g @ 0 # r)"
      by simp
    obtain y g' where y: "g = y # g'" using g(1) Cons by (cases g) auto
    have "cel_left_trim (s @ 0 # r) = Some (?t @ 0 # (g' @ [0]) @ r)"
      using assms scan sd len Cons y by (simp add: cel_left_trim_def wr_def list_update_append)
    moreover have "length (g' @ [0]) = length ?b" using g(1) y by simp
    ultimately show ?thesis by blast
  qed
qed

definition right_strip :: "bytes \<Rightarrow> bytes" where
  "right_strip s = rev (dropWhile blank (rev s))"

lemma right_strip_snoc: "right_strip (s @ [c]) = (if blank c then right_strip s else s @ [c])"
  by (simp add: right_strip_def)

lemma right_strip_prefix: "\<exists>t. s = right_strip s @ t"
  unfolding right_strip_def by (metis rev_append rev_rev_ident takeWhile_dropWhile_id)

lemma right_scan_run:
  "t \<noteq> [] \<Longrightarrow> right_scan (s @ t) (length s)
   = Some (if list_all blank s then s @ t else (s @ t)[length (right_strip s) := 0])"
proof (induction s arbitrary: t rule: rev_induct)
  case Nil
  then show ?case by simp
next
  case (snoc c s)
  then show ?case
    using snoc.IH [of "c # t"] by (auto simp: rd_def wr_def nth_append right_strip_snoc)
qed

lemma right_trim_terminated:
  assumes "no_nul s"
  shows "\<exists>g. length (right_strip s) + length g = length s \<and>
    cel_right_trim (s @ 0 # r) = Some (if list_all blank s then s @ 0 # r else right_strip s @ 0 # g @ r)"
proof -
  obtain t where t: "s = right_strip s @ t" using right_strip_prefix by blast
  have run: "cel_right_trim (s @ 0 # r)
    = Some (if list_all blank s then s @ 0 # r else (s @ 0 # r)[length (right_strip s) := 0])"
    using assms by (simp add: cel_right_trim_def right_scan_run)
  show ?thesis
  proof (cases t)
    case Nil
    with t run show ?thesis by (intro exI [of _ "[]"]) (auto simp: list_update_append)
  next
    case (Cons x t')
    have "(s @ 0 # r)[length (right_strip s) := 0] = right_strip s @ 0 # (t' @ [0]) @ r"
      by (subst t) (simp add: Cons list_update_append)
    moreover have "length (right_strip s) + length (t' @ [0]) = length s"
      by (subst (2) t) (simp add: Cons)
    ultimately show ?thesis using run by metis
  qed
qed

lemma case_loop_map:
  "n \<le> length s \<Longrightarrow> case_loop f (p @ s) (length p) n = Some (p @ map f (take n s) @ drop n s)"
proof (induction n arbitrary: p s)
  case 0
  then show ?case by simp
next
  case (Suc n)
  then obtain c s' where "s = c # s'" by (cases s) auto
  then show ?case
    using Suc.IH [of s' "p @ [f c]"] Suc.prems by (simp add: rd_def wr_def nth_append list_update_append)
qed

section \<open>Lemmas: UTF-8\<close>

lemma high_bit: "(ch :: u8) AND 0x80 \<noteq> 0 \<longleftrightarrow> bit ch 7"
  by (simp add: bit_iff_and_push_bit_not_eq_0)

lemma sint_high_bit: "0 \<le> sint (ch :: u8) \<longleftrightarrow> \<not> bit ch 7"
  by (simp add: not_less [symmetric] bit_last_iff [symmetric] del: not_less)

lemma small_bits: "unat (u :: u32) < 2 ^ k \<Longrightarrow> k \<le> n \<Longrightarrow> \<not> bit u n"
proof -
  assume "unat u < 2 ^ k" "k \<le> n"
  then have "take_bit k (unat u) = unat u" by (simp add: take_bit_nat_eq_self)
  then have "\<not> bit (unat u) n"
    using \<open>k \<le> n\<close> by (metis bit_take_bit_iff not_less)
  then show ?thesis by (auto simp: bit_unsigned_iff)
qed

lemma low_bits: "bit (u :: u32) n \<Longrightarrow> unat u < 2 ^ k \<Longrightarrow> n < k"
  by (metis small_bits not_less)

lemma masks:
  "(0x01 :: u32) = mask 1" "(0x03 :: u32) = mask 2" "(0x07 :: u32) = mask 3" "(0x0F :: u32) = mask 4"
  "(0x1F :: u32) = mask 5" "(0x3F :: u32) = mask 6" "(0x7F :: u32) = mask 7"
  "(0x3F :: u8) = mask 6" "(0x07 :: u8) = mask 3" "(0x0F :: u8) = mask 4"
  by (simp_all add: mask_eq_exp_minus_1)

lemma bit_part: "bit (utf8_part u sh m mark) n \<longleftrightarrow> n < 8 \<and> (bit u (sh + n) \<and> bit m n \<or> bit mark n)"
  by (auto simp: utf8_part_def bit_simps)

lemma shift_or: "push_bit k (a :: u8) + (b AND mask k) = push_bit k a OR (b AND mask k)"
  by (rule disjunctive_add_eq_or) (auto intro!: bit_word_eqI simp: bit_simps)

lemma bit_two_bytes: "bit (two_bytes lo hi) n \<longleftrightarrow> (if n < 8 then bit lo n else n < 16 \<and> bit hi (n - 8))"
  by (auto simp: two_bytes_def bit_simps dest: bit_imp_le_length)

lemma leading_ones_step:
  "k \<le> 7 \<Longrightarrow> leading_ones (Suc n) (push_bit k ch)
    = (if bit ch (7 - k) then Suc (leading_ones n (push_bit (Suc k) ch)) else 0)"
proof -
  assume "k \<le> 7"
  then have "push_bit k ch AND 0x80 \<noteq> 0 \<longleftrightarrow> bit ch (7 - k)"
    unfolding high_bit by (simp add: bit_push_bit_iff)
  then show ?thesis by (simp add: push_bit_push_bit del: push_bit_of_Suc_0)
qed

lemma charbytes_bits:
  "cel_utf8_charbytes ch =
     (if \<not> bit ch 7 then 1 else if \<not> bit ch 6 then 1 else if \<not> bit ch 5 then 2 else if \<not> bit ch 4 then 3
      else if \<not> bit ch 3 then 4 else if \<not> bit ch 2 then 5 else if \<not> bit ch 1 then 6 else if \<not> bit ch 0 then 7 else 8)"
proof -
  have "leading_ones 8 ch = leading_ones (Suc (Suc (Suc (Suc (Suc (Suc (Suc (Suc 0)))))))) (push_bit 0 ch)"
    by (simp add: numeral_eq_Suc del: leading_ones.simps)
  also have "\<dots> = (if bit ch 7 then Suc (if bit ch 6 then Suc (if bit ch 5 then Suc (if bit ch 4 then Suc
      (if bit ch 3 then Suc (if bit ch 2 then Suc (if bit ch 1 then Suc (if bit ch 0 then Suc 0
       else 0) else 0) else 0) else 0) else 0) else 0) else 0) else 0)"
    by ((subst leading_ones_step, simp)+, simp)
  finally show ?thesis unfolding cel_utf8_charbytes_def sint_high_bit by simp
qed

section \<open>Properties\<close>

text \<open>The trims act on the C string as removal of the blanks, tabs and carriage returns at the
  left and at the right, and neither touches a byte outside its block; but \<open>cel_right_trim\<close>
  leaves a string of blanks only as it is.\<close>

theorem trims_strip_blanks:
  assumes "0 \<in> set buf"
  shows "(\<exists>buf'. cel_left_trim buf = Some buf' \<and> length buf' = length buf \<and> cstr buf' = dropWhile blank (cstr buf))
     \<and> (\<exists>buf'. cel_right_trim buf = Some buf' \<and> length buf' = length buf
       \<and> cstr buf' = (if list_all blank (cstr buf) then cstr buf else rev (dropWhile blank (rev (cstr buf)))))"
proof (rule conjI)
  obtain r where r: "buf = cstr buf @ 0 # r" using assms by (rule terminatedE)
  let ?s = "cstr buf"
  have nn: "no_nul ?s" "no_nul (dropWhile blank ?s)" "no_nul (right_strip ?s)"
    unfolding right_strip_def no_nul_def
    by (auto simp: cstr_def dest!: set_dropWhileD set_takeWhileD)
  obtain g where "length g = length (takeWhile blank ?s)" "cel_left_trim buf = Some (dropWhile blank ?s @ 0 # g @ r)"
    using left_trim_terminated [OF nn(1), of r] r by metis
  moreover from this(1) have "length (dropWhile blank ?s @ 0 # g @ r) = length buf"
    using arg_cong [OF takeWhile_dropWhile_id [of blank ?s], of length] arg_cong [OF r, of length]
    by (simp del: takeWhile_dropWhile_id)
  ultimately show "\<exists>buf'. cel_left_trim buf = Some buf' \<and> length buf' = length buf \<and> cstr buf' = dropWhile blank (cstr buf)"
    using nn(2) by simp
  obtain h where h: "length (right_strip ?s) + length h = length ?s"
    "cel_right_trim buf = Some (if list_all blank ?s then ?s @ 0 # r else right_strip ?s @ 0 # h @ r)"
    using right_trim_terminated [OF nn(1), of r] r by metis
  moreover from h(1) have "length (right_strip ?s @ 0 # h @ r) = length buf"
    using arg_cong [OF r, of length] by simp
  ultimately show "\<exists>buf'. cel_right_trim buf = Some buf' \<and> length buf' = length buf
       \<and> cstr buf' = (if list_all blank (cstr buf) then cstr buf else rev (dropWhile blank (rev (cstr buf))))"
    using nn(3) r by (cases "list_all blank ?s") (auto simp: right_strip_def)
qed

lemma trims_strip_blanks_witness:
  "(\<exists>buf'. cel_left_trim [32, 9, 97, 32, 98, 0] = Some buf' \<and> cstr buf' = [97, 32, 98])
   \<and> (\<exists>buf'. cel_right_trim [32, 9, 32, 0] = Some buf' \<and> cstr buf' = [32, 9, 32])"
  using trims_strip_blanks [of "[32, 9, 97, 32, 98, 0]"] trims_strip_blanks [of "[32, 9, 32, 0]"]
  by (auto simp: cstr_def blank_def)

lemma utf8_length: "length (utf8_word u) \<le> 6"
  by (simp add: utf8_word_def)

lemma utf8_decode_1:
  assumes "unat u < 2 ^ 7"
  shows "two_bytes (ucast (u AND 0x7F)) 0 = u"
  using low_bits [OF _ assms] unfolding masks
  by (intro bit_word_eqI) (force simp: bit_two_bytes bit_simps)

lemma marks:
  "(0x80 :: u32) = push_bit 7 (mask 1)" "(0xC0 :: u32) = push_bit 6 (mask 2)" "(0xE0 :: u32) = push_bit 5 (mask 3)"
  "(0xF0 :: u32) = push_bit 4 (mask 4)" "(0xF8 :: u32) = push_bit 3 (mask 5)" "(0xFC :: u32) = push_bit 2 (mask 6)"
  by (simp_all add: mask_eq_exp_minus_1)

lemma bit_mark: "bit (push_bit k (mask j) :: u32) n \<longleftrightarrow> k \<le> n \<and> n < k + j \<and> n < 32"
  by (auto simp: bit_simps)

lemma bit_marks:
  "bit (0x80 :: u32) n \<longleftrightarrow> n = 7" "bit (0xC0 :: u32) n \<longleftrightarrow> 6 \<le> n \<and> n < 8" "bit (0xE0 :: u32) n \<longleftrightarrow> 5 \<le> n \<and> n < 8"
  "bit (0xF0 :: u32) n \<longleftrightarrow> 4 \<le> n \<and> n < 8" "bit (0xF8 :: u32) n \<longleftrightarrow> 3 \<le> n \<and> n < 8"
  "bit (0xFC :: u32) n \<longleftrightarrow> 2 \<le> n \<and> n < 8"
  unfolding marks bit_mark by auto

lemma bit_masks:
  "bit (0x01 :: u32) n \<longleftrightarrow> n < 1" "bit (0x03 :: u32) n \<longleftrightarrow> n < 2" "bit (0x07 :: u32) n \<longleftrightarrow> n < 3"
  "bit (0x0F :: u32) n \<longleftrightarrow> n < 4" "bit (0x1F :: u32) n \<longleftrightarrow> n < 5" "bit (0x3F :: u32) n \<longleftrightarrow> n < 6"
  "bit (0x7F :: u32) n \<longleftrightarrow> n < 7"
  "bit (0x3F :: u8) n \<longleftrightarrow> n < 6" "bit (0x07 :: u8) n \<longleftrightarrow> n < 3" "bit (0x0F :: u8) n \<longleftrightarrow> n < 4"
  unfolding masks by (auto simp: bit_mask_iff bit_1_iff)

lemmas utf8_bits = bit_two_bytes bit_part bit_marks bit_masks bit_or_iff bit_and_iff bit_push_bit_iff bit_drop_bit_eq

lemma shift_or_masks:
  "push_bit 6 (a :: u8) + (b AND 0x3F) = push_bit 6 a OR (b AND 0x3F)"
  "push_bit 4 (a :: u8) + (b AND 0x0F) = push_bit 4 a OR (b AND 0x0F)"
  unfolding masks shift_or by simp_all

lemma bit_six: "bit u n \<Longrightarrow> n < 8 \<Longrightarrow> n \<noteq> 7 \<Longrightarrow> \<not> n < 6 \<Longrightarrow> bit u 6"
  by (cases "n = 6") auto

lemma utf8_decode_2:
  assumes "unat u < 2 ^ 11"
  shows "two_bytes (push_bit 6 (utf8_part u 6 0x1F 0xC0) + (utf8_part u 0 0x3F 0x80 AND 0x3F))
    (drop_bit 2 (utf8_part u 6 0x1F 0xC0) AND 0x07) = u"
  unfolding shift_or_masks
  by (rule bit_word_eqI)
    (auto simp: utf8_bits simp del: add_2_eq_Suc add_2_eq_Suc' bit_numeral_word_iff dest: low_bits [OF _ assms] intro: bit_six)

lemma utf8_decode_3:
  assumes "unat u < 2 ^ 16"
  shows "two_bytes (push_bit 6 (utf8_part u 6 0x3F 0x80) + (utf8_part u 0 0x3F 0x80 AND 0x3F))
    (push_bit 4 (utf8_part u 12 0x0F 0xE0) + (drop_bit 2 (utf8_part u 6 0x3F 0x80) AND 0x0F)) = u"
  unfolding shift_or_masks
  by (rule bit_word_eqI)
    (auto simp: utf8_bits simp del: add_2_eq_Suc add_2_eq_Suc' bit_numeral_word_iff dest: low_bits [OF _ assms] intro: bit_six)

lemmas lead_marks = charbytes_bits bit_part bit_marks bit_masks

lemma utf8_leads:
  "cel_utf8_charbytes (utf8_part u 6 0x1F 0xC0) = 2" "cel_utf8_charbytes (utf8_part u 12 0x0F 0xE0) = 3"
  "cel_utf8_charbytes (utf8_part u 18 0x07 0xF0) = 4" "cel_utf8_charbytes (utf8_part u 24 0x03 0xF8) = 5"
  "cel_utf8_charbytes (utf8_part u 30 0x01 0xFC) = 6" "cel_utf8_charbytes (ucast (u AND 0x7F)) = 1"
  by (simp_all add: lead_marks bit_and_iff bit_ucast_iff del: bit_numeral_word_iff)

lemma utf8_decode:
  assumes "unat u < 2 ^ 31"
  shows "cel_utf8_charbytes (hd (utf8_word u)) = length (utf8_word u)"
    and "cel_utf8_to_ucode (utf8_word u @ r) = Some (if u \<le> 0xFFFF then u else 0)"
proof -
  consider "unat u < 2 ^ 7" | "2 ^ 7 \<le> unat u" "unat u < 2 ^ 11" | "2 ^ 11 \<le> unat u" "unat u < 2 ^ 16"
    | "2 ^ 16 \<le> unat u"
    by linarith
  then show "cel_utf8_to_ucode (utf8_word u @ r) = Some (if u \<le> 0xFFFF then u else 0)"
  proof cases
    case 1
    then show ?thesis
      using utf8_decode_1 [OF 1]
      by (simp add: utf8_word_def cel_utf8_to_ucode_def word_le_nat_alt rd_def utf8_leads)
  next
    case 2
    then show ?thesis
      using utf8_decode_2 [OF 2(2)] utf8_leads(1) [of u, unfolded numeral_2_eq_2]
      by (simp add: utf8_word_def cel_utf8_to_ucode_def word_le_nat_alt rd_def)
  next
    case 3
    then show ?thesis
      using utf8_decode_3 [OF 3(2)] utf8_leads(2) [of u, unfolded numeral_3_eq_3]
      by (simp add: utf8_word_def cel_utf8_to_ucode_def word_le_nat_alt rd_def)
  next
    case 4
    have far: "(case k of Suc 0 \<Rightarrow> a | Suc (Suc 0) \<Rightarrow> b | Suc (Suc (Suc 0)) \<Rightarrow> c | _ \<Rightarrow> d) = d"
      if "k = 4 \<or> k = 5 \<or> k = 6" for k :: nat and a b c d :: "u32 option"
      using that by (auto simp: eval_nat_numeral)
    show ?thesis
      using 4 assms
      by (simp add: utf8_word_def cel_utf8_to_ucode_def word_le_nat_alt rd_def utf8_leads far)
  qed
  show "cel_utf8_charbytes (hd (utf8_word u)) = length (utf8_word u)"
    using assms by (simp add: utf8_word_def utf8_leads word_le_nat_alt)
qed

text \<open>C40: decoding inverts encoding for every code point up to \<open>0xFFFF\<close>: the first byte announces
  the number of bytes written, and \<open>cel_utf8_to_ucode\<close> recovers the code point; of the longer
  encodings it makes 0.\<close>

theorem utf8_round_trip:
  assumes "unat u < 2 ^ 31" "6 \<le> length buf"
  shows "\<exists>buf' n. cel_ucode_to_utf8 u buf = Some (buf', n) \<and> length buf' = length buf
     \<and> cel_utf8_charbytes (hd buf') = n
     \<and> cel_utf8_to_ucode buf' = Some (if u \<le> 0xFFFF then u else 0)"
proof -
  let ?w = "utf8_word u"
  have "length ?w \<le> length buf" using utf8_length [of u] assms(2) by simp
  then have "cel_ucode_to_utf8 u buf = Some (?w @ drop (length ?w) buf, length ?w)"
    by (simp add: cel_ucode_to_utf8_def blit_def)
  moreover have "hd (?w @ drop (length ?w) buf) = hd ?w"
    using assms(1) by (simp add: utf8_word_def word_le_nat_alt)
  ultimately show ?thesis
    using utf8_decode [OF assms(1)] \<open>length ?w \<le> length buf\<close> by simp
qed

lemma utf8_round_trip_witness:
  "\<exists>buf' n. cel_ucode_to_utf8 0x4E2D (replicate 8 0) = Some (buf', n)
     \<and> cel_utf8_charbytes (hd buf') = n \<and> cel_utf8_to_ucode buf' = Some 0x4E2D"
  using utf8_round_trip [of "0x4E2D" "replicate 8 0"] by auto

text \<open>The case conversions change the letters among the first \<open>size\<close> bytes and nothing else.\<close>

lemma case_conversion:
  assumes "n \<le> length s"
  shows "cel_strtolower s n = Some (map to_lower (take n s) @ drop n s)"
    and "cel_strtoupper s n = Some (map to_upper (take n s) @ drop n s)"
  using case_loop_map [OF assms, of to_lower "[]"] case_loop_map [OF assms, of to_upper "[]"]
  by (simp_all add: cel_strtolower_def cel_strtoupper_def)

end
