(* ===== verification/Sequence.thy ===== *)
theory Sequence
  imports Prelude
begin

text \<open>
  The contract that \<open>cel_array_t\<close> and \<open>cel_link_t\<close> share: a list of pointers with an operation to
  append, to insert and remove at an index, to read and to replace.  An index outside the list
  leaves it alone and gives null.

  \<open>spec_step\<close> is the specification, over HOL lists.  The locale \<open>sequence\<close> names the operations and
  their laws, and derives that every run of operations on an implementation is a run of the
  specification.  It is interpreted in \<open>CelArray\<close> and in \<open>CelLink\<close>.
\<close>

type_synonym ptr = nat

datatype seq_op = Add ptr | Insert nat ptr | Remove nat | Get nat | Set nat ptr

definition insert_at :: "nat \<Rightarrow> 'a \<Rightarrow> 'a list \<Rightarrow> 'a list" where
  "insert_at i x xs = take i xs @ x # drop i xs"

definition remove_at :: "nat \<Rightarrow> 'a list \<Rightarrow> 'a list" where
  "remove_at i xs = take i xs @ drop (Suc i) xs"

text \<open>The list after the operation, and the pointer it returns.\<close>

fun spec_step :: "ptr list \<Rightarrow> seq_op \<Rightarrow> ptr list \<times> ptr" where
  "spec_step xs (Add x) = (xs @ [x], 0)"
| "spec_step xs (Insert i x) = (if i < length xs then insert_at i x xs else xs, 0)"
| "spec_step xs (Remove i) = (if i < length xs then (remove_at i xs, xs ! i) else (xs, 0))"
| "spec_step xs (Get i) = (xs, if i < length xs then xs ! i else 0)"
| "spec_step xs (Set i x) = (if i < length xs then (xs[i := x], xs ! i) else (xs, 0))"

fun spec_run :: "ptr list \<Rightarrow> seq_op list \<Rightarrow> ptr list \<times> ptr list" where
  "spec_run xs [] = (xs, [])"
| "spec_run xs (op # ops) =
     (let (xs, r) = spec_step xs op; (xs, rs) = spec_run xs ops in (xs, r # rs))"

lemma length_insert_at: "i \<le> length xs \<Longrightarrow> length (insert_at i x xs) = Suc (length xs)"
  by (simp add: insert_at_def)

lemma length_remove_at: "i < length xs \<Longrightarrow> length (remove_at i xs) = length xs - 1"
  by (simp add: remove_at_def)

lemma spec_step_length: "length (fst (spec_step xs op)) \<le> Suc (length xs)"
  by (cases op) (auto simp: length_insert_at length_remove_at)

text \<open>The same run on an implementation given by its operations.\<close>

fun seq_step ::
  "('s \<Rightarrow> ptr \<Rightarrow> 's option) \<Rightarrow> ('s \<Rightarrow> nat \<Rightarrow> ptr \<Rightarrow> 's option) \<Rightarrow> ('s \<Rightarrow> nat \<Rightarrow> ('s \<times> ptr) option)
   \<Rightarrow> ('s \<Rightarrow> nat \<Rightarrow> ptr option) \<Rightarrow> ('s \<Rightarrow> nat \<Rightarrow> ptr \<Rightarrow> ('s \<times> ptr) option) \<Rightarrow> 's \<Rightarrow> seq_op \<Rightarrow> ('s \<times> ptr) option" where
  "seq_step add ins rem get put s (Add x) = do { s \<leftarrow> add s x; Some (s, 0) }"
| "seq_step add ins rem get put s (Insert i x) = do { s \<leftarrow> ins s i x; Some (s, 0) }"
| "seq_step add ins rem get put s (Remove i) = rem s i"
| "seq_step add ins rem get put s (Get i) = do { r \<leftarrow> get s i; Some (s, r) }"
| "seq_step add ins rem get put s (Set i x) = put s i x"

fun seq_run :: "('s \<Rightarrow> seq_op \<Rightarrow> ('s \<times> ptr) option) \<Rightarrow> 's \<Rightarrow> seq_op list \<Rightarrow> ('s \<times> ptr list) option" where
  "seq_run step s [] = Some (s, [])"
| "seq_run step s (op # ops) = do {
     (s, r) \<leftarrow> step s op;
     (s, rs) \<leftarrow> seq_run step s ops;
     Some (s, r # rs) }"

locale sequence =
  fixes inv :: "'s \<Rightarrow> bool"
    and elems :: "'s \<Rightarrow> ptr list"
    and fits :: "'s \<Rightarrow> bool"
    and add :: "'s \<Rightarrow> ptr \<Rightarrow> 's option"
    and ins :: "'s \<Rightarrow> nat \<Rightarrow> ptr \<Rightarrow> 's option"
    and rem :: "'s \<Rightarrow> nat \<Rightarrow> ('s \<times> ptr) option"
    and get :: "'s \<Rightarrow> nat \<Rightarrow> ptr option"
    and put :: "'s \<Rightarrow> nat \<Rightarrow> ptr \<Rightarrow> ('s \<times> ptr) option"
    and cap :: nat
  assumes add_law: "inv s \<Longrightarrow> length (elems s) < cap \<Longrightarrow> \<exists>s'. add s x = Some s' \<and> inv s' \<and> elems s' = elems s @ [x]"
    and ins_law: "inv s \<Longrightarrow> length (elems s) < cap \<Longrightarrow>
      \<exists>s'. ins s i x = Some s' \<and> inv s' \<and> elems s' = (if i < length (elems s) then insert_at i x (elems s) else elems s)"
    and rem_law: "inv s \<Longrightarrow> fits s \<Longrightarrow>
      \<exists>s' r. rem s i = Some (s', r) \<and> inv s'
        \<and> (elems s', r) = (if i < length (elems s) then (remove_at i (elems s), elems s ! i) else (elems s, 0))"
    and get_law: "inv s \<Longrightarrow> get s i = Some (if i < length (elems s) then elems s ! i else 0)"
    and put_law: "inv s \<Longrightarrow> \<exists>s' r. put s i x = Some (s', r) \<and> inv s'
        \<and> (elems s', r) = (if i < length (elems s) then ((elems s)[i := x], elems s ! i) else (elems s, 0))"
begin

lemma step_refines:
  assumes "inv s" "length (elems s) < cap" "\<And>i. op = Remove i \<Longrightarrow> fits s"
  obtains s' r where "seq_step add ins rem get put s op = Some (s', r)" "inv s'"
    "spec_step (elems s) op = (elems s', r)"
proof (cases op)
  case (Add x)
  with assms add_law [of s x] that show ?thesis by auto
next
  case (Insert i x)
  with assms ins_law [of s i x] that show ?thesis by auto
next
  case (Remove i)
  with assms rem_law [of s i] that show ?thesis by auto
next
  case (Get i)
  with assms get_law [of s i] that show ?thesis by auto
next
  case (Set i x)
  with assms put_law [of s i x] that show ?thesis by auto
qed

lemma run_refines:
  assumes "\<And>s. inv s \<Longrightarrow> fits s \<or> (\<forall>i. Remove i \<notin> set all)"
  shows "inv s \<Longrightarrow> length (elems s) + length ops \<le> cap \<Longrightarrow> set ops \<subseteq> set all \<Longrightarrow>
    \<exists>s' rs. seq_run (seq_step add ins rem get put) s ops = Some (s', rs) \<and> inv s'
      \<and> spec_run (elems s) ops = (elems s', rs)"
proof (induction ops arbitrary: s)
  case Nil
  then show ?case by simp
next
  case (Cons op ops)
  have "fits s" if "op = Remove i" for i using assms [OF Cons.prems(1)] Cons.prems(3) that by auto
  then obtain s1 r where s1: "seq_step add ins rem get put s op = Some (s1, r)" "inv s1"
    "spec_step (elems s) op = (elems s1, r)"
    using step_refines [of s op] Cons.prems by auto
  have "length (elems s1) \<le> Suc (length (elems s))"
    using spec_step_length [of "elems s" op] s1(3) by simp
  then obtain s' rs where "seq_run (seq_step add ins rem get put) s1 ops = Some (s', rs)" "inv s'"
    "spec_run (elems s1) ops = (elems s', rs)"
    using Cons.IH [OF s1(2)] Cons.prems by auto
  with s1 show ?case by simp
qed

end

end
