(* ===== verification/CelArray.thy ===== *)
theory CelArray
  imports Sequence
begin

text \<open>
  The growing arrays of \<open>src/main/cel_array.c\<close>: \<open>cel_array_t\<close> of pointers and \<open>cel_intArray_t\<close> of
  integers.  Both have the state of the record \<open>carray\<close>: the block \<open>items\<close>, its \<open>length\<close> and the
  number \<open>size\<close> of items in use.  A null pointer is 0, a null block has no cells.  \<open>al\<close> says for how
  many bytes an allocation succeeds; the result of \<open>calloc\<close> is used unchecked when an array grows.

  Shown: the pointer array meets the contract \<open>sequence\<close>, with the exception the code has: deleting
  from an array that fills its block reads one item past its end.  The integer array reads past the
  end of its block whenever it grows.
\<close>

record 'a carray =
  ar_items :: "'a list"
  ar_size :: nat
  ar_length :: nat

section \<open>The pointer array\<close>

definition create_array_blocks :: "(nat \<Rightarrow> bool) \<Rightarrow> nat \<Rightarrow> ptr list option" where
  "create_array_blocks al n = (if al (8 * n) then Some (replicate n 0) else None)"

definition cel_array_init :: "(nat \<Rightarrow> bool) \<Rightarrow> ptr carray \<Rightarrow> int \<Rightarrow> ptr carray \<times> nat" where
  "cel_array_init al a opacity =
     (let opacity = (if opacity < 0 then 16 else nat opacity) in
      case create_array_blocks al opacity of
        None \<Rightarrow> (a\<lparr>ar_items := []\<rparr>, 0)
      | Some b \<Rightarrow> (a\<lparr>ar_items := b, ar_length := opacity, ar_size := 0\<rparr>, 1))"

definition new_cel_array_opacity :: "(nat \<Rightarrow> bool) \<Rightarrow> int \<Rightarrow> unit + ptr carray" where
  "new_cel_array_opacity al opacity =
     (if \<not> al 16 then Inl ()
      else case cel_array_init al \<lparr>ar_items = [], ar_size = 0, ar_length = 0\<rparr> opacity of
        (a, ok) \<Rightarrow> if ok = 0 then Inl () else Inr a)"

text \<open>\<open>cel_array_destroy\<close> releases the items in order; the result lists the arguments of the
  callback.\<close>

definition cel_array_destroy :: "ptr carray \<Rightarrow> bool \<Rightarrow> (ptr carray \<times> ptr list) option" where
  "cel_array_destroy a callback =
     (if callback \<and> length (ar_items a) < ar_size a then None
      else Some (a\<lparr>ar_items := []\<rparr>, if callback then take (ar_size a) (ar_items a) else []))"

definition resize_array :: "(nat \<Rightarrow> bool) \<Rightarrow> ptr carray \<Rightarrow> nat \<Rightarrow> ptr carray option" where
  "resize_array al a n = do {
     nitems \<leftarrow> create_array_blocks al n;
     nitems \<leftarrow> blit nitems 0 (ar_items a) (ar_size a);
     Some (a\<lparr>ar_items := nitems, ar_length := n\<rparr>) }"

definition cel_array_add :: "(nat \<Rightarrow> bool) \<Rightarrow> ptr carray \<Rightarrow> ptr \<Rightarrow> ptr carray option" where
  "cel_array_add al a v = do {
     a \<leftarrow> (if ar_size a \<ge> ar_length a then resize_array al a (wrap32 (ar_size a * 2 + 1)) else Some a);
     items \<leftarrow> wr (ar_items a) (ar_size a) v;
     Some (a\<lparr>ar_items := items, ar_size := wrap32 (ar_size a + 1)\<rparr>) }"

text \<open>The loop \<open>for ( i = size; i > idx; i-- ) items[i] = items[i - 1]\<close> is \<open>shift_up\<close> by 1.\<close>

definition cel_array_insert :: "(nat \<Rightarrow> bool) \<Rightarrow> ptr carray \<Rightarrow> nat \<Rightarrow> ptr \<Rightarrow> ptr carray option" where
  "cel_array_insert al a idx v =
     (if idx < ar_size a then do {
        a \<leftarrow> (if ar_size a \<ge> ar_length a then resize_array al a (wrap32 (ar_size a * 2 + 1)) else Some a);
        items \<leftarrow> shift_up (ar_items a) 1 idx (ar_size a);
        items \<leftarrow> wr items idx v;
        Some (a\<lparr>ar_items := items, ar_size := wrap32 (ar_size a + 1)\<rparr>) }
      else Some a)"

text \<open>The loop \<open>for ( i = idx; i < size; i++ ) items[i] = items[i+1]\<close> is \<open>shift_down\<close> by 1 with
  \<open>size - idx\<close> steps: the last one reads \<open>items[size]\<close>.\<close>

definition cel_array_del :: "ptr carray \<Rightarrow> nat \<Rightarrow> (ptr carray \<times> ptr) option" where
  "cel_array_del a idx =
     (if idx \<ge> ar_size a then Some (a, 0)
      else do {
        old \<leftarrow> rd (ar_items a) idx;
        items \<leftarrow> shift_down (ar_items a) 1 (idx + 1) (ar_size a - idx);
        Some (a\<lparr>ar_items := items, ar_size := ar_size a - 1\<rparr>, old) })"

definition cel_array_get :: "ptr carray \<Rightarrow> nat \<Rightarrow> ptr option" where
  "cel_array_get a idx = (if idx \<ge> ar_size a then Some 0 else rd (ar_items a) idx)"

text \<open>The search loop with \<open>n\<close> items left; \<open>cfunc\<close> is the caller's comparison.\<close>

fun get_obj_loop :: "ptr list \<Rightarrow> ptr \<Rightarrow> (ptr \<Rightarrow> ptr \<Rightarrow> int) \<Rightarrow> nat \<Rightarrow> nat \<Rightarrow> int option" where
  "get_obj_loop items obj cfunc i 0 = Some (- 1)"
| "get_obj_loop items obj cfunc i (Suc n) = do {
     x \<leftarrow> rd items i;
     (if obj = x \<or> cfunc x obj = 0 then Some (int i) else get_obj_loop items obj cfunc (Suc i) n) }"

definition cel_array_get_obj :: "ptr carray \<Rightarrow> ptr \<Rightarrow> (ptr \<Rightarrow> ptr \<Rightarrow> int) \<Rightarrow> int option" where
  "cel_array_get_obj a obj cfunc = get_obj_loop (ar_items a) obj cfunc 0 (ar_size a)"

definition cel_array_del_obj :: "ptr carray \<Rightarrow> ptr \<Rightarrow> (ptr \<Rightarrow> ptr \<Rightarrow> int) \<Rightarrow> (ptr carray \<times> ptr) option" where
  "cel_array_del_obj a obj cfunc = do {
     i \<leftarrow> cel_array_get_obj a obj cfunc;
     (if i = - 1 then Some (a, 0) else cel_array_del a (nat i)) }"

definition cel_array_set :: "ptr carray \<Rightarrow> nat \<Rightarrow> ptr \<Rightarrow> (ptr carray \<times> ptr) option" where
  "cel_array_set a idx v =
     (if idx \<ge> ar_size a then Some (a, 0)
      else do {
        old \<leftarrow> rd (ar_items a) idx;
        items \<leftarrow> wr (ar_items a) idx v;
        Some (a\<lparr>ar_items := items\<rparr>, old) })"

definition cel_array_set_obj ::
  "ptr carray \<Rightarrow> ptr \<Rightarrow> ptr \<Rightarrow> (ptr \<Rightarrow> ptr \<Rightarrow> int) \<Rightarrow> (ptr carray \<times> ptr) option" where
  "cel_array_set_obj a obj v cfunc = do {
     i \<leftarrow> cel_array_get_obj a obj cfunc;
     (if i = - 1 then Some (a, 0) else cel_array_set a (nat i) v) }"

section \<open>The integer array\<close>

definition cel_intArray_init :: "(nat \<Rightarrow> bool) \<Rightarrow> int carray \<Rightarrow> nat \<Rightarrow> int carray \<times> nat" where
  "cel_intArray_init al a opacity =
     (if al (4 * opacity)
      then (a\<lparr>ar_items := replicate opacity 0, ar_length := opacity, ar_size := 0\<rparr>, 1)
      else (a\<lparr>ar_items := []\<rparr>, 0))"

definition new_cel_intArray_opacity :: "(nat \<Rightarrow> bool) \<Rightarrow> nat \<Rightarrow> unit + int carray" where
  "new_cel_intArray_opacity al opacity =
     (if \<not> al 16 then Inl ()
      else case cel_intArray_init al \<lparr>ar_items = [], ar_size = 0, ar_length = 0\<rparr> opacity of
        (a, ok) \<Rightarrow> if ok = 0 then Inl () else Inr a)"

text \<open>The copy takes \<open>size * sizeof(int *)\<close> bytes, which are \<open>2 * size\<close> integers.\<close>

definition resize_intArray :: "(nat \<Rightarrow> bool) \<Rightarrow> int carray \<Rightarrow> nat \<Rightarrow> int carray option" where
  "resize_intArray al a n =
     (if al (4 * n) then do {
        nitems \<leftarrow> blit (replicate n 0) 0 (ar_items a) (2 * ar_size a);
        Some (a\<lparr>ar_items := nitems, ar_length := n\<rparr>) }
      else None)"

definition cel_intArray_add :: "(nat \<Rightarrow> bool) \<Rightarrow> int carray \<Rightarrow> int \<Rightarrow> (int carray \<times> nat) option" where
  "cel_intArray_add al a v = do {
     a \<leftarrow> (if ar_size a \<ge> ar_length a then resize_intArray al a (wrap32 (ar_size a * 2 + 1)) else Some a);
     items \<leftarrow> wr (ar_items a) (ar_size a) v;
     Some (a\<lparr>ar_items := items, ar_size := wrap32 (ar_size a + 1)\<rparr>, 1) }"

definition cel_intArray_insert :: "(nat \<Rightarrow> bool) \<Rightarrow> int carray \<Rightarrow> nat \<Rightarrow> int \<Rightarrow> (int carray \<times> nat) option" where
  "cel_intArray_insert al a idx v =
     (if idx \<ge> ar_size a then Some (a, 0)
      else do {
        a \<leftarrow> (if ar_size a \<ge> ar_length a then resize_intArray al a (wrap32 (ar_size a * 2 + 1)) else Some a);
        items \<leftarrow> shift_up (ar_items a) 1 idx (ar_size a);
        items \<leftarrow> wr items idx v;
        Some (a\<lparr>ar_items := items, ar_size := wrap32 (ar_size a + 1)\<rparr>, 1) })"

definition cel_intArray_del :: "int carray \<Rightarrow> nat \<Rightarrow> (int carray \<times> nat) option" where
  "cel_intArray_del a idx =
     (if idx \<ge> ar_size a then Some (a, 0)
      else do {
        items \<leftarrow> shift_down (ar_items a) 1 (idx + 1) (ar_size a - idx);
        Some (a\<lparr>ar_items := items, ar_size := ar_size a - 1\<rparr>, 1) })"

text \<open>\<open>cel_intArray_get_obj\<close> answers 0, not -1, when the value is not there.\<close>

fun int_obj_loop :: "int list \<Rightarrow> int \<Rightarrow> nat \<Rightarrow> nat \<Rightarrow> int option" where
  "int_obj_loop items v i 0 = Some 0"
| "int_obj_loop items v i (Suc n) = do {
     x \<leftarrow> rd items i;
     (if x = v then Some (int i) else int_obj_loop items v (Suc i) n) }"

definition cel_intArray_get_obj :: "int carray \<Rightarrow> int \<Rightarrow> int option" where
  "cel_intArray_get_obj a v = int_obj_loop (ar_items a) v 0 (ar_size a)"

definition cel_intArray_del_obj :: "int carray \<Rightarrow> int \<Rightarrow> (int carray \<times> nat) option" where
  "cel_intArray_del_obj a v = do {
     i \<leftarrow> cel_intArray_get_obj a v;
     (if i = - 1 then Some (a, 0) else cel_intArray_del a (nat i)) }"

section \<open>Invariant and contents\<close>

definition ar_wf :: "'a carray \<Rightarrow> bool" where
  "ar_wf a \<longleftrightarrow> length (ar_items a) = ar_length a \<and> ar_size a \<le> ar_length a \<and> ar_length a < 2 ^ 31"

definition ar_elems :: "'a carray \<Rightarrow> 'a list" where
  "ar_elems a = take (ar_size a) (ar_items a)"

lemma length_ar_elems: "ar_wf a \<Longrightarrow> length (ar_elems a) = ar_size a"
  by (simp add: ar_wf_def ar_elems_def)

lemma ar_wfI:
  "ar_items a = xs @ r \<Longrightarrow> ar_size a = length xs \<Longrightarrow> ar_length a = length (xs @ r) \<Longrightarrow> ar_length a < 2 ^ 31
   \<Longrightarrow> ar_wf a \<and> ar_elems a = xs"
  unfolding ar_wf_def ar_elems_def by auto

lemma ar_split:
  assumes "ar_wf a"
  obtains r where "ar_items a = ar_elems a @ r" "ar_length a = ar_size a + length r" "ar_size a = length (ar_elems a)"
proof (rule that)
  show "ar_items a = ar_elems a @ drop (ar_size a) (ar_items a)" by (simp add: ar_elems_def)
  have "length (ar_items a) = ar_length a" "ar_size a \<le> ar_length a" using assms by (simp_all add: ar_wf_def)
  then show "ar_length a = ar_size a + length (drop (ar_size a) (ar_items a))" by simp
  show "ar_size a = length (ar_elems a)" by (rule length_ar_elems [OF assms, symmetric])
qed

text \<open>After the guard in front of a write the array has a free item.\<close>

lemma array_room:
  assumes "ar_wf a" "ar_size a < 2 ^ 30" "\<And>n. al n"
  obtains a' where "(if ar_size a \<ge> ar_length a then resize_array al a (wrap32 (ar_size a * 2 + 1)) else Some a) = Some a'"
    "ar_wf a'" "ar_elems a' = ar_elems a" "ar_size a' = ar_size a" "ar_size a < ar_length a'"
proof (cases "ar_size a \<ge> ar_length a")
  case True
  let ?a = "a\<lparr>ar_items := ar_elems a @ replicate (ar_size a + 1) 0, ar_length := ar_size a * 2 + 1\<rparr>"
  have "resize_array al a (wrap32 (ar_size a * 2 + 1)) = Some ?a"
    using assms drop_replicate [of "ar_size a" "ar_size a * 2 + 1" "0 :: ptr"]
    by (simp add: resize_array_def create_array_blocks_def blit_def ar_wf_def ar_elems_def del: replicate_Suc)
  moreover have "ar_wf ?a \<and> ar_elems ?a = ar_elems a"
    using assms by (intro ar_wfI) (auto simp: length_ar_elems)
  ultimately show ?thesis using that [of ?a] True by simp
next
  case False
  with assms that [of a] show ?thesis by simp
qed

lemma array_add_law:
  assumes wf: "ar_wf a" and small: "length (ar_elems a) < 2 ^ 30"
  shows "\<exists>a'. cel_array_add (\<lambda>_. True) a v = Some a' \<and> ar_wf a' \<and> ar_elems a' = ar_elems a @ [v]"
proof -
  have "ar_size a < 2 ^ 30" using small by (simp add: length_ar_elems [OF wf])
  from array_room [OF wf this, of "\<lambda>_. True"] obtain a1 where
    a1: "(if ar_size a \<ge> ar_length a then resize_array (\<lambda>_. True) a (wrap32 (ar_size a * 2 + 1)) else Some a) = Some a1"
    "ar_wf a1" "ar_elems a1 = ar_elems a" "ar_size a1 = ar_size a" "ar_size a < ar_length a1" by blast
  obtain r where r: "ar_items a1 = ar_elems a1 @ r" "ar_length a1 = ar_size a1 + length r"
    "ar_size a1 = length (ar_elems a1)"
    using a1(2) by (rule ar_split)
  then obtain y r' where "r = y # r'" using a1(4,5) by (cases r) auto
  let ?a = "a1\<lparr>ar_items := (ar_elems a @ [v]) @ r', ar_size := ar_size a + 1\<rparr>"
  have "ar_wf ?a \<and> ar_elems ?a = ar_elems a @ [v]"
    using r a1 \<open>r = y # r'\<close> by (intro ar_wfI) (auto simp: ar_wf_def)
  moreover have "cel_array_add (\<lambda>_. True) a v = Some ?a"
    using a1(1) r a1(3,4) \<open>r = y # r'\<close> \<open>ar_size a < 2 ^ 30\<close>
    unfolding cel_array_add_def by (simp add: wr_def list_update_append)
  ultimately show ?thesis by blast
qed

lemma insert_cells:
  "i \<le> length xs \<Longrightarrow>
   \<exists>g. shift_up (xs @ y # r) 1 i (length xs) = Some (take i xs @ g # drop i xs @ r)"
proof -
  assume i: "i \<le> length xs"
  then obtain g where "length g = 1"
    "shift_up (take i xs @ drop i xs @ y # r) 1 (length (take i xs)) (length (take i xs) + length (drop i xs))
     = Some (take i xs @ g @ drop i xs @ drop 1 (y # r))"
    using shift_up_moves [of 1 "y # r" "take i xs" "drop i xs"] by auto
  with i show ?thesis by (cases g) (auto simp flip: append_assoc)
qed

lemma array_ins_law:
  assumes wf: "ar_wf a" and small: "length (ar_elems a) < 2 ^ 30"
  shows "\<exists>a'. cel_array_insert (\<lambda>_. True) a i v = Some a' \<and> ar_wf a'
    \<and> ar_elems a' = (if i < length (ar_elems a) then insert_at i v (ar_elems a) else ar_elems a)"
proof (cases "i < length (ar_elems a)")
  case True
  have size: "ar_size a < 2 ^ 30" "i < ar_size a" using small True by (simp_all add: length_ar_elems [OF wf])
  from array_room [OF wf size(1), of "\<lambda>_. True"] obtain a1 where
    a1: "(if ar_size a \<ge> ar_length a then resize_array (\<lambda>_. True) a (wrap32 (ar_size a * 2 + 1)) else Some a) = Some a1"
    "ar_wf a1" "ar_elems a1 = ar_elems a" "ar_size a1 = ar_size a" "ar_size a < ar_length a1" by blast
  obtain r where r: "ar_items a1 = ar_elems a1 @ r" "ar_length a1 = ar_size a1 + length r"
    "ar_size a1 = length (ar_elems a1)"
    using a1(2) by (rule ar_split)
  then obtain y r' where y: "r = y # r'" using a1(4,5) by (cases r) auto
  obtain g where g: "shift_up (ar_items a1) 1 i (ar_size a1)
      = Some (take i (ar_elems a) @ g # drop i (ar_elems a) @ r')"
    using insert_cells [of i "ar_elems a" y r'] True r y a1(3) by auto
  let ?a = "a1\<lparr>ar_items := insert_at i v (ar_elems a) @ r', ar_size := ar_size a + 1\<rparr>"
  have "ar_wf ?a \<and> ar_elems ?a = insert_at i v (ar_elems a)"
    using r a1 y True by (intro ar_wfI [of _ _ r']) (auto simp: ar_wf_def length_insert_at)
  moreover have "cel_array_insert (\<lambda>_. True) a i v = Some ?a"
    using a1(1) g a1(3,4) size True
    unfolding cel_array_insert_def by (simp add: wr_def list_update_append insert_at_def)
  ultimately show ?thesis using True by simp
next
  case False
  with wf show ?thesis by (simp add: cel_array_insert_def length_ar_elems [OF wf] del: ar_elems_def)
qed

lemma delete_cells:
  assumes "i < length xs"
  shows "\<exists>g. shift_down (xs @ y # r) 1 (i + 1) (length xs - i) = Some (remove_at i xs @ y # g # r)"
proof -
  have split: "xs @ y # r = take i xs @ [xs ! i] @ (drop (Suc i) xs @ [y]) @ r"
    using assms by (simp add: id_take_nth_drop [symmetric])
  obtain g where "length g = 1"
    "shift_down (take i xs @ [xs ! i] @ (drop (Suc i) xs @ [y]) @ r) 1 (length (take i xs) + 1)
       (length (drop (Suc i) xs @ [y]))
     = Some (take i xs @ (drop (Suc i) xs @ [y]) @ g @ r)"
    using shift_down_moves [of "[xs ! i]" 1 "take i xs" "drop (Suc i) xs @ [y]" r] by auto
  moreover have "length (drop (Suc i) xs @ [y]) = length xs - i" "length (take i xs) = i" using assms by auto
  ultimately show ?thesis
    unfolding split remove_at_def by (cases g) (auto simp del: shift_down.simps)
qed

lemma shift_down_edge: "length m < i + n \<Longrightarrow> 0 < n \<Longrightarrow> shift_down m 1 i n = None"
proof (induction n arbitrary: m i)
  case 0
  then show ?case by simp
next
  case (Suc n)
  show ?case
  proof (cases "i < length m")
    case True
    with Suc.prems have "0 < n" by (cases n) auto
    with Suc.IH [of "m[i - 1 := m ! i]" "Suc i"] Suc.prems True show ?thesis
      by (simp add: rd_def wr_def)
  next
    case False
    then show ?thesis by (simp add: rd_def)
  qed
qed

lemma array_del_law:
  assumes wf: "ar_wf a" and roomy: "ar_size a < ar_length a"
  shows "\<exists>a' r. cel_array_del a i = Some (a', r) \<and> ar_wf a'
    \<and> (ar_elems a', r) = (if i < length (ar_elems a) then (remove_at i (ar_elems a), ar_elems a ! i) else (ar_elems a, 0))"
proof (cases "i < length (ar_elems a)")
  case True
  obtain r where r: "ar_items a = ar_elems a @ r" "ar_length a = ar_size a + length r"
    "ar_size a = length (ar_elems a)"
    using wf by (rule ar_split)
  then obtain y r' where y: "r = y # r'" using roomy by (cases r) auto
  obtain g where g: "shift_down (ar_items a) 1 (i + 1) (ar_size a - i)
      = Some (remove_at i (ar_elems a) @ y # g # r')"
    using delete_cells [OF True, of y r'] r y by auto
  let ?a = "a\<lparr>ar_items := remove_at i (ar_elems a) @ y # g # r', ar_size := ar_size a - 1\<rparr>"
  have "ar_wf ?a \<and> ar_elems ?a = remove_at i (ar_elems a)"
    using wf r y True by (intro ar_wfI [of _ _ "y # g # r'"]) (auto simp: ar_wf_def length_remove_at)
  moreover have "cel_array_del a i = Some (?a, ar_elems a ! i)"
    using g r True unfolding cel_array_del_def by (simp add: rd_def nth_append)
  ultimately show ?thesis using True by auto
next
  case False
  with wf show ?thesis by (simp add: cel_array_del_def length_ar_elems [OF wf])
qed

lemma array_get_law:
  assumes wf: "ar_wf a"
  shows "cel_array_get a i = Some (if i < length (ar_elems a) then ar_elems a ! i else 0)"
proof -
  obtain r where r: "ar_items a = ar_elems a @ r" "ar_length a = ar_size a + length r"
    "ar_size a = length (ar_elems a)"
    using wf by (rule ar_split)
  then show ?thesis by (simp add: cel_array_get_def rd_def nth_append)
qed

lemma array_set_law:
  assumes wf: "ar_wf a"
  shows "\<exists>a' r. cel_array_set a i v = Some (a', r) \<and> ar_wf a'
    \<and> (ar_elems a', r) = (if i < length (ar_elems a) then ((ar_elems a)[i := v], ar_elems a ! i) else (ar_elems a, 0))"
proof (cases "i < length (ar_elems a)")
  case True
  obtain r where r: "ar_items a = ar_elems a @ r" "ar_length a = ar_size a + length r"
    "ar_size a = length (ar_elems a)"
    using wf by (rule ar_split)
  let ?a = "a\<lparr>ar_items := (ar_elems a)[i := v] @ r\<rparr>"
  have "ar_wf ?a \<and> ar_elems ?a = (ar_elems a)[i := v]"
    using wf r by (intro ar_wfI [of _ _ r]) (auto simp: ar_wf_def)
  moreover have "cel_array_set a i v = Some (?a, ar_elems a ! i)"
    using r True unfolding cel_array_set_def by (simp add: rd_def wr_def nth_append list_update_append)
  ultimately show ?thesis using True by auto
next
  case False
  with wf show ?thesis by (simp add: cel_array_set_def length_ar_elems [OF wf])
qed

interpretation arr: sequence ar_wf ar_elems "\<lambda>a. ar_size a < ar_length a"
  "cel_array_add (\<lambda>_. True)" "cel_array_insert (\<lambda>_. True)" cel_array_del cel_array_get cel_array_set "2 ^ 30"
  by unfold_locales
    (simp_all add: array_add_law array_ins_law array_del_law array_get_law array_set_law del: ex_simps)

section \<open>Searching\<close>

text \<open>The first index whose item is the object or compares equal to it.\<close>

definition first_index :: "('a \<Rightarrow> bool) \<Rightarrow> 'a list \<Rightarrow> int" where
  "first_index P xs = (if list_ex P xs then int (length (takeWhile (\<lambda>x. \<not> P x) xs)) else - 1)"

lemma get_obj_loop_first:
  "length p = i \<Longrightarrow> get_obj_loop (p @ xs @ r) obj cfunc i (length xs)
   = Some (if list_ex (\<lambda>x. obj = x \<or> cfunc x obj = 0) xs
           then int (i + length (takeWhile (\<lambda>x. \<not> (obj = x \<or> cfunc x obj = 0)) xs)) else - 1)"
proof (induction xs arbitrary: p i)
  case Nil
  then show ?case by simp
next
  case (Cons x xs)
  then show ?case using Cons.IH [of "p @ [x]" "Suc i"] by (simp add: rd_def nth_append)
qed

lemma get_obj_first:
  assumes wf: "ar_wf a"
  shows "cel_array_get_obj a obj cfunc = Some (first_index (\<lambda>x. obj = x \<or> cfunc x obj = 0) (ar_elems a))"
proof -
  obtain r where r: "ar_items a = ar_elems a @ r" "ar_length a = ar_size a + length r"
    "ar_size a = length (ar_elems a)"
    using wf by (rule ar_split)
  then show ?thesis
    using get_obj_loop_first [of "[]" 0 "ar_elems a" r obj cfunc]
    by (simp add: cel_array_get_obj_def first_index_def)
qed

section \<open>Properties\<close>

text \<open>\<open>cel_array_del\<close> removes the item at the index and returns it when the block has a spare
  item; when the array fills its block the loop reads the item behind the block.\<close>

theorem array_del_reads_one_past:
  assumes "ar_wf a" "i < ar_size a"
  shows "ar_size a < ar_length a \<and> (\<exists>a'. cel_array_del a i = Some (a', ar_elems a ! i) \<and> ar_wf a'
       \<and> ar_elems a' = remove_at i (ar_elems a))
     \<or> ar_size a = ar_length a \<and> cel_array_del a i = None"
proof (cases "ar_size a < ar_length a")
  case True
  then show ?thesis
    using array_del_law [OF assms(1) True, of i] assms(2) length_ar_elems [OF assms(1)] by auto
next
  case False
  then have full: "ar_size a = ar_length a" "length (ar_items a) = ar_size a" using assms(1) by (auto simp: ar_wf_def)
  then have "shift_down (ar_items a) 1 (i + 1) (ar_size a - i) = None"
    using assms(2) by (intro shift_down_edge) auto
  then show ?thesis using full assms(2) by (simp add: cel_array_del_def rd_def)
qed

lemma array_del_reads_one_past_witness:
  "cel_array_del \<lparr>ar_items = [3, 4], ar_size = 2, ar_length = 2\<rparr> 0 = None
   \<and> (\<exists>a'. cel_array_del \<lparr>ar_items = [3, 4, 0], ar_size = 2, ar_length = 3\<rparr> 0 = Some (a', 3) \<and> ar_elems a' = [4])"
  using array_del_reads_one_past [of "\<lparr>ar_items = [3, 4], ar_size = 2, ar_length = 2\<rparr>" 0]
    array_del_reads_one_past [of "\<lparr>ar_items = [3, 4, 0], ar_size = 2, ar_length = 3\<rparr>" 0]
  by (auto simp: ar_wf_def ar_elems_def remove_at_def)

text \<open>The number of items the block holds after an operation: it grows when an item is stored and the
  block is full.  An operation overruns the block when it deletes an item of a full block.\<close>

fun block_after :: "ptr list \<Rightarrow> nat \<Rightarrow> seq_op \<Rightarrow> nat" where
  "block_after xs n (Add x) = (if n \<le> length xs then 2 * length xs + 1 else n)"
| "block_after xs n (Insert i x) = (if i < length xs \<and> n \<le> length xs then 2 * length xs + 1 else n)"
| "block_after xs n op = n"

fun overrun :: "ptr list \<Rightarrow> nat \<Rightarrow> seq_op \<Rightarrow> bool" where
  "overrun xs n (Remove i) = (i < length xs \<and> length xs = n)"
| "overrun xs n op = False"

fun overruns :: "ptr list \<Rightarrow> nat \<Rightarrow> seq_op list \<Rightarrow> bool" where
  "overruns xs n [] = False"
| "overruns xs n (op # ops) =
     (overrun xs n op \<or> overruns (fst (spec_step xs op)) (block_after xs n op) ops)"

abbreviation array_step :: "ptr carray \<Rightarrow> seq_op \<Rightarrow> (ptr carray \<times> ptr) option" where
  "array_step \<equiv> seq_step (cel_array_add (\<lambda>_. True)) (cel_array_insert (\<lambda>_. True))
     cel_array_del cel_array_get cel_array_set"

lemma array_step_length:
  assumes wf: "ar_wf a" and small: "length (ar_elems a) < 2 ^ 30" and step: "array_step a op = Some (a', r)"
  shows "ar_length a' = block_after (ar_elems a) (ar_length a) op"
proof -
  have len: "length (ar_elems a) = ar_size a" by (rule length_ar_elems [OF wf])
  show ?thesis
    using step small
    by (cases op)
      (auto simp: len cel_array_add_def cel_array_insert_def cel_array_del_def cel_array_get_def cel_array_set_def
        resize_array_def split: if_splits bind_splits)
qed

lemma array_step_refines:
  assumes wf: "ar_wf a" and small: "length (ar_elems a) < 2 ^ 30"
    and safe: "\<not> overrun (ar_elems a) (ar_length a) op"
  obtains a' r where "array_step a op = Some (a', r)" "ar_wf a'" "spec_step (ar_elems a) op = (ar_elems a', r)"
proof (cases "\<exists>i. op = Remove i \<and> ar_size a = ar_length a")
  case True
  then obtain i where i: "op = Remove i" "ar_size a = ar_length a" by blast
  with safe have "\<not> i < ar_size a" by (simp add: length_ar_elems [OF wf])
  with i that [of a 0] show ?thesis by (simp add: cel_array_del_def length_ar_elems [OF wf] wf)
next
  case False
  with wf have "ar_size a < ar_length a" if "op = Remove i" for i using that by (auto simp: ar_wf_def)
  with arr.step_refines [of a op] wf small that show ?thesis by metis
qed

text \<open>C10: every sequence of operations on a \<open>cel_array_t\<close>, deletions included, gives the results of the
  same operations on a list, keeps the invariant and leaves the block at the length the specification
  says; it is undefined exactly when, on the way, an item is deleted while the items fill the block
  (\<open>cel_array_del\<close> then reads the item behind it).  Without deletions a run is always defined.\<close>

theorem array_runs_like_list:
  assumes "ar_wf a" "ar_size a + length ops \<le> 2 ^ 30"
  shows "(seq_run (seq_step (cel_array_add (\<lambda>_. True)) (cel_array_insert (\<lambda>_. True))
        cel_array_del cel_array_get cel_array_set) a ops = None) = overruns (ar_elems a) (ar_length a) ops
     \<and> (\<not> overruns (ar_elems a) (ar_length a) ops \<longrightarrow>
        (\<exists>a' rs. seq_run (seq_step (cel_array_add (\<lambda>_. True)) (cel_array_insert (\<lambda>_. True))
          cel_array_del cel_array_get cel_array_set) a ops = Some (a', rs)
        \<and> ar_wf a' \<and> spec_run (ar_elems a) ops = (ar_elems a', rs)))
     \<and> ((\<forall>i. Remove i \<notin> set ops) \<longrightarrow> \<not> overruns (ar_elems a) (ar_length a) ops)"
  using assms
proof (induction ops arbitrary: a)
  case Nil
  then show ?case by simp
next
  case (Cons op ops)
  have len: "length (ar_elems a) = ar_size a" by (rule length_ar_elems [OF Cons.prems(1)])
  then have small: "length (ar_elems a) < 2 ^ 30" using Cons.prems(2) by simp
  show ?case
  proof (cases "overrun (ar_elems a) (ar_length a) op")
    case True
    then obtain i where i: "op = Remove i" "i < ar_size a" "ar_size a = ar_length a"
      using len by (cases op) auto
    with array_del_reads_one_past [OF Cons.prems(1) i(2)] show ?thesis by (auto simp: len)
  next
    case False
    then obtain a1 r where a1: "array_step a op = Some (a1, r)" "ar_wf a1"
      "spec_step (ar_elems a) op = (ar_elems a1, r)"
      using array_step_refines [OF Cons.prems(1) small] by blast
    have "ar_size a1 \<le> Suc (ar_size a)"
      using spec_step_length [of "ar_elems a" op] a1(3) len length_ar_elems [OF a1(2)] by simp
    moreover have "block_after (ar_elems a) (ar_length a) op = ar_length a1"
      using array_step_length [OF Cons.prems(1) small a1(1)] by simp
    ultimately show ?thesis
      using Cons.IH [OF a1(2)] Cons.prems(2) False a1 by auto
  qed
qed

lemma array_runs_like_list_witness:
  "\<exists>a a' rs. new_cel_array_opacity (\<lambda>_. True) 1 = Inr a
     \<and> seq_run (seq_step (cel_array_add (\<lambda>_. True)) (cel_array_insert (\<lambda>_. True))
        cel_array_del cel_array_get cel_array_set) a
          [Add 7, Add 8, Insert 1 9, Add 6, Remove 0, Set 0 5, Get 1, Get 9] = Some (a', rs)
     \<and> ar_elems a' = [5, 8, 6] \<and> rs = [0, 0, 0, 0, 7, 9, 8, 0]
     \<and> seq_run (seq_step (cel_array_add (\<lambda>_. True)) (cel_array_insert (\<lambda>_. True))
        cel_array_del cel_array_get cel_array_set) a [Add 7, Remove 0] = None"
proof -
  obtain a where a: "new_cel_array_opacity (\<lambda>_. True) 1 = Inr a" "ar_wf a" "ar_elems a = []" "ar_size a = 0"
      "ar_length a = 1"
    by (simp add: new_cel_array_opacity_def cel_array_init_def create_array_blocks_def ar_wf_def ar_elems_def)
  then show ?thesis
    using array_runs_like_list [of a "[Add 7, Add 8, Insert 1 9, Add 6, Remove 0, Set 0 5, Get 1, Get 9]"]
      array_runs_like_list [of a "[Add 7, Remove 0]"]
    by (auto simp: insert_at_def remove_at_def)
qed

text \<open>\<open>cel_intArray_add\<close> appends as long as the block has a free item; when a block with items
  is full, growing it copies twice as many bytes as it holds and reads past its end.\<close>

theorem intArray_add_overreads:
  assumes "ar_wf a" "ar_size a < 2 ^ 30"
  shows "ar_size a < ar_length a \<and> (\<exists>a'. cel_intArray_add al a v = Some (a', 1) \<and> ar_wf a' \<and> ar_elems a' = ar_elems a @ [v])
     \<or> ar_size a = ar_length a \<and> (0 < ar_size a \<longrightarrow> cel_intArray_add al a v = None)"
proof (cases "ar_size a < ar_length a")
  case True
  obtain r where r: "ar_items a = ar_elems a @ r" "ar_length a = ar_size a + length r"
    "ar_size a = length (ar_elems a)"
    using assms(1) by (rule ar_split)
  with True obtain y r' where y: "r = y # r'" by (cases r) auto
  let ?a = "a\<lparr>ar_items := (ar_elems a @ [v]) @ r', ar_size := ar_size a + 1\<rparr>"
  have "ar_wf ?a \<and> ar_elems ?a = ar_elems a @ [v]"
    using r y assms by (intro ar_wfI) (auto simp: ar_wf_def)
  moreover have "cel_intArray_add al a v = Some (?a, 1)"
    using True r y assms(2) unfolding cel_intArray_add_def by (simp add: wr_def list_update_append)
  ultimately show ?thesis using True by blast
next
  case False
  with assms show ?thesis
    by (auto simp: cel_intArray_add_def resize_intArray_def blit_def ar_wf_def)
qed

lemma intArray_add_overreads_witness:
  "cel_intArray_add (\<lambda>_. True) \<lparr>ar_items = [5], ar_size = 1, ar_length = 1\<rparr> 6 = None"
  using intArray_add_overreads [of "\<lparr>ar_items = [5 :: int], ar_size = 1, ar_length = 1\<rparr>" "\<lambda>_. True" 6]
  by (simp add: ar_wf_def)

end
