(* ===== verification/CelLink.thy ===== *)
theory CelLink
  imports Sequence
begin

text \<open>
  The doubly linked list of \<open>src/main/cel_link.c\<close> (\<open>cel_link_t\<close>), in which the collectors keep their
  samples, and \<open>sarah_clear_link_entries\<close> of \<open>utils.c\<close>, which empties one.

  The nodes live on an explicit heap: a map from addresses to nodes, the lowest address never handed
  out, and the list of outcomes of the allocations to come (an exhausted list means success).
  Reading or writing through an address that is not mapped, null included, is undefined; \<open>free\<close>
  unmaps.

  \<open>lk_rep\<close> relates a heap and a list header to the list of node addresses between the two sentinels.
  Shown: the list meets the contract \<open>sequence\<close>, the operations at the ends work on the ends, and the
  drain of \<open>sarah_clear_link_entries\<close> releases every value once and in order, after which the list can
  be destroyed; destroying a list that still has nodes reads a freed node.
\<close>

record lnode =
  ln_value :: ptr
  ln_prev :: ptr
  ln_next :: ptr

record lheap =
  lh_cell :: "ptr \<rightharpoonup> lnode"
  lh_top :: ptr
  lh_ok :: "bool list"

record link =
  lk_size :: nat
  lk_head :: ptr
  lk_tail :: ptr

section \<open>The heap\<close>

definition node_at :: "lheap \<Rightarrow> ptr \<Rightarrow> lnode option" where
  "node_at h p = (if p = 0 then None else lh_cell h p)"

definition store_node :: "lheap \<Rightarrow> ptr \<Rightarrow> lnode \<Rightarrow> lheap" where
  "store_node h p n = h\<lparr>lh_cell := (lh_cell h)(p \<mapsto> n)\<rparr>"

definition set_next :: "lheap \<Rightarrow> ptr \<Rightarrow> ptr \<Rightarrow> lheap option" where
  "set_next h p q = do { n \<leftarrow> node_at h p; Some (store_node h p (n\<lparr>ln_next := q\<rparr>)) }"

definition set_prev :: "lheap \<Rightarrow> ptr \<Rightarrow> ptr \<Rightarrow> lheap option" where
  "set_prev h p q = do { n \<leftarrow> node_at h p; Some (store_node h p (n\<lparr>ln_prev := q\<rparr>)) }"

definition free_node :: "lheap \<Rightarrow> ptr \<Rightarrow> lheap option" where
  "free_node h p =
     (if p = 0 then Some h
      else do { n \<leftarrow> node_at h p; Some (h\<lparr>lh_cell := (lh_cell h)(p := None)\<rparr>) })"

section \<open>The code\<close>

definition create_link_node :: "lheap \<Rightarrow> ptr \<Rightarrow> ptr \<Rightarrow> ptr \<Rightarrow> lheap \<times> ptr" where
  "create_link_node h v prev next =
     (let h' = h\<lparr>lh_ok := tl (lh_ok h)\<rparr> in
      if lh_ok h \<noteq> [] \<and> \<not> hd (lh_ok h) then (h', 0)
      else (store_node (h'\<lparr>lh_top := lh_top h + 1\<rparr>) (lh_top h)
              \<lparr>ln_value = v, ln_prev = prev, ln_next = next\<rparr>, lh_top h))"

definition cel_link_init :: "lheap \<Rightarrow> (lheap \<times> link \<times> nat) option" where
  "cel_link_init h =
     (let (h, tail) = create_link_node h 0 0 0 in
      if tail = 0 then Some (h, \<lparr>lk_size = 0, lk_head = 0, lk_tail = 0\<rparr>, 0)
      else let (h, head) = create_link_node h 0 0 tail in
        if head = 0 then do {
          h \<leftarrow> free_node h tail;
          Some (h, \<lparr>lk_size = 0, lk_head = 0, lk_tail = tail\<rparr>, 0) }
        else do {
          h \<leftarrow> set_prev h tail head;
          Some (h, \<lparr>lk_size = 0, lk_head = head, lk_tail = tail\<rparr>, 1) })"

text \<open>\<open>insert_before\<close> says nothing to its caller when it gets no memory.\<close>

definition insert_before :: "lheap \<Rightarrow> ptr \<Rightarrow> ptr \<Rightarrow> lheap option" where
  "insert_before h old v = do {
     n \<leftarrow> node_at h old;
     let (h, o') = create_link_node h v (ln_prev n) old;
     (if o' = 0 then Some h
      else do {
        m \<leftarrow> node_at h o';
        h \<leftarrow> set_next h (ln_prev m) o';
        m \<leftarrow> node_at h o';
        set_prev h (ln_next m) o' }) }"

definition cel_link_add :: "lheap \<times> link \<Rightarrow> ptr \<Rightarrow> (lheap \<times> link) option" where
  "cel_link_add s v = (case s of (h, l) \<Rightarrow> do {
     h \<leftarrow> insert_before h (lk_tail l) v;
     Some (h, l\<lparr>lk_size := wrap32 (lk_size l + 1)\<rparr>) })"

definition cel_link_add_first :: "lheap \<times> link \<Rightarrow> ptr \<Rightarrow> (lheap \<times> link) option" where
  "cel_link_add_first s v = (case s of (h, l) \<Rightarrow> do {
     n \<leftarrow> node_at h (lk_head l);
     h \<leftarrow> insert_before h (ln_next n) v;
     Some (h, l\<lparr>lk_size := wrap32 (lk_size l + 1)\<rparr>) })"

definition cel_link_add_last :: "lheap \<times> link \<Rightarrow> ptr \<Rightarrow> (lheap \<times> link) option" where
  "cel_link_add_last s v = (case s of (h, l) \<Rightarrow> do {
     h \<leftarrow> insert_before h (lk_tail l) v;
     Some (h, l\<lparr>lk_size := wrap32 (lk_size l + 1)\<rparr>) })"

text \<open>\<open>get_node\<close> walks from the nearer end.\<close>

fun walk_back :: "lheap \<Rightarrow> nat \<Rightarrow> ptr \<Rightarrow> ptr option" where
  "walk_back h 0 p = Some p"
| "walk_back h (Suc k) p = do { n \<leftarrow> node_at h p; walk_back h k (ln_prev n) }"

fun walk_on :: "lheap \<Rightarrow> nat \<Rightarrow> ptr \<Rightarrow> ptr option" where
  "walk_on h 0 p = Some p"
| "walk_on h (Suc k) p = do { n \<leftarrow> node_at h p; walk_on h k (ln_next n) }"

definition get_node :: "lheap \<Rightarrow> link \<Rightarrow> nat \<Rightarrow> ptr option" where
  "get_node h l idx =
     (if idx \<ge> lk_size l then Some 0
      else if idx > lk_size l div 2 then walk_back h (lk_size l - idx) (lk_tail l)
      else walk_on h (idx + 1) (lk_head l))"

definition cel_link_insert :: "lheap \<times> link \<Rightarrow> nat \<Rightarrow> ptr \<Rightarrow> (lheap \<times> link) option" where
  "cel_link_insert s idx v = (case s of (h, l) \<Rightarrow> do {
     o' \<leftarrow> get_node h l idx;
     (if o' = 0 then Some (h, l)
      else do {
        h \<leftarrow> insert_before h o' v;
        Some (h, l\<lparr>lk_size := wrap32 (lk_size l + 1)\<rparr>) }) })"

text \<open>The macro \<open>cel_remove_node\<close>, and what each remover does with the node it found.\<close>

definition cel_remove_node :: "lheap \<Rightarrow> ptr \<Rightarrow> lheap option" where
  "cel_remove_node h p = do {
     n \<leftarrow> node_at h p;
     h \<leftarrow> set_next h (ln_prev n) (ln_next n);
     n \<leftarrow> node_at h p;
     set_prev h (ln_next n) (ln_prev n) }"

definition take_out :: "lheap \<times> link \<Rightarrow> ptr \<Rightarrow> ((lheap \<times> link) \<times> ptr) option" where
  "take_out s p = (case s of (h, l) \<Rightarrow> do {
     n \<leftarrow> node_at h p;
     h \<leftarrow> cel_remove_node h p;
     h \<leftarrow> free_node h p;
     Some ((h, l\<lparr>lk_size := lk_size l - 1\<rparr>), ln_value n) })"

definition cel_link_remove :: "lheap \<times> link \<Rightarrow> nat \<Rightarrow> ((lheap \<times> link) \<times> ptr) option" where
  "cel_link_remove s idx = (case s of (h, l) \<Rightarrow> do {
     o' \<leftarrow> get_node h l idx;
     (if o' = 0 then Some (s, 0) else take_out s o') })"

definition cel_link_remove_first :: "lheap \<times> link \<Rightarrow> ((lheap \<times> link) \<times> ptr) option" where
  "cel_link_remove_first s = (case s of (h, l) \<Rightarrow>
     if lk_size l = 0 then Some (s, 0)
     else do { n \<leftarrow> node_at h (lk_head l); take_out s (ln_next n) })"

definition cel_link_remove_last :: "lheap \<times> link \<Rightarrow> ((lheap \<times> link) \<times> ptr) option" where
  "cel_link_remove_last s = (case s of (h, l) \<Rightarrow>
     if lk_size l = 0 then Some (s, 0)
     else do { n \<leftarrow> node_at h (lk_tail l); take_out s (ln_prev n) })"

definition cel_link_get :: "lheap \<times> link \<Rightarrow> nat \<Rightarrow> ptr option" where
  "cel_link_get s idx = (case s of (h, l) \<Rightarrow> do {
     o' \<leftarrow> get_node h l idx;
     (if o' = 0 then Some 0 else do { n \<leftarrow> node_at h o'; Some (ln_value n) }) })"

definition cel_link_set :: "lheap \<times> link \<Rightarrow> nat \<Rightarrow> ptr \<Rightarrow> ((lheap \<times> link) \<times> ptr) option" where
  "cel_link_set s idx v = (case s of (h, l) \<Rightarrow> do {
     old \<leftarrow> get_node h l idx;
     (if old = 0 then Some (s, 0)
      else do {
        n \<leftarrow> node_at h old;
        Some ((store_node h old (n\<lparr>ln_value := v\<rparr>), l), ln_value n) }) })"

text \<open>The search of \<open>cel_link_remove_obj\<close> and \<open>cel_link_set_obj\<close>: the first node between \<open>p\<close> and the
  tail whose value is the object or compares equal, 0 at the tail.\<close>

partial_function (option) find_node :: "lheap \<Rightarrow> ptr \<Rightarrow> ptr \<Rightarrow> (ptr \<Rightarrow> ptr \<Rightarrow> int) \<Rightarrow> ptr \<Rightarrow> ptr option" where
  "find_node h tail v cmp p =
     (if p = tail then Some 0
      else do {
        n \<leftarrow> node_at h p;
        (if v = ln_value n \<or> cmp v (ln_value n) = 0 then Some p
         else find_node h tail v cmp (ln_next n)) })"

definition cel_link_remove_obj ::
  "lheap \<times> link \<Rightarrow> ptr \<Rightarrow> (ptr \<Rightarrow> ptr \<Rightarrow> int) \<Rightarrow> ((lheap \<times> link) \<times> ptr) option" where
  "cel_link_remove_obj s v cmp = (case s of (h, l) \<Rightarrow> do {
     n \<leftarrow> node_at h (lk_head l);
     p \<leftarrow> find_node h (lk_tail l) v cmp (ln_next n);
     (if p = 0 then Some (s, 0) else take_out s p) })"

definition cel_link_set_obj ::
  "lheap \<times> link \<Rightarrow> ptr \<Rightarrow> ptr \<Rightarrow> (ptr \<Rightarrow> ptr \<Rightarrow> int) \<Rightarrow> ((lheap \<times> link) \<times> ptr) option" where
  "cel_link_set_obj s search v cmp = (case s of (h, l) \<Rightarrow> do {
     n \<leftarrow> node_at h (lk_head l);
     p \<leftarrow> find_node h (lk_tail l) search cmp (ln_next n);
     (if p = 0 then Some (s, 0)
      else do {
        m \<leftarrow> node_at h p;
        Some ((store_node h p (m\<lparr>ln_value := v\<rparr>), l), ln_value m) }) })"

text \<open>The loop of \<open>cel_link_destroy\<close>: the node is freed before its successor is read.  The result
  lists the values the callback got.\<close>

partial_function (option) destroy_loop :: "lheap \<Rightarrow> ptr \<Rightarrow> bool \<Rightarrow> ptr \<Rightarrow> (lheap \<times> ptr list) option" where
  "destroy_loop h tail callback p =
     (if p = tail then Some (h, [])
      else do {
        vs \<leftarrow> (if callback then do { n \<leftarrow> node_at h p; Some [ln_value n] } else Some []);
        h \<leftarrow> free_node h p;
        n \<leftarrow> node_at h p;
        (h, ws) \<leftarrow> destroy_loop h tail callback (ln_next n);
        Some (h, vs @ ws) })"

definition cel_link_destroy :: "lheap \<times> link \<Rightarrow> bool \<Rightarrow> ((lheap \<times> link) \<times> ptr list \<times> nat) option" where
  "cel_link_destroy s callback = (case s of (h, l) \<Rightarrow> do {
     n \<leftarrow> node_at h (lk_head l);
     (h, vs) \<leftarrow> destroy_loop h (lk_tail l) callback (ln_next n);
     h \<leftarrow> free_node h (lk_head l);
     h \<leftarrow> free_node h (lk_tail l);
     Some ((h, l\<lparr>lk_head := 0, lk_tail := 0\<rparr>), vs, 1) })"

text \<open>\<open>sarah_clear_link_entries\<close> of \<open>utils.c\<close>: the values handed to the release function, in order.\<close>

partial_function (option) sarah_clear_link_entries :: "lheap \<times> link \<Rightarrow> ((lheap \<times> link) \<times> ptr list) option" where
  "sarah_clear_link_entries s = do {
     (s, v) \<leftarrow> cel_link_remove_first s;
     (if v = 0 then Some (s, [])
      else do {
        (s, vs) \<leftarrow> sarah_clear_link_entries s;
        Some (s, v # vs) }) }"

section \<open>Views of the heap\<close>

definition nx :: "lheap \<Rightarrow> ptr \<Rightarrow> ptr" where
  "nx h p = (case lh_cell h p of None \<Rightarrow> 0 | Some n \<Rightarrow> ln_next n)"

definition pv :: "lheap \<Rightarrow> ptr \<Rightarrow> ptr" where
  "pv h p = (case lh_cell h p of None \<Rightarrow> 0 | Some n \<Rightarrow> ln_prev n)"

definition vl :: "lheap \<Rightarrow> ptr \<Rightarrow> ptr" where
  "vl h p = (case lh_cell h p of None \<Rightarrow> 0 | Some n \<Rightarrow> ln_value n)"

definition live :: "lheap \<Rightarrow> ptr set" where
  "live h = dom (lh_cell h) - {0}"

lemmas views = nx_def pv_def vl_def live_def

lemma node_at_live:
  "p \<in> live h \<Longrightarrow> \<exists>n. node_at h p = Some n \<and> ln_next n = nx h p \<and> ln_prev n = pv h p \<and> ln_value n = vl h p"
  by (auto simp: node_at_def views)

lemma node_at_dead: "p \<notin> live h \<Longrightarrow> node_at h p = None"
  by (auto simp: node_at_def live_def)

lemma set_next_live:
  "p \<in> live h \<Longrightarrow> \<exists>h'. set_next h p q = Some h' \<and> nx h' = (nx h)(p := q) \<and> pv h' = pv h \<and> vl h' = vl h
     \<and> live h' = live h \<and> lh_top h' = lh_top h \<and> lh_ok h' = lh_ok h"
  by (auto simp: set_next_def node_at_def store_node_def views fun_eq_iff)

lemma set_prev_live:
  "p \<in> live h \<Longrightarrow> \<exists>h'. set_prev h p q = Some h' \<and> pv h' = (pv h)(p := q) \<and> nx h' = nx h \<and> vl h' = vl h
     \<and> live h' = live h \<and> lh_top h' = lh_top h \<and> lh_ok h' = lh_ok h"
  by (auto simp: set_prev_def node_at_def store_node_def views fun_eq_iff)

lemma free_node_live:
  "p \<in> live h \<Longrightarrow> \<exists>h'. free_node h p = Some h' \<and> pv h' = (pv h)(p := 0) \<and> nx h' = (nx h)(p := 0)
     \<and> vl h' = (vl h)(p := 0) \<and> live h' = live h - {p} \<and> lh_top h' = lh_top h \<and> lh_ok h' = lh_ok h"
  by (auto simp: free_node_def node_at_def views fun_eq_iff)

lemma create_node_live:
  "lh_ok h = [] \<or> hd (lh_ok h) \<Longrightarrow> 0 < lh_top h \<Longrightarrow> \<exists>h'. create_link_node h v p q = (h', lh_top h)
     \<and> nx h' = (nx h)(lh_top h := q) \<and> pv h' = (pv h)(lh_top h := p) \<and> vl h' = (vl h)(lh_top h := v)
     \<and> live h' = insert (lh_top h) (live h) \<and> lh_top h' = lh_top h + 1 \<and> lh_ok h' = tl (lh_ok h)"
  by (auto simp: create_link_node_def store_node_def views fun_eq_iff Let_def)

section \<open>Chains of nodes\<close>

text \<open>Each node of the list leads to the next under \<open>f\<close>.\<close>

fun leads :: "(ptr \<Rightarrow> ptr) \<Rightarrow> ptr list \<Rightarrow> bool" where
  "leads f (p # q # ps) \<longleftrightarrow> f p = q \<and> leads f (q # ps)"
| "leads f _ \<longleftrightarrow> True"

lemma leads_append: "leads f (xs @ p # ys) \<longleftrightarrow> leads f (xs @ [p]) \<and> leads f (p # ys)"
  by (induction f xs rule: leads.induct) (cases ys; auto)+

lemma leads_cong: "(\<And>p. p \<in> set (butlast ps) \<Longrightarrow> f p = g p) \<Longrightarrow> leads f ps = leads g ps"
  by (induction f ps rule: leads.induct) auto

lemma leads_insert:
  assumes "leads f (xs @ [a, b] @ ys)" "distinct (xs @ [a, b] @ ys)" "c \<notin> set (xs @ [a, b] @ ys)"
  shows "leads (f(c := b, a := c)) (xs @ [a, c, b] @ ys)"
proof -
  have "leads f (xs @ [a])" "leads f (b # ys)"
    using assms(1) leads_append [of f xs a "b # ys"] leads_append [of f "xs @ [a]" b ys] by auto
  moreover have "leads (f(c := b, a := c)) (xs @ [a]) = leads f (xs @ [a])"
    using assms(2,3) by (intro leads_cong) auto
  moreover have "leads (f(c := b, a := c)) (b # ys) = leads f (b # ys)"
    using assms(2,3) by (intro leads_cong) (auto dest: in_set_butlastD split: if_splits)
  ultimately show ?thesis
    using assms(3) leads_append [of "f(c := b, a := c)" xs a "c # b # ys"] by auto
qed

lemma leads_remove:
  assumes "leads f (xs @ [a, c, b] @ ys)" "distinct (xs @ [a, c, b] @ ys)"
  shows "leads (f(a := b, c := 0)) (xs @ [a, b] @ ys)"
proof -
  have "leads f (xs @ [a])" "leads f (b # ys)"
    using assms(1) leads_append [of f xs a "c # b # ys"] by auto
  moreover have "leads (f(a := b, c := 0)) (xs @ [a]) = leads f (xs @ [a])"
    using assms(2) by (intro leads_cong) auto
  moreover have "leads (f(a := b, c := 0)) (b # ys) = leads f (b # ys)"
    using assms(2) by (intro leads_cong) (auto dest: in_set_butlastD split: if_splits)
  ultimately show ?thesis
    using assms(2) leads_append [of "f(a := b, c := 0)" xs a "b # ys"] by auto
qed

lemma leads_nth: "leads f ps \<Longrightarrow> Suc i < length ps \<Longrightarrow> f (ps ! i) = ps ! Suc i"
proof (induction f ps arbitrary: i rule: leads.induct)
  case (1 f p q ps)
  then show ?case by (cases i) auto
qed auto

lemma walk_on_leads:
  "leads (nx h) (p # ps) \<Longrightarrow> set (p # ps) \<subseteq> live h \<Longrightarrow> k \<le> length ps \<Longrightarrow> walk_on h k p = Some ((p # ps) ! k)"
proof (induction ps arbitrary: p k)
  case Nil
  then show ?case by simp
next
  case (Cons q ps)
  show ?case
  proof (cases k)
    case (Suc j)
    have "p \<in> live h" using Cons.prems(2) by simp
    from node_at_live [OF this] obtain n where "node_at h p = Some n" "ln_next n = q"
      using Cons.prems(1) by auto
    then show ?thesis using Suc Cons.IH [of q j] Cons.prems by simp
  qed simp
qed

lemma walk_back_leads:
  "leads (pv h) (p # ps) \<Longrightarrow> set (p # ps) \<subseteq> live h \<Longrightarrow> k \<le> length ps \<Longrightarrow> walk_back h k p = Some ((p # ps) ! k)"
proof (induction ps arbitrary: p k)
  case Nil
  then show ?case by simp
next
  case (Cons q ps)
  show ?case
  proof (cases k)
    case (Suc j)
    have "p \<in> live h" using Cons.prems(2) by simp
    from node_at_live [OF this] obtain n where "node_at h p = Some n" "ln_prev n = q"
      using Cons.prems(1) by auto
    then show ?thesis using Suc Cons.IH [of q j] Cons.prems by simp
  qed simp
qed

section \<open>Representation\<close>

definition spine :: "link \<Rightarrow> ptr list \<Rightarrow> ptr list" where
  "spine l as = lk_head l # as @ [lk_tail l]"

text \<open>\<open>as\<close> are the nodes between the sentinels.\<close>

definition lk_rep :: "lheap \<Rightarrow> link \<Rightarrow> ptr list \<Rightarrow> bool" where
  "lk_rep h l as \<longleftrightarrow> distinct (spine l as) \<and> set (spine l as) \<subseteq> live h \<and> (\<forall>p \<in> live h. p < lh_top h) \<and> 0 < lh_top h
     \<and> leads (nx h) (spine l as) \<and> leads (pv h) (rev (spine l as))
     \<and> lk_size l = length as \<and> length as < 2 ^ 32"

lemma spine_at:
  assumes "i \<le> length as"
  obtains A a where "lk_head l # take i as = A @ [a]"
    "spine l as = A @ [a] @ drop i (as @ [lk_tail l])"
proof -
  obtain A a where A: "lk_head l # take i as = A @ [a]" by (metis list.distinct(1) rev_exhaust)
  have "spine l as = (lk_head l # take i as) @ drop i (as @ [lk_tail l])"
    using assms by (simp add: spine_def)
  with A that show ?thesis by simp
qed

lemma insert_before_rep:
  assumes rep: "lk_rep h l as" and i: "i \<le> length as" and ok: "lh_ok h = [] \<or> hd (lh_ok h)"
    and small: "length as + 1 < 2 ^ 32"
  shows "\<exists>h'. insert_before h ((as @ [lk_tail l]) ! i) v = Some h'
    \<and> lk_rep h' (l\<lparr>lk_size := length as + 1\<rparr>) (insert_at i (lh_top h) as)
    \<and> vl h' = (vl h)(lh_top h := v) \<and> lh_ok h' = tl (lh_ok h) \<and> lh_top h \<notin> set (spine l as)"
proof -
  let ?c = "lh_top h" and ?b = "(as @ [lk_tail l]) ! i"
  obtain A a where A: "lk_head l # take i as = A @ [a]"
    "spine l as = A @ [a] @ drop i (as @ [lk_tail l])"
    using spine_at [OF i] by blast
  obtain B where B: "drop i (as @ [lk_tail l]) = ?b # B"
    using i take_drop_Cons [of i "as @ [lk_tail l]"] by auto
  have sp: "spine l as = A @ [a, ?b] @ B" using A(2) B by simp
  have new: "lk_head l # insert_at i ?c as @ [lk_tail l] = A @ [a, ?c, ?b] @ B"
    using A(1) B i by (simp add: insert_at_def)
  from rep have r: "distinct (A @ [a, ?b] @ B)" "set (A @ [a, ?b] @ B) \<subseteq> live h" "\<And>p. p \<in> live h \<Longrightarrow> p < ?c"
    "0 < ?c" "leads (nx h) (A @ [a, ?b] @ B)" "leads (pv h) (rev B @ [?b, a] @ rev A)"
    unfolding lk_rep_def sp by auto
  have fresh: "?c \<notin> live h" "?c \<notin> set (A @ [a, ?b] @ B)" using r(2,3) less_irrefl by blast+
  have prev: "pv h ?b = a"
    using r(6) leads_append [of "pv h" "rev B" ?b "a # rev A"] by simp
  have lb: "?b \<in> live h" "a \<in> live h" using r(2) by auto
  obtain n where n: "node_at h ?b = Some n" "ln_prev n = a" using node_at_live [OF lb(1)] prev by auto
  obtain h1 where h1: "create_link_node h v a ?b = (h1, ?c)" "nx h1 = (nx h)(?c := ?b)" "pv h1 = (pv h)(?c := a)"
    "vl h1 = (vl h)(?c := v)" "live h1 = insert ?c (live h)" "lh_top h1 = ?c + 1" "lh_ok h1 = tl (lh_ok h)"
    using create_node_live [OF ok r(4)] by blast
  obtain n1 where n1: "node_at h1 ?c = Some n1" "ln_prev n1 = a"
    using node_at_live [of ?c h1] h1 by auto
  obtain h2 where h2: "set_next h1 a ?c = Some h2" "nx h2 = (nx h1)(a := ?c)" "pv h2 = pv h1" "vl h2 = vl h1"
    "live h2 = live h1" "lh_top h2 = lh_top h1" "lh_ok h2 = lh_ok h1"
    using set_next_live [of a h1 ?c] lb h1 by auto
  obtain n2 where n2: "node_at h2 ?c = Some n2" "ln_next n2 = ?b"
    using node_at_live [of ?c h2] h1 h2 fresh lb by auto
  obtain h3 where h3: "set_prev h2 ?b ?c = Some h3" "pv h3 = (pv h2)(?b := ?c)" "nx h3 = nx h2" "vl h3 = vl h2"
    "live h3 = live h2" "lh_top h3 = lh_top h2" "lh_ok h3 = lh_ok h2"
    using set_prev_live [of ?b h2 ?c] lb h1 h2 by auto
  have run: "insert_before h ?b v = Some h3"
    using n h1(1) n1 h2(1) n2 h3(1) r(4) by (simp add: insert_before_def)
  have "leads ((nx h)(?c := ?b, a := ?c)) (A @ [a, ?c, ?b] @ B)"
    using leads_insert [OF r(5,1) fresh(2)] .
  moreover have "leads ((pv h)(?c := a, ?b := ?c)) (rev B @ [?b, ?c, a] @ rev A)"
    using leads_insert [OF r(6), of ?c] r(1) fresh(2) by auto
  ultimately have "lk_rep h3 (l\<lparr>lk_size := length as + 1\<rparr>) (insert_at i ?c as)"
    unfolding lk_rep_def spine_def
    using r h1 h2 h3 fresh small i new
    by (auto simp: length_insert_at less_Suc_eq)
  with run h1 h2 h3 fresh(2) sp show ?thesis by auto
qed

lemma take_out_rep:
  assumes rep: "lk_rep h l as" and i: "i < length as"
  shows "\<exists>h'. take_out (h, l) (as ! i) = Some ((h', l\<lparr>lk_size := length as - 1\<rparr>), vl h (as ! i))
    \<and> lk_rep h' (l\<lparr>lk_size := length as - 1\<rparr>) (remove_at i as)
    \<and> vl h' = (vl h)(as ! i := 0) \<and> lh_ok h' = lh_ok h \<and> live h' = live h - {as ! i}"
proof -
  let ?c = "as ! i" and ?b = "(as @ [lk_tail l]) ! Suc i"
  obtain A a where A: "lk_head l # take i as = A @ [a]"
    "spine l as = A @ [a] @ drop i (as @ [lk_tail l])"
    using spine_at [of i as] i by auto
  obtain B where B: "drop (Suc i) (as @ [lk_tail l]) = ?b # B"
    using i take_drop_Cons [of "Suc i" "as @ [lk_tail l]"] by auto
  have c: "drop i (as @ [lk_tail l]) = ?c # ?b # B"
    using i B take_drop_Cons [of i "as @ [lk_tail l]"] by (simp add: nth_append)
  have sp: "spine l as = A @ [a, ?c, ?b] @ B" using A(2) c by simp
  have new: "lk_head l # remove_at i as @ [lk_tail l] = A @ [a, ?b] @ B"
    using A(1) B i by (simp add: remove_at_def)
  from rep have r: "distinct (A @ [a, ?c, ?b] @ B)" "set (A @ [a, ?c, ?b] @ B) \<subseteq> live h"
    "\<And>p. p \<in> live h \<Longrightarrow> p < lh_top h" "0 < lh_top h" "leads (nx h) (A @ [a, ?c, ?b] @ B)"
    "leads (pv h) (rev B @ [?b, ?c, a] @ rev A)" "lk_size l = length as" "length as < 2 ^ 32"
    unfolding lk_rep_def sp by auto
  have nbr: "nx h ?c = ?b" "pv h ?c = a"
    using r(5) leads_append [of "nx h" A a "?c # ?b # B"] r(6) leads_append [of "pv h" "rev B" ?b "?c # a # rev A"]
    by auto
  have lv: "?c \<in> live h" "a \<in> live h" "?b \<in> live h" using r(2) by auto
  obtain n where n: "node_at h ?c = Some n" "ln_prev n = a" "ln_next n = ?b" "ln_value n = vl h ?c"
    using node_at_live [OF lv(1)] nbr by auto
  obtain h1 where h1: "set_next h a ?b = Some h1" "nx h1 = (nx h)(a := ?b)" "pv h1 = pv h" "vl h1 = vl h"
    "live h1 = live h" "lh_top h1 = lh_top h" "lh_ok h1 = lh_ok h"
    using set_next_live [OF lv(2)] by blast
  obtain n1 where n1: "node_at h1 ?c = Some n1" "ln_prev n1 = a" "ln_next n1 = ?b"
    using node_at_live [of ?c h1] h1 lv nbr r(1) by auto
  obtain h2 where h2: "set_prev h1 ?b a = Some h2" "pv h2 = (pv h1)(?b := a)" "nx h2 = nx h1" "vl h2 = vl h1"
    "live h2 = live h1" "lh_top h2 = lh_top h1" "lh_ok h2 = lh_ok h1"
    using set_prev_live [of ?b h1 a] lv h1 by auto
  obtain h3 where h3: "free_node h2 ?c = Some h3" "pv h3 = (pv h2)(?c := 0)" "nx h3 = (nx h2)(?c := 0)"
    "vl h3 = (vl h2)(?c := 0)" "live h3 = live h2 - {?c}" "lh_top h3 = lh_top h2" "lh_ok h3 = lh_ok h2"
    using free_node_live [of ?c h2] lv h1 h2 by auto
  have run: "take_out (h, l) ?c = Some ((h3, l\<lparr>lk_size := length as - 1\<rparr>), vl h ?c)"
    using n n1 h1(1) h2(1) h3(1) r(7) by (simp add: take_out_def cel_remove_node_def)
  have "leads ((nx h)(a := ?b, ?c := 0)) (A @ [a, ?b] @ B)" by (rule leads_remove [OF r(5,1)])
  moreover have "leads ((pv h)(?b := a, ?c := 0)) (rev B @ [?b, a] @ rev A)"
    using leads_remove [OF r(6)] r(1) by auto
  ultimately have "lk_rep h3 (l\<lparr>lk_size := length as - 1\<rparr>) (remove_at i as)"
    unfolding lk_rep_def spine_def
    using r h1 h2 h3 new i by (auto simp: length_remove_at)
  with run h1 h2 h3 show ?thesis by auto
qed

lemma get_node_rep:
  assumes rep: "lk_rep h l as"
  shows "get_node h l i = Some (if i < length as then as ! i else 0)"
proof -
  from rep have r: "set (spine l as) \<subseteq> live h" "leads (nx h) (spine l as)" "leads (pv h) (rev (spine l as))"
    "lk_size l = length as" by (auto simp: lk_rep_def)
  have on: "walk_on h (i + 1) (lk_head l) = Some (as ! i)" if "i < length as"
    using walk_on_leads [of h "lk_head l" "as @ [lk_tail l]" "i + 1"] r that
    by (simp add: spine_def nth_append del: walk_on.simps)
  have bk: "walk_back h (length as - i) (lk_tail l) = Some (as ! i)" if "i < length as"
  proof -
    have sp: "rev (spine l as) = lk_tail l # rev as @ [lk_head l]" by (simp add: spine_def)
    have "walk_back h (length as - i) (lk_tail l) = Some ((lk_tail l # rev as @ [lk_head l]) ! (length as - i))"
      using r(1,3) that unfolding sp by (intro walk_back_leads) (auto simp: spine_def)
    moreover have "(lk_tail l # rev as @ [lk_head l]) ! (length as - i) = as ! i"
    proof -
      have "length as - Suc i < length as" using that by auto
      then show ?thesis using that by (simp add: nth_append nth_Cons' rev_nth)
    qed
    ultimately show ?thesis by simp
  qed
  show ?thesis using on bk r(4) by (simp add: get_node_def)
qed

section \<open>The contract\<close>

text \<open>The nodes read off the heap, \<open>size\<close> of them, and the values they hold.\<close>

fun collect :: "(ptr \<Rightarrow> ptr) \<Rightarrow> nat \<Rightarrow> ptr \<Rightarrow> ptr list" where
  "collect f 0 p = []"
| "collect f (Suc n) p = f p # collect f n (f p)"

definition lk_nodes :: "lheap \<times> link \<Rightarrow> ptr list" where
  "lk_nodes s = collect (nx (fst s)) (lk_size (snd s)) (lk_head (snd s))"

definition lk_elems :: "lheap \<times> link \<Rightarrow> ptr list" where
  "lk_elems s = map (vl (fst s)) (lk_nodes s)"

definition lk_inv :: "lheap \<times> link \<Rightarrow> bool" where
  "lk_inv s \<longleftrightarrow> lk_rep (fst s) (snd s) (lk_nodes s) \<and> lh_ok (fst s) = []"

lemma collect_leads: "leads f (p # as @ [q]) \<Longrightarrow> collect f (length as) p = as"
  by (induction as arbitrary: p) auto

lemma rep_nodes: "lk_rep h l as \<Longrightarrow> lk_nodes (h, l) = as"
  using collect_leads [of "nx h" "lk_head l" as "lk_tail l"] by (simp add: lk_rep_def lk_nodes_def spine_def)

lemma lk_invI: "lk_rep h l as \<Longrightarrow> lh_ok h = [] \<Longrightarrow> lk_inv (h, l) \<and> lk_elems (h, l) = map (vl h) as"
  by (simp add: lk_inv_def lk_elems_def rep_nodes)

lemma lk_invE:
  assumes "lk_inv s"
  obtains h l as where "s = (h, l)" "lk_rep h l as" "lh_ok h = []" "lk_elems s = map (vl h) as"
    "lk_nodes s = as" "lk_size l = length as"
  using assms that [of "fst s" "snd s" "lk_nodes s"] by (auto simp: lk_inv_def lk_elems_def lk_rep_def)

lemma rep_distinct: "lk_rep h l as \<Longrightarrow> distinct as"
  by (auto simp: lk_rep_def spine_def)

lemma map_insert_at: "c \<notin> set as \<Longrightarrow> map (f(c := v)) (insert_at i c as) = insert_at i v (map f as)"
  by (auto simp: insert_at_def take_map drop_map dest: in_set_takeD in_set_dropD)

lemma map_remove_at:
  assumes "distinct as" "i < length as"
  shows "map (f(as ! i := v)) (remove_at i as) = remove_at i (map f as)"
proof -
  have "distinct (take i as @ as ! i # drop (Suc i) as)" using assms by (simp add: id_take_nth_drop [symmetric])
  then show ?thesis by (auto simp: remove_at_def take_map drop_map)
qed

lemma link_inserts:
  assumes inv: "lk_inv (h, l)" and i: "i \<le> length (lk_elems (h, l))" and small: "length (lk_elems (h, l)) < 2 ^ 32 - 1"
  shows "\<exists>h'. insert_before h ((lk_nodes (h, l) @ [lk_tail l]) ! i) v = Some h'
    \<and> lk_inv (h', l\<lparr>lk_size := wrap32 (lk_size l + 1)\<rparr>)
    \<and> lk_elems (h', l\<lparr>lk_size := wrap32 (lk_size l + 1)\<rparr>) = insert_at i v (lk_elems (h, l))"
proof -
  obtain as where r: "lk_rep h l as" "lh_ok h = []" "lk_elems (h, l) = map (vl h) as" "lk_nodes (h, l) = as"
    "lk_size l = length as"
    using inv by (rule lk_invE) auto
  obtain h' where h': "insert_before h ((as @ [lk_tail l]) ! i) v = Some h'"
    "lk_rep h' (l\<lparr>lk_size := length as + 1\<rparr>) (insert_at i (lh_top h) as)"
    "vl h' = (vl h)(lh_top h := v)" "lh_ok h' = tl (lh_ok h)" "lh_top h \<notin> set (spine l as)"
    using insert_before_rep [OF r(1), of i v] i small r by auto
  moreover have "lk_inv (h', l\<lparr>lk_size := length as + 1\<rparr>)
      \<and> lk_elems (h', l\<lparr>lk_size := length as + 1\<rparr>) = map (vl h') (insert_at i (lh_top h) as)"
    using h'(4) r(2) by (intro lk_invI h'(2)) simp
  moreover have "map (vl h') (insert_at i (lh_top h) as) = insert_at i v (map (vl h) as)"
    unfolding h'(3) using h'(5) by (intro map_insert_at) (simp add: spine_def)
  moreover have "wrap32 (lk_size l + 1) = length as + 1" using small r by simp
  ultimately show ?thesis using r by simp
qed

lemma link_takes_out:
  assumes inv: "lk_inv (h, l)" and i: "i < length (lk_elems (h, l))"
  shows "\<exists>s'. take_out (h, l) (lk_nodes (h, l) ! i) = Some (s', lk_elems (h, l) ! i)
    \<and> lk_inv s' \<and> lk_elems s' = remove_at i (lk_elems (h, l))
    \<and> live (fst s') = live h - {lk_nodes (h, l) ! i} \<and> lk_nodes s' = remove_at i (lk_nodes (h, l))
    \<and> lk_head (snd s') = lk_head l \<and> lk_tail (snd s') = lk_tail l"
proof -
  obtain as where r: "lk_rep h l as" "lh_ok h = []" "lk_elems (h, l) = map (vl h) as" "lk_nodes (h, l) = as"
    using inv by (rule lk_invE) auto
  from i r have i': "i < length as" by simp
  obtain h' where h': "take_out (h, l) (as ! i) = Some ((h', l\<lparr>lk_size := length as - 1\<rparr>), vl h (as ! i))"
    "lk_rep h' (l\<lparr>lk_size := length as - 1\<rparr>) (remove_at i as)"
    "vl h' = (vl h)(as ! i := 0)" "lh_ok h' = lh_ok h" "live h' = live h - {as ! i}"
    using take_out_rep [OF r(1) i'] by blast
  moreover have "lk_inv (h', l\<lparr>lk_size := length as - 1\<rparr>)
      \<and> lk_elems (h', l\<lparr>lk_size := length as - 1\<rparr>) = map (vl h') (remove_at i as)"
    using h'(4) r(2) by (intro lk_invI h'(2)) simp
  moreover have "map (vl h') (remove_at i as) = remove_at i (map (vl h) as)"
    unfolding h'(3) using rep_distinct [OF r(1)] i' by (rule map_remove_at)
  ultimately show ?thesis using r i' rep_nodes [OF h'(2)] by auto
qed

lemma link_get_node:
  "lk_inv (h, l) \<Longrightarrow> get_node h l i = Some (if i < length (lk_elems (h, l)) then lk_nodes (h, l) ! i else 0)"
  by (erule lk_invE) (auto simp: get_node_rep)

lemma link_nodes_live:
  assumes "lk_inv (h, l)"
  shows "set (lk_nodes (h, l)) \<subseteq> live h" "0 \<notin> live h" "lk_head l \<in> live h" "lk_tail l \<in> live h"
    "length (lk_elems (h, l)) = length (lk_nodes (h, l))" "lk_size l = length (lk_nodes (h, l))"
  using assms by (auto simp: lk_inv_def lk_rep_def spine_def lk_elems_def live_def)

lemma link_node_nonnull:
  "lk_inv (h, l) \<Longrightarrow> i < length (lk_elems (h, l)) \<Longrightarrow> lk_nodes (h, l) ! i \<noteq> 0 \<and> lk_nodes (h, l) ! i \<in> live h"
  using link_nodes_live [of h l] by (metis nth_mem subsetD)

lemma insert_at_end: "insert_at (length xs) v xs = xs @ [v]"
  by (simp add: insert_at_def)

lemma link_add_law:
  assumes inv: "lk_inv s" and small: "length (lk_elems s) < 2 ^ 32 - 1"
  shows "\<exists>s'. cel_link_add s v = Some s' \<and> lk_inv s' \<and> lk_elems s' = lk_elems s @ [v]"
proof -
  obtain h l where s: "s = (h, l)" by (cases s)
  with inv small obtain h' where "insert_before h (lk_tail l) v = Some h'"
    "lk_inv (h', l\<lparr>lk_size := wrap32 (lk_size l + 1)\<rparr>)"
    "lk_elems (h', l\<lparr>lk_size := wrap32 (lk_size l + 1)\<rparr>) = lk_elems (h, l) @ [v]"
    using link_inserts [of h l "length (lk_elems (h, l))" v] link_nodes_live(5) [of h l]
      insert_at_end [of "lk_elems (h, l)" v]
    by (auto simp: nth_append)
  then show ?thesis by (simp add: s cel_link_add_def)
qed

lemma link_ins_law:
  assumes inv: "lk_inv s" and small: "length (lk_elems s) < 2 ^ 32 - 1"
  shows "\<exists>s'. cel_link_insert s i v = Some s' \<and> lk_inv s'
    \<and> lk_elems s' = (if i < length (lk_elems s) then insert_at i v (lk_elems s) else lk_elems s)"
proof -
  obtain h l where s: "s = (h, l)" by (cases s)
  show ?thesis
  proof (cases "i < length (lk_elems s)")
    case True
    with inv small obtain h' where "insert_before h (lk_nodes (h, l) ! i) v = Some h'"
      "lk_inv (h', l\<lparr>lk_size := wrap32 (lk_size l + 1)\<rparr>)"
      "lk_elems (h', l\<lparr>lk_size := wrap32 (lk_size l + 1)\<rparr>) = insert_at i v (lk_elems (h, l))"
      using link_inserts [of h l i v] link_nodes_live(5) [of h l] by (auto simp: s nth_append)
    then show ?thesis
      using True inv link_get_node [of h l i] link_node_nonnull [of h l i] by (simp add: s cel_link_insert_def)
  next
    case False
    then show ?thesis using inv link_get_node [of h l i] by (simp add: s cel_link_insert_def)
  qed
qed

lemma link_rem_law:
  assumes inv: "lk_inv s"
  shows "\<exists>s' r. cel_link_remove s i = Some (s', r) \<and> lk_inv s'
    \<and> (lk_elems s', r) = (if i < length (lk_elems s) then (remove_at i (lk_elems s), lk_elems s ! i) else (lk_elems s, 0))"
proof -
  obtain h l where s: "s = (h, l)" by (cases s)
  show ?thesis
  proof (cases "i < length (lk_elems s)")
    case True
    then show ?thesis
      using inv link_get_node [of h l i] link_takes_out [of h l i] link_node_nonnull [of h l i]
      by (auto simp: s cel_link_remove_def)
  next
    case False
    then show ?thesis using inv link_get_node [of h l i] by (simp add: s cel_link_remove_def)
  qed
qed

lemma link_get_law:
  assumes inv: "lk_inv s"
  shows "cel_link_get s i = Some (if i < length (lk_elems s) then lk_elems s ! i else 0)"
proof -
  obtain h l where s: "s = (h, l)" by (cases s)
  show ?thesis
    using inv link_get_node [of h l i] link_node_nonnull [of h l i] node_at_live [of "lk_nodes (h, l) ! i" h]
    by (auto simp: s cel_link_get_def lk_elems_def)
qed

lemma link_set_law:
  assumes inv: "lk_inv s"
  shows "\<exists>s' r. cel_link_set s i v = Some (s', r) \<and> lk_inv s'
    \<and> (lk_elems s', r) = (if i < length (lk_elems s) then ((lk_elems s)[i := v], lk_elems s ! i) else (lk_elems s, 0))"
proof -
  obtain h l where s: "s = (h, l)" by (cases s)
  show ?thesis
  proof (cases "i < length (lk_elems s)")
    case True
    let ?p = "lk_nodes (h, l) ! i"
    have p: "?p \<noteq> 0" "?p \<in> live h" using link_node_nonnull [of h l i] inv True by (auto simp: s)
    then obtain n where n: "node_at h ?p = Some n" "ln_next n = nx h ?p" "ln_prev n = pv h ?p" "ln_value n = vl h ?p"
      using node_at_live by blast
    let ?h = "store_node h ?p (n\<lparr>ln_value := v\<rparr>)"
    have eq: "nx ?h = nx h" "pv ?h = pv h" "vl ?h = (vl h)(?p := v)" "live ?h = live h" "lh_top ?h = lh_top h"
      "lh_ok ?h = lh_ok h"
      using n p by (auto simp: store_node_def views fun_eq_iff)
    have "lk_rep ?h l (lk_nodes (h, l))" using inv by (simp add: s lk_inv_def lk_rep_def eq)
    then have "lk_inv (?h, l) \<and> lk_elems (?h, l) = map (vl ?h) (lk_nodes (h, l))"
      using inv by (intro lk_invI) (auto simp: s lk_inv_def eq)
    moreover have "map (vl ?h) (lk_nodes (h, l)) = (lk_elems (h, l))[i := v]"
      using True inv by (intro nth_equalityI)
        (auto simp: s eq lk_elems_def nth_list_update nth_eq_iff_index_eq lk_inv_def dest!: rep_distinct)
    ultimately show ?thesis
      using True inv p n link_get_node [of h l i] by (simp add: s cel_link_set_def lk_elems_def)
  next
    case False
    then show ?thesis using inv link_get_node [of h l i] by (simp add: s cel_link_set_def)
  qed
qed

interpretation lk: sequence lk_inv lk_elems "\<lambda>_. True" cel_link_add cel_link_insert cel_link_remove
    cel_link_get cel_link_set "2 ^ 32 - 1"
  by unfold_locales ((rule link_add_law link_ins_law link_rem_law link_get_law link_set_law; assumption)+)

section \<open>The ends of the list\<close>

lemma add_first_law:
  assumes inv: "lk_inv s" and small: "length (lk_elems s) < 2 ^ 32 - 1"
  shows "\<exists>s'. cel_link_add_first s v = Some s' \<and> lk_inv s' \<and> lk_elems s' = v # lk_elems s"
proof -
  obtain h l where s: "s = (h, l)" by (cases s)
  have first: "nx h (lk_head l) = (lk_nodes (h, l) @ [lk_tail l]) ! 0"
    using inv leads_nth [of "nx h" "spine l (lk_nodes (h, l))" 0]
    by (simp add: s lk_inv_def lk_rep_def spine_def)
  obtain n where n: "node_at h (lk_head l) = Some n" "ln_next n = nx h (lk_head l)"
    using link_nodes_live(3) [of h l] inv node_at_live by (auto simp: s)
  obtain h' where "insert_before h ((lk_nodes (h, l) @ [lk_tail l]) ! 0) v = Some h'"
    "lk_inv (h', l\<lparr>lk_size := wrap32 (lk_size l + 1)\<rparr>)"
    "lk_elems (h', l\<lparr>lk_size := wrap32 (lk_size l + 1)\<rparr>) = insert_at 0 v (lk_elems (h, l))"
    using link_inserts [of h l 0 v] inv small by (auto simp: s)
  then show ?thesis using n first by (simp add: s cel_link_add_first_def insert_at_def)
qed

lemma remove_first_law:
  assumes inv: "lk_inv s"
  shows "\<exists>s' r. cel_link_remove_first s = Some (s', r) \<and> lk_inv s'
    \<and> (if lk_elems s = [] then s' = s \<and> r = 0
       else r = hd (lk_elems s) \<and> lk_elems s' = tl (lk_elems s) \<and> live (fst s') = live (fst s) - {hd (lk_nodes s)}
         \<and> lk_nodes s' = tl (lk_nodes s)
         \<and> lk_head (snd s') = lk_head (snd s) \<and> lk_tail (snd s') = lk_tail (snd s))"
proof -
  obtain h l where s: "s = (h, l)" by (cases s)
  have inv': "lk_inv (h, l)" using inv s by simp
  show ?thesis
  proof (cases "lk_elems s = []")
    case True
    then show ?thesis using inv link_nodes_live(5,6) [OF inv'] by (simp add: s cel_link_remove_first_def)
  next
    case False
    then have ne: "lk_nodes (h, l) \<noteq> []" "0 < length (lk_elems (h, l))"
      using link_nodes_live(5) [OF inv'] by (auto simp: s)
    have first: "nx h (lk_head l) = lk_nodes (h, l) ! 0"
      using inv' leads_nth [of "nx h" "spine l (lk_nodes (h, l))" 0] ne
      by (simp add: lk_inv_def lk_rep_def spine_def nth_append)
    obtain n where n: "node_at h (lk_head l) = Some n" "ln_next n = nx h (lk_head l)"
      using link_nodes_live(3) [OF inv'] node_at_live by blast
    obtain s' where s': "take_out (h, l) (lk_nodes (h, l) ! 0) = Some (s', lk_elems (h, l) ! 0)"
      "lk_inv s'" "lk_elems s' = remove_at 0 (lk_elems (h, l))" "live (fst s') = live h - {lk_nodes (h, l) ! 0}"
      "lk_nodes s' = remove_at 0 (lk_nodes (h, l))"
      "lk_head (snd s') = lk_head l" "lk_tail (snd s') = lk_tail l"
      using link_takes_out [OF inv' ne(2)] by blast
    have "lk_size l \<noteq> 0" using ne link_nodes_live(6) [OF inv'] by simp
    then have "cel_link_remove_first s = Some (s', lk_elems (h, l) ! 0)"
      using n first s'(1) by (simp add: s cel_link_remove_first_def)
    then show ?thesis using s' False ne by (simp add: s remove_at_def drop_Suc hd_conv_nth)
  qed
qed

lemma remove_last_law:
  assumes inv: "lk_inv s"
  shows "\<exists>s' r. cel_link_remove_last s = Some (s', r) \<and> lk_inv s'
    \<and> (if lk_elems s = [] then s' = s \<and> r = 0 else r = last (lk_elems s) \<and> lk_elems s' = butlast (lk_elems s))"
proof -
  obtain h l where s: "s = (h, l)" by (cases s)
  have inv': "lk_inv (h, l)" using inv s by simp
  show ?thesis
  proof (cases "lk_elems s = []")
    case True
    then show ?thesis using inv link_nodes_live(5,6) [OF inv'] by (simp add: s cel_link_remove_last_def)
  next
    case False
    let ?i = "length (lk_elems (h, l)) - 1"
    have ne: "?i < length (lk_elems (h, l))" using False by (cases "lk_elems s") (auto simp: s)
    then have nodes: "lk_nodes (h, l) \<noteq> []" using link_nodes_live(5) [OF inv'] by auto
    have final: "pv h (lk_tail l) = lk_nodes (h, l) ! ?i"
      using inv' leads_nth [of "pv h" "rev (spine l (lk_nodes (h, l)))" 0] nodes link_nodes_live(5) [OF inv']
      by (simp add: lk_inv_def lk_rep_def spine_def nth_append rev_nth)
    obtain n where n: "node_at h (lk_tail l) = Some n" "ln_prev n = pv h (lk_tail l)"
      using link_nodes_live(4) [OF inv'] node_at_live by blast
    obtain s' where s': "take_out (h, l) (lk_nodes (h, l) ! ?i) = Some (s', lk_elems (h, l) ! ?i)"
      "lk_inv s'" "lk_elems s' = remove_at ?i (lk_elems (h, l))"
      using link_takes_out [OF inv' ne] by blast
    have "lk_size l \<noteq> 0" using nodes link_nodes_live(6) [OF inv'] by simp
    then have "cel_link_remove_last s = Some (s', lk_elems (h, l) ! ?i)"
      using n final s'(1) by (simp add: s cel_link_remove_last_def)
    then show ?thesis using s' False by (simp add: s remove_at_def butlast_conv_take last_conv_nth)
  qed
qed

section \<open>Emptying and destroying a list\<close>

lemma clear_law:
  assumes "lk_inv s" "0 \<notin> set (lk_elems s)"
  shows "\<exists>s'. sarah_clear_link_entries s = Some (s', lk_elems s) \<and> lk_inv s' \<and> lk_elems s' = []
    \<and> live (fst s') = live (fst s) - set (lk_nodes s) \<and> lk_head (snd s') = lk_head (snd s) \<and> lk_tail (snd s') = lk_tail (snd s)"
  using assms
proof (induction "length (lk_elems s)" arbitrary: s)
  case 0
  then have "lk_nodes s = []" by (cases s) (auto dest: link_nodes_live(5))
  with 0 remove_first_law [of s] show ?case by (subst sarah_clear_link_entries.simps) auto
next
  case (Suc n)
  then have ne: "lk_elems s \<noteq> []" "lk_nodes s \<noteq> []" by (cases s, auto dest: link_nodes_live(5))+
  obtain s1 where s1: "cel_link_remove_first s = Some (s1, hd (lk_elems s))" "lk_inv s1"
    "lk_elems s1 = tl (lk_elems s)" "live (fst s1) = live (fst s) - {hd (lk_nodes s)}" "lk_nodes s1 = tl (lk_nodes s)"
    "lk_head (snd s1) = lk_head (snd s)" "lk_tail (snd s1) = lk_tail (snd s)"
    using remove_first_law [OF Suc.prems(1)] ne by auto
  have "hd (lk_elems s) \<noteq> 0" using Suc.prems(2) ne by (cases "lk_elems s") auto
  moreover have len: "n = length (lk_elems s1)" using Suc.hyps(2) s1(3) by simp
  moreover have nn: "0 \<notin> set (lk_elems s1)" using Suc.prems(2) s1(3) list.set_sel(2) [OF ne(1)] by auto
  moreover obtain s' where "sarah_clear_link_entries s1 = Some (s', lk_elems s1)" "lk_inv s'" "lk_elems s' = []"
    "live (fst s') = live (fst s1) - set (lk_nodes s1)" "lk_head (snd s') = lk_head (snd s1)"
    "lk_tail (snd s') = lk_tail (snd s1)"
    using Suc.hyps(1) [of s1] len s1(2) nn by auto
  moreover have "insert (hd (lk_nodes s)) (set (tl (lk_nodes s))) = set (lk_nodes s)" "hd (lk_elems s) # tl (lk_elems s) = lk_elems s"
    using ne by (auto simp flip: list.set(2))
  ultimately show ?case using s1 by (subst sarah_clear_link_entries.simps) auto
qed

lemma destroy_empty:
  assumes "lk_inv s" "lk_elems s = []"
  shows "\<exists>s'. cel_link_destroy s callback = Some (s', [], 1)
    \<and> live (fst s') = live (fst s) - {lk_head (snd s), lk_tail (snd s)}"
proof -
  obtain h l where s: "s = (h, l)" by (cases s)
  have inv: "lk_inv (h, l)" using assms s by simp
  have nil: "lk_nodes (h, l) = []" using assms(2) link_nodes_live(5) [OF inv] by (simp add: s)
  have first: "nx h (lk_head l) = lk_tail l" "lk_head l \<noteq> lk_tail l"
    using inv nil by (auto simp: lk_inv_def lk_rep_def spine_def)
  have lv: "lk_head l \<in> live h" "lk_tail l \<in> live h" using link_nodes_live [OF inv] by auto
  obtain n where n: "node_at h (lk_head l) = Some n" "ln_next n = lk_tail l"
    using node_at_live [OF lv(1)] first by auto
  obtain h1 where h1: "free_node h (lk_head l) = Some h1" "live h1 = live h - {lk_head l}"
    using free_node_live [OF lv(1)] by blast
  obtain h2 where h2: "free_node h1 (lk_tail l) = Some h2" "live h2 = live h1 - {lk_tail l}"
    using free_node_live [of "lk_tail l" h1] lv first h1 by auto
  show ?thesis
    using n h1 h2 by (subst cel_link_destroy_def) (auto simp: s destroy_loop.simps [of h])
qed

lemma destroy_nonempty:
  assumes "lk_inv s" "lk_elems s \<noteq> []"
  shows "cel_link_destroy s callback = None"
proof -
  obtain h l where s: "s = (h, l)" by (cases s)
  have inv: "lk_inv (h, l)" using assms s by simp
  obtain a as where nodes: "lk_nodes (h, l) = a # as"
    using assms(2) link_nodes_live(5) [OF inv] by (cases "lk_nodes (h, l)") (auto simp: s)
  have first: "nx h (lk_head l) = a" "a \<noteq> lk_tail l" "a \<in> live h" "lk_head l \<in> live h"
    using inv nodes by (auto simp: lk_inv_def lk_rep_def spine_def)
  obtain n where n: "node_at h (lk_head l) = Some n" "ln_next n = a"
    using node_at_live [OF first(4)] first by auto
  obtain m where m: "node_at h a = Some m" using node_at_live [OF first(3)] by blast
  obtain h1 where h1: "free_node h a = Some h1" "live h1 = live h - {a}"
    using free_node_live [OF first(3)] by blast
  then have "node_at h1 a = None" by (intro node_at_dead) auto
  then show ?thesis
    using n m h1 first(2) by (simp add: cel_link_destroy_def s destroy_loop.simps [of h])
qed

lemma init_law:
  assumes "lh_ok h = []" "0 < lh_top h" "\<And>p. p \<in> live h \<Longrightarrow> p < lh_top h"
  shows "\<exists>h' l. cel_link_init h = Some (h', l, 1) \<and> lk_inv (h', l) \<and> lk_elems (h', l) = []
    \<and> lk_nodes (h', l) = [] \<and> live h' = live h \<union> {lk_head l, lk_tail l} \<and> lk_head l \<notin> live h \<and> lk_tail l \<notin> live h"
proof -
  let ?t = "lh_top h"
  obtain h1 where h1: "create_link_node h 0 0 0 = (h1, ?t)" "nx h1 = (nx h)(?t := 0)" "pv h1 = (pv h)(?t := 0)"
    "live h1 = insert ?t (live h)" "lh_top h1 = ?t + 1" "lh_ok h1 = []"
    using create_node_live [of h 0 0 0] assms by auto
  obtain h2 where h2: "create_link_node h1 0 0 ?t = (h2, ?t + 1)" "nx h2 = (nx h1)(?t + 1 := ?t)"
    "pv h2 = (pv h1)(?t + 1 := 0)" "live h2 = insert (?t + 1) (live h1)" "lh_top h2 = ?t + 2" "lh_ok h2 = []"
    using create_node_live [of h1 0 0 ?t] h1 by auto
  have "?t \<in> live h2" using h1 h2 by simp
  then obtain h3 where h3: "set_prev h2 ?t (?t + 1) = Some h3" "pv h3 = (pv h2)(?t := ?t + 1)" "nx h3 = nx h2"
    "live h3 = live h2" "lh_top h3 = lh_top h2" "lh_ok h3 = lh_ok h2"
    using set_prev_live by blast
  let ?l = "\<lparr>lk_size = 0, lk_head = ?t + 1, lk_tail = ?t\<rparr>"
  have "lk_rep h3 ?l []"
    using h1 h2 h3 assms(2,3) by (fastforce simp: lk_rep_def spine_def)
  then have "lk_inv (h3, ?l) \<and> lk_elems (h3, ?l) = [] \<and> lk_nodes (h3, ?l) = []"
    using lk_invI [of h3 ?l "[]"] rep_nodes [of h3 ?l "[]"] h2(6) h3(6) by simp
  moreover have "cel_link_init h = Some (h3, ?l, 1)"
    using h1(1) h2(1) h3(1) assms(2) by (simp add: cel_link_init_def)
  moreover have "?t \<notin> live h" "?t + 1 \<notin> live h" using assms(3) [of ?t] assms(3) [of "?t + 1"] by auto
  ultimately show ?thesis
    using h1(4) h2(4) h3(4) by (intro exI [of _ h3] exI [of _ ?l]) auto
qed

section \<open>Properties\<close>

text \<open>C9: every sequence of operations at indices on a \<open>cel_link_t\<close> is free of undefined behaviour and
  gives the results of the same operations on a list.\<close>

theorem link_runs_like_list:
  assumes "lk_inv s" "length (lk_elems s) + length ops \<le> 2 ^ 32 - 1"
  shows "\<exists>s' rs. seq_run (seq_step cel_link_add cel_link_insert cel_link_remove cel_link_get cel_link_set) s ops
       = Some (s', rs)
     \<and> lk_inv s' \<and> spec_run (lk_elems s) ops = (lk_elems s', rs)"
  using lk.run_refines [of ops s ops] assms by simp

definition empty_heap :: lheap where
  "empty_heap = \<lparr>lh_cell = Map.empty, lh_top = 1, lh_ok = []\<rparr>"

lemma link_runs_like_list_witness:
  "\<exists>h l s' rs. cel_link_init empty_heap = Some (h, l, 1)
     \<and> seq_run (seq_step cel_link_add cel_link_insert cel_link_remove cel_link_get cel_link_set) (h, l)
         [Add 7, Add 8, Add 9, Insert 1 5, Remove 0, Set 2 4, Get 0] = Some (s', rs)
     \<and> lk_elems s' = [5, 8, 4] \<and> rs = [0, 0, 0, 0, 7, 9, 5]"
proof -
  obtain h l where "cel_link_init empty_heap = Some (h, l, 1)" "lk_inv (h, l)" "lk_elems (h, l) = []"
    using init_law [of empty_heap] by (auto simp: empty_heap_def live_def)
  then show ?thesis
    using link_runs_like_list [of "(h, l)" "[Add 7, Add 8, Add 9, Insert 1 5, Remove 0, Set 2 4, Get 0]"]
    by (auto simp: insert_at_def remove_at_def)
qed

text \<open>\<open>sarah_clear_link_entries\<close> on a list of values none of which is null returns after handing each
  of them to the release function, in order, and the destruction of the list that follows frees the
  sentinels and, with them, every cell of the list and no other.\<close>

theorem clear_then_destroy:
  assumes "lk_inv s" "0 \<notin> set (lk_elems s)"
  shows "\<exists>s1 s2. sarah_clear_link_entries s = Some (s1, lk_elems s) \<and> lk_elems s1 = []
     \<and> cel_link_destroy s1 False = Some (s2, [], 1)
     \<and> live (fst s2) = live (fst s) - set (spine (snd s) (lk_nodes s))"
proof -
  obtain s1 where s1: "sarah_clear_link_entries s = Some (s1, lk_elems s)" "lk_inv s1" "lk_elems s1 = []"
    "live (fst s1) = live (fst s) - set (lk_nodes s)" "lk_head (snd s1) = lk_head (snd s)"
    "lk_tail (snd s1) = lk_tail (snd s)"
    using clear_law [OF assms] by blast
  with destroy_empty [OF s1(2,3), of False] show ?thesis by (auto simp: spine_def)
qed

text \<open>A list of the values 7 and 8 and nothing else on the heap.\<close>

definition sample_link :: "lheap \<times> link" where
  "sample_link =
     (\<lparr>lh_cell = [1 \<mapsto> \<lparr>ln_value = 0, ln_prev = 4, ln_next = 0\<rparr>, 2 \<mapsto> \<lparr>ln_value = 0, ln_prev = 0, ln_next = 3\<rparr>,
         3 \<mapsto> \<lparr>ln_value = 7, ln_prev = 2, ln_next = 4\<rparr>, 4 \<mapsto> \<lparr>ln_value = 8, ln_prev = 3, ln_next = 1\<rparr>],
       lh_top = 5, lh_ok = []\<rparr>, \<lparr>lk_size = 2, lk_head = 2, lk_tail = 1\<rparr>)"

lemma sample_link_rep:
  "lk_inv sample_link \<and> lk_elems sample_link = [7, 8]
   \<and> live (fst sample_link) = set (spine (snd sample_link) (lk_nodes sample_link))"
proof -
  have "lk_rep (fst sample_link) (snd sample_link) [3, 4]"
    by (auto simp: sample_link_def lk_rep_def spine_def views split: if_splits)
  then show ?thesis
    using lk_invI [of "fst sample_link" "snd sample_link" "[3, 4]"]
      rep_nodes [of "fst sample_link" "snd sample_link" "[3, 4]"]
    by (auto simp: sample_link_def spine_def views split: if_splits)
qed

lemma clear_then_destroy_witness:
  "\<exists>s1 s2. sarah_clear_link_entries sample_link = Some (s1, [7, 8]) \<and> cel_link_destroy s1 False = Some (s2, [], 1)
     \<and> live (fst s2) = {}"
  using clear_then_destroy [of sample_link] sample_link_rep by auto

text \<open>\<open>cel_link_destroy\<close> on a list that still has nodes reads a node it has just freed, with or
  without a release function; on an empty list it is defined.\<close>

theorem destroy_reads_freed_node:
  assumes "lk_inv s"
  shows "(cel_link_destroy s callback = None) = (lk_elems s \<noteq> [])"
  using destroy_nonempty [OF assms] destroy_empty [OF assms] by (metis option.distinct(1))

lemma destroy_reads_freed_node_witness: "cel_link_destroy sample_link True = None"
  using destroy_reads_freed_node [of sample_link True] sample_link_rep by auto

text \<open>The list is a double-ended queue: adding and removing at its ends act on the ends of the
  sequence, and removing from an empty list gives null.\<close>

theorem link_ends:
  assumes "lk_inv s" "length (lk_elems s) < 2 ^ 32 - 1"
  shows "(\<exists>s'. cel_link_add_first s v = Some s' \<and> lk_inv s' \<and> lk_elems s' = v # lk_elems s)
     \<and> (\<exists>s'. cel_link_add_last s v = Some s' \<and> lk_inv s' \<and> lk_elems s' = lk_elems s @ [v])
     \<and> (\<exists>s' r. cel_link_remove_first s = Some (s', r) \<and> lk_inv s' \<and> lk_elems s' = tl (lk_elems s)
          \<and> r = (if lk_elems s = [] then 0 else hd (lk_elems s)))
     \<and> (\<exists>s' r. cel_link_remove_last s = Some (s', r) \<and> lk_inv s' \<and> lk_elems s' = butlast (lk_elems s)
          \<and> r = (if lk_elems s = [] then 0 else last (lk_elems s)))"
proof (intro conjI)
  show "\<exists>s'. cel_link_add_first s v = Some s' \<and> lk_inv s' \<and> lk_elems s' = v # lk_elems s"
    by (rule add_first_law [OF assms])
  show "\<exists>s'. cel_link_add_last s v = Some s' \<and> lk_inv s' \<and> lk_elems s' = lk_elems s @ [v]"
    using link_add_law [OF assms, of v] by (simp add: cel_link_add_def cel_link_add_last_def)
  show "\<exists>s' r. cel_link_remove_first s = Some (s', r) \<and> lk_inv s' \<and> lk_elems s' = tl (lk_elems s)
      \<and> r = (if lk_elems s = [] then 0 else hd (lk_elems s))"
    using remove_first_law [OF assms(1)] by (cases "lk_elems s = []") auto
  show "\<exists>s' r. cel_link_remove_last s = Some (s', r) \<and> lk_inv s' \<and> lk_elems s' = butlast (lk_elems s)
      \<and> r = (if lk_elems s = [] then 0 else last (lk_elems s))"
    using remove_last_law [OF assms(1)] by (cases "lk_elems s = []") auto
qed

lemma link_ends_witness:
  "\<exists>s'. cel_link_add_first sample_link 6 = Some s' \<and> lk_elems s' = [6, 7, 8]"
  using link_ends [of sample_link 6] sample_link_rep by auto

text \<open>When \<open>malloc\<close> fails in \<open>cel_link_add_last\<close> the list counts a node it does not have: removing
  it from the list that was empty dereferences null.\<close>

theorem failed_add_breaks_list:
  "\<exists>h l s. cel_link_init (empty_heap\<lparr>lh_ok := [True, True, False]\<rparr>) = Some (h, l, 1)
     \<and> cel_link_add_last (h, l) v = Some s \<and> lk_size (snd s) = 1 \<and> cel_link_remove_first s = None"
  by (simp add: cel_link_init_def create_link_node_def empty_heap_def store_node_def set_prev_def node_at_def
      cel_link_add_last_def insert_before_def cel_link_remove_first_def take_out_def cel_remove_node_def set_next_def
      Let_def)

end
