(* ===== verification/CelHashmap.thy ===== *)
theory CelHashmap
  imports CelHash CelMath
begin

text \<open>
  The hash maps of \<open>src/main/cel_hashmap.c\<close>: \<open>cel_hashmap_t\<close> from strings to pointers and
  \<open>cel_ihashmap_t\<close> from strings to integers, which are the same table with another member of the
  value union.

  State: the table of buckets, each the list of its nodes in chain order, the number of buckets
  \<open>length\<close>, the number of entries \<open>size\<close>, and \<open>threshold\<close> and \<open>factor\<close>.  A node carries the hash of its
  key (\<open>CEL_HASHMAP_STORE_HCODE\<close> is defined).  Keys are compared as strings: the map keeps the
  caller's pointer, and the model assumes that the string it points to does not change while the map
  holds it.  The factor is a \<open>float\<close>: a mantissa of 24 bits and the number of its binary places.
  \<open>al\<close> says for how many bytes an allocation succeeds.

  Shown: the table invariant (every node in the bucket of its hash, keys distinct, \<open>size\<close> exact) holds
  after every operation, rehashing included, and every operation acts on the finite map that the
  table represents.  What a counting client needs is the locale \<open>tally_map\<close>.
\<close>

section \<open>Single-precision factors\<close>

record float32 =
  fl_man :: nat
  fl_places :: nat

text \<open>The nearest number with 24 significant bits, ties to even.\<close>

fun bit_length :: "nat \<Rightarrow> nat" where
  "bit_length n = (if n = 0 then 0 else Suc (bit_length (n div 2)))"

declare bit_length.simps [simp del]

definition round24 :: "nat \<Rightarrow> nat" where
  "round24 n =
     (let s = bit_length n - 24; q = n div 2 ^ s; r = n mod 2 ^ s in
      if 2 * r > 2 ^ s \<or> 2 * r = 2 ^ s \<and> 0 < s \<and> odd q then (q + 1) * 2 ^ s else q * 2 ^ s)"

text \<open>\<open>(uint_t) (factor * n)\<close>: \<open>n\<close> is converted to \<open>float\<close>, the product rounded, then truncated.\<close>

definition scale :: "float32 \<Rightarrow> nat \<Rightarrow> nat" where
  "scale f n = round24 (fl_man f * round24 n) div 2 ^ fl_places f"

section \<open>The code\<close>

record 'v hnode =
  hn_key :: bytes
  hn_value :: 'v
  hn_hash :: u32

record 'v hmap =
  hm_table :: "'v hnode list list"
  hm_length :: nat
  hm_size :: nat
  hm_threshold :: nat
  hm_factor :: float32

definition create_node_blocks :: "(nat \<Rightarrow> bool) \<Rightarrow> nat \<Rightarrow> 'v hnode list list option" where
  "create_node_blocks al n = (if al (8 * n) then Some (replicate n []) else None)"

definition cel_hashmap_init :: "(nat \<Rightarrow> bool) \<Rightarrow> 'v hmap \<Rightarrow> nat \<Rightarrow> float32 \<Rightarrow> 'v hmap \<times> nat" where
  "cel_hashmap_init al m opacity factor =
     (case create_node_blocks al opacity of
        None \<Rightarrow> (m\<lparr>hm_table := []\<rparr>, 0)
      | Some t \<Rightarrow> (m\<lparr>hm_table := t, hm_length := opacity, hm_size := 0, hm_factor := factor,
                    hm_threshold := scale factor opacity\<rparr>, 1))"

text \<open>\<open>cel_hash(key) % length\<close>, undefined for a table without buckets.\<close>

definition bucket_of :: "'v hmap \<Rightarrow> bytes \<Rightarrow> nat option" where
  "bucket_of m key = (if hm_length m = 0 then None else Some (unat (cel_bkdr_hash key) mod hm_length m))"

text \<open>The loops over a chain: the first node with the key is read, changed, or unlinked.\<close>

fun chain_find :: "bytes \<Rightarrow> 'v hnode list \<Rightarrow> 'v hnode option" where
  "chain_find key [] = None"
| "chain_find key (e # es) = (if key = hn_key e then Some e else chain_find key es)"

fun chain_update :: "bytes \<Rightarrow> 'v \<Rightarrow> 'v hnode list \<Rightarrow> 'v hnode list" where
  "chain_update key v [] = []"
| "chain_update key v (e # es) =
     (if key = hn_key e then e\<lparr>hn_value := v\<rparr> # es else e # chain_update key v es)"

fun chain_unlink :: "bytes \<Rightarrow> 'v hnode list \<Rightarrow> 'v hnode list" where
  "chain_unlink key [] = []"
| "chain_unlink key (e # es) = (if key = hn_key e then es else e # chain_unlink key es)"

text \<open>\<open>rebuild_hash\<close>: the nodes of a chain go to the front of their new buckets one after the other.\<close>

fun move_chain :: "nat \<Rightarrow> 'v hnode list \<Rightarrow> 'v hnode list list \<Rightarrow> 'v hnode list list option" where
  "move_chain n [] t = Some t"
| "move_chain n (e # es) t = do {
     let idx = unat (hn_hash e) mod n;
     b \<leftarrow> rd t idx;
     t \<leftarrow> wr t idx (e # b);
     move_chain n es t }"

fun move_table :: "nat \<Rightarrow> 'v hnode list list \<Rightarrow> 'v hnode list list \<Rightarrow> 'v hnode list list option" where
  "move_table n [] t = Some t"
| "move_table n (c # cs) t = do { t \<leftarrow> move_chain n c t; move_table n cs t }"

definition rebuild_hash :: "(nat \<Rightarrow> bool) \<Rightarrow> 'v hmap \<Rightarrow> 'v hmap option" where
  "rebuild_hash al m = do {
     p \<leftarrow> cel_next_prime (to_int32 (wrap32 (hm_length m * 2 + 1)));
     let n = to_uint32 p;
     (case create_node_blocks al n of
        None \<Rightarrow> Some m
      | Some t \<Rightarrow> do {
          t \<leftarrow> move_table n (take (hm_length m) (hm_table m)) t;
          Some (m\<lparr>hm_table := t, hm_length := n, hm_threshold := scale (hm_factor m) n\<rparr>) }) }"

text \<open>What \<open>cel_hashmap_put\<close> and \<open>cel_ihashmap_put\<close> share; the second component is the old value.  When
  the node cannot be allocated the code writes its hash through a null pointer.\<close>

definition hm_store :: "(nat \<Rightarrow> bool) \<Rightarrow> 'v hmap \<Rightarrow> bytes \<Rightarrow> 'v \<Rightarrow> ('v hmap \<times> 'v option) option" where
  "hm_store al m key v = do {
     idx \<leftarrow> bucket_of m key;
     b \<leftarrow> rd (hm_table m) idx;
     (case chain_find key b of
        Some e \<Rightarrow> do {
          t \<leftarrow> wr (hm_table m) idx (chain_update key v b);
          Some (m\<lparr>hm_table := t\<rparr>, Some (hn_value e)) }
      | None \<Rightarrow>
          if \<not> al 32 then None
          else do {
            t \<leftarrow> wr (hm_table m) idx (\<lparr>hn_key = key, hn_value = v, hn_hash = cel_bkdr_hash key\<rparr> # b);
            let m = m\<lparr>hm_table := t, hm_size := wrap32 (hm_size m + 1)\<rparr>;
            m \<leftarrow> (if hm_size m > hm_threshold m then rebuild_hash al m else Some m);
            Some (m, None) }) }"

definition cel_hashmap_put :: "(nat \<Rightarrow> bool) \<Rightarrow> nat hmap \<Rightarrow> bytes \<Rightarrow> nat \<Rightarrow> (nat hmap \<times> nat) option" where
  "cel_hashmap_put al m key v = do {
     (m, old) \<leftarrow> hm_store al m key v;
     Some (m, case old of None \<Rightarrow> 0 | Some v \<Rightarrow> v) }"

definition cel_ihashmap_put :: "(nat \<Rightarrow> bool) \<Rightarrow> int hmap \<Rightarrow> bytes \<Rightarrow> int \<Rightarrow> (int hmap \<times> nat) option" where
  "cel_ihashmap_put al m key v = do {
     (m, old) \<leftarrow> hm_store al m key v;
     Some (m, 1) }"

text \<open>The lookup loop of the getters.\<close>

definition hm_lookup :: "'v hmap \<Rightarrow> bytes \<Rightarrow> 'v hnode option option" where
  "hm_lookup m key = do {
     idx \<leftarrow> bucket_of m key;
     b \<leftarrow> rd (hm_table m) idx;
     Some (chain_find key b) }"

definition cel_hashmap_get :: "nat hmap \<Rightarrow> bytes \<Rightarrow> nat option" where
  "cel_hashmap_get m key = do {
     r \<leftarrow> hm_lookup m key;
     Some (case r of None \<Rightarrow> 0 | Some e \<Rightarrow> hn_value e) }"

definition cel_ihashmap_get :: "int hmap \<Rightarrow> bytes \<Rightarrow> int option" where
  "cel_ihashmap_get m key = do {
     r \<leftarrow> hm_lookup m key;
     Some (case r of None \<Rightarrow> 0 | Some e \<Rightarrow> hn_value e) }"

definition cel_hashmap_exists :: "'v hmap \<Rightarrow> bytes \<Rightarrow> nat option" where
  "cel_hashmap_exists m key = do {
     r \<leftarrow> hm_lookup m key;
     Some (case r of None \<Rightarrow> 0 | Some e \<Rightarrow> 1) }"

definition cel_ihashmap_exists :: "int hmap \<Rightarrow> bytes \<Rightarrow> nat option" where
  "cel_ihashmap_exists m key = cel_hashmap_exists m key"

text \<open>The setters replace the value of a key that is there.  \<open>f\<close> computes the new value from the
  old one; it fails on an \<open>int\<close> overflow.\<close>

definition hm_change :: "'v hmap \<Rightarrow> bytes \<Rightarrow> ('v \<Rightarrow> 'v option) \<Rightarrow> ('v hmap \<times> 'v option) option" where
  "hm_change m key f = do {
     idx \<leftarrow> bucket_of m key;
     b \<leftarrow> rd (hm_table m) idx;
     (case chain_find key b of
        None \<Rightarrow> Some (m, None)
      | Some e \<Rightarrow> do {
          v \<leftarrow> f (hn_value e);
          t \<leftarrow> wr (hm_table m) idx (chain_update key v b);
          Some (m\<lparr>hm_table := t\<rparr>, Some (hn_value e)) }) }"

definition cel_hashmap_set :: "nat hmap \<Rightarrow> bytes \<Rightarrow> nat \<Rightarrow> (nat hmap \<times> nat) option" where
  "cel_hashmap_set m key v = do {
     (m, old) \<leftarrow> hm_change m key (\<lambda>_. Some v);
     Some (m, case old of None \<Rightarrow> 0 | Some v \<Rightarrow> v) }"

definition found :: "'v option \<Rightarrow> nat" where
  "found r = (case r of None \<Rightarrow> 0 | Some _ \<Rightarrow> 1)"

definition cel_ihashmap_set :: "int hmap \<Rightarrow> bytes \<Rightarrow> int \<Rightarrow> (int hmap \<times> nat) option" where
  "cel_ihashmap_set m key v = do {
     (m, old) \<leftarrow> hm_change m key (\<lambda>_. Some v);
     Some (m, found old) }"

definition cel_ihashmap_inc :: "int hmap \<Rightarrow> bytes \<Rightarrow> int \<Rightarrow> (int hmap \<times> nat) option" where
  "cel_ihashmap_inc m key d = do {
     (m, old) \<leftarrow> hm_change m key (\<lambda>v. int32 (v + d));
     Some (m, found old) }"

definition cel_ihashmap_dec :: "int hmap \<Rightarrow> bytes \<Rightarrow> int \<Rightarrow> (int hmap \<times> nat) option" where
  "cel_ihashmap_dec m key d = do {
     (m, old) \<leftarrow> hm_change m key (\<lambda>v. int32 (v - d));
     Some (m, found old) }"

text \<open>Removal; the second component is the removed value.  The pointers given to the release function
  are those that are not null.\<close>

definition hm_delete :: "'v hmap \<Rightarrow> bytes \<Rightarrow> ('v hmap \<times> 'v option) option" where
  "hm_delete m key = do {
     idx \<leftarrow> bucket_of m key;
     b \<leftarrow> rd (hm_table m) idx;
     (case chain_find key b of
        None \<Rightarrow> Some (m, None)
      | Some e \<Rightarrow> do {
          t \<leftarrow> wr (hm_table m) idx (chain_unlink key b);
          Some (m\<lparr>hm_table := t, hm_size := hm_size m - 1\<rparr>, Some (hn_value e)) }) }"

definition cel_hashmap_remove :: "nat hmap \<Rightarrow> bytes \<Rightarrow> bool \<Rightarrow> (nat hmap \<times> nat \<times> nat list) option" where
  "cel_hashmap_remove m key release = do {
     (m, old) \<leftarrow> hm_delete m key;
     Some (case old of
        None \<Rightarrow> (m, 0, [])
      | Some v \<Rightarrow> (m, v, if release \<and> v \<noteq> 0 then [v] else [])) }"

definition cel_ihashmap_remove :: "int hmap \<Rightarrow> bytes \<Rightarrow> (int hmap \<times> nat) option" where
  "cel_ihashmap_remove m key = do {
     (m, old) \<leftarrow> hm_delete m key;
     Some (m, found old) }"

text \<open>Clearing and destroying walk the table bucket by bucket.\<close>

definition cel_hashmap_clear :: "nat hmap \<Rightarrow> bool \<Rightarrow> (nat hmap \<times> nat list) option" where
  "cel_hashmap_clear m release =
     (if length (hm_table m) < hm_length m then None
      else Some (m\<lparr>hm_table := replicate (hm_length m) [] @ drop (hm_length m) (hm_table m), hm_size := 0\<rparr>,
        if release then filter (\<lambda>v. v \<noteq> 0) (map hn_value (concat (take (hm_length m) (hm_table m)))) else []))"

definition cel_ihashmap_clear :: "int hmap \<Rightarrow> int hmap option" where
  "cel_ihashmap_clear m =
     (if length (hm_table m) < hm_length m then None
      else Some (m\<lparr>hm_table := replicate (hm_length m) [] @ drop (hm_length m) (hm_table m), hm_size := 0\<rparr>))"

definition cel_hashmap_destroy :: "nat hmap \<Rightarrow> bool \<Rightarrow> (nat hmap \<times> nat list) option" where
  "cel_hashmap_destroy m release =
     (if length (hm_table m) < hm_length m then None
      else Some (m\<lparr>hm_table := []\<rparr>,
        if release then filter (\<lambda>v. v \<noteq> 0) (map hn_value (concat (take (hm_length m) (hm_table m)))) else []))"

section \<open>The table invariant\<close>

definition slot :: "nat \<Rightarrow> bytes \<Rightarrow> nat" where
  "slot n key = unat (cel_bkdr_hash key) mod n"

text \<open>Bucket \<open>i\<close> holds nodes of slot \<open>i\<close> with their hash, with distinct keys.\<close>

definition chain_ok :: "nat \<Rightarrow> nat \<Rightarrow> 'v hnode list \<Rightarrow> bool" where
  "chain_ok n i es \<longleftrightarrow>
     distinct (map hn_key es) \<and> (\<forall>e \<in> set es. hn_hash e = cel_bkdr_hash (hn_key e) \<and> slot n (hn_key e) = i)"

definition table_ok :: "nat \<Rightarrow> 'v hnode list list \<Rightarrow> bool" where
  "table_ok n t \<longleftrightarrow> 0 < n \<and> length t = n \<and> (\<forall>i < n. chain_ok n i (t ! i))"

definition hm_wf :: "'v hmap \<Rightarrow> bool" where
  "hm_wf m \<longleftrightarrow> table_ok (hm_length m) (hm_table m) \<and> hm_size m = length (concat (hm_table m)) \<and> hm_size m < 2 ^ 31"

text \<open>The finite map a table represents.\<close>

definition table_map :: "'v hnode list list \<Rightarrow> bytes \<Rightarrow> 'v option" where
  "table_map t key = map_option hn_value (chain_find key (t ! slot (length t) key))"

definition hm_map :: "'v hmap \<Rightarrow> bytes \<Rightarrow> 'v option" where
  "hm_map m = table_map (hm_table m)"

lemma chain_find_None: "chain_find key es = None \<longleftrightarrow> key \<notin> hn_key ` set es"
  by (induction es) auto

lemma chain_find_Some: "chain_find key es = Some e \<Longrightarrow> e \<in> set es \<and> hn_key e = key"
  by (induction es) (auto split: if_splits)

lemma chain_find_update:
  "chain_find k (chain_update key v es)
   = (if k = key then map_option (\<lambda>e. e\<lparr>hn_value := v\<rparr>) (chain_find key es) else chain_find k es)"
  by (induction es) auto

lemma chain_update_keys [simp]: "map hn_key (chain_update key v es) = map hn_key es"
  by (induction es) auto

lemma chain_update_hash: "map hn_hash (chain_update key v es) = map hn_hash es"
  by (induction es) auto

lemma length_chain_update [simp]: "length (chain_update key v es) = length es"
  by (induction es) auto

lemma chain_ok_update:
  "chain_ok n i es \<Longrightarrow> chain_ok n i (chain_update key v es)"
proof -
  have "(\<forall>e \<in> set (chain_update key v es). hn_hash e = cel_bkdr_hash (hn_key e) \<and> slot n (hn_key e) = i)
      = (\<forall>e \<in> set es. hn_hash e = cel_bkdr_hash (hn_key e) \<and> slot n (hn_key e) = i)"
    by (induction es) auto
  then show "chain_ok n i es \<Longrightarrow> chain_ok n i (chain_update key v es)" by (simp add: chain_ok_def)
qed

lemma set_chain_unlink: "set (chain_unlink key es) \<subseteq> set es"
  by (induction es) auto

lemma chain_ok_unlink: "chain_ok n i es \<Longrightarrow> chain_ok n i (chain_unlink key es)"
proof -
  have "distinct (map hn_key es) \<Longrightarrow> distinct (map hn_key (chain_unlink key es))"
    using set_chain_unlink by (induction es) fastforce+
  then show "chain_ok n i es \<Longrightarrow> chain_ok n i (chain_unlink key es)"
    using set_chain_unlink [of key es] by (auto simp: chain_ok_def)
qed

lemma chain_find_unlink:
  "distinct (map hn_key es) \<Longrightarrow> chain_find k (chain_unlink key es) = (if k = key then None else chain_find k es)"
  by (induction es) (auto simp: chain_find_None)

lemma length_chain_unlink: "chain_find key es = Some e \<Longrightarrow> length es = Suc (length (chain_unlink key es))"
  by (induction es) (auto split: if_splits)

lemma table_ok_update:
  assumes "table_ok n t" "chain_ok n i b" "i < n"
  shows "table_ok n (t[i := b])"
  using assms by (auto simp: table_ok_def nth_list_update)

lemma length_concat_update:
  "i < length t \<Longrightarrow> length (concat (t[i := b])) + length (t ! i) = length (concat t) + length b"
proof (induction t arbitrary: i)
  case (Cons c t)
  then show ?case by (cases i) auto
qed simp

lemma slot_less: "0 < n \<Longrightarrow> slot n key < n"
  by (simp add: slot_def)

lemma table_map_update:
  assumes "0 < length t"
    "\<And>k. slot (length t) k = slot (length t) key \<Longrightarrow> map_option hn_value (chain_find k b) = f k"
    "\<And>k. slot (length t) k \<noteq> slot (length t) key \<Longrightarrow> f k = table_map t k"
  shows "table_map (t[slot (length t) key := b]) = f"
  using assms slot_less [OF assms(1)] by (auto simp: table_map_def fun_eq_iff nth_list_update)

lemma chains_distinct:
  "(\<And>i. i < length t \<Longrightarrow> chain_ok n (i + k) (t ! i)) \<Longrightarrow>
   distinct (map hn_key (concat t))
   \<and> (\<forall>e \<in> set (concat t). hn_hash e = cel_bkdr_hash (hn_key e) \<and> k \<le> slot n (hn_key e))"
proof (induction t arbitrary: k)
  case Nil
  then show ?case by simp
next
  case (Cons c t)
  have tl: "chain_ok n (i + Suc k) (t ! i)" if "i < length t" for i
    using Cons.prems [of "Suc i"] that by simp
  have c: "chain_ok n k c" using Cons.prems [of 0] by simp
  from Cons.IH [OF tl] c show ?case
    by (fastforce simp: chain_ok_def)
qed

lemma table_distinct:
  assumes "table_ok n t"
  shows "distinct (map hn_key (concat t))" "\<forall>e \<in> set (concat t). hn_hash e = cel_bkdr_hash (hn_key e)"
  using chains_distinct [of t n 0] assms by (auto simp: table_ok_def)

lemma table_member:
  assumes "table_ok n t" "e \<in> set (concat t)"
  shows "e \<in> set (t ! slot n (hn_key e))"
proof -
  obtain c where c: "c \<in> set t" "e \<in> set c" using assms(2) by auto
  then obtain i where i: "i < length t" "e \<in> set (t ! i)" by (auto simp: in_set_conv_nth [of c])
  with assms(1) have "slot n (hn_key e) = i" by (auto simp: table_ok_def chain_ok_def)
  with i show ?thesis by simp
qed

lemma chain_find_member: "distinct (map hn_key es) \<Longrightarrow> e \<in> set es \<Longrightarrow> chain_find (hn_key e) es = Some e"
  by (induction es) (auto, metis image_eqI)

lemma table_map_iff:
  assumes "table_ok n t"
  shows "table_map t k = Some v \<longleftrightarrow> (\<exists>e \<in> set (concat t). hn_key e = k \<and> hn_value e = v)"
proof
  from assms have n: "length t = n" "0 < n" by (auto simp: table_ok_def)
  then have s: "slot n k < length t" by (simp add: slot_less)
  {
    assume "table_map t k = Some v"
    then obtain e where "chain_find k (t ! slot n k) = Some e" "hn_value e = v"
      by (auto simp: table_map_def n)
    with s show "\<exists>e \<in> set (concat t). hn_key e = k \<and> hn_value e = v"
      by (auto dest!: chain_find_Some intro!: bexI [of _ e] intro: nth_mem)
  }
  assume "\<exists>e \<in> set (concat t). hn_key e = k \<and> hn_value e = v"
  then obtain e where e: "e \<in> set (concat t)" "hn_key e = k" "hn_value e = v" by blast
  then have "e \<in> set (t ! slot n k)" using table_member [OF assms] by blast
  moreover have "distinct (map hn_key (t ! slot n k))"
    using assms s by (auto simp: table_ok_def chain_ok_def)
  ultimately show "table_map t k = Some v"
    using e chain_find_member [of "t ! slot n k" e] by (simp add: table_map_def n)
qed

lemma table_map_cong:
  "table_ok n t \<Longrightarrow> table_ok n' t' \<Longrightarrow> set (concat t) = set (concat t') \<Longrightarrow> table_map t = table_map t'"
  using table_map_iff [of n t] table_map_iff [of n' t'] by (metis ext option.exhaust)

lemma set_concat_push: "i < length t \<Longrightarrow> set (concat (t[i := e # t ! i])) = insert e (set (concat t))"
proof (induction t arbitrary: i)
  case (Cons c t)
  then show ?case by (cases i) auto
qed simp

lemma move_chain_ok:
  "table_ok n t \<Longrightarrow> \<forall>e \<in> set es. hn_hash e = cel_bkdr_hash (hn_key e) \<Longrightarrow> distinct (map hn_key (es @ concat t)) \<Longrightarrow>
   \<exists>t'. move_chain n es t = Some t' \<and> table_ok n t' \<and> set (concat t') = set es \<union> set (concat t)
     \<and> length (concat t') = length es + length (concat t)"
proof (induction es arbitrary: t)
  case Nil
  then show ?case by simp
next
  case (Cons e es)
  let ?i = "slot n (hn_key e)"
  from Cons.prems(1) have n: "length t = n" "0 < n" "?i < n" by (auto simp: table_ok_def slot_less)
  have "t ! ?i \<in> set t" using n by (intro nth_mem) simp
  then have mem: "set (t ! ?i) \<subseteq> set (concat t)" by auto
  have "chain_ok n ?i (t ! ?i)" using Cons.prems(1) n(3) by (simp add: table_ok_def)
  moreover have "hn_key e \<notin> hn_key ` set (t ! ?i)" using Cons.prems(3) mem by auto
  moreover have "hn_hash e = cel_bkdr_hash (hn_key e)" using Cons.prems(2) by simp
  ultimately have "chain_ok n ?i (e # t ! ?i)" by (simp add: chain_ok_def)
  then have ok: "table_ok n (t[?i := e # t ! ?i])"
    using Cons.prems(1) n(3) by (intro table_ok_update)
  have set: "set (concat (t[?i := e # t ! ?i])) = insert e (set (concat t))"
    using n by (intro set_concat_push) simp
  have len: "length (concat (t[?i := e # t ! ?i])) = Suc (length (concat t))"
    using length_concat_update [of ?i t "e # t ! ?i"] n by simp
  have "distinct (map hn_key (es @ concat (t[?i := e # t ! ?i])))"
    using Cons.prems(3) table_distinct(1) [OF ok] set by auto
  then obtain t' where "move_chain n es (t[?i := e # t ! ?i]) = Some t'" "table_ok n t'"
    "set (concat t') = set es \<union> set (concat (t[?i := e # t ! ?i]))"
    "length (concat t') = length es + length (concat (t[?i := e # t ! ?i]))"
    using Cons.IH [OF ok] Cons.prems(2) by auto
  moreover have "unat (hn_hash e) mod n = ?i" using Cons.prems(2) by (simp add: slot_def)
  ultimately show ?case
    using n set len by (auto simp: rd_def wr_def)
qed

lemma move_table_ok:
  "table_ok n t \<Longrightarrow> \<forall>e \<in> set (concat cs). hn_hash e = cel_bkdr_hash (hn_key e) \<Longrightarrow>
   distinct (map hn_key (concat cs @ concat t)) \<Longrightarrow>
   \<exists>t'. move_table n cs t = Some t' \<and> table_ok n t' \<and> set (concat t') = set (concat cs) \<union> set (concat t)
     \<and> length (concat t') = length (concat cs) + length (concat t)"
proof (induction cs arbitrary: t)
  case Nil
  then show ?case by simp
next
  case (Cons c cs)
  have "hn_key ` set c \<inter> hn_key ` set (concat t) = {}"
    using Cons.prems(3) by (simp del: set_concat) blast
  then have d: "distinct (map hn_key (c @ concat t))" "\<forall>e \<in> set c. hn_hash e = cel_bkdr_hash (hn_key e)"
    using Cons.prems(2,3) by (simp_all del: set_concat)
  obtain t1 where t1: "move_chain n c t = Some t1" "table_ok n t1" "set (concat t1) = set c \<union> set (concat t)"
    "length (concat t1) = length c + length (concat t)"
    using move_chain_ok [OF Cons.prems(1), of c] d by auto
  have "distinct (map hn_key (concat cs @ concat t1))"
    using Cons.prems(3) table_distinct(1) [OF t1(2)] t1(3) by (simp del: set_concat add: image_Un) blast
  then obtain t' where "move_table n cs t1 = Some t'" "table_ok n t'"
    "set (concat t') = set (concat cs) \<union> set (concat t1)"
    "length (concat t') = length (concat cs) + length (concat t1)"
    using Cons.IH [OF t1(2)] Cons.prems(2) by auto
  with t1 show ?case by auto
qed

lemma empty_table_ok: "0 < n \<Longrightarrow> table_ok n (replicate n [])"
  by (simp add: table_ok_def chain_ok_def)

definition may_grow :: "'v hmap \<Rightarrow> bool" where
  "may_grow m \<longleftrightarrow> hm_length m * 2 + 1 \<le> 2147117569"

lemma rebuild_law:
  assumes wf: "hm_wf m" and grow: "may_grow m"
  shows "\<exists>m'. rebuild_hash al m = Some m' \<and> hm_wf m' \<and> hm_map m' = hm_map m \<and> hm_size m' = hm_size m"
proof -
  let ?l = "hm_length m * 2 + 1"
  obtain p where p: "cel_next_prime (int ?l) = Some p" "0 < p" "p \<le> 2147117569"
    using cel_next_prime_positive [of "int ?l"] grow by (auto simp: may_grow_def)
  have pn: "to_uint32 p = nat p" "0 < nat p" using p by auto
  have tok: "table_ok (hm_length m) (hm_table m)" using wf by (simp add: hm_wf_def)
  then have tl: "length (hm_table m) = hm_length m" by (simp add: table_ok_def)
  show ?thesis
  proof (cases "al (8 * nat p)")
    case True
    let ?t = "replicate (nat p) [] :: 'a hnode list list"
    have ok0: "table_ok (nat p) ?t" using pn(2) by (rule empty_table_ok)
    obtain t' where t': "move_table (nat p) (hm_table m) ?t = Some t'" "table_ok (nat p) t'"
      "set (concat t') = set (concat (hm_table m))" "length (concat t') = length (concat (hm_table m))"
      using move_table_ok [OF ok0, of "hm_table m"] table_distinct [OF tok] by auto
    let ?m = "m\<lparr>hm_table := t', hm_length := nat p, hm_threshold := scale (hm_factor m) (nat p)\<rparr>"
    have "rebuild_hash al m = Some ?m"
      using p pn t'(1) True grow tl by (simp add: rebuild_hash_def create_node_blocks_def may_grow_def Let_def)
    moreover have "hm_wf ?m" using wf t' by (simp add: hm_wf_def)
    moreover have "hm_map ?m = hm_map m" using table_map_cong [OF t'(2) tok t'(3)] by (simp add: hm_map_def)
    ultimately show ?thesis by simp
  next
    case False
    with wf p pn grow show ?thesis by (simp add: rebuild_hash_def create_node_blocks_def may_grow_def Let_def)
  qed
qed

section \<open>The operations on the map\<close>

lemma wf_bucket:
  assumes "hm_wf m"
  shows "bucket_of m key = Some (slot (hm_length m) key)"
    "rd (hm_table m) (slot (hm_length m) key) = Some (hm_table m ! slot (hm_length m) key)"
    "\<And>b. wr (hm_table m) (slot (hm_length m) key) b = Some ((hm_table m)[slot (hm_length m) key := b])"
    "chain_ok (hm_length m) (slot (hm_length m) key) (hm_table m ! slot (hm_length m) key)"
    "length (hm_table m) = hm_length m" "slot (hm_length m) key < hm_length m"
    "0 < length (hm_table m)"
  using assms slot_less [of "hm_length m" key]
  by (auto simp: hm_wf_def table_ok_def bucket_of_def slot_def rd_def wr_def)

lemma find_map:
  "hm_wf m \<Longrightarrow> map_option hn_value (chain_find key (hm_table m ! slot (hm_length m) key)) = hm_map m key"
  by (simp add: hm_map_def table_map_def wf_bucket(5))

lemma lookup_law:
  assumes "hm_wf m"
  shows "\<exists>r. hm_lookup m key = Some r \<and> map_option hn_value r = hm_map m key"
  using wf_bucket [OF assms] find_map [OF assms] by (simp add: hm_lookup_def)

lemma replace_law:
  assumes wf: "hm_wf m" and e: "chain_find key (hm_table m ! slot (hm_length m) key) = Some e"
    and m': "m' = m\<lparr>hm_table := (hm_table m)[slot (hm_length m) key :=
      chain_update key v (hm_table m ! slot (hm_length m) key)]\<rparr>"
  shows "hm_wf m'" "hm_map m' = (hm_map m)(key := Some v)" "hm_size m' = hm_size m"
proof -
  let ?i = "slot (hm_length m) key" and ?b = "hm_table m ! slot (hm_length m) key"
  note b = wf_bucket [OF wf]
  have "table_ok (hm_length m) ((hm_table m)[?i := chain_update key v ?b])"
    using wf b by (intro table_ok_update chain_ok_update) (auto simp: hm_wf_def)
  moreover have "length (concat ((hm_table m)[?i := chain_update key v ?b])) = length (concat (hm_table m))"
    using length_concat_update [of ?i "hm_table m" "chain_update key v ?b"] b by simp
  ultimately show "hm_wf m'" using wf by (simp add: hm_wf_def m')
  have "table_map ((hm_table m)[slot (length (hm_table m)) key := chain_update key v ?b]) = (hm_map m)(key := Some v)"
  proof (rule table_map_update)
    show "0 < length (hm_table m)" by (rule b(7))
    fix k assume "slot (length (hm_table m)) k = slot (length (hm_table m)) key"
    then show "map_option hn_value (chain_find k (chain_update key v ?b)) = ((hm_map m)(key := Some v)) k"
      using e by (simp add: chain_find_update hm_map_def table_map_def b(5) option.map_comp)
  qed (auto simp: hm_map_def)
  then show "hm_map m' = (hm_map m)(key := Some v)" by (simp add: m' hm_map_def b(5))
  show "hm_size m' = hm_size m" by (simp add: m')
qed

lemma store_law:
  assumes wf: "hm_wf m" and grow: "may_grow m" and small: "hm_size m + 1 < 2 ^ 31" and mem: "al 32"
  shows "\<exists>m' old. hm_store al m key v = Some (m', old) \<and> hm_wf m' \<and> hm_map m' = (hm_map m)(key := Some v)
    \<and> old = hm_map m key \<and> hm_size m' = hm_size m + (if hm_map m key = None then 1 else 0)
    \<and> (hm_map m key = None \<and> hm_threshold m < hm_size m + 1
       \<or> hm_threshold m' = hm_threshold m \<and> hm_length m' = hm_length m)"
proof -
  let ?i = "slot (hm_length m) key" and ?b = "hm_table m ! slot (hm_length m) key"
  note b = wf_bucket [OF wf]
  show ?thesis
  proof (cases "chain_find key ?b")
    case (Some e)
    then have "hm_map m key = Some (hn_value e)" using find_map [OF wf, of key] by simp
    with replace_law [OF wf Some refl, of v] Some b show ?thesis
      by (simp add: hm_store_def)
  next
    case None
    then have fresh: "hm_map m key = None" using find_map [OF wf, of key] by simp
    let ?e = "\<lparr>hn_key = key, hn_value = v, hn_hash = cel_bkdr_hash key\<rparr>"
    let ?t = "(hm_table m)[?i := ?e # ?b]"
    let ?m = "m\<lparr>hm_table := ?t, hm_size := hm_size m + 1\<rparr>"
    have "chain_ok (hm_length m) ?i (?e # ?b)"
      using b(4) None by (auto simp: chain_ok_def chain_find_None)
    then have ok: "table_ok (hm_length m) ?t"
      using wf b(6) by (intro table_ok_update) (auto simp: hm_wf_def)
    have len: "length (concat ?t) = Suc (length (concat (hm_table m)))"
      using length_concat_update [of ?i "hm_table m" "?e # ?b"] b by simp
    have wf1: "hm_wf ?m" using wf ok len small by (simp add: hm_wf_def)
    have "table_map ((hm_table m)[slot (length (hm_table m)) key := ?e # ?b]) = (hm_map m)(key := Some v)"
    proof (rule table_map_update)
      show "0 < length (hm_table m)" by (rule b(7))
      fix k assume "slot (length (hm_table m)) k = slot (length (hm_table m)) key"
      then show "map_option hn_value (chain_find k (?e # ?b)) = ((hm_map m)(key := Some v)) k"
        by (simp add: hm_map_def table_map_def b(5))
    qed (auto simp: hm_map_def)
    then have map1: "hm_map ?m = (hm_map m)(key := Some v)" by (simp add: hm_map_def b(5))
    have grow1: "may_grow ?m" using grow by (simp add: may_grow_def)
    obtain m' where m': "rebuild_hash al ?m = Some m'" "hm_wf m'" "hm_map m' = hm_map ?m" "hm_size m' = hm_size ?m"
      using rebuild_law [OF wf1 grow1] by blast
    have "hm_store al m key v = (if hm_size ?m > hm_threshold m then Some (m', None) else Some (?m, None))"
      using None b mem small m'(1) by (simp add: hm_store_def)
    then show ?thesis using m' map1 wf1 fresh by auto
  qed
qed

lemma change_law:
  assumes wf: "hm_wf m"
  shows "hm_map m key = None \<Longrightarrow> hm_change m key f = Some (m, None)"
    and "hm_map m key = Some v \<Longrightarrow> f v = Some w \<Longrightarrow>
      \<exists>m'. hm_change m key f = Some (m', Some v) \<and> hm_wf m' \<and> hm_map m' = (hm_map m)(key := Some w)
        \<and> hm_size m' = hm_size m \<and> hm_threshold m' = hm_threshold m \<and> hm_length m' = hm_length m"
proof -
  let ?b = "hm_table m ! slot (hm_length m) key"
  note b = wf_bucket [OF wf]
  show "hm_change m key f = Some (m, None)" if "hm_map m key = None"
    using that b find_map [OF wf, of key] by (simp add: hm_change_def)
  assume "hm_map m key = Some v" "f v = Some w"
  then obtain e where e: "chain_find key ?b = Some e" "hn_value e = v" using find_map [OF wf, of key] by auto
  with replace_law [OF wf e(1) refl, of w] b \<open>f v = Some w\<close>
  show "\<exists>m'. hm_change m key f = Some (m', Some v) \<and> hm_wf m' \<and> hm_map m' = (hm_map m)(key := Some w)
        \<and> hm_size m' = hm_size m \<and> hm_threshold m' = hm_threshold m \<and> hm_length m' = hm_length m"
    by (simp add: hm_change_def)
qed

lemma delete_law:
  assumes wf: "hm_wf m"
  shows "\<exists>m'. hm_delete m key = Some (m', hm_map m key) \<and> hm_wf m' \<and> hm_map m' = (hm_map m)(key := None)"
proof -
  let ?i = "slot (hm_length m) key" and ?b = "hm_table m ! slot (hm_length m) key"
  note b = wf_bucket [OF wf]
  show ?thesis
  proof (cases "chain_find key ?b")
    case None
    then have "hm_map m key = None" using find_map [OF wf, of key] by simp
    moreover from this have "hm_map m = (hm_map m)(key := None)" by auto
    ultimately show ?thesis using None b wf by (simp add: hm_delete_def)
  next
    case (Some e)
    then have old: "hm_map m key = Some (hn_value e)" using find_map [OF wf, of key] by simp
    let ?t = "(hm_table m)[?i := chain_unlink key ?b]"
    let ?m = "m\<lparr>hm_table := ?t, hm_size := hm_size m - 1\<rparr>"
    have "table_ok (hm_length m) ?t"
      using wf b by (intro table_ok_update chain_ok_unlink) (auto simp: hm_wf_def)
    moreover have "length (concat ?t) = length (concat (hm_table m)) - 1"
      using length_concat_update [of ?i "hm_table m" "chain_unlink key ?b"] length_chain_unlink [OF Some] b
      by (simp del: length_concat)
    ultimately have "hm_wf ?m" using wf by (auto simp: hm_wf_def)
    moreover have "table_map ((hm_table m)[slot (length (hm_table m)) key := chain_unlink key ?b]) = (hm_map m)(key := None)"
    proof (rule table_map_update)
      show "0 < length (hm_table m)" by (rule b(7))
      fix k assume "slot (length (hm_table m)) k = slot (length (hm_table m)) key"
      then show "map_option hn_value (chain_find k (chain_unlink key ?b)) = ((hm_map m)(key := None)) k"
        using b(4) by (simp add: chain_find_unlink chain_ok_def hm_map_def table_map_def b(5))
    qed (auto simp: hm_map_def)
    ultimately show ?thesis using Some b old by (simp add: hm_delete_def hm_map_def)
  qed
qed

lemma init_map_law:
  assumes "0 < n" "al (8 * n)"
  shows "\<exists>m'. cel_hashmap_init al m n f = (m', 1) \<and> hm_wf m' \<and> hm_map m' = Map.empty \<and> hm_length m' = n
    \<and> hm_threshold m' = scale f n \<and> hm_size m' = 0"
  using assms empty_table_ok [of n]
  by (simp add: cel_hashmap_init_def create_node_blocks_def hm_wf_def hm_map_def table_map_def slot_def fun_eq_iff)

lemma clear_map_law:
  assumes wf: "hm_wf m"
  shows "\<exists>m'. cel_ihashmap_clear m = Some m' \<and> hm_wf m' \<and> hm_map m' = Map.empty \<and> hm_size m' = 0
    \<and> hm_threshold m' = hm_threshold m"
proof -
  have "0 < hm_length m" "length (hm_table m) = hm_length m" using wf by (auto simp: hm_wf_def table_ok_def)
  with empty_table_ok [of "hm_length m"] show ?thesis
    by (simp add: cel_ihashmap_clear_def hm_wf_def hm_map_def table_map_def slot_def fun_eq_iff)
qed

lemma size_counts_keys:
  assumes wf: "hm_wf m"
  shows "hm_size m = card (dom (hm_map m))"
proof -
  have ok: "table_ok (hm_length m) (hm_table m)" using wf by (simp add: hm_wf_def)
  have "dom (hm_map m) = hn_key ` set (concat (hm_table m))"
    using table_map_iff [OF ok] unfolding hm_map_def by (auto simp del: set_concat)
  then have "card (dom (hm_map m)) = length (concat (hm_table m))"
    using distinct_card [OF table_distinct(1) [OF ok]] by (simp del: set_concat length_concat)
  with wf show ?thesis by (simp add: hm_wf_def)
qed

section \<open>The contract of the counting clients\<close>

locale tally_map =
  fixes wf :: "'m \<Rightarrow> bool"
    and view :: "'m \<Rightarrow> bytes \<Rightarrow> int option"
    and used :: "'m \<Rightarrow> nat"
    and room :: "'m \<Rightarrow> nat"
    and has :: "'m \<Rightarrow> bytes \<Rightarrow> nat option"
    and inc :: "'m \<Rightarrow> bytes \<Rightarrow> int \<Rightarrow> ('m \<times> nat) option"
    and put :: "'m \<Rightarrow> bytes \<Rightarrow> int \<Rightarrow> ('m \<times> nat) option"
    and clear :: "'m \<Rightarrow> 'm option"
  assumes has_law: "wf m \<Longrightarrow> has m k = Some (if view m k = None then 0 else 1)"
    and inc_law: "wf m \<Longrightarrow> view m k = Some v \<Longrightarrow> - (2 ^ 31) \<le> v + d \<Longrightarrow> v + d < 2 ^ 31 \<Longrightarrow>
      \<exists>m'. inc m k d = Some (m', 1) \<and> wf m' \<and> view m' = (view m)(k \<mapsto> v + d) \<and> used m' = used m \<and> room m' = room m"
    and put_law: "wf m \<Longrightarrow> used m < room m \<Longrightarrow>
      \<exists>m'. put m k v = Some (m', 1) \<and> wf m' \<and> view m' = (view m)(k \<mapsto> v) \<and> used m' \<le> used m + 1 \<and> room m' = room m"
    and clear_law: "wf m \<Longrightarrow> \<exists>m'. clear m = Some m' \<and> wf m' \<and> view m' = Map.empty \<and> used m' = 0 \<and> room m' = room m"

text \<open>Tables of a bounded length, so that a rehash stays in range; the room is the threshold.\<close>

definition small_wf :: "int hmap \<Rightarrow> bool" where
  "small_wf m \<longleftrightarrow> hm_wf m \<and> may_grow m \<and> hm_threshold m < 2 ^ 31"

definition keep_length :: "'v hmap \<Rightarrow> 'v hmap \<Rightarrow> bool" where
  "keep_length m m' \<longleftrightarrow> hm_length m' = hm_length m \<and> hm_threshold m' = hm_threshold m"

lemma small_has: "small_wf m \<Longrightarrow> cel_ihashmap_exists m k = Some (if hm_map m k = None then 0 else 1)"
  using lookup_law [of m k] by (auto simp: small_wf_def cel_ihashmap_exists_def cel_hashmap_exists_def split: option.split)

lemma small_inc:
  "small_wf m \<Longrightarrow> hm_map m k = Some v \<Longrightarrow> - (2 ^ 31) \<le> v + d \<Longrightarrow> v + d < 2 ^ 31 \<Longrightarrow>
   \<exists>m'. cel_ihashmap_inc m k d = Some (m', 1) \<and> small_wf m' \<and> hm_map m' = (hm_map m)(k \<mapsto> v + d)
     \<and> hm_size m' = hm_size m \<and> hm_threshold m' = hm_threshold m"
  using change_law(2) [of m k v "\<lambda>v. int32 (v + d)" "v + d"]
  by (auto simp: small_wf_def may_grow_def cel_ihashmap_inc_def int32_def found_def)

lemma small_put:
  "small_wf m \<Longrightarrow> hm_size m < hm_threshold m \<Longrightarrow>
   \<exists>m'. cel_ihashmap_put (\<lambda>_. True) m k v = Some (m', 1) \<and> small_wf m' \<and> hm_map m' = (hm_map m)(k \<mapsto> v)
     \<and> hm_size m' \<le> hm_size m + 1 \<and> hm_threshold m' = hm_threshold m"
  using store_law [of m "\<lambda>_. True" k v]
  by (auto simp: small_wf_def may_grow_def cel_ihashmap_put_def)

lemma small_clear:
  "small_wf m \<Longrightarrow> \<exists>m'. cel_ihashmap_clear m = Some m' \<and> small_wf m' \<and> hm_map m' = Map.empty \<and> hm_size m' = 0
     \<and> hm_threshold m' = hm_threshold m"
  using clear_map_law [of m]
  by (auto simp: small_wf_def may_grow_def cel_ihashmap_clear_def)

interpretation tally: tally_map small_wf hm_map hm_size hm_threshold cel_ihashmap_exists cel_ihashmap_inc
    "cel_ihashmap_put (\<lambda>_. True)" cel_ihashmap_clear
  by unfold_locales ((rule small_has small_inc small_put small_clear; assumption)+)

section \<open>Properties\<close>

text \<open>C8: on a well-formed table every operation of \<open>cel_hashmap_t\<close> is defined, keeps the table
  well-formed, rehashing included, and acts on the finite map it represents as lookup, update,
  replacement and deletion do; the previous value, or null, is the result.\<close>

theorem hashmap_refines_map:
  assumes wf: "hm_wf m" and grow: "hm_length m * 2 + 1 \<le> 2147117569" and small: "hm_size m + 1 < 2 ^ 31" and mem: "al 32"
  shows "cel_hashmap_get m k = Some (case hm_map m k of None \<Rightarrow> 0 | Some v \<Rightarrow> v)
     \<and> cel_hashmap_exists m k = Some (if k \<in> dom (hm_map m) then 1 else 0)
     \<and> (\<exists>m'. cel_hashmap_put al m k v = Some (m', case hm_map m k of None \<Rightarrow> 0 | Some v \<Rightarrow> v) \<and> hm_wf m'
          \<and> hm_map m' = (hm_map m)(k \<mapsto> v))
     \<and> (\<exists>m'. cel_hashmap_set m k v = Some (m', case hm_map m k of None \<Rightarrow> 0 | Some v \<Rightarrow> v) \<and> hm_wf m'
          \<and> hm_map m' = (if k \<in> dom (hm_map m) then (hm_map m)(k \<mapsto> v) else hm_map m))
     \<and> (\<exists>m' r. cel_hashmap_remove m k release = Some (m', case hm_map m k of None \<Rightarrow> 0 | Some v \<Rightarrow> v, r) \<and> hm_wf m'
          \<and> hm_map m' = (hm_map m)(k := None)
          \<and> r = (case hm_map m k of None \<Rightarrow> [] | Some v \<Rightarrow> if release \<and> v \<noteq> 0 then [v] else []))"
proof (intro conjI)
  show "cel_hashmap_get m k = Some (case hm_map m k of None \<Rightarrow> 0 | Some v \<Rightarrow> v)"
    using lookup_law [OF wf, of k] by (auto simp: cel_hashmap_get_def split: option.split)
  show "cel_hashmap_exists m k = Some (if k \<in> dom (hm_map m) then 1 else 0)"
    using lookup_law [OF wf, of k] by (cases "hm_map m k") (auto simp: cel_hashmap_exists_def)
  show "\<exists>m'. cel_hashmap_put al m k v = Some (m', case hm_map m k of None \<Rightarrow> 0 | Some v \<Rightarrow> v) \<and> hm_wf m'
          \<and> hm_map m' = (hm_map m)(k \<mapsto> v)"
    using store_law [of m al k v] wf small mem grow by (auto simp: cel_hashmap_put_def may_grow_def)
  show "\<exists>m'. cel_hashmap_set m k v = Some (m', case hm_map m k of None \<Rightarrow> 0 | Some v \<Rightarrow> v) \<and> hm_wf m'
          \<and> hm_map m' = (if k \<in> dom (hm_map m) then (hm_map m)(k \<mapsto> v) else hm_map m)"
  proof (cases "hm_map m k")
    case None
    with change_law(1) [OF wf None, of "\<lambda>_. Some v"] wf show ?thesis by (auto simp: cel_hashmap_set_def)
  next
    case (Some w)
    with change_law(2) [OF wf Some, of "\<lambda>_. Some v" v] show ?thesis by (auto simp: cel_hashmap_set_def)
  qed
  show "\<exists>m' r. cel_hashmap_remove m k release = Some (m', case hm_map m k of None \<Rightarrow> 0 | Some v \<Rightarrow> v, r) \<and> hm_wf m'
          \<and> hm_map m' = (hm_map m)(k := None)
          \<and> r = (case hm_map m k of None \<Rightarrow> [] | Some v \<Rightarrow> if release \<and> v \<noteq> 0 then [v] else [])"
    using delete_law [OF wf, of k] by (auto simp: cel_hashmap_remove_def split: option.split)
qed

text \<open>A table of two buckets with one entry and a factor of one half, so that the next entry makes it
  grow.\<close>

definition sample_map :: "nat hmap" where
  "sample_map = (let e = \<lparr>hn_key = [97], hn_value = 5, hn_hash = cel_bkdr_hash [97]\<rparr> in
     \<lparr>hm_table = (if slot 2 [97] = 0 then [[e], []] else [[], [e]]), hm_length = 2, hm_size = 1, hm_threshold = 1,
      hm_factor = \<lparr>fl_man = 8388608, fl_places = 24\<rparr>\<rparr>)"

lemma sample_map_wf: "hm_wf sample_map \<and> hm_map sample_map = [[97] \<mapsto> 5]"
proof -
  have s: "slot 2 [97] = 0 \<or> slot 2 [97] = 1" using slot_less [of 2 "[97]"] by auto
  have k: "slot 2 k = 0 \<or> slot 2 k = 1" for k using slot_less [of 2 k] by auto
  have "hm_wf sample_map"
    using s by (auto simp: sample_map_def Let_def hm_wf_def table_ok_def chain_ok_def less_2_cases_iff)
  moreover have "hm_map sample_map k = [[97] \<mapsto> 5] k" for k
    using s k [of k] unfolding numeral_2_eq_2 by (auto simp: sample_map_def Let_def hm_map_def table_map_def numeral_2_eq_2)
  ultimately show ?thesis by auto
qed

lemma hashmap_refines_map_witness:
  "\<exists>m'. cel_hashmap_put (\<lambda>_. True) sample_map [98] 6 = Some (m', 0) \<and> hm_wf m' \<and> hm_map m' = [[97] \<mapsto> 5, [98] \<mapsto> 6]"
  using hashmap_refines_map [of sample_map "\<lambda>_. True" "[98]" 6] sample_map_wf
  by (auto simp: sample_map_def Let_def)

text \<open>\<open>size\<close> is the number of distinct keys, and rehashing changes neither it nor the map.\<close>

theorem rehash_keeps_map:
  assumes "hm_wf m" "hm_length m * 2 + 1 \<le> 2147117569"
  shows "hm_size m = card (dom (hm_map m))
     \<and> (\<exists>m'. rebuild_hash al m = Some m' \<and> hm_wf m' \<and> hm_map m' = hm_map m \<and> hm_size m' = card (dom (hm_map m')))"
  using size_counts_keys [OF assms(1)] rebuild_law [of m al] size_counts_keys assms
  by (auto simp: may_grow_def)

lemma rehash_keeps_map_witness:
  "\<exists>m'. rebuild_hash (\<lambda>_. True) sample_map = Some m' \<and> hm_map m' = [[97] \<mapsto> 5] \<and> hm_size m' = 1"
  using rehash_keeps_map [of sample_map "\<lambda>_. True"] sample_map_wf by (auto simp: sample_map_def Let_def)

end
