(* ===== verification/CelMd5.thy ===== *)
theory CelMd5
  imports Prelude
begin

text \<open>
  The MD5 implementation of \<open>src/main/cel_md5.c\<close> (\<open>cel_md5_t\<close>), with which the program checks the
  signatures of tasks and packages and signs its reports.

  State: the length in bits as two 32-bit halves, the four registers and the 64-byte block being
  filled.  The model is of the little-endian branch of \<open>md5_process\<close>.  Lengths are \<open>int\<close>: a length
  of \<open>2\<^sup>2\<^sup>8\<close> or more overflows in \<open>nbytes << 3\<close>, which is undefined.

  \<open>md5_spec\<close> is the algorithm of RFC 1321 on whole messages: padding, then one compression per block.
  Shown: the streaming state represents the message absorbed so far, whatever the pieces, so that the
  digest of any sequence of updates is \<open>md5_spec\<close> of the concatenation; the interface of the clients
  is the locale \<open>chunked_digest\<close>.  \<open>cel_md5_print\<close> needs 33 bytes.
\<close>

section \<open>One block\<close>

definition T_MASK :: u32 where
  "T_MASK = NOT 0"

text \<open>The arguments \<open>k\<close>, \<open>s\<close> and \<open>T\<close> of the sixteen \<open>SET\<close> lines of each round.\<close>

definition md5_round1 :: "(nat \<times> nat \<times> u32) list" where
  "md5_round1 =
    [(0, 7, T_MASK XOR 0x28955b87), (1, 12, T_MASK XOR 0x173848a9), (2, 17, 0x242070db),
     (3, 22, T_MASK XOR 0x3e423111), (4, 7, T_MASK XOR 0x0a83f050), (5, 12, 0x4787c62a),
     (6, 17, T_MASK XOR 0x57cfb9ec), (7, 22, T_MASK XOR 0x02b96afe), (8, 7, 0x698098d8),
     (9, 12, T_MASK XOR 0x74bb0850), (10, 17, T_MASK XOR 0x0000a44e), (11, 22, T_MASK XOR 0x76a32841),
     (12, 7, 0x6b901122), (13, 12, T_MASK XOR 0x02678e6c), (14, 17, T_MASK XOR 0x5986bc71),
     (15, 22, 0x49b40821)]"

definition md5_round2 :: "(nat \<times> nat \<times> u32) list" where
  "md5_round2 =
    [(1, 5, T_MASK XOR 0x09e1da9d), (6, 9, T_MASK XOR 0x3fbf4cbf), (11, 14, 0x265e5a51),
     (0, 20, T_MASK XOR 0x16493855), (5, 5, T_MASK XOR 0x29d0efa2), (10, 9, 0x02441453),
     (15, 14, T_MASK XOR 0x275e197e), (4, 20, T_MASK XOR 0x182c0437), (9, 5, 0x21e1cde6),
     (14, 9, T_MASK XOR 0x3cc8f829), (3, 14, T_MASK XOR 0x0b2af278), (8, 20, 0x455a14ed),
     (13, 5, T_MASK XOR 0x561c16fa), (2, 9, T_MASK XOR 0x03105c07), (7, 14, 0x676f02d9),
     (12, 20, T_MASK XOR 0x72d5b375)]"

definition md5_round3 :: "(nat \<times> nat \<times> u32) list" where
  "md5_round3 =
    [(5, 4, T_MASK XOR 0x0005c6bd), (8, 11, T_MASK XOR 0x788e097e), (11, 16, 0x6d9d6122),
     (14, 23, T_MASK XOR 0x021ac7f3), (1, 4, T_MASK XOR 0x5b4115bb), (4, 11, 0x4bdecfa9),
     (7, 16, T_MASK XOR 0x0944b49f), (10, 23, T_MASK XOR 0x4140438f), (13, 4, 0x289b7ec6),
     (0, 11, T_MASK XOR 0x155ed805), (3, 16, T_MASK XOR 0x2b10cf7a), (6, 23, 0x04881d05),
     (9, 4, T_MASK XOR 0x262b2fc6), (12, 11, T_MASK XOR 0x1924661a), (15, 16, 0x1fa27cf8),
     (2, 23, T_MASK XOR 0x3b53a99a)]"

definition md5_round4 :: "(nat \<times> nat \<times> u32) list" where
  "md5_round4 =
    [(0, 6, T_MASK XOR 0x0bd6ddbb), (7, 10, 0x432aff97), (14, 15, T_MASK XOR 0x546bdc58),
     (5, 21, T_MASK XOR 0x036c5fc6), (12, 6, 0x655b59c3), (3, 10, T_MASK XOR 0x70f3336d),
     (10, 15, T_MASK XOR 0x00100b82), (1, 21, T_MASK XOR 0x7a7ba22e), (8, 6, 0x6fa87e4f),
     (15, 10, T_MASK XOR 0x01d3191f), (6, 15, T_MASK XOR 0x5cfebceb), (13, 21, 0x4e0811a1),
     (4, 6, T_MASK XOR 0x08ac817d), (11, 10, T_MASK XOR 0x42c50dca), (2, 15, 0x2ad7d2bb),
     (9, 21, T_MASK XOR 0x14792c6e)]"

text \<open>\<open>ROTATE_LEFT\<close> and the four boolean functions.\<close>

definition ROTATE_LEFT :: "u32 \<Rightarrow> nat \<Rightarrow> u32" where
  "ROTATE_LEFT x n = (push_bit n x OR drop_bit (32 - n) x)"

definition md5_F :: "u32 \<Rightarrow> u32 \<Rightarrow> u32 \<Rightarrow> u32" where
  "md5_F x y z = ((x AND y) OR (NOT x AND z))"

definition md5_G :: "u32 \<Rightarrow> u32 \<Rightarrow> u32 \<Rightarrow> u32" where
  "md5_G x y z = ((x AND z) OR (y AND NOT z))"

definition md5_H :: "u32 \<Rightarrow> u32 \<Rightarrow> u32 \<Rightarrow> u32" where
  "md5_H x y z = (x XOR y XOR z)"

definition md5_I :: "u32 \<Rightarrow> u32 \<Rightarrow> u32 \<Rightarrow> u32" where
  "md5_I x y z = (y XOR (x OR NOT z))"

type_synonym regs = "u32 \<times> u32 \<times> u32 \<times> u32"

text \<open>\<open>SET(a, b, c, d, k, s, Ti)\<close>.  The next line of the code names the registers in the order \<open>d, a, b,
  c\<close>, which the step does by rotating them.\<close>

definition md5_set :: "(u32 \<Rightarrow> u32 \<Rightarrow> u32 \<Rightarrow> u32) \<Rightarrow> u32 list \<Rightarrow> nat \<times> nat \<times> u32 \<Rightarrow> regs \<Rightarrow> regs" where
  "md5_set f X line r = (case line of (k, s, Ti) \<Rightarrow> case r of (a, b, c, d) \<Rightarrow>
     (d, ROTATE_LEFT (a + f b c d + X ! k + Ti) s + b, b, c))"

text \<open>The block as sixteen little-endian words.\<close>

definition block_words :: "bytes \<Rightarrow> u32 list" where
  "block_words p = map (\<lambda>i. le32 (p ! (4 * i)) (p ! (4 * i + 1)) (p ! (4 * i + 2)) (p ! (4 * i + 3))) [0..<16]"

definition md5_rounds :: "u32 list \<Rightarrow> regs \<Rightarrow> regs" where
  "md5_rounds X r = fold (md5_set md5_I X) md5_round4 (fold (md5_set md5_H X) md5_round3
     (fold (md5_set md5_G X) md5_round2 (fold (md5_set md5_F X) md5_round1 r)))"

definition md5_block :: "bytes \<Rightarrow> regs \<Rightarrow> regs" where
  "md5_block p r = (case r of (a0, b0, c0, d0) \<Rightarrow> case md5_rounds (block_words p) r of (a, b, c, d) \<Rightarrow>
     (a0 + a, b0 + b, c0 + c, d0 + d))"

section \<open>The context\<close>

record md5 =
  md_count0 :: nat
  md_count1 :: nat
  md_abcd :: regs
  md_buf :: bytes

text \<open>\<open>md5_process\<close> reads the 64 bytes at its argument.\<close>

definition md5_process :: "md5 \<Rightarrow> bytes \<Rightarrow> md5 option" where
  "md5_process pms p = (if 64 \<le> length p then Some (pms\<lparr>md_abcd := md5_block (take 64 p) (md_abcd pms)\<rparr>) else None)"

definition cel_md5_init :: "md5 \<Rightarrow> md5" where
  "cel_md5_init pms = pms\<lparr>md_count0 := 0, md_count1 := 0,
     md_abcd := (0x67452301, T_MASK XOR 0x10325476, T_MASK XOR 0x67452301, 0x10325476)\<rparr>"

text \<open>The loop over the full blocks; it returns the context and what is left.\<close>

function md5_full :: "md5 \<Rightarrow> bytes \<Rightarrow> nat \<Rightarrow> (md5 \<times> bytes \<times> nat) option" where
  "md5_full pms p left =
     (if 64 \<le> left then
        (case md5_process pms p of None \<Rightarrow> None | Some pms \<Rightarrow> md5_full pms (drop 64 p) (left - 64))
      else Some (pms, p, left))"
  by auto
termination by (relation "measure (\<lambda>(_, _, left). left)") auto

declare md5_full.simps [simp del]

text \<open>The message length is counted in bits, with a carry into the upper half.\<close>

definition md5_count :: "md5 \<Rightarrow> nat \<Rightarrow> md5" where
  "md5_count pms n =
     (let nbits = 8 * n;
          c1 = wrap32 (md_count1 pms + n div 2 ^ 29);
          c0 = wrap32 (md_count0 pms + nbits)
      in pms\<lparr>md_count0 := c0, md_count1 := (if c0 < nbits then wrap32 (c1 + 1) else c1)\<rparr>)"

definition cel_md5_update :: "md5 \<Rightarrow> bytes \<Rightarrow> int \<Rightarrow> md5 option" where
  "cel_md5_update pms data nbytes =
     (if nbytes \<le> 0 then Some pms
      else if 2 ^ 28 \<le> nbytes then None
      else do {
        let n = nat nbytes;
        let offset = (md_count0 pms div 8) mod 64;
        let pms = md5_count pms n;
        (if offset \<noteq> 0 then do {
           let copy = (if offset + n > 64 then 64 - offset else n);
           buf \<leftarrow> blit (md_buf pms) offset data copy;
           let pms = pms\<lparr>md_buf := buf\<rparr>;
           (if offset + copy < 64 then Some pms
            else do {
              pms \<leftarrow> md5_process pms (md_buf pms);
              (pms, p, left) \<leftarrow> md5_full pms (drop copy data) (n - copy);
              buf \<leftarrow> blit (md_buf pms) 0 p left;
              Some (pms\<lparr>md_buf := buf\<rparr>) }) }
         else do {
           (pms, p, left) \<leftarrow> md5_full pms data n;
           buf \<leftarrow> blit (md_buf pms) 0 p left;
           Some (pms\<lparr>md_buf := buf\<rparr>) }) })"

definition md5_pad :: bytes where
  "md5_pad = 0x80 # replicate 63 0"

definition word_bytes :: "u32 \<Rightarrow> bytes" where
  "word_bytes w = [ucast w, ucast (drop_bit 8 w), ucast (drop_bit 16 w), ucast (drop_bit 24 w)]"

definition nat_bytes :: "nat \<Rightarrow> bytes" where
  "nat_bytes n = map (\<lambda>i. word_of_nat (n div 2 ^ (8 * i))) [0..<4]"

definition digest_of :: "regs \<Rightarrow> bytes" where
  "digest_of r = (case r of (a, b, c, d) \<Rightarrow> word_bytes a @ word_bytes b @ word_bytes c @ word_bytes d)"

definition cel_md5_final :: "md5 \<Rightarrow> (md5 \<times> bytes) option" where
  "cel_md5_final pms = do {
     let data = nat_bytes (md_count0 pms) @ nat_bytes (md_count1 pms);
     pms \<leftarrow> cel_md5_update pms md5_pad (int ((55 + 2 ^ 32 - md_count0 pms div 8) mod 64 + 1));
     pms \<leftarrow> cel_md5_update pms data 8;
     Some (pms, digest_of (md_abcd pms)) }"

text \<open>The context is a local variable: its block is 64 bytes of any value.\<close>

definition cel_md5_string :: "md5 \<Rightarrow> bytes \<Rightarrow> bytes option" where
  "cel_md5_string context s = do {
     pms \<leftarrow> cel_md5_update (cel_md5_init context) s (to_int32 (wrap32 (length s)));
     (_, d) \<leftarrow> cel_md5_final pms;
     Some d }"

text \<open>\<open>cel_md5_file\<close>: the chunks are what the calls of \<open>fread\<close> deliver, \<open>None\<close> a file that cannot be
  opened.  -1 or 0 and the digest.\<close>

fun md5_chunks :: "md5 \<Rightarrow> bytes list \<Rightarrow> md5 option" where
  "md5_chunks pms [] = Some pms"
| "md5_chunks pms (c # cs) = do { pms \<leftarrow> cel_md5_update pms c (int (length c)); md5_chunks pms cs }"

definition cel_md5_file :: "md5 \<Rightarrow> bytes list option \<Rightarrow> (int \<times> bytes) option" where
  "cel_md5_file context file =
     (case file of
        None \<Rightarrow> Some (- 1, [])
      | Some chunks \<Rightarrow> do {
          pms \<leftarrow> md5_chunks (cel_md5_init context) chunks;
          (_, d) \<leftarrow> cel_md5_final pms;
          Some (0, d) })"

text \<open>\<open>sprintf\<close> writes a NUL after every pair of digits.\<close>

fun md5_print_loop :: "bytes \<Rightarrow> bytes \<Rightarrow> nat \<Rightarrow> bytes option" where
  "md5_print_loop [] buf off = Some buf"
| "md5_print_loop (b # bs) buf off = do {
     buf \<leftarrow> blit buf off (hex2 b @ [0]) 3;
     md5_print_loop bs buf (off + 2) }"

definition cel_md5_print :: "bytes \<Rightarrow> bytes \<Rightarrow> bytes option" where
  "cel_md5_print digest buf = md5_print_loop (take 16 digest) buf 0"

section \<open>The specification\<close>

function absorb :: "regs \<Rightarrow> bytes \<Rightarrow> regs" where
  "absorb r m = (if 64 \<le> length m then absorb (md5_block (take 64 m) r) (drop 64 m) else r)"
  by auto
termination by (relation "measure (\<lambda>(_, m). length m)") auto

declare absorb.simps [simp del]

definition md5_init_regs :: regs where
  "md5_init_regs = (0x67452301, 0xefcdab89, 0x98badcfe, 0x10325476)"

text \<open>One bit, zeros to 56 bytes modulo 64, and the length in bits modulo \<open>2\<^sup>6\<^sup>4\<close>.\<close>

definition md5_padding :: "nat \<Rightarrow> bytes" where
  "md5_padding n = 0x80 # replicate ((119 - n mod 64) mod 64) 0
     @ nat_bytes (8 * n mod 2 ^ 32) @ nat_bytes (8 * n div 2 ^ 32 mod 2 ^ 32)"

definition md5_spec :: "bytes \<Rightarrow> bytes" where
  "md5_spec m = digest_of (absorb md5_init_regs (m @ md5_padding (length m)))"

section \<open>Absorbing in pieces\<close>

definition tail_of :: "bytes \<Rightarrow> bytes" where
  "tail_of m = drop (64 * (length m div 64)) m"

lemma length_tail: "length (tail_of m) = length m mod 64"
  by (simp add: tail_of_def minus_mult_div_eq_mod)

lemma absorb_short: "length m < 64 \<Longrightarrow> absorb r m = r"
  by (simp add: absorb.simps)

lemma absorb_block: "length b = 64 \<Longrightarrow> absorb r (b @ m) = absorb (md5_block b r) m"
  by (simp add: absorb.simps [of r "b @ m"])

lemma tail_step: "64 \<le> length m \<Longrightarrow> tail_of m = tail_of (drop 64 m)"
proof -
  assume "64 \<le> length m"
  then have "length m div 64 = Suc ((length m - 64) div 64)" by (simp add: le_div_geq)
  then show ?thesis by (simp add: tail_of_def add.commute)
qed

lemma absorb_append: "absorb r (m @ x) = absorb (absorb r m) (tail_of m @ x)"
proof (induction r m rule: absorb.induct)
  case (1 r m)
  show ?case
  proof (cases "64 \<le> length m")
    case True
    have "absorb r (m @ x) = absorb (md5_block (take 64 m) r) (drop 64 m @ x)"
    proof -
      have "m @ x = take 64 m @ drop 64 m @ x" by (metis append_assoc append_take_drop_id)
      moreover have "length (take 64 m) = 64" using True by simp
      ultimately show ?thesis by (simp only: absorb_block)
    qed
    then show ?thesis using 1 True tail_step [OF True] by (simp add: absorb.simps [of r m])
  next
    case False
    then have "tail_of m = m" "absorb r m = r" by (auto simp: tail_of_def absorb_short)
    then show ?thesis by simp
  qed
qed

lemma tail_append: "tail_of (m @ x) = tail_of (tail_of m @ x)"
proof (induction "length m div 64" arbitrary: m)
  case 0
  then show ?case by (simp add: tail_of_def)
next
  case (Suc k)
  then have ge: "64 \<le> length m" by (metis div_less not_less old.nat.distinct(1))
  then have "k = length (drop 64 m) div 64" using Suc.hyps(2) by (simp add: le_div_geq)
  then have "tail_of (drop 64 m @ x) = tail_of (tail_of (drop 64 m) @ x)" by (rule Suc.hyps(1))
  moreover have "tail_of (m @ x) = tail_of (drop 64 m @ x)" using ge by (simp add: tail_step)
  ultimately show ?case using tail_step [OF ge] by simp
qed

lemma full_absorbs:
  "left \<le> length p \<Longrightarrow> md5_full pms p left
   = Some (pms\<lparr>md_abcd := absorb (md_abcd pms) (take left p)\<rparr>, drop (64 * (left div 64)) p, left mod 64)"
proof (induction pms p left rule: md5_full.induct)
  case (1 pms p left)
  show ?case
  proof (cases "64 \<le> left")
    case True
    with "1.prems" have step: "md5_process pms p = Some (pms\<lparr>md_abcd := md5_block (take 64 p) (md_abcd pms)\<rparr>)"
      by (simp add: md5_process_def)
    have "take left p = take 64 p @ take (left - 64) (drop 64 p)"
      using True by (metis le_add_diff_inverse take_add)
    then have "absorb (md_abcd pms) (take left p)
        = absorb (md5_block (take 64 p) (md_abcd pms)) (take (left - 64) (drop 64 p))"
      using True "1.prems" absorb_block [of "take 64 p"] by simp
    moreover have "left div 64 = Suc ((left - 64) div 64)" "left mod 64 = (left - 64) mod 64"
      using True by (simp_all add: le_div_geq le_mod_geq)
    ultimately show ?thesis
      using True "1.IH" [OF True step] "1.prems" step by (simp add: md5_full.simps [of pms p left] add.commute)
  next
    case False
    then show ?thesis by (simp add: md5_full.simps absorb_short)
  qed
qed

section \<open>The context represents the message\<close>

definition md_rep :: "md5 \<Rightarrow> bytes \<Rightarrow> bool" where
  "md_rep pms m \<longleftrightarrow> md_count0 pms + 2 ^ 32 * md_count1 pms = 8 * length m mod 2 ^ 64
     \<and> md_count0 pms < 2 ^ 32 \<and> md_count1 pms < 2 ^ 32 \<and> length (md_buf pms) = 64
     \<and> md_abcd pms = absorb md5_init_regs m \<and> take (length m mod 64) (md_buf pms) = tail_of m"

lemma md_rep_init: "length (md_buf pms) = 64 \<Longrightarrow> md_rep (cel_md5_init pms) []"
  by (simp add: md_rep_def cel_md5_init_def tail_of_def absorb_short md5_init_regs_def T_MASK_def)

lemma count_step:
  fixes c0 c1 l n :: nat
  assumes "c0 + 2 ^ 32 * c1 = 8 * l mod 2 ^ 64" "c0 < 2 ^ 32" "c1 < 2 ^ 32" "n < 2 ^ 28"
  defines "d0 \<equiv> wrap32 (c0 + 8 * n)"
  defines "d1 \<equiv> (if d0 < 8 * n then wrap32 (wrap32 (c1 + n div 2 ^ 29) + 1) else wrap32 (c1 + n div 2 ^ 29))"
  shows "d0 + 2 ^ 32 * d1 = 8 * (l + n) mod 2 ^ 64" "d0 < 2 ^ 32" "d1 < 2 ^ 32"
proof -
  have n0: "n div 536870912 = 0" using assms(4) by simp
  have c1w: "wrap32 c1 = c1" using assms(3) by simp
  have sum: "8 * (l + n) mod 2 ^ 64 = (c0 + 2 ^ 32 * c1 + 8 * n) mod 2 ^ 64"
    unfolding assms(1) by (simp add: mod_simps algebra_simps)
  show "d0 < 2 ^ 32" "d1 < 2 ^ 32" by (simp_all add: d0_def d1_def)
  show "d0 + 2 ^ 32 * d1 = 8 * (l + n) mod 2 ^ 64"
  proof (cases "c0 + 8 * n < 2 ^ 32")
    case True
    then have "d0 = c0 + 8 * n" by (simp add: d0_def)
    moreover from this have "d1 = c1" using c1w by (simp add: d1_def n0)
    moreover have "c0 + 2 ^ 32 * c1 + 8 * n < 2 ^ 64" using True assms(3) by simp
    ultimately show ?thesis using sum by simp
  next
    case False
    then have d0: "c0 + 8 * n = d0 + 2 ^ 32" using assms(2,4) by (simp add: d0_def wrap32_def le_mod_geq)
    then have d1: "d1 = wrap32 (c1 + 1)" using assms(2) c1w by (simp add: d1_def n0)
    have tot: "c0 + 2 ^ 32 * c1 + 8 * n = d0 + 2 ^ 32 * (c1 + 1)" using d0 by simp
    have d0s: "d0 < 2 ^ 32" by (simp add: d0_def)
    show ?thesis
    proof (cases "c1 + 1 < 2 ^ 32")
      case True
      then show ?thesis using d0s sum d1 tot by simp
    next
      case False
      then have "c1 + 1 = 2 ^ 32" using assms(3) by simp
      then have e: "d1 = 0" "d0 + 2 ^ 32 * (c1 + 1) = d0 + 2 ^ 64" using d1 by (simp_all add: wrap32_def)
      have "8 * (l + n) mod 2 ^ 64 = (d0 + 2 ^ 64) mod 2 ^ 64" using sum tot e(2) by (simp only:)
      also have "\<dots> = d0" using d0s by simp
      finally show ?thesis using e(1) by simp
    qed
  qed
qed

lemma count_offset:
  assumes "c0 + 2 ^ 32 * c1 = 8 * l mod 2 ^ (64 :: nat)" "c0 < 2 ^ (32 :: nat)"
  shows "c0 = 8 * l mod 2 ^ 32" "c0 div 8 mod 64 = l mod (64 :: nat)"
proof -
  have "c0 = (c0 + 2 ^ 32 * c1) mod 2 ^ 32" using assms(2) by simp
  then show c0: "c0 = 8 * l mod 2 ^ 32" unfolding assms(1) by (simp add: mod_mod_cancel)
  have "c0 = 8 * (l mod 2 ^ 29)" unfolding c0 using mult_mod_right [of 8 l "2 ^ 29"] by simp
  then show "c0 div 8 mod 64 = l mod 64" by (simp add: mod_mod_cancel)
qed

lemma update_rep:
  assumes rep: "md_rep pms m" and n: "n \<le> length data" "n < 2 ^ 28"
  shows "\<exists>pms'. cel_md5_update pms data (int n) = Some pms' \<and> md_rep pms' (m @ take n data)"
proof (cases "n = 0")
  case True
  with rep show ?thesis by (simp add: cel_md5_update_def)
next
  case False
  note r = rep [unfolded md_rep_def]
  let ?o = "length m mod 64" and ?d = "take n data"
  let ?c0 = "wrap32 (md_count0 pms + 8 * n)"
  let ?c1 = "if ?c0 < 8 * n then wrap32 (wrap32 (md_count1 pms + n div 2 ^ 29) + 1) else wrap32 (md_count1 pms + n div 2 ^ 29)"
  let ?pms = "md5_count pms n"
  have same: "md_abcd ?pms = md_abcd pms" "md_buf ?pms = md_buf pms" "md_count0 ?pms = ?c0" "md_count1 ?pms = ?c1"
    by (simp_all add: md5_count_def Let_def)
  have off: "md_count0 pms div 8 mod 64 = ?o" using r by (intro count_offset(2)) auto
  have cnt: "?c0 + 2 ^ 32 * ?c1 = 8 * (length m + n) mod 2 ^ 64" "?c0 < 2 ^ 32" "?c1 < 2 ^ 32"
    using count_step [of "md_count0 pms" "md_count1 pms" "length m" n] r n(2) by blast+
  have len: "length (m @ ?d) = length m + n" using n(1) by simp
  have ab: "absorb md5_init_regs (m @ ?d) = absorb (md_abcd pms) (tail_of m @ ?d)"
    using r by (subst absorb_append) simp
  have lt: "length (tail_of m) = ?o" by (rule length_tail)
  have buf: "take ?o (md_buf pms) = tail_of m" using r by blast
  have fin: "\<exists>b. blit (md_buf p1) 0 (drop (64 * (left div 64)) p) (left mod 64) = Some b
      \<and> md_rep (p1\<lparr>md_abcd := absorb (md_abcd p1) (take left p), md_buf := b\<rparr>) (m @ ?d)"
    if "left = length p'" "take left p = p'" "length (md_buf p1) = 64" "left \<le> length p"
      "md_count0 p1 = ?c0" "md_count1 p1 = ?c1" "tail_of (m @ ?d) = tail_of p'"
      "absorb md5_init_regs (m @ ?d) = absorb (md_abcd p1) p'"
    for p1 :: md5 and p p' :: bytes and left :: nat
  proof -
    let ?q = "64 * (left div 64)"
    have q: "?q + left mod 64 = left" by simp
    have tl: "take (left mod 64) (drop ?q p) = tail_of p'"
    proof -
      have "drop ?q (take left p) = take (left - ?q) (drop ?q p)" by (rule drop_take)
      moreover have "left - ?q = left mod 64" using q by linarith
      ultimately show ?thesis using that(1,2) by (simp add: tail_of_def)
    qed
    have lm: "(length m + n) mod 64 = left mod 64"
      using arg_cong [OF that(7), of length] len that(1) by (simp add: length_tail)
    let ?b = "take (left mod 64) (drop ?q p) @ drop (left mod 64) (md_buf p1)"
    have "left mod 64 \<le> length (drop ?q p)" using q that(4) by (simp only: length_drop)
    then have "blit (md_buf p1) 0 (drop ?q p) (left mod 64) = Some ?b"
      using that(3) by (simp add: blit_def)
    moreover have "md_rep (p1\<lparr>md_abcd := absorb (md_abcd p1) (take left p), md_buf := ?b\<rparr>) (m @ ?d)"
      unfolding md_rep_def len lm using cnt that tl length_tail [of p'] by (simp add: length_tail)
    ultimately show ?thesis by blast
  qed
  have cond: "\<not> int n \<le> 0" "\<not> 2 ^ 28 \<le> int n" using False n(2) by auto
  show ?thesis
  proof (cases "?o = 0")
    case True
    then have t: "tail_of m = []" using lt by simp
    obtain b where b: "blit (md_buf ?pms) 0 (drop (64 * (n div 64)) data) (n mod 64) = Some b"
      "md_rep (?pms\<lparr>md_abcd := absorb (md_abcd ?pms) (take n data), md_buf := b\<rparr>) (m @ ?d)"
      using fin [of n ?d data ?pms] n(1) r ab t tail_append [of m ?d] same by auto
    have "cel_md5_update pms data (int n) = Some (?pms\<lparr>md_abcd := absorb (md_abcd ?pms) (take n data), md_buf := b\<rparr>)"
      using cond off True b(1) full_absorbs [OF n(1), of ?pms] unfolding cel_md5_update_def Let_def by simp
    with b(2) show ?thesis by blast
  next
    case o: False
    obtain C where C: "C = (if ?o + n > 64 then 64 - ?o else n)" by blast
    have copy: "C \<le> n" "?o + C \<le> 64" "?o + C < 64 \<longrightarrow> C = n" unfolding C by auto
    have run: "cel_md5_update pms data (int n) = do {
        buf \<leftarrow> blit (md_buf pms) ?o data C;
        (if ?o + C < 64 then Some (?pms\<lparr>md_buf := buf\<rparr>)
         else do {
           p1 \<leftarrow> md5_process (?pms\<lparr>md_buf := buf\<rparr>) buf;
           (p2, p, left) \<leftarrow> md5_full p1 (drop C data) (n - C);
           b \<leftarrow> blit (md_buf p2) 0 p left;
           Some (p2\<lparr>md_buf := b\<rparr>) }) }"
      unfolding cel_md5_update_def Let_def nat_int off C using cond o same(2) by (simp cong: if_cong)
    let ?b1 = "tail_of m @ take C data @ drop (?o + C) (md_buf pms)"
    have b1: "blit (md_buf pms) ?o data C = Some ?b1"
      using copy n(1) r buf by (simp add: blit_def)
    show ?thesis
    proof (cases "?o + C < 64")
      case True
      then have c: "C = n" "?o + n < 64" using copy(3) by auto
      have short: "length (tail_of m @ ?d) < 64" using c(2) lt n(1) by simp
      have "md_rep (?pms\<lparr>md_buf := ?b1\<rparr>) (m @ ?d)"
      proof -
        have "(length m + n) mod 64 = ?o + n" using c(2) by (metis mod_add_left_eq mod_less)
        moreover have "tail_of (m @ ?d) = tail_of m @ ?d" using short tail_append [of m ?d] by (simp add: tail_of_def [of "tail_of m @ ?d"])
        ultimately show ?thesis
          unfolding md_rep_def len using cnt r c lt n(1) ab absorb_short [OF short] same by simp
      qed
      moreover have "cel_md5_update pms data (int n) = Some (?pms\<lparr>md_buf := ?b1\<rparr>)"
        using b1 True by (simp add: run)
      ultimately show ?thesis by blast
    next
      case False
      then have c: "?o + C = 64" using copy by simp
      let ?blk = "tail_of m @ take C data"
      have blk: "?b1 = ?blk" "length ?blk = 64" using c r lt copy n(1) by auto
      let ?p1 = "?pms\<lparr>md_buf := ?b1, md_abcd := md5_block ?blk (md_abcd pms)\<rparr>"
      have proc: "md5_process (?pms\<lparr>md_buf := ?b1\<rparr>) ?b1 = Some ?p1"
        unfolding blk(1) md5_process_def using blk(2) same by (simp del: take_append)
      let ?p' = "take (n - C) (drop C data)"
      have d: "?d = take C data @ ?p'" using copy(1) by (metis le_add_diff_inverse take_add)
      have tl: "tail_of (m @ ?d) = tail_of ?p'"
        using blk(2) tail_append [of m ?d] tail_step [of "?blk @ ?p'"] d by simp
      have abs: "absorb md5_init_regs (m @ ?d) = absorb (md_abcd ?p1) ?p'"
        using ab d absorb_block [OF blk(2), of "md_abcd pms" ?p'] by simp
      have le: "n - C \<le> length (drop C data)" using n(1) by simp
      obtain b where b: "blit (md_buf ?p1) 0 (drop (64 * ((n - C) div 64)) (drop C data)) ((n - C) mod 64) = Some b"
        "md_rep (?p1\<lparr>md_abcd := absorb (md_abcd ?p1) (take (n - C) (drop C data)), md_buf := b\<rparr>) (m @ ?d)"
        using fin [of "n - C" ?p' "drop C data" ?p1] le blk tl abs same by auto
      have "cel_md5_update pms data (int n)
          = Some (?p1\<lparr>md_abcd := absorb (md_abcd ?p1) (take (n - C) (drop C data)), md_buf := b\<rparr>)"
        using b1 False proc b(1) full_absorbs [OF le, of ?p1] by (simp add: run)
      with b(2) show ?thesis by blast
    qed
  qed
qed

section \<open>Finishing\<close>

lemma length_nat_bytes [simp]: "length (nat_bytes n) = 4"
  by (simp add: nat_bytes_def)

lemma pad_length:
  fixes l :: nat
  assumes "c0 = 8 * l mod 2 ^ 32"
  shows "(55 + 2 ^ 32 - c0 div 8) mod 64 = (119 - l mod 64) mod 64"
proof -
  have c: "c0 div 8 = l mod 2 ^ 29"
    unfolding assms using mult_mod_right [of 8 l "2 ^ 29"] by simp
  have b: "l mod 2 ^ 29 < 2 ^ 29" "l mod 2 ^ 29 mod 64 = l mod 64" by (simp_all add: mod_mod_cancel)
  have "(55 + 2 ^ 32 - l mod 2 ^ 29) mod 64 = (119 - l mod 64) mod 64"
  proof -
    obtain q where q: "l mod 2 ^ 29 = 64 * q + l mod 64" using b(2) by (metis mult_div_mod_eq)
    then have "q < 2 ^ 23" using b(1) by simp
    then have "55 + 2 ^ 32 - l mod 2 ^ 29 = 119 - l mod 64 + 64 * (2 ^ 26 - 1 - q)"
      unfolding q using mod_less_divisor [of 64 l] by simp
    then show ?thesis by (simp only: mod_mult_self2)
  qed
  with c show ?thesis by simp
qed

lemma final_rep:
  assumes rep: "md_rep pms m"
  shows "\<exists>pms'. cel_md5_final pms = Some (pms', md5_spec m)"
proof -
  let ?L = "(119 - length m mod 64) mod 64" and ?l = "length m"
  note r = rep [unfolded md_rep_def]
  have c0: "md_count0 pms = 8 * ?l mod 2 ^ 32" using r by (intro count_offset(1)) auto
  have c1: "md_count1 pms = 8 * ?l div 2 ^ 32 mod 2 ^ 32"
  proof -
    have e: "md_count0 pms + 2 ^ 32 * md_count1 pms = 8 * ?l mod 2 ^ 64" using r by blast
    have "md_count1 pms = (md_count0 pms + 2 ^ 32 * md_count1 pms) div 2 ^ 32"
    proof -
      have "md_count0 pms < 2 ^ 32" using r by blast
      then show ?thesis by simp
    qed
    also have "\<dots> = 8 * ?l mod (2 ^ 32 * 2 ^ 32) div 2 ^ 32" by (simp only: e) simp
    also have "\<dots> = 8 * ?l div 2 ^ 32 mod 2 ^ 32" unfolding mod_mult2_eq by simp
    finally show ?thesis .
  qed
  have pad: "(55 + 2 ^ 32 - md_count0 pms div 8) mod 64 + 1 = ?L + 1" using pad_length [OF c0] by simp
  have "?L + 1 \<le> length md5_pad" by (simp add: md5_pad_def)
  moreover have "?L + 1 < 2 ^ 28" using mod_less_divisor [of 64 "119 - ?l mod 64"] by simp
  ultimately obtain p1 where p1: "cel_md5_update pms md5_pad (int (?L + 1)) = Some p1"
    "md_rep p1 (m @ take (?L + 1) md5_pad)"
    using update_rep [OF rep, of "?L + 1" md5_pad] by blast
  let ?data = "nat_bytes (md_count0 pms) @ nat_bytes (md_count1 pms)"
  obtain p2 where p2: "cel_md5_update p1 ?data (int 8) = Some p2"
    "md_rep p2 ((m @ take (?L + 1) md5_pad) @ take 8 ?data)"
    using update_rep [OF p1(2), of 8 ?data] by auto
  have padb: "take (?L + 1) md5_pad = 0x80 # replicate ?L 0"
    using mod_less_divisor [of 64 "119 - ?l mod 64"] by (simp add: md5_pad_def min_def)
  have msg: "(m @ take (?L + 1) md5_pad) @ take 8 ?data = m @ md5_padding ?l"
    unfolding padb by (simp add: md5_padding_def c0 c1)
  have "cel_md5_final pms = Some (p2, digest_of (md_abcd p2))"
    using p1(1) p2(1) pad unfolding cel_md5_final_def Let_def by simp
  moreover have "md_abcd p2 = absorb md5_init_regs (m @ md5_padding ?l)"
    using p2(2) unfolding msg by (simp add: md_rep_def)
  ultimately show ?thesis by (simp add: md5_spec_def)
qed

section \<open>The interface of the clients\<close>

locale chunked_digest =
  fixes start :: 's
    and upd :: "'s \<Rightarrow> bytes \<Rightarrow> 's option"
    and fin :: "'s \<Rightarrow> bytes option"
    and spec :: "bytes \<Rightarrow> bytes"
    and holds :: "'s \<Rightarrow> bytes \<Rightarrow> bool"
    and cap :: nat
  assumes start_law: "holds start []"
    and upd_law: "holds s m \<Longrightarrow> length c < cap \<Longrightarrow> \<exists>s'. upd s c = Some s' \<and> holds s' (m @ c)"
    and fin_law: "holds s m \<Longrightarrow> fin s = Some (spec m)"
begin

lemma absorb_chunks:
  "holds s m \<Longrightarrow> \<forall>c \<in> set cs. length c < cap \<Longrightarrow>
   \<exists>s'. foldr (\<lambda>c k s. do { s \<leftarrow> upd s c; k s }) cs Some s = Some s' \<and> holds s' (m @ concat cs)"
proof (induction cs arbitrary: s m)
  case Nil
  then show ?case by simp
next
  case (Cons c cs)
  then obtain s1 where s1: "upd s c = Some s1" "holds s1 (m @ c)" using upd_law [of s m c] by auto
  from Cons.IH [OF s1(2)] Cons.prems(2) s1(1) show ?case by auto
qed

lemma digest_chunks:
  "\<forall>c \<in> set cs. length c < cap \<Longrightarrow>
   do { s \<leftarrow> foldr (\<lambda>c k s. do { s \<leftarrow> upd s c; k s }) cs Some start; fin s } = Some (spec (concat cs))"
  using absorb_chunks [OF start_law, of cs] fin_law by auto

end

definition fresh_md5 :: md5 where
  "fresh_md5 = cel_md5_init \<lparr>md_count0 = 0, md_count1 = 0, md_abcd = (0, 0, 0, 0), md_buf = replicate 64 0\<rparr>"

interpretation md: chunked_digest fresh_md5 "\<lambda>s c. cel_md5_update s c (int (length c))"
    "\<lambda>s. do { (_, d) \<leftarrow> cel_md5_final s; Some d }" md5_spec md_rep "2 ^ 28"
proof
  show "md_rep fresh_md5 []" by (simp add: fresh_md5_def md_rep_init)
  fix s :: md5 and m c :: bytes
  assume "md_rep s m" "length c < 2 ^ 28"
  then show "\<exists>s'. cel_md5_update s c (int (length c)) = Some s' \<and> md_rep s' (m @ c)"
    using update_rep [of s m "length c" c] by simp
next
  fix s m assume "md_rep s m"
  then show "do { (_, d) \<leftarrow> cel_md5_final s; Some d } = Some (md5_spec m)"
    using final_rep [of s m] by auto
qed

lemma md5_chunks_fold: "md5_chunks s cs = foldr (\<lambda>c k s. do { s \<leftarrow> cel_md5_update s c (int (length c)); k s }) cs Some s"
  by (induction cs arbitrary: s) auto

lemma md5_string_law:
  assumes "length (md_buf context) = 64" "length s < 2 ^ 28"
  shows "cel_md5_string context s = Some (md5_spec s)"
proof -
  have rep: "md_rep (cel_md5_init context) []" using assms(1) by (rule md_rep_init)
  obtain p where "cel_md5_update (cel_md5_init context) s (int (length s)) = Some p" "md_rep p s"
    using update_rep [OF rep, of "length s" s] assms(2) by auto
  with final_rep [of p s] assms(2) show ?thesis by (auto simp: cel_md5_string_def)
qed

lemma print_loop_run:
  "length p = off \<Longrightarrow> 2 * length bs + 1 \<le> length r \<Longrightarrow> bs \<noteq> [] \<Longrightarrow>
   md5_print_loop bs (p @ r) off = Some (p @ concat (map hex2 bs) @ 0 # drop (2 * length bs + 1) r)"
proof (induction bs arbitrary: p r off)
  case Nil
  then show ?case by simp
next
  case (Cons b bs)
  then have w: "blit (p @ r) off (hex2 b @ [0]) 3 = Some ((p @ hex2 b) @ 0 # drop 3 r)"
    by (auto simp: blit_def)
  show ?case
  proof (cases "bs = []")
    case True
    with w Cons.prems show ?thesis by (simp add: numeral_3_eq_3)
  next
    case False
    have "md5_print_loop bs ((p @ hex2 b) @ 0 # drop 3 r) (off + 2)
        = Some ((p @ hex2 b) @ concat (map hex2 bs) @ 0 # drop (2 * length bs + 1) (0 # drop 3 r))"
      using Cons.prems False by (intro Cons.IH) auto
    with w show ?thesis by (simp add: numeral_3_eq_3)
  qed
qed

text \<open>The calls the clients make to sign a message in parts: init, updates, final, print.\<close>

lemma length_digest_of [simp]: "length (digest_of r) = 16"
  by (simp add: digest_of_def word_bytes_def split: prod.splits)

lemma length_md5_spec [simp]: "length (md5_spec m) = 16"
  by (simp add: md5_spec_def)

lemma md5_parts_law:
  assumes "length (md_buf context) = 64" "\<forall>c \<in> set parts. length c < 2 ^ 28"
  obtains p p' where "md5_chunks (cel_md5_init context) parts = Some p" "cel_md5_final p = Some (p', md5_spec (concat parts))"
    "length (md_buf p) = 64"
proof -
  have rep: "md_rep (cel_md5_init context) []" using assms(1) by (rule md_rep_init)
  obtain p where p: "md5_chunks (cel_md5_init context) parts = Some p" "md_rep p (concat parts)"
    using md.absorb_chunks [OF rep assms(2)] by (auto simp: md5_chunks_fold)
  moreover obtain p' where "cel_md5_final p = Some (p', md5_spec (concat parts))"
    using final_rep [OF p(2)] by auto
  moreover have "length (md_buf p) = 64" using p(2) by (simp add: md_rep_def)
  ultimately show ?thesis by (intro that)
qed

definition md5_hex :: "bytes \<Rightarrow> bytes" where
  "md5_hex m = concat (map hex2 (md5_spec m))"

lemma md5_hex_no_nul [simp]: "no_nul (md5_hex m)"
  by (auto simp: md5_hex_def no_nul_def dest: hex2_no_nul [unfolded no_nul_def, THEN notE, rotated])

lemma length_md5_hex [simp]: "length (md5_hex m) = 32"
  by (simp add: md5_hex_def length_concat comp_def sum_list_triv)

lemma md5_print_law:
  "33 \<le> length buf \<Longrightarrow> cel_md5_print (md5_spec m) buf = Some (md5_hex m @ 0 # drop 33 buf)"
  using print_loop_run [of "[]" 0 "md5_spec m" buf] length_md5_spec [of m]
  by (cases "md5_spec m") (auto simp: cel_md5_print_def md5_hex_def)

section \<open>A test vector\<close>

lemma replicate_numeral: "replicate (numeral n) x = x # replicate (pred_numeral n) x"
  by (simp add: numeral_eq_Suc)

lemma abc_block: "bytes_of ''abc'' @ md5_padding 3 = [97, 98, 99, 128, 0, 0, 0, 0, 0, 0, 0, 0, 0, 0, 0, 0, 0, 0, 0, 0, 0, 0, 0, 0, 0, 0, 0, 0, 0, 0, 0, 0, 0, 0, 0, 0, 0, 0, 0, 0, 0, 0, 0, 0, 0, 0, 0, 0, 0, 0, 0, 0, 0, 0, 0, 0, 24, 0, 0, 0, 0, 0, 0, 0]"
  by (simp add: bytes_of_def md5_padding_def nat_bytes_def upt_rec replicate_numeral)

lemma abc_words: "block_words (bytes_of ''abc'' @ md5_padding 3) = [0x80636261, 0, 0, 0, 0, 0, 0, 0, 0, 0, 0, 0, 0, 0, 24, 0]"
  unfolding abc_block by (simp add: block_words_def upt_rec le32_def)

lemmas md5_eval = md5_set_def md5_F_def md5_G_def md5_H_def md5_I_def ROTATE_LEFT_def T_MASK_def

lemma abc_round1: "fold (md5_set md5_F [0x80636261, 0, 0, 0, 0, 0, 0, 0, 0, 0, 0, 0, 0, 0, 24, 0]) md5_round1 md5_init_regs = (0xdda9b9a6, 0x72aff2e0, 0xe396856b, 0xa1051895)"
  by (simp add: md5_round1_def md5_init_regs_def md5_eval)

lemma abc_round2: "fold (md5_set md5_G [0x80636261, 0, 0, 0, 0, 0, 0, 0, 0, 0, 0, 0, 0, 0, 24, 0]) md5_round2 (0xdda9b9a6, 0x72aff2e0, 0xe396856b, 0xa1051895) = (0x790a77fb, 0x726342d3, 0xa62884aa, 0x9f47e4f8)"
  by (simp add: md5_round2_def md5_eval)

lemma abc_round3: "fold (md5_set md5_H [0x80636261, 0, 0, 0, 0, 0, 0, 0, 0, 0, 0, 0, 0, 0, 24, 0]) md5_round3 (0x790a77fb, 0x726342d3, 0xa62884aa, 0x9f47e4f8) = (0x7f2e507b, 0x7beb9700, 0x8fae6399, 0x99d9679d)"
  by (simp add: md5_round3_def md5_eval)

lemma abc_round4: "fold (md5_set md5_I [0x80636261, 0, 0, 0, 0, 0, 0, 0, 0, 0, 0, 0, 0, 0, 24, 0]) md5_round4 (0x7f2e507b, 0x7beb9700, 0x8fae6399, 0x99d9679d) = (0x310ade8f, 0xc08226b3, 0xe484b9d8, 0x624d8cb2)"
  by (simp add: md5_round4_def md5_eval)

lemma md5_spec_abc:
  "concat (map hex2 (md5_spec (bytes_of ''abc''))) = bytes_of ''900150983cd24fb0d6963f7d28e17f72''"
proof -
  have l: "length (bytes_of ''abc'') = 3" by (simp add: bytes_of_def)
  have a: "absorb md5_init_regs (bytes_of ''abc'' @ md5_padding 3) = md5_block (bytes_of ''abc'' @ md5_padding 3) md5_init_regs"
    unfolding abc_block by (simp add: absorb.simps)
  have r: "md5_rounds (block_words (bytes_of ''abc'' @ md5_padding 3)) md5_init_regs = (0x310ade8f, 0xc08226b3, 0xe484b9d8, 0x624d8cb2)"
    unfolding abc_words md5_rounds_def abc_round1 abc_round2 abc_round3 abc_round4 ..
  have "md5_block (bytes_of ''abc'' @ md5_padding 3) md5_init_regs = (0x98500190, 0xb04fd23c, 0x7d3f96d6, 0x727fe128)"
    unfolding md5_block_def r by (simp add: md5_init_regs_def)
  then have "md5_spec (bytes_of ''abc'') = digest_of (0x98500190, 0xb04fd23c, 0x7d3f96d6, 0x727fe128)"
    by (simp add: md5_spec_def l a del: bytes_of_length)
  then show ?thesis
    by (simp add: digest_of_def word_bytes_def hex2_def hex_digit_def bytes_of_def)
qed

section \<open>Properties\<close>

text \<open>C7: the digest of a file, delivered by \<open>fread\<close> in any chunks of less than \<open>2\<^sup>2\<^sup>8\<close> bytes, is the MD5 of
  its contents as RFC 1321 defines it: the streaming context with its partial block and its split bit
  count loses nothing; a file that cannot be opened gives -1.\<close>

theorem md5_file_is_md5:
  assumes "\<forall>c \<in> set chunks. length c < 2 ^ 28"
  shows "cel_md5_file \<lparr>md_count0 = 0, md_count1 = 0, md_abcd = (0, 0, 0, 0), md_buf = replicate 64 0\<rparr> (Some chunks)
       = Some (0, md5_spec (concat chunks))
     \<and> cel_md5_file context None = Some (- 1, [])"
proof -
  have "do { s \<leftarrow> md5_chunks fresh_md5 chunks; (_, d) \<leftarrow> cel_md5_final s; Some d } = Some (md5_spec (concat chunks))"
    using md.digest_chunks [of chunks] assms by (simp add: md5_chunks_fold)
  then show ?thesis
    by (auto simp: cel_md5_file_def fresh_md5_def split: bind_splits prod.splits)
qed

lemma md5_file_is_md5_witness:
  "cel_md5_file \<lparr>md_count0 = 0, md_count1 = 0, md_abcd = (0, 0, 0, 0), md_buf = replicate 64 0\<rparr>
     (Some [replicate 63 1, replicate 130 2, [3]]) = Some (0, md5_spec (replicate 63 1 @ replicate 130 2 @ [3]))"
  using md5_file_is_md5 [of "[replicate 63 1, replicate 130 2, [3]]" fresh_md5] by simp

text \<open>\<open>cel_md5_string\<close> computes the MD5 of a string of less than \<open>2\<^sup>2\<^sup>8\<close> bytes in any context; from \<open>2\<^sup>3\<^sup>1\<close>
  bytes on the length is a negative \<open>int\<close> and the digest is that of the empty string.\<close>

theorem md5_string_is_md5:
  assumes "length (md_buf context) = 64"
  shows "(length s < 2 ^ 28 \<longrightarrow> cel_md5_string context s = Some (md5_spec s))
     \<and> (2 ^ 31 \<le> length s \<and> length s < 2 ^ 32 \<longrightarrow> cel_md5_string context s = Some (md5_spec []))"
proof (intro conjI impI)
  have rep: "md_rep (cel_md5_init context) []" using assms by (rule md_rep_init)
  show "cel_md5_string context s = Some (md5_spec s)" if "length s < 2 ^ 28"
    using assms that by (rule md5_string_law)
  show "cel_md5_string context s = Some (md5_spec [])" if "2 ^ 31 \<le> length s \<and> length s < 2 ^ 32"
    using that final_rep [OF rep] by (auto simp: cel_md5_string_def cel_md5_update_def to_int32_def)
qed

lemma md5_string_is_md5_witness: "cel_md5_string fresh_md5 [97, 98, 99] = Some (md5_spec [97, 98, 99])"
  using md5_string_is_md5 [of fresh_md5 "[97, 98, 99]"] by (simp add: fresh_md5_def cel_md5_init_def)

text \<open>\<open>cel_md5_print\<close> writes the 32 lower-case digits of the digest and a NUL: it is defined exactly
  for buffers of 33 bytes or more, not for the 32 that its declaration asks for.\<close>

theorem md5_print_needs_33:
  assumes "length digest = 16"
  shows "cel_md5_print digest buf =
    (if 33 \<le> length buf then Some (concat (map hex2 digest) @ 0 # drop 33 buf) else None)"
proof (cases "33 \<le> length buf")
  case True
  then show ?thesis
    using print_loop_run [of "[]" 0 digest buf] assms by (cases digest) (auto simp: cel_md5_print_def)
next
  case False
  have "md5_print_loop bs b off = None" if "length b < off + 2 * length bs + 1" "bs \<noteq> []" for bs b off
    using that
  proof (induction bs arbitrary: b off)
    case (Cons x bs)
    show ?case
    proof (cases "blit b off (hex2 x @ [0]) 3")
      case (Some b')
      then have "length b' = length b" "off + 3 \<le> length b" by (auto simp: blit_iff)
      moreover from this Cons.prems have "bs \<noteq> []" by auto
      ultimately show ?thesis using Cons Some by simp
    qed simp
  qed simp
  moreover have "length buf < 0 + 2 * length (take 16 digest) + 1" "take 16 digest \<noteq> []" using False assms by auto
  ultimately show ?thesis using False by (simp add: cel_md5_print_def)
qed

lemma md5_print_needs_33_witness: "cel_md5_print (replicate 16 0) (replicate 32 0) = None"
  using md5_print_needs_33 [of "replicate 16 0" "replicate 32 0"] by simp

text \<open>the code computes the digest of \<open>abc\<close> that RFC 1321 lists.\<close>

lemma md5_test_vector:
  "map_option (\<lambda>d. concat (map hex2 d)) (cel_md5_string fresh_md5 (bytes_of ''abc''))
   = Some (bytes_of ''900150983cd24fb0d6963f7d28e17f72'')"
proof -
  have "length (bytes_of ''abc'') < 2 ^ 28" "length (md_buf fresh_md5) = 64"
    by (simp_all add: bytes_of_def fresh_md5_def cel_md5_init_def)
  then show ?thesis using md5_string_law [of fresh_md5 "bytes_of ''abc''"] md5_spec_abc by simp
qed

end
