(* ===== verification/BloomFilter.thy ===== *)
theory BloomFilter
  imports CelHash "HOL-Library.Signed_Division"
begin

text \<open>
  The Bloom filter of \<open>src/ext/bloomfilter/cel_bloomfilter.c\<close>: a bit array and the table of the twelve
  string hashes of \<open>cel_hash.c\<close>, of which the filter uses the first \<open>hsize\<close>.

  The bits are those of a block of bytes, opened and fetched by the macros of \<open>cel_stdio.h\<close>.  A hash
  behind the end of the table is the null function pointer; calling it, a length of 0 and a bit
  outside of the block are undefined.  The two functions that compute sizes in floating point are not
  modelled.

  The locale \<open>bit_set\<close> is the contract of a set that answers by covering: adding covers the cells of
  the element, and an element is reported when its cells are covered.  The filter interprets it, and
  its properties follow: a string that was added is always found, and the answer is exactly the
  covering of its bits by those of the strings added.
\<close>

section \<open>The bit array\<close>

definition bit_open :: "bytes \<Rightarrow> nat \<Rightarrow> bytes option" where
  "bit_open str n = do {
     b \<leftarrow> rd str (n div 8);
     wr str (n div 8) (b OR push_bit (n mod 8) 1) }"

definition bit_fetch :: "bytes \<Rightarrow> nat \<Rightarrow> u8 option" where
  "bit_fetch str n = do {
     b \<leftarrow> rd str (n div 8);
     Some (b AND push_bit (n mod 8) 1) }"

definition bits_of :: "bytes \<Rightarrow> nat set" where
  "bits_of str = {n. n < 8 * length str \<and> bit (str ! (n div 8)) (n mod 8)}"

lemma bit_open_opens:
  "n < 8 * length str \<Longrightarrow>
   \<exists>str'. bit_open str n = Some str' \<and> length str' = length str \<and> bits_of str' = insert n (bits_of str)"
proof -
  assume n: "n < 8 * length str"
  then have i: "n div 8 < length str" by auto
  let ?s = "str[n div 8 := str ! (n div 8) OR push_bit (n mod 8) 1]"
  have "bit (?s ! (k div 8)) (k mod 8) \<longleftrightarrow> k = n \<or> bit (str ! (k div 8)) (k mod 8)" if "k < 8 * length str" for k
  proof (cases "k div 8 = n div 8")
    case True
    have "k mod 8 = n mod 8 \<longleftrightarrow> k = n" using True by (metis div_mult_mod_eq)
    moreover have "k mod 8 < 8" by simp
    ultimately have "bit (2 ^ (n mod 8) :: u8) (k mod 8) \<longleftrightarrow> k = n" by (auto simp: bit_exp_iff)
    with True i show ?thesis by (auto simp: bit_or_iff)
  next
    case False
    then show ?thesis by auto
  qed
  then have "bits_of ?s = insert n (bits_of str)" using n by (auto simp: bits_of_def)
  with i show ?thesis by (simp add: bit_open_def cmem)
qed

lemma and_bit_zero: "k < 8 \<Longrightarrow> (b AND push_bit k 1 = (0 :: u8)) = (\<not> bit b k)"
proof -
  assume k: "k < 8"
  then have "bit (b AND 2 ^ k) n \<longleftrightarrow> n = k \<and> bit b k" for n
    by (auto simp: bit_and_iff bit_exp_iff dest: bit_imp_le_length)
  with k show ?thesis by (auto simp: bit_eq_iff [of "b AND _"])
qed

lemma bit_fetch_fetches:
  "n < 8 * length str \<Longrightarrow> \<exists>b. bit_fetch str n = Some b \<and> (b = 0 \<longleftrightarrow> n \<notin> bits_of str)"
  using and_bit_zero [of "n mod 8" "str ! (n div 8)"] by (auto simp: bit_fetch_def bits_of_def cmem)

lemma bits_of_zeros: "bits_of (replicate n 0) = {}"
  by (auto simp: bits_of_def)

section \<open>The filter\<close>

definition internal_hash_functions :: "(bytes \<Rightarrow> u32 option) list" where
  "internal_hash_functions =
     [\<lambda>s. Some (cel_bkdr_hash s), \<lambda>s. Some (cel_fnv_hash s), \<lambda>s. Some (cel_fnv1a_hash s),
      \<lambda>s. Some (cel_ap_hash s), \<lambda>s. Some (cel_djp_hash s), \<lambda>s. Some (cel_djp2_hash s),
      \<lambda>s. Some (cel_js_hash s), \<lambda>s. Some (cel_sdms_hash s), \<lambda>s. Some (cel_rs_hash s),
      \<lambda>s. Some (cel_dek_hash s), \<lambda>s. Some (cel_elf_hash s), cel_bobJenkins32_hash]"

record bloom =
  bf_length :: nat
  bf_size :: nat
  bf_str :: bytes
  bf_hsize :: nat

definition cel_bloomfilter_init :: "(nat \<Rightarrow> bool) \<Rightarrow> bloom \<Rightarrow> int \<Rightarrow> int \<Rightarrow> (bloom \<times> nat) option" where
  "cel_bloomfilter_init al bloom len hfuncs = do {
     sum \<leftarrow> int32 (len + 8 - 1);
     let n = sum sdiv 8;
     (if n < 0 \<or> \<not> al (nat n) then Some (bloom\<lparr>bf_str := []\<rparr>, 0)
      else Some (bloom\<lparr>bf_length := to_uint32 len, bf_size := 0,
                  bf_hsize := to_uint32 (if hfuncs > 12 then 12 else hfuncs),
                  bf_str := replicate (nat n) 0\<rparr>, 1)) }"

definition cel_bloomfilter_destroy :: "bloom \<Rightarrow> bloom \<times> nat" where
  "cel_bloomfilter_destroy bloom = (bloom\<lparr>bf_str := []\<rparr>, 1)"

text \<open>The bit of a string under the hash at an index of the table.\<close>

definition bloom_bit :: "bloom \<Rightarrow> nat \<Rightarrow> bytes \<Rightarrow> nat option" where
  "bloom_bit bloom i str = do {
     f \<leftarrow> rd internal_hash_functions i;
     h \<leftarrow> f str;
     (if bf_length bloom = 0 then None else Some (unat h mod bf_length bloom)) }"

text \<open>The loops over the hashes, \<open>n\<close> steps from index \<open>i\<close>.\<close>

fun add_loop :: "bloom \<Rightarrow> bytes \<Rightarrow> nat \<Rightarrow> nat \<Rightarrow> bloom option" where
  "add_loop bloom str i 0 = Some bloom"
| "add_loop bloom str i (Suc n) = do {
     k \<leftarrow> bloom_bit bloom i str;
     s \<leftarrow> bit_open (bf_str bloom) k;
     add_loop (bloom\<lparr>bf_str := s\<rparr>) str (i + 1) n }"

definition cel_bloomfilter_add :: "bloom \<Rightarrow> bytes \<Rightarrow> (bloom \<times> nat) option" where
  "cel_bloomfilter_add bloom str =
     (if bf_hsize bloom = 0 then Some (bloom, 0)
      else do {
        bloom \<leftarrow> add_loop bloom str 0 (bf_hsize bloom);
        Some (bloom\<lparr>bf_size := wrap32 (bf_size bloom + 1)\<rparr>, 1) })"

fun exists_loop :: "bloom \<Rightarrow> bytes \<Rightarrow> nat \<Rightarrow> nat \<Rightarrow> nat option" where
  "exists_loop bloom str i 0 = Some 1"
| "exists_loop bloom str i (Suc n) = do {
     k \<leftarrow> bloom_bit bloom i str;
     b \<leftarrow> bit_fetch (bf_str bloom) k;
     (if b = 0 then Some 0 else exists_loop bloom str (i + 1) n) }"

definition cel_bloomfilter_exists :: "bloom \<Rightarrow> bytes \<Rightarrow> nat option" where
  "cel_bloomfilter_exists bloom str =
     (if bf_hsize bloom = 0 then Some 0 else exists_loop bloom str 0 (bf_hsize bloom))"

section \<open>A set that answers by covering\<close>

locale bit_set =
  fixes ok :: "'s \<Rightarrow> bool"
    and covered :: "'s \<Rightarrow> 'c set"
    and cells :: "'s \<Rightarrow> 'a \<Rightarrow> 'c set"
    and include_in :: "'s \<Rightarrow> 'a \<Rightarrow> ('s \<times> nat) option"
    and occurs :: "'s \<Rightarrow> 'a \<Rightarrow> nat option"
  assumes include_law: "ok s \<Longrightarrow> \<exists>s'. include_in s x = Some (s', 1) \<and> ok s' \<and> covered s' = covered s \<union> cells s x
      \<and> cells s' = cells s"
    and occurs_law: "ok s \<Longrightarrow> occurs s x = Some (if cells s x \<subseteq> covered s then 1 else 0)"

fun include_all :: "('s \<Rightarrow> 'a \<Rightarrow> ('s \<times> nat) option) \<Rightarrow> 's \<Rightarrow> 'a list \<Rightarrow> 's option" where
  "include_all f s [] = Some s"
| "include_all f s (x # xs) = do { (s, _) \<leftarrow> f s x; include_all f s xs }"

context bit_set
begin

lemma include_all_law:
  "ok s \<Longrightarrow> \<exists>s'. include_all include_in s xs = Some s' \<and> ok s' \<and> covered s' = covered s \<union> (\<Union>x\<in>set xs. cells s x)
      \<and> cells s' = cells s"
proof (induction xs arbitrary: s)
  case Nil
  then show ?case by simp
next
  case (Cons x xs)
  obtain s1 where s1: "include_in s x = Some (s1, 1)" "ok s1" "covered s1 = covered s \<union> cells s x"
    "cells s1 = cells s"
    using include_law [OF Cons.prems, of x] by blast
  with Cons.IH [OF s1(2)] show ?case by auto
qed

lemma answers_after:
  assumes "ok s"
  shows "\<exists>s'. include_all include_in s xs = Some s' \<and> ok s'
     \<and> (\<forall>y. occurs s' y = Some (if cells s y \<subseteq> covered s \<union> (\<Union>x\<in>set xs. cells s x) then 1 else 0))"
proof -
  obtain s' where "include_all include_in s xs = Some s'" "ok s'" "cells s' = cells s"
    "covered s' = covered s \<union> (\<Union>x\<in>set xs. cells s x)"
    using include_all_law [OF assms] by blast
  with occurs_law [of s'] show ?thesis by auto
qed

end

section \<open>The filter is such a set\<close>

definition bloom_ok :: "bloom \<Rightarrow> bool" where
  "bloom_ok b \<longleftrightarrow> 0 < bf_length b \<and> bf_length b \<le> 8 * length (bf_str b) \<and> 0 < bf_hsize b \<and> bf_hsize b \<le> 12"

definition hash_at :: "nat \<Rightarrow> bytes \<Rightarrow> u32" where
  "hash_at i str = the ((internal_hash_functions ! i) str)"

definition bloom_cells :: "bloom \<Rightarrow> bytes \<Rightarrow> nat set" where
  "bloom_cells b str = (\<lambda>i. unat (hash_at i str) mod bf_length b) ` {..<bf_hsize b}"

lemma hash_defined: "i < 12 \<Longrightarrow> (internal_hash_functions ! i) str = Some (hash_at i str)"
proof -
  have "\<forall>f \<in> set internal_hash_functions. \<exists>h. f str = Some h"
    using bobJenkins_defined [of "length str" str 0]
    by (auto simp: internal_hash_functions_def cel_bobJenkins32_hash_def)
  moreover assume "i < 12"
  then have "internal_hash_functions ! i \<in> set internal_hash_functions"
    by (intro nth_mem) (simp add: internal_hash_functions_def)
  ultimately show ?thesis unfolding hash_at_def by (metis option.sel)
qed

lemma bloom_bit_law:
  "0 < bf_length b \<Longrightarrow> i < 12 \<Longrightarrow> bloom_bit b i str = Some (unat (hash_at i str) mod bf_length b)"
  by (simp add: bloom_bit_def rd_Some hash_defined internal_hash_functions_def [THEN arg_cong [where f = length]])

lemma add_loop_law:
  "0 < bf_length b \<Longrightarrow> bf_length b \<le> 8 * length (bf_str b) \<Longrightarrow> i + n \<le> 12 \<Longrightarrow>
   \<exists>s. add_loop b str i n = Some (b\<lparr>bf_str := s\<rparr>) \<and> length s = length (bf_str b)
     \<and> bits_of s = bits_of (bf_str b) \<union> (\<lambda>i. unat (hash_at i str) mod bf_length b) ` {i..<i + n}"
proof (induction n arbitrary: b i)
  case 0
  then show ?case by (intro exI [of _ "bf_str b"]) auto
next
  case (Suc n)
  let ?k = "unat (hash_at i str) mod bf_length b"
  have "?k < 8 * length (bf_str b)"
    using Suc.prems by (meson mod_less_divisor less_le_trans)
  then obtain s1 where s1: "bit_open (bf_str b) ?k = Some s1" "length s1 = length (bf_str b)"
    "bits_of s1 = insert ?k (bits_of (bf_str b))"
    using bit_open_opens by blast
  have "{i..<i + Suc n} = insert i {Suc i..<Suc i + n}" by auto
  moreover obtain s where s: "add_loop (b\<lparr>bf_str := s1\<rparr>) str (Suc i) n = Some (b\<lparr>bf_str := s\<rparr>)" "length s = length s1"
    "bits_of s = bits_of s1 \<union> (\<lambda>i. unat (hash_at i str) mod bf_length b) ` {Suc i..<Suc i + n}"
    using Suc.IH [of "b\<lparr>bf_str := s1\<rparr>" "Suc i"] Suc.prems s1 by auto
  ultimately show ?case
    using s1 Suc.prems by (intro exI [of _ s]) (simp add: bloom_bit_law)
qed

lemma exists_loop_law:
  "0 < bf_length b \<Longrightarrow> bf_length b \<le> 8 * length (bf_str b) \<Longrightarrow> i + n \<le> 12 \<Longrightarrow>
   exists_loop b str i n = Some (if (\<lambda>i. unat (hash_at i str) mod bf_length b) ` {i..<i + n} \<subseteq> bits_of (bf_str b) then 1 else 0)"
proof (induction n arbitrary: i)
  case 0
  then show ?case by simp
next
  case (Suc n)
  let ?k = "unat (hash_at i str) mod bf_length b"
  have "?k < 8 * length (bf_str b)"
    using Suc.prems by (meson mod_less_divisor less_le_trans)
  then obtain x where x: "bit_fetch (bf_str b) ?k = Some x" "x = 0 \<longleftrightarrow> ?k \<notin> bits_of (bf_str b)"
    using bit_fetch_fetches by blast
  have "{i..<i + Suc n} = insert i {Suc i..<Suc i + n}" by auto
  with x Suc show ?case by (simp add: bloom_bit_law)
qed

interpretation bloom: bit_set bloom_ok "\<lambda>b. bits_of (bf_str b)" bloom_cells cel_bloomfilter_add cel_bloomfilter_exists
proof
  fix b :: bloom and x :: bytes
  assume ok: "bloom_ok b"
  then obtain s where "add_loop b x 0 (bf_hsize b) = Some (b\<lparr>bf_str := s\<rparr>)" "length s = length (bf_str b)"
    "bits_of s = bits_of (bf_str b) \<union> bloom_cells b x"
    using add_loop_law [of b 0 "bf_hsize b" x] by (auto simp: bloom_ok_def bloom_cells_def lessThan_atLeast0)
  with ok show "\<exists>s'. cel_bloomfilter_add b x = Some (s', 1) \<and> bloom_ok s'
      \<and> bits_of (bf_str s') = bits_of (bf_str b) \<union> bloom_cells b x \<and> bloom_cells s' = bloom_cells b"
    by (auto simp: cel_bloomfilter_add_def bloom_ok_def bloom_cells_def fun_eq_iff)
  show "cel_bloomfilter_exists b x = Some (if bloom_cells b x \<subseteq> bits_of (bf_str b) then 1 else 0)"
    using ok exists_loop_law [of b 0 "bf_hsize b" x]
    by (auto simp: cel_bloomfilter_exists_def bloom_ok_def bloom_cells_def lessThan_atLeast0)
qed

lemma bloom_init_law:
  assumes "0 < len" "len < 2 ^ 31 - 7" "0 < k" "al (nat ((len + 7) div 8))"
  shows "\<exists>b. cel_bloomfilter_init al b0 len k = Some (b, 1) \<and> bloom_ok b \<and> bits_of (bf_str b) = {}
    \<and> bf_length b = nat len \<and> bf_hsize b = nat (min k 12)"
proof -
  have "nat len \<le> 8 * nat ((len + 7) div 8)" using assms by linarith
  moreover have "(7 + len) sdiv 8 = (len + 7) div 8" "0 \<le> (len + 7) div 8"
    using assms by (auto simp: signed_divide_int_def)
  ultimately show ?thesis
    using assms by (auto simp: cel_bloomfilter_init_def int32_def bloom_ok_def bits_of_zeros min_def Let_def algebra_simps)
qed
text \<open>C26: the filter has no false negatives and no unexplained positives: after any strings were added to a
  new filter of \<open>len\<close> bits, a string is reported exactly when each of its bits is a bit of one of them;
  the strings added are always reported, and nothing is before the first.\<close>

theorem bloom_no_false_negative:
  assumes "0 < len" "len < 2 ^ 31 - 7" "0 < k" "al (nat ((len + 7) div 8))"
  shows "\<exists>b b'. cel_bloomfilter_init al b0 len k = Some (b, 1)
    \<and> include_all cel_bloomfilter_add b xs = Some b'
    \<and> (\<forall>y. cel_bloomfilter_exists b' y = Some (if bloom_cells b y \<subseteq> (\<Union>x\<in>set xs. bloom_cells b x) then 1 else 0))
    \<and> (\<forall>x \<in> set xs. cel_bloomfilter_exists b' x = Some 1)
    \<and> (xs = [] \<longrightarrow> cel_bloomfilter_exists b' y = Some 0)"
proof -
  obtain b where b: "cel_bloomfilter_init al b0 len k = Some (b, 1)" "bloom_ok b" "bits_of (bf_str b) = {}"
    using bloom_init_law [of len k al b0] assms by blast
  have ne: "bloom_cells b y \<noteq> {}" using b(2) by (simp add: bloom_cells_def bloom_ok_def lessThan_empty_iff)
  show ?thesis using bloom.answers_after [OF b(2), of xs] b ne by fastforce
qed

lemma bloom_no_false_negative_witness:
  "\<exists>b b'. cel_bloomfilter_init (\<lambda>_. True) \<lparr>bf_length = 0, bf_size = 0, bf_str = [], bf_hsize = 0\<rparr> 64 3 = Some (b, 1)
    \<and> include_all cel_bloomfilter_add b [bytes_of ''a'', bytes_of ''b''] = Some b'
    \<and> cel_bloomfilter_exists b' (bytes_of ''b'') = Some 1"
proof -
  show ?thesis
    using bloom_no_false_negative [of 64 3 "\<lambda>_. True" "\<lparr>bf_length = 0, bf_size = 0, bf_str = [], bf_hsize = 0\<rparr>"
        "[bytes_of ''a'', bytes_of ''b'']" "[]"] by auto
qed

end
