(* ===== verification/Numerals.thy ===== *)
theory Numerals
  imports Prelude
begin

text \<open>
  Numbers in text as the C library writes and reads them: \<open>%d\<close> and \<open>%010u\<close>, \<open>atoi\<close> and \<open>strtoll\<close>.
  Reading what was written gives the number back.
\<close>

definition is_digit :: "u8 \<Rightarrow> bool" where
  "is_digit c \<longleftrightarrow> 48 \<le> c \<and> c \<le> 57"

definition is_space :: "u8 \<Rightarrow> bool" where
  "is_space c \<longleftrightarrow> c \<in> set [32, 9, 10, 11, 12, 13]"

definition decimal :: "bytes \<Rightarrow> nat" where
  "decimal ds = foldl (\<lambda>a d. 10 * a + (unat d - 48)) 0 ds"

definition signed_digits :: "int \<Rightarrow> bytes" where
  "signed_digits i = (if i < 0 then 45 # dec_digits (nat (- i)) else dec_digits (nat i))"

text \<open>The number at the start of a string: blanks, a sign, digits.\<close>

definition c_integer :: "bytes \<Rightarrow> int" where
  "c_integer s = (case dropWhile is_space s of
     [] \<Rightarrow> 0
   | c # t \<Rightarrow>
       if c = 45 then - int (decimal (takeWhile is_digit t))
       else if c = 43 then int (decimal (takeWhile is_digit t))
       else int (decimal (takeWhile is_digit (c # t))))"

text \<open>\<open>atoi\<close> of the string in a block is undefined when the number is no \<open>int\<close>; \<open>strtoll\<close> stops at the
  ends of its range.\<close>

definition atoi :: "bytes \<Rightarrow> int option" where
  "atoi buf = (if 0 \<in> set buf then int32 (c_integer (cstr buf)) else None)"

definition strtoll :: "bytes \<Rightarrow> int" where
  "strtoll s = max (- (2 ^ 63)) (min (2 ^ 63 - 1) (c_integer s))"

lemma digits_no_nul: "list_all is_digit ds \<Longrightarrow> no_nul ds"
  by (induction ds) (auto simp: is_digit_def)

lemma digit_word: "d < 10 \<Longrightarrow> is_digit (word_of_nat (48 + d)) \<and> unat (word_of_nat (48 + d) :: u8) = 48 + d"
  by (simp add: is_digit_def word_le_nat_alt unat_of_nat take_bit_nat_def del: of_nat_add)

lemma decimal_snoc: "decimal (ds @ [d]) = 10 * decimal ds + (unat d - 48)"
  by (simp add: decimal_def)

lemma dec_digits_rec: "dec_digits n = (if n < 10 then [word_of_nat (48 + n)] else dec_digits (n div 10) @ [word_of_nat (48 + n mod 10)])"
  unfolding dec_digits_def by (subst digits_of.simps) auto

lemma dec_digits_read: "list_all is_digit (dec_digits n) \<and> decimal (dec_digits n) = n \<and> dec_digits n \<noteq> []"
proof (induction n rule: less_induct)
  case (less n)
  show ?case
  proof (cases "n < 10")
    case True
    then show ?thesis using digit_word [OF True] by (subst (1 2 3) dec_digits_rec) (auto simp: decimal_def)
  next
    case False
    then have "n div 10 < n" by simp
    from less [OF this] False digit_word [of "n mod 10"] show ?thesis
      by (subst (1 2 3) dec_digits_rec) (simp add: decimal_snoc del: of_nat_add)
  qed
qed

lemma takeWhile_digits: "list_all is_digit ds \<Longrightarrow> takeWhile is_digit ds = ds"
  by (simp add: takeWhile_eq_all_conv list_all_iff)

lemma digit_plain: "is_digit c \<Longrightarrow> \<not> is_space c \<and> c \<noteq> 45 \<and> c \<noteq> 43"
  by (auto simp: is_digit_def is_space_def)

lemma c_integer_digits:
  assumes "list_all is_digit ds" "ds \<noteq> []"
  shows "c_integer ds = int (decimal ds)"
proof -
  obtain c t where "ds = c # t" using assms(2) by (cases ds) auto
  with assms digit_plain [of c] takeWhile_digits [of t] show ?thesis
    by (simp add: c_integer_def del: takeWhile_eq_all_conv)
qed

lemma c_integer_signed [simp]: "c_integer (signed_digits i) = i"
proof (cases "i < 0")
  case True
  then show ?thesis
    using dec_digits_read [of "nat (- i)"]
    by (simp add: takeWhile_digits signed_digits_def c_integer_def is_space_def)
next
  case False
  then show ?thesis
    using dec_digits_read [of "nat i"] c_integer_digits [of "dec_digits (nat i)"] by (simp add: signed_digits_def)
qed

lemma signed_digits_no_nul [simp]: "no_nul (signed_digits i)"
  by (simp add: signed_digits_def)

lemma length_signed_digits:
  assumes "- (2 ^ 31) \<le> i" "i < 2 ^ 31"
  shows "length (signed_digits i) \<le> 11"
proof -
  have "nat (- i) < 10 ^ 10" "nat i < 10 ^ 10" using assms by auto
  then have "length (dec_digits (nat (- i))) \<le> 10" "length (dec_digits (nat i)) \<le> 10"
    by (auto intro: length_dec_digits)
  then show ?thesis by (simp add: signed_digits_def)
qed

lemma atoi_signed:
  "- (2 ^ 31) \<le> i \<Longrightarrow> i < 2 ^ 31 \<Longrightarrow> atoi (signed_digits i @ 0 # r) = Some i"
  by (simp add: atoi_def int32_def)

lemma strtoll_digits: "n < 2 ^ 63 \<Longrightarrow> strtoll (dec_digits n) = int n"
  using c_integer_digits [of "dec_digits n"] dec_digits_read [of n] by (simp add: strtoll_def)

text \<open>\<open>%010u\<close>.\<close>

definition ten_digits :: "nat \<Rightarrow> bytes" where
  "ten_digits n = pad_left 48 10 (dec_digits n)"

lemma ten_digits_no_nul [simp]: "no_nul (ten_digits n)"
  by (auto simp: ten_digits_def pad_left_def no_nul_def dest: dec_digits_no_nul [unfolded no_nul_def, THEN notE, rotated])

lemma length_ten_digits: "n < 2 ^ 32 \<Longrightarrow> length (ten_digits n) = 10"
  using length_dec_digits [of n 10] by (simp add: ten_digits_def length_pad_left max_def)

lemma decimal_ten_digits: "decimal (ten_digits n) = n"
proof -
  have "foldl (\<lambda>a d. 10 * a + (unat (d :: u8) - 48)) 0 (replicate k 48 @ ds) = decimal ds" for k ds
    by (induction k) (simp_all add: decimal_def)
  then show ?thesis using dec_digits_read [of n] by (simp add: ten_digits_def pad_left_def decimal_def)
qed

end
