(* ===== verification/FourBytes.thy ===== *)
theory FourBytes
  imports Prelude
begin

text \<open>
  Numbers of four bytes in little-endian order, as \<open>src/main/node.c\<close> and \<open>src/ext/ip2region/ip2region.c\<close>
  write and read them, and the law that reading gives back what was written.
\<close>

text \<open>The characters are signed: shifting extends the sign, and the masks cut it off again.\<close>

definition read_unsigned_int :: "bytes \<Rightarrow> nat \<Rightarrow> u32 option" where
  "read_unsigned_int buffer offset = do {
     b0 \<leftarrow> rd buffer offset;
     b1 \<leftarrow> rd buffer (offset + 1);
     b2 \<leftarrow> rd buffer (offset + 2);
     b3 \<leftarrow> rd buffer (offset + 3);
     Some ((scast b0 AND 0xFF) OR (push_bit 8 (scast b1) AND 0xFF00)
       OR (push_bit 16 (scast b2) AND 0xFF0000) OR (push_bit 24 (scast b3) AND 0xFF000000)) }"

definition write_unsigned_int :: "bytes \<Rightarrow> nat \<Rightarrow> u32 \<Rightarrow> bytes option" where
  "write_unsigned_int buffer offset val = do {
     buffer \<leftarrow> wr buffer offset (ucast (val AND 0xFF));
     buffer \<leftarrow> wr buffer (offset + 1) (ucast (drop_bit 8 val AND 0xFF));
     buffer \<leftarrow> wr buffer (offset + 2) (ucast (drop_bit 16 val AND 0xFF));
     wr buffer (offset + 3) (ucast (drop_bit 24 val AND 0xFF)) }"

definition four_bytes :: "u32 \<Rightarrow> bytes" where
  "four_bytes v = [ucast v, ucast (drop_bit 8 v), ucast (drop_bit 16 v), ucast (drop_bit 24 v)]"

lemma length_four_bytes [simp]: "length (four_bytes v) = 4"
  by (simp add: four_bytes_def)

lemma byte_masks: "(0xFF :: u32) = mask 8" "(0xFF00 :: u32) = push_bit 8 (mask 8)"
  "(0xFF0000 :: u32) = push_bit 16 (mask 8)" "(0xFF000000 :: u32) = push_bit 24 (mask 8)"
  by (simp_all add: mask_eq_exp_minus_1)

lemma low_byte: "(ucast (v AND 0xFF) :: u8) = ucast (v :: u32)"
  unfolding byte_masks by (rule bit_word_eqI) (auto simp: bit_simps)

text \<open>Byte \<open>k\<close> of a word, extended, shifted back and masked.\<close>

lemma byte_back:
  "k + 8 \<le> 32 \<Longrightarrow> bit (push_bit k (scast (ucast (drop_bit k v) :: u8)) AND push_bit k (mask 8) :: u32) n
     \<longleftrightarrow> k \<le> n \<and> n < k + 8 \<and> bit (v :: u32) n"
  by (auto simp: bit_simps)

lemma write_law:
  assumes "length a = offset" "length m = 4"
  shows "write_unsigned_int (a @ m @ r) offset v = Some (a @ four_bytes v @ r)"
proof -
  obtain x0 x1 x2 x3 where "m = [x0, x1, x2, x3]"
    using assms(2) by (auto simp: length_Suc_conv numeral_eq_Suc)
  with assms(1) show ?thesis
    by (simp add: write_unsigned_int_def wr_def low_byte four_bytes_def list_update_append)
qed

lemma read_law:
  assumes "length a = offset"
  shows "read_unsigned_int (a @ four_bytes v @ r) offset = Some v"
proof -
  have "(scast (ucast v :: u8) AND 0xFF) OR (push_bit 8 (scast (ucast (drop_bit 8 v) :: u8)) AND 0xFF00)
       OR (push_bit 16 (scast (ucast (drop_bit 16 v) :: u8)) AND 0xFF0000)
       OR (push_bit 24 (scast (ucast (drop_bit 24 v) :: u8)) AND 0xFF000000) = v"
    (is "?w = v")
  proof (rule bit_word_eqI)
    fix n assume n: "n < LENGTH(32)"
    have "bit ?w n \<longleftrightarrow> (0 \<le> n \<and> n < 0 + 8 \<or> 8 \<le> n \<and> n < 8 + 8 \<or> 16 \<le> n \<and> n < 16 + 8 \<or> 24 \<le> n \<and> n < 24 + 8) \<and> bit v n"
      using byte_back [of 0 v n] byte_back [of 8 v n] byte_back [of 16 v n] byte_back [of 24 v n]
      unfolding byte_masks by (simp only: bit_or_iff push_bit_0_id drop_bit_0 id_apply add_0) blast
    with n show "bit ?w n = bit v n" by auto
  qed
  with assms show ?thesis
    by (simp add: read_unsigned_int_def rd_def four_bytes_def nth_append)
qed

end
