(* ===== verification/Floats.thy ===== *)
theory Floats
  imports Complex_Main Numerals
begin

text \<open>
  Floating point: the values of \<open>double\<close>, the rounding of exact values to the types of C, and the two conversions
  between a \<open>double\<close> and text that \<open>src/main/cJSON.c\<close> uses, \<open>strtod\<close> and \<open>printf\<close> with \<open>%1.15g\<close> and \<open>%1.17g\<close>.

  A rounding takes an exact value to the nearest of the type, as if it had no largest; what is then beyond the range
  of a \<open>double\<close> is infinite.

  Shown: an integer of at most 15 digits is printed as its digits and read back; what is printed has no
  character that the parser does not read and at most 24 of them.
\<close>

section \<open>Values\<close>

record rounding =
  r_float :: "rat \<Rightarrow> rat"
  r_double :: "rat \<Rightarrow> rat"
  r_long :: "rat \<Rightarrow> rat"

datatype fp = Fin rat | MinusZero | Inf | MinusInf | NaN

definition sound_round :: "(rat \<Rightarrow> rat) \<Rightarrow> bool" where
  "sound_round r \<longleftrightarrow> mono r \<and> (\<forall>i :: int. \<bar>i\<bar> \<le> 2 ^ 24 \<longrightarrow> r (rat_of_int i) = rat_of_int i)"

definition sound :: "rounding \<Rightarrow> bool" where
  "sound R \<longleftrightarrow> sound_round (r_float R) \<and> sound_round (r_double R) \<and> sound_round (r_long R)"

lemma sound_round_between:
  assumes "sound_round r" "\<bar>i\<bar> \<le> 2 ^ 24" "\<bar>j\<bar> \<le> 2 ^ 24" "rat_of_int i \<le> x" "x \<le> rat_of_int j"
  shows "rat_of_int i \<le> r x \<and> r x \<le> rat_of_int j"
proof -
  have "mono r" "r (rat_of_int i) = rat_of_int i" "r (rat_of_int j) = rat_of_int j"
    using assms(1-3) by (auto simp: sound_round_def)
  then show ?thesis using assms(4,5) by (metis monoD)
qed

text \<open>The number cut to an \<open>int\<close>, at the ends of the range when it is larger; undefined for NaN.\<close>

definition saturated :: "rat \<Rightarrow> int" where
  "saturated q = (if q \<ge> 2147483647 then 2147483647 else if q \<le> - 2147483648 then - 2147483648
     else if q \<ge> 0 then \<lfloor>q\<rfloor> else \<lceil>q\<rceil>)"

definition int_of_double :: "fp \<Rightarrow> int option" where
  "int_of_double d = (case d of Fin q \<Rightarrow> Some (saturated q) | MinusZero \<Rightarrow> Some 0 | Inf \<Rightarrow> Some 2147483647
     | MinusInf \<Rightarrow> Some (- 2147483648) | NaN \<Rightarrow> None)"

text \<open>The \<open>double\<close> of a sign and the magnitude \<open>q\<close>.\<close>

definition to_double :: "(rat \<Rightarrow> rat) \<Rightarrow> bool \<Rightarrow> rat \<Rightarrow> fp" where
  "to_double r neg q =
     (if r q = 0 then (if neg then MinusZero else Fin 0)
      else if r q \<ge> 2 ^ 1024 then (if neg then MinusInf else Inf)
      else Fin (if neg then - r q else r q))"

text \<open>The constant \<open>1.57\<close> of \<open>src/include/sarah.h\<close>.\<close>

definition sarah_version :: "rounding \<Rightarrow> rat" where
  "sarah_version R = r_double R (157 / 100)"

text \<open>Arithmetic without rounding.\<close>

definition exact :: rounding where
  "exact = \<lparr>r_float = id, r_double = id, r_long = id\<rparr>"

section \<open>Reading\<close>

text \<open>The characters of a number.\<close>

definition number_char :: "u8 \<Rightarrow> bool" where
  "number_char c \<longleftrightarrow> is_digit c \<or> c \<in> set (bytes_of ''+-eE.'')"

text \<open>A sign and what follows it.\<close>

definition sign_of :: "bytes \<Rightarrow> bool \<times> bytes" where
  "sign_of s = (case s of [] \<Rightarrow> (False, []) | c # t \<Rightarrow> if c = 45 then (True, t) else if c = 43 then (False, t) else (False, s))"

text \<open>The exponent, if there is one: \<open>e\<close>, a sign and at least one digit.\<close>

definition exponent_of :: "bytes \<Rightarrow> int \<times> bytes" where
  "exponent_of s =
     (case s of [] \<Rightarrow> (0, [])
      | c # t \<Rightarrow> (let (neg, u) = sign_of t; ds = takeWhile is_digit u
                  in if (c = 101 \<or> c = 69) \<and> ds \<noteq> []
                     then (if neg then - int (decimal ds) else int (decimal ds), dropWhile is_digit u)
                     else (0, s)))"

definition power10 :: "int \<Rightarrow> rat" where
  "power10 e = (if e \<ge> 0 then 10 ^ nat e else 1 / 10 ^ nat (- e))"

text \<open>\<open>strtod\<close> of a text of such characters: the value and how many characters it has, 0 when there is no number.\<close>

definition strtod :: "(rat \<Rightarrow> rat) \<Rightarrow> bytes \<Rightarrow> fp \<times> nat" where
  "strtod r s =
     (let (neg, t) = sign_of s;
          ds = takeWhile is_digit t; t = dropWhile is_digit t;
          (fs, t) = (case t of c # u \<Rightarrow> if c = 46 then (takeWhile is_digit u, dropWhile is_digit u) else ([], t)
                             | [] \<Rightarrow> ([], t))
      in if ds @ fs = [] then (Fin 0, 0)
         else let (e, t) = exponent_of t
              in (to_double r neg (rat_of_nat (decimal (ds @ fs)) * power10 (e - int (length fs))), length s - length t))"

section \<open>Printing\<close>

text \<open>The exponent of the first digit of a positive number.\<close>

definition dec_exponent :: "rat \<Rightarrow> int" where
  "dec_exponent q =
     (if q \<ge> 1 then int (length (dec_digits (nat \<lfloor>q\<rfloor>))) - 1 else - int (length (dec_digits (nat (\<lceil>1 / q\<rceil> - 1)))))"

text \<open>The nearest integer, the even one of two.\<close>

definition round_even :: "rat \<Rightarrow> nat" where
  "round_even q = (let n = nat \<lfloor>q\<rfloor>; f = q - rat_of_nat n
                   in if f < 1 / 2 \<or> f = 1 / 2 \<and> even n then n else n + 1)"

text \<open>\<open>p\<close> significant digits of a positive number, and its exponent after the rounding.\<close>

definition significant :: "nat \<Rightarrow> rat \<Rightarrow> bytes \<times> int" where
  "significant p q =
     (let x = dec_exponent q; m = round_even (q * power10 (int p - 1 - x))
      in if m = 10 ^ p then (dec_digits (10 ^ (p - 1)), x + 1) else (dec_digits m, x))"

definition strip_zeros :: "bytes \<Rightarrow> bytes" where
  "strip_zeros ds = rev (dropWhile (\<lambda>c. c = 48) (rev ds))"

definition with_point :: "bytes \<Rightarrow> bytes" where
  "with_point fs = (if fs = [] then [] else 46 # fs)"

definition exp_text :: "int \<Rightarrow> bytes" where
  "exp_text x = bytes_of (if x < 0 then ''e-'' else ''e+'') @ pad_left 48 2 (dec_digits (nat \<bar>x\<bar>))"

text \<open>\<open>%.pg\<close> of a positive number.\<close>

definition general :: "nat \<Rightarrow> rat \<Rightarrow> bytes" where
  "general p q =
     (let (ds, x) = significant p q
      in if - 4 \<le> x \<and> x < int p then
           (if x \<ge> 0 then take (nat x + 1) ds @ with_point (strip_zeros (drop (nat x + 1) ds))
            else 48 # with_point (replicate (nat (- x) - 1) 48 @ strip_zeros ds))
         else take 1 ds @ with_point (strip_zeros (drop 1 ds)) @ exp_text x)"

definition print_g :: "nat \<Rightarrow> fp \<Rightarrow> bytes" where
  "print_g p d =
     (case d of
        Fin q \<Rightarrow> if q = 0 then bytes_of ''0'' else if q < 0 then 45 # general p (- q) else general p q
      | MinusZero \<Rightarrow> bytes_of ''-0''
      | Inf \<Rightarrow> bytes_of ''inf'' | MinusInf \<Rightarrow> bytes_of ''-inf'' | NaN \<Rightarrow> bytes_of ''nan'')"

section \<open>What is printed is read\<close>

lemma takeWhile_stop: "list_all P xs \<Longrightarrow> ys = [] \<or> \<not> P (hd ys) \<Longrightarrow> takeWhile P (xs @ ys) = xs \<and> dropWhile P (xs @ ys) = ys"
  by (induction xs) (cases ys; auto)+

lemma decimal_zeros: "decimal (replicate k 48 @ ds) = decimal ds"
  by (induction k) (simp_all add: decimal_def)

lemma exp_text_Cons: "exp_text e = 101 # (if e < 0 then 45 else 43) # pad_left 48 2 (dec_digits (nat \<bar>e\<bar>))"
  by (simp add: exp_text_def bytes_of_def)

lemma exponent_of_text: "ex = [] \<and> e = 0 \<or> ex = exp_text e \<Longrightarrow> exponent_of ex = (e, [])"
proof (elim disjE conjE)
  assume ex: "ex = exp_text e"
  define ds where "ds = pad_left 48 2 (dec_digits (nat \<bar>e\<bar>))"
  have ds: "list_all is_digit ds" "decimal ds = nat \<bar>e\<bar>" "ds \<noteq> []"
    using dec_digits_read [of "nat \<bar>e\<bar>"] by (auto simp: ds_def pad_left_def decimal_zeros list_all_iff is_digit_def)
  have tw: "takeWhile is_digit ds = ds" "dropWhile is_digit ds = []"
    using takeWhile_stop [OF ds(1), of "[]"] by auto
  have e: "ex = 101 # (if e < 0 then 45 else 43) # ds" by (simp add: ex exp_text_Cons ds_def)
  have sg: "sign_of ((if e < 0 then 45 else 43) # ds) = (e < 0, ds)" by (simp add: sign_of_def)
  show ?thesis unfolding e exponent_of_def list.case sg Let_def prod.case tw ds(2) using ds(3) by (auto simp: tw)
qed (simp add: exponent_of_def)

text \<open>The shape of a printed number.\<close>

definition number_shape :: "bool \<Rightarrow> bytes \<Rightarrow> bytes \<Rightarrow> int \<Rightarrow> bytes \<Rightarrow> bool" where
  "number_shape neg ds fs e s \<longleftrightarrow> ds \<noteq> [] \<and> list_all is_digit ds \<and> list_all is_digit fs
     \<and> (\<exists>ex. s = (if neg then [45] else []) @ ds @ with_point fs @ ex \<and> (ex = [] \<and> e = 0 \<or> ex = exp_text e))"

lemma shape_read:
  assumes "number_shape neg ds fs e s"
  shows "strtod r s = (to_double r neg (rat_of_nat (decimal (ds @ fs)) * power10 (e - int (length fs))), length s)"
proof -
  from assms obtain ex where s: "s = (if neg then [45] else []) @ ds @ with_point fs @ ex" and ex: "ex = [] \<and> e = 0 \<or> ex = exp_text e"
    and ds: "ds \<noteq> []" "list_all is_digit ds" "list_all is_digit fs" by (auto simp: number_shape_def)
  have sg: "sign_of s = (neg, ds @ with_point fs @ ex)"
    using ds by (cases ds) (auto simp: s sign_of_def dest: digit_plain)
  have hd: "ex = [] \<or> \<not> is_digit (hd ex) \<and> hd ex \<noteq> 46" using ex by (auto simp: exp_text_Cons is_digit_def)
  have "with_point fs @ ex = [] \<or> \<not> is_digit (hd (with_point fs @ ex))"
    using hd by (auto simp: with_point_def is_digit_def)
  note t1 = takeWhile_stop [OF ds(2) this] and t2 = takeWhile_stop [OF ds(3), of ex]
  have fs: "(case with_point fs @ ex of [] \<Rightarrow> ([], with_point fs @ ex)
      | c # u \<Rightarrow> if c = 46 then (takeWhile is_digit u, dropWhile is_digit u) else ([], with_point fs @ ex)) = (fs, ex)"
    using t2 hd by (cases ex) (auto simp: with_point_def)
  show ?thesis using ds(1) unfolding strtod_def sg Let_def prod.case t1 [THEN conjunct1] t1 [THEN conjunct2] fs exponent_of_text [OF ex]
    by simp
qed

lemma strip_zeros_digits: "list_all is_digit ds \<Longrightarrow> list_all is_digit (strip_zeros ds)"
  unfolding strip_zeros_def list_all_iff by (auto dest: set_dropWhileD)

lemma general_shape: "\<exists>ds fs e. number_shape False ds fs e (general p q)"
proof -
  obtain ds x where sig: "significant p q = (ds, x)" by fastforce
  have ds: "list_all is_digit ds" "ds \<noteq> []"
    using sig dec_digits_read by (auto simp: significant_def Let_def split: if_splits)
  have part: "list_all is_digit (take n ds)" "list_all is_digit (strip_zeros (drop n ds))" "list_all is_digit (strip_zeros ds)" for n
    using ds(1) strip_zeros_digits by (auto simp: list_all_iff dest: in_set_takeD in_set_dropD)
  consider "- 4 \<le> x" "x < int p" "x \<ge> 0" | "- 4 \<le> x" "x < int p" "x < 0" | "\<not> (- 4 \<le> x \<and> x < int p)" by linarith
  then show ?thesis
  proof cases
    case 1
    then have "number_shape False (take (nat x + 1) ds) (strip_zeros (drop (nat x + 1) ds)) 0 (general p q)"
      using part ds(2) by (simp add: general_def sig number_shape_def)
    then show ?thesis by blast
  next
    case 2
    then have "number_shape False [48] (replicate (nat (- x) - 1) 48 @ strip_zeros ds) 0 (general p q)"
      using part by (auto simp: general_def sig number_shape_def list_all_iff is_digit_def)
    then show ?thesis by blast
  next
    case 3
    then have "number_shape False (take 1 ds) (strip_zeros (drop 1 ds)) x (general p q)"
      using part(1,2) [of 1] ds(2) unfolding general_def sig number_shape_def by auto
    then show ?thesis by blast
  qed
qed

lemma print_shape: "\<exists>neg ds fs e. number_shape neg ds fs e (print_g p d)" if "d \<notin> {Inf, MinusInf, NaN}"
proof -
  have neg: "number_shape True ds fs e (45 # s)" if "number_shape False ds fs e s" for ds fs e s
    using that by (auto simp: number_shape_def)
  have z: "number_shape False [48] [] 0 [48]" by (simp add: number_shape_def is_digit_def with_point_def)
  show ?thesis
  proof (cases d)
    case (Fin q)
    obtain ds fs e where "number_shape False ds fs e (general p \<bar>q\<bar>)" using general_shape by blast
    then have "number_shape (q < 0) ds fs e ((if q < 0 then [45] else []) @ general p \<bar>q\<bar>)"
      using neg [of ds fs e "general p \<bar>q\<bar>"] by (cases "q < 0") auto
    moreover have "print_g p d = (if q = 0 then [48] else (if q < 0 then [45] else []) @ general p \<bar>q\<bar>)"
      by (simp add: Fin print_g_def bytes_of_def)
    ultimately show ?thesis by (metis z)
  qed (use that z neg [OF z] in \<open>auto simp: print_g_def bytes_of_def\<close>)
qed

lemma shape_chars: "number_shape neg ds fs e s \<Longrightarrow> list_all number_char s \<and> s \<noteq> [] \<and> (hd s = 45 \<or> is_digit (hd s))"
proof -
  assume "number_shape neg ds fs e s"
  then obtain ex where s: "s = (if neg then [45] else []) @ ds @ with_point fs @ ex" and ex: "ex = [] \<or> ex = exp_text e"
    and ds: "ds \<noteq> []" "list_all is_digit ds" "list_all is_digit fs" by (auto simp: number_shape_def)
  have dig: "list_all is_digit xs \<Longrightarrow> list_all number_char xs" for xs by (auto simp: list_all_iff number_char_def)
  have "list_all number_char ex"
    using ex dec_digits_read [of "nat \<bar>e\<bar>"]
    by (elim disjE) (auto simp: exp_text_Cons pad_left_def list_all_iff number_char_def bytes_of_def is_digit_def)
  moreover have "list_all number_char (with_point fs)" using dig [OF ds(3)] by (simp add: with_point_def number_char_def bytes_of_def)
  moreover have "number_char 45" by (simp add: number_char_def bytes_of_def)
  ultimately show ?thesis using ds dig [OF ds(2)] by (cases ds) (auto simp: s)
qed

lemma print_read:
  assumes "d \<notin> {Inf, MinusInf, NaN}"
  shows "list_all number_char (print_g p d) \<and> print_g p d \<noteq> [] \<and> (hd (print_g p d) = 45 \<or> is_digit (hd (print_g p d)))
    \<and> snd (strtod r (print_g p d)) = length (print_g p d)"
  using print_shape [OF assms, of p] shape_chars shape_read by fastforce

section \<open>Integers\<close>

lemma round_even_int: "round_even (rat_of_nat n) = n"
  by (simp add: round_even_def Let_def)

lemma length_dec_digits_eq: "n > 0 \<Longrightarrow> 10 ^ (length (dec_digits n) - 1) \<le> n \<and> n < 10 ^ length (dec_digits n)"
proof (induction n rule: less_induct)
  case (less n)
  show ?case
  proof (cases "n < 10")
    case True
    then show ?thesis using less.prems by (simp add: dec_digits_rec [of n])
  next
    case False
    obtain k where k: "length (dec_digits (n div 10)) = Suc k" using dec_digits_read [of "n div 10"] by (cases "dec_digits (n div 10)") auto
    have "n div 10 < n" "0 < n div 10" using False by auto
    from less.IH [OF this] k have "10 ^ k \<le> n div 10" "n div 10 < 10 ^ Suc k" by auto
    moreover have "length (dec_digits n) = Suc (Suc k)" using False k by (subst dec_digits_rec) simp
    moreover have "n < 10 * Suc (n div 10)" "10 * (n div 10) \<le> n" by presburger+
    ultimately show ?thesis by (simp add: Suc_le_eq [symmetric])
  qed
qed

lemma dec_digits_times: "n > 0 \<Longrightarrow> dec_digits (n * 10 ^ k) = dec_digits n @ replicate k 48"
proof (induction k)
  case (Suc k)
  have "dec_digits (n * 10 ^ Suc k) = dec_digits (n * 10 ^ k) @ [48]"
    using Suc.prems by (subst dec_digits_rec) (simp add: mult.assoc [symmetric] mult.commute)
  then show ?case using Suc by (simp add: replicate_append_same)
qed simp


lemma dec_exponent_int: "n > 0 \<Longrightarrow> dec_exponent (rat_of_nat n) = int (length (dec_digits n)) - 1"
  by (simp add: dec_exponent_def)

lemma print_int:
  assumes "0 < n" "n < 10 ^ p" "0 < p"
  shows "general p (rat_of_nat n) = dec_digits n"
proof -
  let ?l = "length (dec_digits n)"
  have l: "0 < ?l" "?l \<le> p" using dec_digits_read [of n] length_dec_digits [OF assms(2,3)] by auto
  define k where "k = p - ?l"
  have k: "p = ?l + k" "int p - 1 - dec_exponent (rat_of_nat n) = int k" using l dec_exponent_int [OF assms(1)] by (auto simp: k_def)
  have "n * 10 ^ k < 10 ^ ?l * 10 ^ k" using length_dec_digits_eq [OF assms(1)] by simp
  then have lt: "n * 10 ^ k \<noteq> 10 ^ p" by (simp add: k(1) power_add)
  have "rat_of_nat n * power10 (int k) = rat_of_nat (n * 10 ^ k)" by (simp add: power10_def)
  note m = this round_even_int [of "n * 10 ^ k"]
  have "significant p (rat_of_nat n) = (dec_digits n @ replicate k 48, int ?l - 1)"
    unfolding significant_def Let_def k(2) m dec_digits_times [OF assms(1)] if_not_P [OF lt]
    by (simp add: dec_exponent_int [OF assms(1)])
  moreover have "strip_zeros (replicate k 48) = []" by (simp add: strip_zeros_def)
  moreover have "nat (int ?l - 1) + 1 = ?l" using l(1) by linarith
  ultimately show ?thesis using l unfolding general_def by (simp add: with_point_def del: One_nat_def)
qed

lemma read_int:
  assumes "r (rat_of_nat n) = rat_of_nat n" "rat_of_nat n < 2 ^ 1024" "0 < n"
  shows "strtod r ((if neg then [45] else []) @ dec_digits n)
    = (Fin (if neg then - rat_of_nat n else rat_of_nat n), (if neg then 1 else 0) + length (dec_digits n))"
proof -
  have "number_shape neg (dec_digits n) [] 0 ((if neg then [45] else []) @ dec_digits n)"
    using dec_digits_read [of n] by (simp add: number_shape_def with_point_def)
  from shape_read [OF this, of r] show ?thesis
    using dec_digits_read [of n] assms by (simp add: to_double_def power10_def)
qed

text \<open>An integer of at most 15 digits that the rounding keeps.\<close>

lemma int_read_back:
  assumes "\<bar>i\<bar> < 10 ^ 15" "r (rat_of_int \<bar>i\<bar>) = rat_of_int \<bar>i\<bar>" "r 0 = 0"
  shows "print_g 15 (Fin (rat_of_int i)) = signed_digits i \<and> strtod r (signed_digits i) = (Fin (rat_of_int i), length (signed_digits i))"
proof (cases "i = 0")
  case True
  have "dec_digits 0 = [48]" by (simp add: dec_digits_rec)
  moreover have "number_shape False [48] [] 0 [48]" by (simp add: number_shape_def is_digit_def with_point_def)
  ultimately show ?thesis using True shape_read [of False "[48]" "[]" 0 "[48]" r] assms(3)
    by (simp add: print_g_def bytes_of_def signed_digits_def to_double_def power10_def decimal_def)
next
  case False
  let ?n = "nat \<bar>i\<bar>"
  have n: "0 < ?n" "?n < 10 ^ 15" "rat_of_int \<bar>i\<bar> = rat_of_nat ?n" using False assms(1) by auto
  have "rat_of_nat ?n < 10 ^ 15" using n(2) by (metis of_nat_less_iff of_nat_numeral of_nat_power)
  also have "(10 :: rat) ^ 15 \<le> 2 ^ 1024" by simp
  finally have "rat_of_nat ?n < 2 ^ 1024" .
  from read_int [where neg = "i < 0" and r = r and n = ?n, OF assms(2) [unfolded n(3)] this n(1)] print_int [OF n(1,2)]
  show ?thesis using False n(3) by (auto simp: print_g_def signed_digits_def abs_if split: if_splits)
qed

section \<open>The size of a printed number\<close>

definition double_range :: "rat \<Rightarrow> bool" where
  "double_range q \<longleftrightarrow> q = 0 \<or> 1 / 10 ^ 400 \<le> \<bar>q\<bar> \<and> \<bar>q\<bar> < 10 ^ 400"

lemma power10_add: "power10 (int m - e) * power10 e = 10 ^ m"
proof -
  have p: "power10 e = 10 powi e" for e
    by (cases "e \<ge> 0") (simp_all add: power10_def power_int_def power_one_over inverse_eq_divide)
  have "(10::rat) powi (int m - e) * 10 powi e = 10 powi (int m - e + e)" by (simp only: power_int_add zero_neq_numeral [symmetric] not_False_eq_True simp_thms)
  then show ?thesis by (simp add: p)
qed

lemma dec_exponent_bound:
  assumes "0 < q"
  shows "q < power10 (dec_exponent q + 1)"
proof (cases "q \<ge> 1")
  case True
  define n where "n = nat \<lfloor>q\<rfloor>"
  have n: "0 < n" "q < rat_of_nat (n + 1)" using True by (auto simp: n_def) linarith
  have "n + 1 \<le> 10 ^ length (dec_digits n)" using length_dec_digits_eq [OF n(1)] by simp
  then have "rat_of_nat (n + 1) \<le> 10 ^ length (dec_digits n)" by (metis of_nat_le_iff of_nat_numeral of_nat_power)
  with n(2) True show ?thesis by (simp add: dec_exponent_def power10_def n_def [symmetric])
next
  case False
  define n where "n = nat (\<lceil>1 / q\<rceil> - 1)"
  have "1 / q > 1" using False assms by simp
  then have n: "0 < n" "rat_of_nat n < 1 / q" by (auto simp: n_def) linarith+
  let ?l = "length (dec_digits n)"
  have "10 ^ (?l - 1) \<le> n" using length_dec_digits_eq [OF n(1)] by simp
  then have "(10 :: rat) ^ (?l - 1) \<le> rat_of_nat n" by (metis of_nat_mono of_nat_numeral of_nat_power)
  from this n(2) have "10 ^ (?l - 1) < 1 / q" by (rule le_less_trans)
  then have "q < 1 / 10 ^ (?l - 1)" using assms by (simp add: field_simps)
  moreover have "?l > 0" using dec_digits_read [of n] by auto
  ultimately show ?thesis using False 
    by (cases "?l") (auto simp: dec_exponent_def power10_def n_def [symmetric])
qed

lemma round_even_bound: "q \<ge> 0 \<Longrightarrow> q < rat_of_nat n \<Longrightarrow> round_even q \<le> n"
  by (simp add: round_even_def Let_def) linarith

lemma dec_exponent_range:
  assumes "0 < q" "1 / 10 ^ k \<le> q" "q < 10 ^ k" "0 < k"
  shows "\<bar>dec_exponent q\<bar> \<le> int k"
proof (cases "q \<ge> 1")
  case True
  have "rat_of_nat (nat \<lfloor>q\<rfloor>) \<le> q" using True by simp
  also note assms(3)
  finally have "rat_of_nat (nat \<lfloor>q\<rfloor>) < rat_of_nat (10 ^ k)" by simp
  then have "nat \<lfloor>q\<rfloor> < 10 ^ k" by (simp only: of_nat_less_iff)
  then have "length (dec_digits (nat \<lfloor>q\<rfloor>)) \<le> k" by (rule length_dec_digits) (rule assms(4))
  moreover have "length (dec_digits (nat \<lfloor>q\<rfloor>)) > 0" using dec_digits_read by auto
  ultimately show ?thesis using True by (simp add: dec_exponent_def)
next
  case False
  have "rat_of_nat (nat (\<lceil>1 / q\<rceil> - 1)) < 1 / q" using assms(1) False by simp linarith
  also have "1 / q \<le> rat_of_nat (10 ^ k)" using assms(1,2) by (simp add: field_simps)
  finally have "rat_of_nat (nat (\<lceil>1 / q\<rceil> - 1)) < rat_of_nat (10 ^ k)" .
  then have "nat (\<lceil>1 / q\<rceil> - 1) < 10 ^ k" by (simp only: of_nat_less_iff)
  then have "length (dec_digits (nat (\<lceil>1 / q\<rceil> - 1))) \<le> k" by (rule length_dec_digits) (rule assms(4))
  then show ?thesis using False by (simp add: dec_exponent_def)
qed

lemma significant_bound:
  assumes "0 < q" "double_range q" "0 < p" "significant p q = (ds, x)"
  shows "length ds \<le> p \<and> \<bar>x\<bar> < 1000"
proof -
  let ?x = "dec_exponent q" and ?m = "round_even (q * power10 (int p - 1 - dec_exponent q))"
  have pos: "power10 e > 0" for e by (simp add: power10_def)
  have "q * power10 (int p - (?x + 1)) < power10 (?x + 1) * power10 (int p - (?x + 1))"
    using dec_exponent_bound [OF assms(1)] pos by simp
  also have "\<dots> = rat_of_nat (10 ^ p)" using power10_add [of p "?x + 1"] by (simp add: mult.commute)
  finally have "?m \<le> 10 ^ p" using round_even_bound assms(1) pos by (simp add: algebra_simps less_imp_le)
  then have "?m = 10 ^ p \<or> ?m < 10 ^ p" by linarith
  moreover have "length (dec_digits (10 ^ (p - 1))) \<le> p" using assms(3) by (intro length_dec_digits) simp_all
  moreover have "\<bar>?x\<bar> \<le> int 400"
    using assms(1,2) by (intro dec_exponent_range) (auto simp only: double_range_def abs_of_pos)
  ultimately show ?thesis using assms(3,4) length_dec_digits [of ?m p] by (auto simp: significant_def Let_def split: if_splits)
qed

lemma strip_zeros_length: "length (strip_zeros ds) \<le> length ds"
  using length_dropWhile_le [of "\<lambda>c. c = 48" "rev ds"] by (simp add: strip_zeros_def)

lemma exp_text_length: "\<bar>x\<bar> < 1000 \<Longrightarrow> length (exp_text x) \<le> 5"
  using length_dec_digits [of "nat \<bar>x\<bar>" 3] by (cases "x < 0") (simp_all add: exp_text_def length_pad_left)

lemma general_length:
  assumes "0 < q" "double_range q" "0 < p"
  shows "length (general p q) \<le> p + 6"
proof -
  obtain ds x where sig: "significant p q = (ds, x)" by fastforce
  note b = significant_bound [OF assms sig]
  have wp: "length (with_point fs) \<le> length fs + 1" for fs by (simp add: with_point_def)
  have st: "length (with_point (strip_zeros (drop n ds))) \<le> length ds - n + 1" for n
    using wp [of "strip_zeros (drop n ds)"] strip_zeros_length [of "drop n ds"] by simp
  have sm: "length (with_point (replicate k 48 @ strip_zeros ds)) \<le> k + length ds + 1" for k
    using wp [of "replicate k 48 @ strip_zeros ds"] strip_zeros_length [of ds] by simp
  show ?thesis
    using b st [of "nat x + 1"] st [of 1] sm [of "nat (- x) - 1"] exp_text_length [of x] assms(3)
    unfolding general_def sig Let_def prod.case
    by (auto simp: min_def split: if_splits)
qed

lemma double_range_small:
  assumes "q = 0 \<or> 1 \<le> \<bar>q\<bar>" "\<bar>q\<bar> \<le> 10 ^ 20"
  shows "double_range q"
proof (cases "q = 0")
  case False
  have "(1 :: rat) \<le> 10 ^ 400" by (rule one_le_power) simp
  then have "(1 :: rat) / 10 ^ 400 \<le> 1" by (simp add: divide_le_eq)
  moreover have "(10 :: rat) ^ 20 < 10 ^ 400" by (rule power_strict_increasing) simp_all
  ultimately show ?thesis using False assms unfolding double_range_def by linarith
qed (simp add: double_range_def)

lemma print_length:
  assumes "case d of Fin q \<Rightarrow> double_range q | _ \<Rightarrow> True" "0 < p"
  shows "length (print_g p d) \<le> p + 7"
proof (cases d)
  case (Fin q)
  then have "double_range \<bar>q\<bar>" using assms(1) by (simp add: double_range_def)
  then show ?thesis using general_length [of "\<bar>q\<bar>" p] assms(2) Fin by (auto simp: print_g_def abs_if split: if_splits)
qed (use assms(2) in \<open>simp_all add: print_g_def\<close>)

section \<open>Comparing and converting\<close>

definition fp_rat :: "fp \<Rightarrow> rat" where
  "fp_rat d = (case d of Fin q \<Rightarrow> q | _ \<Rightarrow> 0)"

text \<open>\<open>a <= b\<close>, which does not hold for NaN.\<close>

definition fp_le :: "fp \<Rightarrow> fp \<Rightarrow> bool" where
  "fp_le a b \<longleftrightarrow> a \<noteq> NaN \<and> b \<noteq> NaN
     \<and> (a = MinusInf \<or> b = Inf \<or> a \<noteq> Inf \<and> b \<noteq> MinusInf \<and> fp_rat a \<le> fp_rat b)"

lemma fp_le_refl: "a \<noteq> NaN \<Longrightarrow> fp_le a a"
  by (cases a) (auto simp: fp_le_def)

lemma fp_le_trans: "fp_le a b \<Longrightarrow> fp_le b c \<Longrightarrow> fp_le a c"
  by (cases a; cases b; cases c) (auto simp: fp_le_def fp_rat_def)

lemma fp_le_total: "a \<noteq> NaN \<Longrightarrow> b \<noteq> NaN \<Longrightarrow> fp_le a b \<or> fp_le b a"
  by (cases a; cases b) (auto simp: fp_le_def fp_rat_def)

text \<open>\<open>(float) d\<close>.\<close>

definition float_of :: "(rat \<Rightarrow> rat) \<Rightarrow> fp \<Rightarrow> fp" where
  "float_of r d = (case d of
     Fin q \<Rightarrow> (let x = r \<bar>q\<bar> in
       if x = 0 then (if q < 0 then MinusZero else Fin 0)
       else if x \<ge> 2 ^ 128 then (if q < 0 then MinusInf else Inf)
       else Fin (if q < 0 then - x else x))
   | _ \<Rightarrow> d)"

lemma float_of_NaN [simp]: "float_of r d = NaN \<longleftrightarrow> d = NaN"
  by (cases d) (simp_all add: float_of_def Let_def)

text \<open>\<open>%.2f\<close>.\<close>

definition print_f2 :: "fp \<Rightarrow> bytes" where
  "print_f2 d = (case d of
     Fin q \<Rightarrow> (let n = round_even (100 * \<bar>q\<bar>) in
       (if q < 0 then [45] else []) @ dec_digits (n div 100) @ 46 # pad_left 48 2 (dec_digits (n mod 100)))
   | MinusZero \<Rightarrow> bytes_of ''-0.00''
   | Inf \<Rightarrow> bytes_of ''inf'' | MinusInf \<Rightarrow> bytes_of ''-inf'' | NaN \<Rightarrow> bytes_of ''nan'')"

lemma round_even_near:
  assumes "\<bar>q - rat_of_nat n\<bar> < 1 / 2" "0 \<le> q"
  shows "round_even q = n"
proof (cases "rat_of_nat n \<le> q")
  case True
  then have "\<lfloor>q\<rfloor> = int n" using assms(1) by (simp add: floor_eq_iff)
  then show ?thesis using assms(1) True by (simp add: round_even_def Let_def)
next
  case False
  then have n: "0 < n" using assms(2) by (cases n) auto
  then have "\<lfloor>q\<rfloor> = int n - 1" using assms(1) False by (simp add: floor_eq_iff)
  then have k: "nat \<lfloor>q\<rfloor> = n - 1" using n by simp
  have "q - rat_of_nat (n - 1) > 1 / 2" using assms(1) False n by (simp add: of_nat_diff)
  then show ?thesis using n by (simp add: round_even_def Let_def k)
qed

lemma print_f2_near:
  assumes "\<bar>q - rat_of_nat n / 100\<bar> < 1 / 200" "0 \<le> q"
  shows "print_f2 (Fin q) = dec_digits (n div 100) @ 46 # pad_left 48 2 (dec_digits (n mod 100))"
proof -
  have "\<bar>100 * q - rat_of_nat n\<bar> < 1 / 2" using assms(1) by (simp add: abs_less_iff field_simps)
  then show ?thesis using assms(2) round_even_near [of "100 * q" n] by (simp add: print_f2_def)
qed

lemma decimal_append: "decimal (ds @ es) = decimal ds * 10 ^ length es + decimal es"
proof (induction es rule: rev_induct)
  case (snoc e es)
  then show ?case unfolding append.assoc [symmetric] decimal_snoc by (simp add: algebra_simps)
qed (simp add: decimal_def)

text \<open>Two decimals below 10 are four characters, and read as the same number.\<close>

lemma print_f2_read:
  assumes "n < 1000"
  defines "s \<equiv> dec_digits (n div 100) @ 46 # pad_left 48 2 (dec_digits (n mod 100))"
  shows "strtod r s = (to_double r False (rat_of_nat n / 100), 4)" "length s = 4"
proof -
  let ?d = "dec_digits (n div 100)" and ?f = "pad_left 48 2 (dec_digits (n mod 100))"
  have l: "length ?d = 1" "length ?f = 2" using assms(1) length_dec_digits [of "n mod 100" 2]
    by (auto simp: length_pad_left dec_digits_rec [of "n div 100"])
  then show s: "length s = 4" by (simp add: s_def)
  have dig: "list_all is_digit ?d" "list_all is_digit ?f" "?d \<noteq> []"
    using dec_digits_read [of "n div 100"] dec_digits_read [of "n mod 100"] by (auto simp: pad_left_def is_digit_def list_all_iff)
  have "number_shape False ?d ?f 0 s" using dig l by (auto simp: number_shape_def s_def with_point_def)
  moreover have "decimal (?d @ ?f) = n"
    using dec_digits_read [of "n div 100"] dec_digits_read [of "n mod 100"] l(2)
    by (simp add: decimal_append) (simp add: pad_left_def decimal_zeros)
  ultimately show "strtod r s = (to_double r False (rat_of_nat n / 100), 4)"
    using s l(2) by (simp add: shape_read power10_def)
qed

end
