(* ===== verification/Scan.thy ===== *)
theory Scan
  imports Complex_Main Numerals
begin

text \<open>
  Reading text streams: \<open>fgets\<close> and \<open>sscanf\<close> as the readers of \<open>/proc\<close> and of command output in
  \<open>src/main\<close> use them.

  A format is a list of directives.  \<open>sscanf\<close> gives the fields it converted before the input ended or did
  not match; \<open>store\<close> hands them to the pointer arguments in order, so that an argument without a field
  keeps its value.  A number that does not fit the argument is undefined.  A floating-point field is the
  exact number written; the syntax is that of decimal fractions, a number with an exponent, a hexadecimal
  one and the words for infinity and NaN have no meaning in the model.

  Shown: a line is read as a line, and a printed number is read back.
\<close>

section \<open>Lines\<close>

text \<open>\<open>fgets\<close> into a buffer of \<open>n + 1\<close> bytes: the line with its newline, at most \<open>n\<close> bytes, and the rest
  of the stream.  It returns null when the stream is empty.\<close>

fun fgets :: "nat \<Rightarrow> bytes \<Rightarrow> bytes \<times> bytes" where
  "fgets 0 s = ([], s)"
| "fgets (Suc n) [] = ([], [])"
| "fgets (Suc n) (c # s) = (if c = 10 then ([c], s) else (case fgets n s of (l, r) \<Rightarrow> (c # l, r)))"

lemma fgets_split: "fgets n s = (l, r) \<Longrightarrow> s = l @ r \<and> length l \<le> n \<and> (0 < n \<and> s \<noteq> [] \<longrightarrow> l \<noteq> [])"
  by (induction n s arbitrary: l r rule: fgets.induct) (auto split: if_splits prod.splits)

lemma fgets_numeral:
  "fgets (numeral k) (c # s) = (if c = 10 then ([c], s) else (case fgets (pred_numeral k) s of (l, r) \<Rightarrow> (c # l, r)))"
  "fgets (numeral k) [] = ([], [])"
  by (simp_all add: numeral_eq_Suc)

lemma fgets_line: "10 \<notin> set l \<Longrightarrow> length l < n \<Longrightarrow> fgets n (l @ 10 # s) = (l @ [10], s)"
proof (induction l arbitrary: n)
  case Nil
  then show ?case by (cases n) auto
next
  case (Cons c l)
  then show ?case by (cases n) auto
qed

lemma fgets_rest: "s \<noteq> [] \<Longrightarrow> n \<noteq> 0 \<Longrightarrow> length (snd (fgets n s)) < length s"
  using fgets_split [of n s] by (cases "fgets n s") auto

text \<open>The loop \<open>while ( fgets(buff, n + 1, fd) != NULL )\<close> with a body on a state.\<close>

function each_line :: "nat \<Rightarrow> ('s \<Rightarrow> bytes \<Rightarrow> 's option) \<Rightarrow> bytes \<Rightarrow> 's \<Rightarrow> 's option" where
  "each_line n body s st =
     (if s = [] \<or> n = 0 then Some st
      else do {
        st \<leftarrow> body st (cstr (fst (fgets n s)));
        each_line n body (snd (fgets n s)) st })"
  by pat_completeness auto
termination
  by (relation "measure (\<lambda>(n, body, s, st). length s)") (auto simp: fgets_rest)

declare each_line.simps [simp del]

lemma each_line_end [simp]: "each_line n body [] st = Some st"
  by (simp add: each_line.simps)

lemma each_line_step:
  "10 \<notin> set l \<Longrightarrow> no_nul l \<Longrightarrow> length l < n \<Longrightarrow>
   each_line n body (l @ 10 # s) st = do { st \<leftarrow> body st (l @ [10]); each_line n body s st }"
  by (subst each_line.simps) (auto simp: fgets_line)

text \<open>A text of whole lines that fit the buffer is a fold over the lines.\<close>

fun over_lines :: "('s \<Rightarrow> bytes \<Rightarrow> 's option) \<Rightarrow> bytes list \<Rightarrow> 's \<Rightarrow> 's option" where
  "over_lines body [] st = Some st"
| "over_lines body (l # ls) st = do { st \<leftarrow> body st (l @ [10]); over_lines body ls st }"

definition lines_text :: "bytes list \<Rightarrow> bytes" where
  "lines_text ls = concat (map (\<lambda>l. l @ [10]) ls)"

definition plain_line :: "nat \<Rightarrow> bytes \<Rightarrow> bool" where
  "plain_line n l \<longleftrightarrow> 10 \<notin> set l \<and> no_nul l \<and> length l < n"

lemma each_line_lines:
  "list_all (plain_line n) ls \<Longrightarrow> each_line n body (lines_text ls) st = over_lines body ls st"
proof (induction ls arbitrary: st)
  case (Cons l ls)
  then have "each_line n body (l @ 10 # lines_text ls) st = over_lines body (l # ls) st"
    by (cases "body st (l @ [10])") (auto simp: plain_line_def each_line_step)
  then show ?case by (simp add: lines_text_def)
qed (simp add: lines_text_def)

text \<open>The loops that read up to a line of a kind: the line, which is null at the end of the stream, and the rest;
  and a loop with a body on the lines before it.\<close>

function lines_until :: "nat \<Rightarrow> (bytes \<Rightarrow> bool) \<Rightarrow> bytes \<Rightarrow> bytes option \<times> bytes" where
  "lines_until n stop s =
     (if s = [] \<or> n = 0 then (None, s)
      else if stop (cstr (fst (fgets n s))) then (Some (cstr (fst (fgets n s))), snd (fgets n s))
      else lines_until n stop (snd (fgets n s)))"
  by pat_completeness auto

termination lines_until
  by (relation "measure (\<lambda>(n, stop, s). length s)") (auto simp: fgets_rest)

declare lines_until.simps [simp del]

lemma lines_until_rest: "length (snd (lines_until n stop s)) \<le> length s"
proof (induction n stop s rule: lines_until.induct)
  case (1 n stop s)
  show ?case
    using "1.IH" fgets_rest [of s n] by (subst lines_until.simps) (auto intro: order_trans [OF _ less_imp_le])
qed

function lines_do :: "nat \<Rightarrow> (bytes \<Rightarrow> bool) \<Rightarrow> ('s \<Rightarrow> bytes \<Rightarrow> 's option) \<Rightarrow> bytes \<Rightarrow> 's \<Rightarrow> ('s \<times> bytes) option" where
  "lines_do n stop body s st =
     (if s = [] \<or> n = 0 then Some (st, s)
      else if stop (cstr (fst (fgets n s))) then Some (st, snd (fgets n s))
      else do {
        st \<leftarrow> body st (cstr (fst (fgets n s)));
        lines_do n stop body (snd (fgets n s)) st })"
  by pat_completeness auto
termination
  by (relation "measure (\<lambda>(n, stop, body, s, st). length s)") (auto simp: fgets_rest)

declare lines_do.simps [simp del]

lemma lines_do_inv:
  "lines_do n stop body s st = Some (st', r) \<Longrightarrow> (\<And>st l st'. I st \<Longrightarrow> no_nul l \<Longrightarrow> body st l = Some st' \<Longrightarrow> I st') \<Longrightarrow> I st
   \<Longrightarrow> I st' \<and> length r \<le> length s"
proof (induction n stop body s st arbitrary: st' r rule: lines_do.induct)
  case (1 n stop body s st)
  show ?case
  proof (cases "s = [] \<or> n = 0 \<or> stop (cstr (fst (fgets n s)))")
    case True
    then show ?thesis
      using "1.prems" fgets_rest [of s n] by (subst (asm) lines_do.simps) (auto split: if_splits)
  next
    case False
    then obtain st1 where "body st (cstr (fst (fgets n s))) = Some st1"
      "lines_do n stop body (snd (fgets n s)) st1 = Some (st', r)"
      using "1.prems"(1) by (subst (asm) lines_do.simps) (auto split: bind_splits)
    moreover from this(1) have "I st1" using "1.prems"(2) [OF "1.prems"(3)] no_nul_cstr by blast
    ultimately have "I st' \<and> length r \<le> length (snd (fgets n s))"
      using "1.IH" [of st1 st' r] "1.prems"(2) False by blast
    then show ?thesis using fgets_rest [of s n] False by auto
  qed
qed

lemma lines_until_string: "lines_until n stop s = (Some l, r) \<Longrightarrow> no_nul l"
proof (induction n stop s rule: lines_until.induct)
  case (1 n stop s)
  then show ?case by (subst (asm) (2) lines_until.simps) (auto split: if_splits)
qed

text \<open>\<open>strncmp(buffer, s, strlen(s)) == 0\<close> and \<open>strstr(buffer, s) != NULL\<close>.\<close>

definition same_start :: "bytes \<Rightarrow> string \<Rightarrow> bool" where
  "same_start buffer s \<longleftrightarrow> take (length s) buffer = bytes_of s"

fun strstr :: "bytes \<Rightarrow> string \<Rightarrow> bool" where
  "strstr [] s \<longleftrightarrow> s = []"
| "strstr (c # buffer) s \<longleftrightarrow> same_start (c # buffer) s \<or> strstr buffer s"

section \<open>Formats\<close>

text \<open>White space, a literal character, \<open>%15s\<close>, \<open>%*s\<close>, \<open>%47[^:]\<close>, \<open>%*[ ]\<close>, \<open>%*[^,]\<close>, \<open>%u\<close>, \<open>%ld\<close> and \<open>%f\<close>.\<close>

datatype directive = White | Lit u8 | Str nat | SkipStr | Until nat u8 | SkipRun u8 | SkipOther "u8 list" | Uint | Long | Flt

datatype field = FStr bytes | FNum nat | FFlt rat

text \<open>A sign and digits, or no match.\<close>

definition scan_int :: "bytes \<Rightarrow> (int \<times> bytes) option" where
  "scan_int s =
     (let (neg, t) = (case s of c # t \<Rightarrow> if c = 45 then (True, t) else if c = 43 then (False, t) else (False, s)
                                | [] \<Rightarrow> (False, s));
          ds = takeWhile is_digit t
      in if ds = [] then None
         else Some (if neg then - int (decimal ds) else int (decimal ds), dropWhile is_digit t))"

text \<open>A decimal fraction: \<open>Inl ()\<close> is the syntax without meaning here, \<open>Inr None\<close> no match.\<close>

definition scan_float :: "bytes \<Rightarrow> unit + (rat \<times> bytes) option" where
  "scan_float s =
     (let (neg, t) = (case s of c # t \<Rightarrow> if c = 45 then (True, t) else if c = 43 then (False, t) else (False, s)
                                | [] \<Rightarrow> (False, s));
          ds = takeWhile is_digit t; t = dropWhile is_digit t;
          (fs, t) = (case t of c # u \<Rightarrow> if c = 46 then (takeWhile is_digit u, dropWhile is_digit u) else ([], t)
                             | [] \<Rightarrow> ([], t));
          v = rat_of_nat (decimal (ds @ fs)) / 10 ^ length fs
      in if t \<noteq> [] \<and> hd t \<in> set (bytes_of ''eExXiInN'') then Inl ()
         else if ds @ fs = [] then Inr None
         else Inr (Some (if neg then - v else v, t)))"

fun sscanf :: "directive list \<Rightarrow> bytes \<Rightarrow> field list option" where
  "sscanf [] s = Some []"
| "sscanf (White # ds) s = sscanf ds (dropWhile is_space s)"
| "sscanf (Lit c # ds) s = (if s \<noteq> [] \<and> hd s = c then sscanf ds (tl s) else Some [])"
| "sscanf (Str n # ds) s =
     (let s = dropWhile is_space s; w = take n (takeWhile (\<lambda>c. \<not> is_space c) s)
      in if w = [] then Some [] else map_option (Cons (FStr w)) (sscanf ds (drop (length w) s)))"
| "sscanf (SkipStr # ds) s =
     (let s = dropWhile is_space s
      in if s = [] then Some [] else sscanf ds (dropWhile (\<lambda>c. \<not> is_space c) s))"
| "sscanf (Until n c # ds) s =
     (let w = take n (takeWhile (\<lambda>d. d \<noteq> c) s)
      in if w = [] then Some [] else map_option (Cons (FStr w)) (sscanf ds (drop (length w) s)))"
| "sscanf (SkipRun c # ds) s =
     (if s \<noteq> [] \<and> hd s = c then sscanf ds (dropWhile (\<lambda>d. d = c) s) else Some [])"
| "sscanf (SkipOther cs # ds) s =
     (if s \<noteq> [] \<and> hd s \<notin> set cs then sscanf ds (dropWhile (\<lambda>c. c \<notin> set cs) s) else Some [])"
| "sscanf (Uint # ds) s =
     (case scan_int (dropWhile is_space s) of
        None \<Rightarrow> Some []
      | Some (v, t) \<Rightarrow>
          if \<bar>v\<bar> < 2 ^ 32 then map_option (Cons (FNum (nat (v mod 2 ^ 32)))) (sscanf ds t) else None)"
| "sscanf (Long # ds) s =
     (case scan_int (dropWhile is_space s) of
        None \<Rightarrow> Some []
      | Some (v, t) \<Rightarrow>
          if - (2 ^ 63) \<le> v \<and> v < 2 ^ 63 then map_option (Cons (FNum (nat (v mod 2 ^ 64)))) (sscanf ds t) else None)"
| "sscanf (Flt # ds) s =
     (case scan_float (dropWhile is_space s) of
        Inl _ \<Rightarrow> None
      | Inr None \<Rightarrow> Some []
      | Inr (Some (v, t)) \<Rightarrow> map_option (Cons (FFlt v)) (sscanf ds t))"

text \<open>The fields go to the arguments in order.\<close>

fun store :: "('s \<Rightarrow> field \<Rightarrow> 's) list \<Rightarrow> field list \<Rightarrow> 's \<Rightarrow> 's" where
  "store (arg # args) (f # fs) s = store args fs (arg s f)"
| "store args fs s = s"

fun f_txt :: "field \<Rightarrow> bytes" where "f_txt (FStr w) = w" | "f_txt _ = []"
fun f_num :: "field \<Rightarrow> nat" where "f_num (FNum n) = n" | "f_num _ = 0"
fun f_flt :: "field \<Rightarrow> rat" where "f_flt (FFlt v) = v" | "f_flt _ = 0"

section \<open>Printed fields are read back\<close>

lemma takeWhile_digits_stop:
  "list_all is_digit ds \<Longrightarrow> t = [] \<or> \<not> is_digit (hd t) \<Longrightarrow>
   takeWhile is_digit (ds @ t) = ds \<and> dropWhile is_digit (ds @ t) = t"
  by (induction ds) (cases t; auto)+

lemma scan_int_digits:
  assumes "t = [] \<or> \<not> is_digit (hd t)"
  shows "scan_int (dec_digits n @ t) = Some (int n, t)"
proof -
  have d: "list_all is_digit (dec_digits n)" "decimal (dec_digits n) = n" "dec_digits n \<noteq> []"
    using dec_digits_read [of n] by auto
  then obtain c u where "dec_digits n = c # u" "is_digit c" by (cases "dec_digits n") auto
  then show ?thesis
    using d takeWhile_digits_stop [OF d(1) assms] digit_plain [of c] by (auto simp: scan_int_def)
qed

lemma drop_spaces: "dropWhile is_space (replicate k 32 @ s) = dropWhile is_space s"
  by (induction k) (auto simp: is_space_def)

lemma dec_digits_hd: "\<not> is_space (hd (dec_digits n @ t))" "dropWhile is_space (dec_digits n @ t) = dec_digits n @ t"
proof -
  have "list_all is_digit (dec_digits n)" "dec_digits n \<noteq> []" using dec_digits_read [of n] by auto
  then obtain c u where "dec_digits n = c # u" "is_digit c" by (cases "dec_digits n") auto
  then show "\<not> is_space (hd (dec_digits n @ t))" "dropWhile is_space (dec_digits n @ t) = dec_digits n @ t"
    using digit_plain [of c] by auto
qed

lemma sscanf_long:
  assumes "n < 2 ^ 63" "t = [] \<or> \<not> is_digit (hd t)"
  shows "sscanf (Long # ds) (replicate k 32 @ dec_digits n @ t) = map_option (Cons (FNum n)) (sscanf ds t)"
  using assms by (simp add: drop_spaces dec_digits_hd scan_int_digits)

lemma sscanf_uint:
  assumes "n < 2 ^ 32" "t = [] \<or> \<not> is_digit (hd t)"
  shows "sscanf (Uint # ds) (replicate k 32 @ dec_digits n @ t) = map_option (Cons (FNum n)) (sscanf ds t)"
  using assms by (simp add: drop_spaces dec_digits_hd scan_int_digits)

lemma sscanf_until:
  assumes "w \<noteq> []" "c \<notin> set w" "length w \<le> n"
  shows "sscanf (Until n c # ds) (w @ c # t) = map_option (Cons (FStr w)) (sscanf ds (c # t))"
proof -
  have "takeWhile (\<lambda>d. d \<noteq> c) (w @ c # t) = w"
    using assms(2) by (induction w) auto
  then show ?thesis using assms by (simp add: Let_def)
qed

section \<open>Fields\<close>


text \<open>What every field keeps is kept, and a text field is no longer than its width.\<close>

lemma store_inv: "(\<And>f s x. f \<in> set args \<Longrightarrow> I s \<Longrightarrow> I (f s x)) \<Longrightarrow> I s \<Longrightarrow> I (store args fs s)"
  by (induction args fs s rule: store.induct) auto

fun widths :: "directive list \<Rightarrow> nat list" where
  "widths [] = []"
| "widths (Str n # ds) = n # widths ds"
| "widths (Until n c # ds) = n # widths ds"
| "widths (Uint # ds) = 0 # widths ds"
| "widths (Long # ds) = 0 # widths ds"
| "widths (Flt # ds) = 0 # widths ds"
| "widths (_ # ds) = widths ds"

lemma sscanf_widths:
  "sscanf ds s = Some fs \<Longrightarrow> length fs \<le> length (widths ds) \<and> (\<forall>i < length fs. length (f_txt (fs ! i)) \<le> widths ds ! i)"
proof (induction ds s arbitrary: fs rule: sscanf.induct)
  case (4 n ds s)
  then show ?case by (fastforce simp: Let_def less_Suc_eq_0_disj split: if_splits)
next
  case (6 n c ds s)
  then show ?case by (fastforce simp: Let_def less_Suc_eq_0_disj split: if_splits)
next
  case (9 ds s)
  then show ?case by (fastforce simp: less_Suc_eq_0_disj split: if_splits option.splits prod.splits)
next
  case (10 ds s)
  then show ?case by (fastforce simp: less_Suc_eq_0_disj split: if_splits option.splits prod.splits)
next
  case (11 ds s)
  then show ?case by (fastforce simp: less_Suc_eq_0_disj split: if_splits option.splits prod.splits sum.splits)
qed (auto simp: Let_def split: if_splits)


lemma scan_int_chars: "scan_int s = Some (v, t) \<Longrightarrow> set t \<subseteq> set s"
proof -
  have d: "set (dropWhile P u) \<subseteq> set u" for P and u :: bytes by (auto dest: set_dropWhileD)
  assume "scan_int s = Some (v, t)"
  then show ?thesis using d by (cases s) (auto simp: scan_int_def Let_def split: if_splits)
qed

lemma scan_float_chars: "scan_float s = Inr (Some (v, t)) \<Longrightarrow> set t \<subseteq> set s"
proof -
  have e: "x \<in> set w" if "dropWhile P w = c # u" "x \<in> set (dropWhile Q u)" for P Q and w u :: bytes and x c
    using that by (metis list.set_intros(2) set_dropWhileD)
  assume "scan_float s = Inr (Some (v, t))"
  then show ?thesis
    unfolding scan_float_def Let_def
    by (auto split: if_splits prod.splits list.splits dest: set_dropWhileD e)
qed

lemma sscanf_chars: "sscanf ds s = Some fs \<Longrightarrow> f \<in> set fs \<Longrightarrow> set (f_txt f) \<subseteq> set s"
proof (induction ds s arbitrary: fs rule: sscanf.induct)
  case (2 ds s)
  then show ?case by (auto dest: set_dropWhileD)
next
  case (3 c ds s)
  then show ?case by (cases s) (auto split: if_splits)
next
  case (4 n ds s)
  then show ?case by (fastforce simp: Let_def split: if_splits dest: set_dropWhileD in_set_takeD in_set_dropD set_takeWhileD)
next
  case (5 ds s)
  then show ?case by (fastforce simp: Let_def split: if_splits dest: set_dropWhileD)
next
  case (6 n c ds s)
  then show ?case by (fastforce simp: Let_def split: if_splits dest: in_set_takeD in_set_dropD set_takeWhileD)
next
  case (7 c ds s)
  then show ?case by (fastforce split: if_splits dest: set_dropWhileD)
next
  case (8 cs ds s)
  then show ?case by (fastforce split: if_splits dest: set_dropWhileD)
next
  case (9 ds s)
  have "set t \<subseteq> set s" if "scan_int (dropWhile is_space s) = Some (v, t)" for v t
    using scan_int_chars [OF that] by (auto dest: set_dropWhileD)
  then show ?case using 9 by (fastforce split: if_splits option.splits)
next
  case (10 ds s)
  have "set t \<subseteq> set s" if "scan_int (dropWhile is_space s) = Some (v, t)" for v t
    using scan_int_chars [OF that] by (auto dest: set_dropWhileD)
  then show ?case using 10 by (fastforce split: if_splits option.splits)
next
  case (11 ds s)
  have "set t \<subseteq> set s" if "scan_float (dropWhile is_space s) = Inr (Some (v, t))" for v t
    using scan_float_chars [OF that] by (auto dest: set_dropWhileD)
  then show ?case using 11 by (fastforce split: sum.splits option.splits)
qed auto

end
