(* ===== verification/Files.thy ===== *)
theory Files
  imports Numerals
begin

text \<open>
  The file helpers of \<open>src/main/utils.c\<close>: whole-file reads and writes under a lock, directory creation,
  and the line reader.

  The file system is a map from paths to contents.  A record holds the outcomes of the system calls of
  one helper call: whether \<open>open\<close>, \<open>flock\<close> and \<open>ftruncate\<close> succeed and what \<open>read\<close> or \<open>write\<close>
  transfers at most, a negative count for its failure.  Directories are the set of the paths that
  exist; whether \<open>mkdir\<close> succeeds is a parameter.

  Shown: what was put is what is got; directories are made from the root down to the path.
\<close>

section \<open>Whole files\<close>

type_synonym path = bytes
type_synonym files = "path \<Rightarrow> bytes option"

record io =
  io_open :: bool
  io_lock :: bool
  io_cut :: bool
  io_count :: int

definition sarah_file_get_buffer :: "io \<Rightarrow> files \<Rightarrow> path \<Rightarrow> bytes \<Rightarrow> nat \<Rightarrow> (int \<times> bytes) option" where
  "sarah_file_get_buffer e fs file buffer nbytes =
     (case (if io_open e then fs file else None) of
        None \<Rightarrow> Some (- 1, buffer)
      | Some content \<Rightarrow>
          if \<not> io_lock e \<or> io_count e < 0 then Some (- 1, buffer)
          else (let n = min (nat (io_count e)) (min nbytes (length content)) in do {
            buffer \<leftarrow> blit buffer 0 content n;
            Some (int n, buffer) }))"

text \<open>Every write starts at the beginning of the file; \<open>append\<close> (\<open>app\<close> here) only keeps the old bytes behind it.\<close>

definition sarah_file_put_buffer :: "io \<Rightarrow> files \<Rightarrow> path \<Rightarrow> bytes \<Rightarrow> nat \<Rightarrow> nat \<Rightarrow> (files \<times> int) option" where
  "sarah_file_put_buffer e fs file buffer nbytes app =
     (if \<not> io_open e then Some (fs, - 1)
      else
        let old = (case fs file of None \<Rightarrow> [] | Some c \<Rightarrow> c) in
        if \<not> io_lock e \<or> app \<noteq> 1 \<and> \<not> io_cut e then Some (fs(file \<mapsto> old), - 1)
        else
          let old = (if app = 1 then old else []) in
          if io_count e < 0 then Some (fs(file \<mapsto> old), - 1)
          else if length buffer < nbytes then None
          else
            let n = min (nat (io_count e)) nbytes in
            Some (fs(file \<mapsto> take n buffer @ drop n old), int n))"

definition io_fine :: "io \<Rightarrow> nat \<Rightarrow> bool" where
  "io_fine e n \<longleftrightarrow> io_open e \<and> io_lock e \<and> io_cut e \<and> int n \<le> io_count e"

lemma put_law:
  assumes "io_fine e n" "n \<le> length buffer"
  shows "sarah_file_put_buffer e fs file buffer n 0 = Some (fs(file \<mapsto> take n buffer), int n)"
proof -
  have "min (nat (io_count e)) n = n" using assms(1) by (auto simp: io_fine_def)
  with assms show ?thesis by (simp add: io_fine_def sarah_file_put_buffer_def Let_def)
qed

lemma get_law:
  assumes "io_fine e n" "fs file = Some content" "length content \<le> n" "length content \<le> length buffer"
  shows "sarah_file_get_buffer e fs file buffer n
       = Some (int (length content), content @ drop (length content) buffer)"
proof -
  have "min (nat (io_count e)) (min n (length content)) = length content"
    using assms(1,3) by (auto simp: io_fine_def)
  with assms show ?thesis by (simp add: io_fine_def sarah_file_get_buffer_def blit_def Let_def del: min_less_iff_conj)
qed

lemma get_none: "fs file = None \<Longrightarrow> sarah_file_get_buffer e fs file buffer n = Some (- 1, buffer)"
  by (simp add: sarah_file_get_buffer_def)

section \<open>Directories\<close>

text \<open>The loop over the path: the prefix before every slash but the first character is created when it
  does not exist.  The code cuts the buffer at the slash for the calls and restores it.\<close>

fun mkdir_loop :: "(path set \<Rightarrow> path \<Rightarrow> bool) \<Rightarrow> path set \<Rightarrow> bytes \<Rightarrow> nat \<Rightarrow> nat \<Rightarrow> path set \<times> nat" where
  "mkdir_loop mk ds dirname i 0 = (ds, 0)"
| "mkdir_loop mk ds dirname i (Suc n) =
     (if dirname ! i \<noteq> 47 then mkdir_loop mk ds dirname (i + 1) n
      else
        let d = take i dirname in
        if d \<in> ds then mkdir_loop mk ds dirname (i + 1) n
        else if mk ds d then mkdir_loop mk (insert d ds) dirname (i + 1) n
        else (ds, 1))"

definition sarah_mkdir :: "(path set \<Rightarrow> path \<Rightarrow> bool) \<Rightarrow> path set \<Rightarrow> path \<Rightarrow> (path set \<times> nat) option" where
  "sarah_mkdir mk ds path =
     (let dirname = take 255 path; len = length dirname in
      if len = 0 then None
      else
        let (ds, r) = mkdir_loop mk ds dirname 1 (len - 1) in
        if r = 1 then Some (ds, 1)
        else if dirname ! (len - 1) \<noteq> 47 \<and> dirname \<notin> ds
          then (if mk ds dirname then Some (insert dirname ds, 0) else Some (ds, 1))
          else Some (ds, 0))"

text \<open>The directories above a path: the parts before its slashes.\<close>

definition ancestors :: "path \<Rightarrow> path set" where
  "ancestors p = {take i p | i. 0 < i \<and> i < length p \<and> p ! i = 47}"

lemma ancestors_take: "ancestors (take j p) \<subseteq> ancestors p"
  by (auto simp: ancestors_def min_def split: if_splits)

lemma mkdir_loop_law:
  assumes mk: "\<And>ds d. ancestors d \<subseteq> ds \<Longrightarrow> mk ds d"
  shows "0 < i \<Longrightarrow> i + n = length p \<Longrightarrow> {take k p | k. 0 < k \<and> k < i \<and> p ! k = 47} \<subseteq> ds \<Longrightarrow>
     \<exists>ds'. mkdir_loop mk ds p i n = (ds', 0) \<and> ds' = ds \<union> ancestors p"
proof (induction n arbitrary: i ds)
  case 0
  then have "ancestors p \<subseteq> ds" by (auto simp: ancestors_def)
  then show ?case by auto
next
  case (Suc n)
  show ?case
  proof (cases "p ! i = 47")
    case False
    have "{take k p |k. 0 < k \<and> k < Suc i \<and> p ! k = 47} \<subseteq> ds"
      using Suc.prems(3) False by (auto simp: less_Suc_eq)
    then show ?thesis using Suc.IH [of "Suc i" ds] Suc.prems False by auto
  next
    case True
    let ?d = "take i p"
    have sub: "{take k p |k. 0 < k \<and> k < Suc i \<and> p ! k = 47} \<subseteq> insert ?d ds"
      using Suc.prems(3) by (auto simp: less_Suc_eq)
    have "ancestors ?d \<subseteq> {take k p | k. 0 < k \<and> k < i \<and> p ! k = 47}"
      using Suc.prems by (auto simp: ancestors_def min_def)
    with Suc.prems(3) have "mk ds ?d" by (intro mk) auto
    moreover have "?d \<in> ancestors p" using Suc.prems True by (auto simp: ancestors_def)
    moreover note Suc.IH [of "Suc i" "insert ?d ds"] Suc.IH [of "Suc i" ds] sub Suc.prems
    ultimately show ?thesis using True by (auto simp: insert_absorb Let_def)
  qed
qed

text \<open>When \<open>mkdir\<close> succeeds for a path whose directories exist, \<open>sarah_mkdir\<close> succeeds and
  makes exactly the directories above the path and, unless it ends with a slash, the path itself.  A
  path of more than 255 characters is cut to 255.\<close>

theorem mkdir_makes_path:
  assumes mk: "\<And>ds d. ancestors d \<subseteq> ds \<Longrightarrow> mk ds d" and "path \<noteq> []" "p = take 255 path"
  shows "sarah_mkdir mk ds path = Some (ds \<union> ancestors p \<union> (if last p = 47 then {} else {p}), 0)"
proof -
  have ne: "p \<noteq> []" "last p = p ! (length p - 1)" using assms(2,3) by (auto simp: last_conv_nth)
  then have "mkdir_loop mk ds p 1 (length p - 1) = (ds \<union> ancestors p, 0)"
    using mkdir_loop_law [of mk 1 "length p - 1" p ds] mk by (auto simp: Suc_leI)
  moreover have "mk (ds \<union> ancestors p) p" by (rule mk) auto
  ultimately show ?thesis
    using ne by (auto simp: sarah_mkdir_def Let_def assms(3) [symmetric] simp del: length_take)
qed

lemma mkdir_makes_path_witness:
  "sarah_mkdir (\<lambda>ds d. ancestors d \<subseteq> ds) {} (bytes_of ''/etc/sarah'')
   = Some ({} \<union> ancestors (bytes_of ''/etc/sarah'') \<union> {bytes_of ''/etc/sarah''}, 0)"
  using mkdir_makes_path [of "\<lambda>ds d. ancestors d \<subseteq> ds" "bytes_of ''/etc/sarah''" "bytes_of ''/etc/sarah''" "{}"]
  by (simp add: bytes_of_def)

section \<open>Lines\<close>

text \<open>\<open>sarah_get_line\<close>: the characters up to the newline go to the destination, followed by a NUL.  The
  result is the destination, the rest of the stream, and whether the pointer returned is not null.\<close>

fun get_line_loop :: "bytes \<Rightarrow> nat \<Rightarrow> bytes \<Rightarrow> (bytes \<times> nat \<times> bytes \<times> bool) option" where
  "get_line_loop dst i [] = Some (dst, i, [], True)"
| "get_line_loop dst i (c # s) =
     (if c = 10 then Some (dst, i, s, False)
      else do { dst \<leftarrow> wr dst i c; get_line_loop dst (i + 1) s })"

definition sarah_get_line :: "bytes \<Rightarrow> bytes \<Rightarrow> (bytes \<times> bytes \<times> bool) option" where
  "sarah_get_line dst s = do {
     (dst, i, rest, eof) \<leftarrow> get_line_loop dst 0 s;
     dst \<leftarrow> wr dst i 0;
     Some (dst, rest, \<not> (eof \<and> i = 0)) }"

lemma get_line_loop_law:
  "10 \<notin> set l \<Longrightarrow> i + length l \<le> length dst \<Longrightarrow> s = l @ 10 # r \<or> s = l \<and> r = [] \<Longrightarrow>
   get_line_loop dst i s = Some (take i dst @ l @ drop (i + length l) dst, i + length l, r, s = l)"
proof (induction l arbitrary: dst i s)
  case Nil
  then show ?case by (auto simp: append_take_drop_id)
next
  case (Cons c l)
  then have "i < length dst" by auto
  moreover have "get_line_loop (dst[i := c]) (Suc i) (tl s)
      = Some (take (Suc i) (dst[i := c]) @ l @ drop (Suc i + length l) (dst[i := c]), Suc i + length l, r, tl s = l)"
    using Cons.prems by (intro Cons.IH) auto
  ultimately show ?case
    using Cons.prems by (auto simp: wr_Some take_update_end)
qed

lemma get_line_law:
  assumes "10 \<notin> set l" "no_nul l" "length l < length dst" "s = l @ 10 # r \<or> s = l \<and> r = []"
  shows "\<exists>dst'. sarah_get_line dst s = Some (dst', r, s \<noteq> []) \<and> cstr dst' = l \<and> length dst' = length dst"
proof -
  let ?d = "(l @ drop (length l) dst)[length l := 0]"
  have "?d = l @ 0 # drop (Suc (length l)) dst"
    using assms(3) by (simp add: list_update_append upd_conv_take_nth_drop)
  with assms get_line_loop_law [of l 0 dst s r] show ?thesis
    by (auto simp: sarah_get_line_def wr_Some)
qed

end
