(* ===== verification/Json.thy ===== *)
theory Json
  imports CelText
begin

text \<open>
  The replies of the remote console: the JSON nodes of \<open>src/include/cJSON.h\<close> with the look-up by name of
  \<open>src/main/cJSON.c\<close>, and the check of a reply that the executor, the task pull and the updater repeat.

  Parsing and printing are not modelled: a parsed reply is an input of the model.  The type of the
  number in \<open>valuedouble\<close> is a parameter, since the client only compares such numbers.
\<close>

datatype json_type = cJSON_Invalid | cJSON_False | cJSON_True | cJSON_NULL | cJSON_Number | cJSON_String
  | cJSON_Array | cJSON_Object | cJSON_Raw

text \<open>A node: its name (null outside of objects), type, \<open>valuestring\<close> (null unless it is a string),
  \<open>valueint\<close>, \<open>valuedouble\<close> and children.\<close>

datatype 'n json = Json (js_name: "bytes option") (js_type: json_type) (js_string: "bytes option")
  (js_int: int) (js_num: 'n) (js_child: "'n json list")

text \<open>\<open>get_object_item\<close> without regard to case: the first child whose name agrees.\<close>

fun find_item :: "'n json list \<Rightarrow> bytes \<Rightarrow> 'n json option" where
  "find_item [] name = None"
| "find_item (c # cs) name =
     (case js_name c of
        None \<Rightarrow> find_item cs name
      | Some n \<Rightarrow> if map to_lower name = map to_lower n then Some c else find_item cs name)"

definition cJSON_GetObjectItem :: "'n json option \<Rightarrow> bytes \<Rightarrow> 'n json option" where
  "cJSON_GetObjectItem object name =
     (case object of None \<Rightarrow> None | Some j \<Rightarrow> find_item (js_child j) name)"

definition cJSON_HasObjectItem :: "'n json option \<Rightarrow> bytes \<Rightarrow> bool" where
  "cJSON_HasObjectItem object name \<longleftrightarrow> cJSON_GetObjectItem object name \<noteq> None"

text \<open>The check that follows every request: \<open>Inl\<close> is the code returned through \<open>failed\<close>.  It is undefined
  when the reply has no \<open>errno\<close>, for then the null cursor is read.\<close>

definition reply_check :: "'n json \<Rightarrow> (int + unit) option" where
  "reply_check j =
     (case cJSON_GetObjectItem (Some j) (bytes_of ''errno'') of
        None \<Rightarrow> None
      | Some cursor \<Rightarrow>
          if \<not> cJSON_HasObjectItem (Some j) (bytes_of ''data'') \<or> js_int cursor \<noteq> 0
          then do { code \<leftarrow> int32 (10 + js_int cursor); Some (Inl code) }
          else Some (Inr ()))"

lemma find_item_law:
  "find_item cs name = Some c \<Longrightarrow> c \<in> set cs \<and> (\<exists>n. js_name c = Some n \<and> map to_lower n = map to_lower name)"
  by (induction cs) (auto split: option.splits if_splits)

lemma find_item_None:
  "find_item cs name = None \<longleftrightarrow> (\<forall>c \<in> set cs. \<forall>n. js_name c = Some n \<longrightarrow> map to_lower n \<noteq> map to_lower name)"
  by (induction cs) (auto split: option.splits)

text \<open>A reply is accepted exactly when it has an \<open>errno\<close> of 0 and a \<open>data\<close> entry; a reply without
  \<open>errno\<close> dereferences null; any other reply gives its \<open>errno\<close> plus 10, which is 0, the code of success,
  for an \<open>errno\<close> of \<open>- 10\<close>.\<close>

theorem reply_codes:
  assumes "\<And>c. c \<in> set (js_child j) \<Longrightarrow> - (2 ^ 31) \<le> js_int c \<and> js_int c < 2 ^ 31 - 10"
  shows "case cJSON_GetObjectItem (Some j) (bytes_of ''errno'') of
      None \<Rightarrow> reply_check j = None
    | Some e \<Rightarrow> (reply_check j = Some (Inr ()) \<longleftrightarrow> js_int e = 0 \<and> cJSON_HasObjectItem (Some j) (bytes_of ''data''))
        \<and> (reply_check j = Some (Inl 0) \<longleftrightarrow> js_int e = - 10)
        \<and> (reply_check j \<noteq> Some (Inr ()) \<longrightarrow> reply_check j = Some (Inl (10 + js_int e)))"
proof (cases "cJSON_GetObjectItem (Some j) (bytes_of ''errno'')")
  case None
  then show ?thesis by (simp add: reply_check_def)
next
  case (Some e)
  then have "e \<in> set (js_child j)" using find_item_law by (fastforce simp: cJSON_GetObjectItem_def)
  then have "int32 (10 + js_int e) = Some (10 + js_int e)" using assms [of e] by (simp add: int32_def)
  with Some show ?thesis by (auto simp: reply_check_def)
qed

lemma reply_codes_witness:
  "reply_check (Json None cJSON_Object None 0 (0 :: nat)
     [Json (Some (bytes_of ''ErrNo'')) cJSON_Number None (- 10) 0 []]) = Some (Inl 0)"
proof -
  let ?e = "Json (Some (bytes_of ''ErrNo'')) cJSON_Number None (- 10) 0 [] :: nat json"
  let ?j = "Json None cJSON_Object None 0 0 [?e]"
  have "cJSON_GetObjectItem (Some ?j) (bytes_of ''errno'') = Some ?e"
    by (simp add: cJSON_GetObjectItem_def bytes_of_def to_lower_def)
  moreover have "- (2 ^ 31) \<le> js_int c \<and> js_int c < 2 ^ 31 - 10" if "c \<in> set (js_child ?j)" for c
    using that by simp
  ultimately show ?thesis using reply_codes [of ?j] by (simp only: option.case) simp
qed

end
