(* ===== verification/Node.thy ===== *)
theory Node
  imports FourBytes Files CelStrbuff Json
begin

text \<open>
  The node of \<open>src/main/node.c\<close>: the record of 52 bytes in \<open>node.db\<close>, the node id, the configuration file,
  and the start of a node from its directory.

  The files are the map of \<open>Files\<close>, every call has a record of its outcomes.  The clock, the random numbers
  and the hardware addresses of the network devices are inputs; \<open>strdup\<close> is taken to succeed and \<open>uname\<close> is
  left out.  The string buffer of \<open>sarah_node_init\<close> is an uninitialised local variable whose pointer the
  clean-up reads: leaving before it is initialised is undefined.

  Shown: what is packed is read back; the id has exactly the 40 characters the record has room for;
  the setters keep the file the image of the node; a node keeps its identity over a reboot; the
  configuration text is that of the lines without a comment sign.
\<close>

section \<open>The node id\<close>

definition hex_field :: "u8 \<Rightarrow> nat \<Rightarrow> nat \<Rightarrow> bytes" where
  "hex_field c w n = pad_left c w (hex_digits n)"

text \<open>The seconds and microseconds of the clock, and the results of the calls of \<open>rand\<close>.\<close>

definition gen_ts_random_node_id :: "nat \<Rightarrow> nat \<Rightarrow> nat \<Rightarrow> nat \<Rightarrow> nat \<Rightarrow> nat \<Rightarrow> bytes \<Rightarrow> bytes option" where
  "gen_ts_random_node_id sec usec r1 r2 r3 r4 buff =
     (let id_text = hex_field 32 8 (wrap32 sec) @ [45] @ hex_field 48 8 (wrap32 (usec * 1000000)) @ [45]
            @ hex_field 48 4 (r1 mod 65535) @ [45] @ hex_field 48 4 (r2 mod 255 * 256) @ [45]
            @ hex_field 48 4 (r3 mod 65535) @ hex_field 48 8 (r4 mod 4294967295)
      in blit buff 0 (id_text @ [0]) (length id_text + 1))"

definition gen_ts_rmmac_node_id :: "nat \<Rightarrow> nat \<Rightarrow> nat \<Rightarrow> nat \<Rightarrow> bytes \<Rightarrow> bytes \<Rightarrow> bytes option" where
  "gen_ts_rmmac_node_id sec usec r1 r2 mac buff = do {
     m0 \<leftarrow> rd mac 0; m1 \<leftarrow> rd mac 1; m2 \<leftarrow> rd mac 2; m3 \<leftarrow> rd mac 3; m4 \<leftarrow> rd mac 4; m5 \<leftarrow> rd mac 5;
     let id_text = hex_field 32 8 (wrap32 sec) @ [45] @ hex_field 48 8 (wrap32 (usec * 1000000)) @ [45]
            @ hex_field 48 4 (r1 mod 65535) @ [45] @ hex_field 48 4 (r2 mod 255 * 256 + 1) @ [45]
            @ hex2 m0 @ hex2 m1 @ hex2 m2 @ hex2 m3 @ hex2 m4 @ hex2 m5;
     blit buff 0 (id_text @ [0]) (length id_text + 1) }"

text \<open>The devices with the address \<open>sarah_get_hardware_addr\<close> gets for them: the first one that has an
  address and is not \<open>lo\<close>.\<close>

fun first_hd_addr :: "(bytes \<times> bytes option) list \<Rightarrow> bytes option" where
  "first_hd_addr [] = None"
| "first_hd_addr ((device, hd_addr) # nets) =
     (if device = bytes_of ''lo'' then first_hd_addr nets
      else case hd_addr of Some m \<Rightarrow> Some m | None \<Rightarrow> first_hd_addr nets)"

record clock =
  ck_sec :: nat
  ck_usec :: nat
  ck_rand :: "nat \<Rightarrow> nat"
  ck_nets :: "(bytes \<times> bytes option) list"

definition sarah_gen_node_id :: "clock \<Rightarrow> bytes \<Rightarrow> bytes option" where
  "sarah_gen_node_id ck buff =
     (case first_hd_addr (ck_nets ck) of
        Some mac \<Rightarrow> gen_ts_rmmac_node_id (ck_sec ck) (ck_usec ck) (ck_rand ck 0) (ck_rand ck 1) mac buff
      | None \<Rightarrow> gen_ts_random_node_id (ck_sec ck) (ck_usec ck) (ck_rand ck 0) (ck_rand ck 1) (ck_rand ck 2) (ck_rand ck 3) buff)"

section \<open>The node and its record\<close>

record node_config =
  cf_build :: "bytes option"
  cf_app_key :: "bytes option"
  cf_disk_auto_partition :: int
  cf_disk_mount_basedir :: "bytes option"
  cf_disk_mount_prefix :: "bytes option"
  cf_disk_mount_algorithm :: "bytes option"

record node =
  nd_base_dir :: "path option"
  nd_db_file :: "path option"
  nd_config_file :: "path option"
  nd_is_new :: bool
  nd_created_at :: u32
  nd_last_boot_at :: u32
  nd_interval :: u32
  nd_config :: node_config
  nd_node_id :: bytes

text \<open>What a \<open>write\<close> at an offset leaves in a file.\<close>

definition write_at :: "bytes \<Rightarrow> nat \<Rightarrow> bytes \<Rightarrow> bytes" where
  "write_at old offset data =
     (if data = [] then old
      else take offset (old @ replicate (offset - length old) 0) @ data @ drop (offset + length data) old)"

text \<open>\<open>flock(fno, LOCK_EX) == 0 && write(fno, buff, size) == size\<close>: the file and the code.\<close>

definition locked_write :: "io \<Rightarrow> files \<Rightarrow> path \<Rightarrow> nat \<Rightarrow> bytes \<Rightarrow> nat \<Rightarrow> (files \<times> nat) option" where
  "locked_write e fs file offset buff n =
     (if \<not> io_lock e \<or> io_count e < 0 then Some (fs, 2)
      else if length buff < n then None
      else
        let k = min (nat (io_count e)) n; old = (case fs file of None \<Rightarrow> [] | Some c \<Rightarrow> c) in
        Some (fs(file \<mapsto> write_at old offset (take k buff)), if k = n then 0 else 2))"

definition sarah_node_flush :: "io \<Rightarrow> files \<Rightarrow> node \<Rightarrow> bytes \<Rightarrow> (files \<times> nat) option" where
  "sarah_node_flush e fs nd buff =
     (case nd_db_file nd of None \<Rightarrow> Some (fs, 0) | Some file \<Rightarrow>
        if \<not> io_open e then Some (fs, 1)
        else do {
          let fs = (if fs file = None then fs(file \<mapsto> []) else fs);
          buff \<leftarrow> write_unsigned_int buff 0 (nd_created_at nd);
          buff \<leftarrow> write_unsigned_int buff 4 (nd_interval nd);
          buff \<leftarrow> write_unsigned_int buff 8 (nd_last_boot_at nd);
          buff \<leftarrow> blit buff 12 (nd_node_id nd) 40;
          locked_write e fs file 0 buff 52 })"

definition write_buffer :: "io \<Rightarrow> files \<Rightarrow> node \<Rightarrow> nat \<Rightarrow> bytes \<Rightarrow> nat \<Rightarrow> (files \<times> nat) option" where
  "write_buffer e fs nd offset buff n =
     (case nd_db_file nd of None \<Rightarrow> Some (fs, 0) | Some file \<Rightarrow>
        if \<not> io_open e \<or> fs file = None then Some (fs, 1)
        else locked_write e fs file offset buff n)"

definition sarah_node_set_created_at :: "io \<Rightarrow> files \<Rightarrow> node \<Rightarrow> u32 \<Rightarrow> nat \<Rightarrow> (files \<times> node \<times> nat) option" where
  "sarah_node_set_created_at e fs nd created_at syn = do {
     let nd = nd\<lparr>nd_created_at := created_at\<rparr>;
     buff \<leftarrow> write_unsigned_int (replicate 4 0) 0 created_at;
     (if syn = 1 then do { (fs, r) \<leftarrow> write_buffer e fs nd 0 buff 4; Some (fs, nd, r) } else Some (fs, nd, 0)) }"

definition sarah_node_set_interval :: "io \<Rightarrow> files \<Rightarrow> node \<Rightarrow> u32 \<Rightarrow> nat \<Rightarrow> (files \<times> node \<times> nat) option" where
  "sarah_node_set_interval e fs nd interval syn = do {
     let nd = nd\<lparr>nd_interval := interval\<rparr>;
     buff \<leftarrow> write_unsigned_int (replicate 4 0) 0 interval;
     (if syn = 1 then do { (fs, r) \<leftarrow> write_buffer e fs nd 4 buff 4; Some (fs, nd, r) } else Some (fs, nd, 0)) }"

definition sarah_node_set_last_boot_at :: "io \<Rightarrow> files \<Rightarrow> node \<Rightarrow> u32 \<Rightarrow> nat \<Rightarrow> (files \<times> node \<times> nat) option" where
  "sarah_node_set_last_boot_at e fs nd last_boot_at syn = do {
     let nd = nd\<lparr>nd_last_boot_at := last_boot_at\<rparr>;
     buff \<leftarrow> write_unsigned_int (replicate 4 0) 0 last_boot_at;
     (if syn = 1 then do { (fs, r) \<leftarrow> write_buffer e fs nd 8 buff 4; Some (fs, nd, r) } else Some (fs, nd, 0)) }"

section \<open>The configuration\<close>

text \<open>The lines of the file, read into a buffer of 1024 bytes, go to the string buffer unless they start
  with a comment sign.  The fuel bounds the number of lines.\<close>

fun config_lines :: "nat \<Rightarrow> (nat \<Rightarrow> bool) \<Rightarrow> bytes \<Rightarrow> bytes \<Rightarrow> strbuff \<Rightarrow> strbuff option" where
  "config_lines 0 al file_buff s sb = None"
| "config_lines (Suc fuel) al file_buff s sb = do {
     (file_buff, rest, more) \<leftarrow> sarah_get_line file_buff s;
     (if \<not> more then Some sb
      else do {
        c \<leftarrow> rd file_buff 0;
        (if c = 35 then config_lines fuel al file_buff rest sb
         else do {
           (sb, _) \<leftarrow> cel_strbuff_append_from al sb (cstr file_buff) (length (cstr file_buff)) 1;
           config_lines fuel al file_buff rest sb }) }) }"

definition config_string :: "'n json \<Rightarrow> string \<Rightarrow> bytes option \<Rightarrow> bytes option option" where
  "config_string j name old =
     (case cJSON_GetObjectItem (Some j) (bytes_of name) of
        Some cursor \<Rightarrow>
          if js_type cursor = cJSON_String
          then (case js_string cursor of None \<Rightarrow> None | Some v \<Rightarrow> Some (Some v))
          else Some old
      | None \<Rightarrow> Some old)"

definition config_partition :: "'n json \<Rightarrow> int \<Rightarrow> int option" where
  "config_partition j old =
     (case cJSON_GetObjectItem (Some j) (bytes_of ''disk_auto_partition'') of
        Some cursor \<Rightarrow>
          if js_type cursor = cJSON_String then do {
            v \<leftarrow> js_string cursor;
            v \<leftarrow> cel_strtolower v (length v);
            Some (if v = bytes_of ''true'' then 1 else 0) }
          else if js_type cursor = cJSON_Number then Some (if js_int cursor > 0 then 1 else 0)
          else Some old
      | None \<Rightarrow> Some old)"

definition read_config :: "'n json \<Rightarrow> node_config \<Rightarrow> node_config option" where
  "read_config j cf = do {
     b \<leftarrow> config_string j ''build'' (cf_build cf);
     k \<leftarrow> config_string j ''app_key'' (cf_app_key cf);
     p \<leftarrow> config_partition j (cf_disk_auto_partition cf);
     d \<leftarrow> config_string j ''disk_mount_basedir'' (cf_disk_mount_basedir cf);
     x \<leftarrow> config_string j ''disk_mount_prefix'' (cf_disk_mount_prefix cf);
     a \<leftarrow> config_string j ''disk_mount_algorithm'' (cf_disk_mount_algorithm cf);
     Some \<lparr>cf_build = b, cf_app_key = k, cf_disk_auto_partition = p, cf_disk_mount_basedir = d,
           cf_disk_mount_prefix = x, cf_disk_mount_algorithm = a\<rparr> }"

definition load_config ::
  "(nat \<Rightarrow> bool) \<Rightarrow> strbuff \<Rightarrow> bytes \<Rightarrow> (bytes \<Rightarrow> 'n json option) \<Rightarrow> bytes option \<Rightarrow> node_config
   \<Rightarrow> (nat \<times> node_config) option" where
  "load_config al sb file_buff parse fd cf =
     (case fd of None \<Rightarrow> None | Some s \<Rightarrow> do {
        (sb, ok) \<leftarrow> cel_strbuff_init al sb 128 None;
        (if ok = 0 then None
         else do {
           sb \<leftarrow> config_lines (length s + 2) al file_buff s sb;
           (if sb_size sb < 2 then Some (7, cf)
            else case parse (cstr (sb_buffer sb)) of
                None \<Rightarrow> Some (8, cf)
              | Some j \<Rightarrow> do { cf \<leftarrow> read_config j cf; Some (0, cf) }) }) })"

section \<open>The start of a node\<close>

definition node_db_file :: bytes where
  "node_db_file = bytes_of ''node.db''"

definition node_conf_file :: bytes where
  "node_conf_file = bytes_of ''config.json''"

definition zero_node :: node where
  "zero_node = \<lparr>nd_base_dir = None, nd_db_file = None, nd_config_file = None, nd_is_new = False,
     nd_created_at = 0, nd_last_boot_at = 0, nd_interval = 30,
     nd_config = \<lparr>cf_build = None, cf_app_key = None, cf_disk_auto_partition = 0, cf_disk_mount_basedir = None,
        cf_disk_mount_prefix = None, cf_disk_mount_algorithm = None\<rparr>,
     nd_node_id = replicate 41 0\<rparr>"

record node_io =
  ni_db :: io
  ni_flush :: io
  ni_boot :: io
  ni_conf :: bool

text \<open>Reading the record.  A file that cannot be opened leaves the code 0 and the node as it was.\<close>

definition load_record :: "io \<Rightarrow> bytes \<Rightarrow> bytes \<Rightarrow> node \<Rightarrow> (node \<times> nat) option" where
  "load_record e contents buff nd =
     (if \<not> io_open e then Some (nd, 0)
      else if io_lock e \<and> 52 \<le> io_count e \<and> 52 \<le> length contents then do {
        buff \<leftarrow> blit buff 0 contents 52;
        c \<leftarrow> read_unsigned_int buff 0;
        i \<leftarrow> read_unsigned_int buff 4;
        b \<leftarrow> read_unsigned_int buff 8;
        node_id \<leftarrow> blit (nd_node_id nd) 0 (drop 12 buff) 40;
        Some (nd\<lparr>nd_created_at := c, nd_interval := i, nd_last_boot_at := b, nd_node_id := node_id\<rparr>, 0) }
      else Some (nd, 2))"

definition make_record :: "clock \<Rightarrow> io \<Rightarrow> files \<Rightarrow> bytes \<Rightarrow> node \<Rightarrow> (files \<times> node) option" where
  "make_record ck e fs buff nd = do {
     let nd = nd\<lparr>nd_is_new := True\<rparr>;
     node_id \<leftarrow> sarah_gen_node_id ck (nd_node_id nd);
     let nd = nd\<lparr>nd_node_id := node_id, nd_created_at := word_of_nat (ck_sec ck), nd_interval := 30\<rparr>;
     (fs, r) \<leftarrow> sarah_node_flush e fs nd buff;
     (if r \<noteq> 0 then None else Some (fs, nd)) }"

definition sarah_node_init ::
  "(nat \<Rightarrow> bool) \<Rightarrow> strbuff \<Rightarrow> bytes \<Rightarrow> bytes \<Rightarrow> clock \<Rightarrow> node_io \<Rightarrow> (bytes \<Rightarrow> 'n json option) \<Rightarrow> files \<Rightarrow> path option
   \<Rightarrow> (files \<times> node \<times> nat) option" where
  "sarah_node_init al sb buff file_buff ck e parse fs base_dir =
     (case base_dir of None \<Rightarrow> Some (fs, zero_node, 1) | Some dir \<Rightarrow>
        let db = dir @ node_db_file; conf = dir @ node_conf_file;
            nd = zero_node\<lparr>nd_base_dir := Some dir, nd_db_file := Some db\<rparr> in
        if \<not> al (length db + 1) then None
        else do {
          (fs, nd, rno) \<leftarrow> (case fs db of
              Some contents \<Rightarrow> do { (nd, rno) \<leftarrow> load_record (ni_db e) contents buff nd; Some (fs, nd, rno) }
            | None \<Rightarrow> do { (fs, nd) \<leftarrow> make_record ck (ni_flush e) fs buff nd; Some (fs, nd, 0) });
          (fs, nd, _) \<leftarrow> sarah_node_set_last_boot_at (ni_boot e) fs nd (word_of_nat (ck_sec ck)) (if nd_is_new nd then 0 else 1);
          (if \<not> al (length conf + 1) then None
           else do {
             let nd = nd\<lparr>nd_config_file := Some conf\<rparr>;
             (r, cf) \<leftarrow> load_config al sb file_buff parse (if ni_conf e then fs conf else None) (nd_config nd);
             let rno = (if r = 0 then rno else r);
             let nd = nd\<lparr>nd_config := cf\<rparr>;
             Some (fs, if rno > 0 then nd\<lparr>nd_db_file := None, nd_config_file := None\<rparr> else nd, rno) }) })"

section \<open>The id fits\<close>

lemma length_hex_field: "n < 16 ^ w \<Longrightarrow> 0 < w \<Longrightarrow> length (hex_field c w n) = w"
  using length_hex_digits [of n w] by (simp add: hex_field_def length_pad_left)

lemma hex_digits_no_nul: "no_nul (hex_digits n)"
proof -
  have "d < 16" if "d \<in> set (digits_of 16 n)" for d using digits_of_bound [of 16 d n] that by simp
  then have "hex_digit d \<noteq> 0" if "d \<in> set (digits_of 16 n)" for d using that by simp
  then show ?thesis by (fastforce simp: hex_digits_def no_nul_def)
qed

lemma hex_field_no_nul [simp]: "c \<noteq> 0 \<Longrightarrow> no_nul (hex_field c w n)"
  using hex_digits_no_nul [of n] by (auto simp: hex_field_def pad_left_def no_nul_def)

lemma blit_id:
  "length t = 40 \<Longrightarrow> blit (replicate 41 0) 0 (t @ [0]) (length t + 1) = Some (t @ [0])"
  by (simp add: blit_def)

text \<open>A hardware address has six bytes.\<close>

definition macs_full :: "clock \<Rightarrow> bool" where
  "macs_full ck \<longleftrightarrow> (\<forall>(d, a) \<in> set (ck_nets ck). \<forall>m. a = Some m \<longrightarrow> length m = 6)"

lemma gen_law:
  assumes "macs_full ck"
  shows "\<exists>t. sarah_gen_node_id ck (replicate 41 0) = Some (t @ [0]) \<and> length t = 40 \<and> no_nul t"
proof -
  have mac: "length m = 6" if "first_hd_addr nets = Some m" "\<forall>(d, a) \<in> set nets. \<forall>m. a = Some m \<longrightarrow> length m = 6" for m nets
    using that by (induction nets rule: first_hd_addr.induct) (auto split: if_splits option.splits)
  note len = length_hex_field
  have b: "r mod 65535 < (16 :: nat) ^ 4" "r mod 255 * 256 < (16 :: nat) ^ 4" "r mod 255 * 256 + 1 < (16 :: nat) ^ 4"
    "r mod 4294967295 < (16 :: nat) ^ 8" "Suc (r mod 255 * 256) < (16 :: nat) ^ 4" "wrap32 r < 16 ^ 8" for r
    using mod_less_divisor [of 65535 r] mod_less_divisor [of 255 r] mod_less_divisor [of 4294967295 r] by (auto simp: wrap32_def)
  show ?thesis
  proof (cases "first_hd_addr (ck_nets ck)")
    case None
    let ?t = "hex_field 32 8 (wrap32 (ck_sec ck)) @ [45] @ hex_field 48 8 (wrap32 (ck_usec ck * 1000000)) @ [45]
            @ hex_field 48 4 (ck_rand ck 0 mod 65535) @ [45] @ hex_field 48 4 (ck_rand ck 1 mod 255 * 256) @ [45]
            @ hex_field 48 4 (ck_rand ck 2 mod 65535) @ hex_field 48 8 (ck_rand ck 3 mod 4294967295)"
    have l: "length ?t = 40" by (simp add: len b del: power_numeral)
    show ?thesis
      using None l blit_id [OF l]
      by (intro exI [of _ ?t]) (simp add: sarah_gen_node_id_def gen_ts_random_node_id_def Let_def)
  next
    case (Some m)
    from mac [OF Some assms [unfolded macs_full_def]] obtain m0 m1 m2 m3 m4 m5 where m: "m = [m0, m1, m2, m3, m4, m5]"
      by (auto simp: length_Suc_conv numeral_eq_Suc)
    let ?t = "hex_field 32 8 (wrap32 (ck_sec ck)) @ [45] @ hex_field 48 8 (wrap32 (ck_usec ck * 1000000)) @ [45]
            @ hex_field 48 4 (ck_rand ck 0 mod 65535) @ [45] @ hex_field 48 4 (ck_rand ck 1 mod 255 * 256 + 1) @ [45]
            @ hex2 m0 @ hex2 m1 @ hex2 m2 @ hex2 m3 @ hex2 m4 @ hex2 m5"
    have l: "length ?t = 40" by (simp add: len b del: power_numeral)
    show ?thesis
      using Some l blit_id [OF l]
      by (intro exI [of _ ?t]) (simp add: sarah_gen_node_id_def gen_ts_rmmac_node_id_def Let_def m rd_def)
  qed
qed

section \<open>The file is the image of the node\<close>

definition node_pack :: "node \<Rightarrow> bytes" where
  "node_pack nd = four_bytes (nd_created_at nd) @ four_bytes (nd_interval nd) @ four_bytes (nd_last_boot_at nd)
     @ take 40 (nd_node_id nd)"

lemma locked_write_law:
  assumes "io_fine e (length buff)" "fs file = Some (a @ m @ r)" "length a = offset" "length m = length buff"
  shows "locked_write e fs file offset buff (length buff) = Some (fs(file \<mapsto> a @ buff @ r), 0)"
proof -
  have "min (nat (io_count e)) (length buff) = length buff" using assms(1) by (auto simp: io_fine_def)
  with assms show ?thesis
    by (auto simp: locked_write_def io_fine_def write_at_def Let_def fun_upd_idem_iff)
qed

lemma flush_law:
  assumes "io_fine e 52" "nd_db_file nd = Some file" "length buff = 52" "length (nd_node_id nd) = 41"
  shows "sarah_node_flush e fs nd buff
    = Some (fs(file \<mapsto> node_pack nd @ drop 52 (case fs file of None \<Rightarrow> [] | Some c \<Rightarrow> c)), 0)"
proof -
  let ?c = "four_bytes (nd_created_at nd)" and ?i = "four_bytes (nd_interval nd)" and ?b = "four_bytes (nd_last_boot_at nd)"
  have "take 4 (drop 8 buff) @ drop 12 buff = drop 8 buff" "take 4 (drop 4 buff) @ drop 8 buff = drop 4 buff"
    using append_take_drop_id [of 4 "drop 8 buff"] append_take_drop_id [of 4 "drop 4 buff"]
    by (simp_all del: append_take_drop_id)
  then have "buff = take 4 buff @ take 4 (drop 4 buff) @ take 4 (drop 8 buff) @ drop 12 buff" by simp
  then obtain x y z w where xs: "buff = x @ y @ z @ w" "length x = 4" "length y = 4" "length z = 4" "length w = 40"
    using assms(3) that [of "take 4 buff" "take 4 (drop 4 buff)" "take 4 (drop 8 buff)" "drop 12 buff"] by simp
  have 1: "write_unsigned_int buff 0 (nd_created_at nd) = Some (?c @ y @ z @ w)"
    using write_law [of "[]" 0 x "y @ z @ w"] xs by simp
  have 2: "write_unsigned_int (?c @ y @ z @ w) 4 (nd_interval nd) = Some (?c @ ?i @ z @ w)"
    using write_law [of ?c 4 y "z @ w"] xs by simp
  have 3: "write_unsigned_int (?c @ ?i @ z @ w) 8 (nd_last_boot_at nd) = Some (?c @ ?i @ ?b @ w)"
    using write_law [of "?c @ ?i" 8 z w] xs by simp
  have 4: "blit (?c @ ?i @ ?b @ w) 12 (nd_node_id nd) 40 = Some (node_pack nd)"
    using xs assms(4) by (simp add: blit_def node_pack_def)
  have "min (nat (io_count e)) 52 = 52" using assms(1) by (auto simp: io_fine_def)
  moreover have "length (node_pack nd) = 52" using assms(4) by (simp add: node_pack_def)
  ultimately show ?thesis
    using assms(1,2) 1 2 3 4
    by (cases "fs file") (auto simp: sarah_node_flush_def locked_write_def io_fine_def write_at_def Let_def)
qed

lemma write_four: "write_unsigned_int (replicate 4 0) 0 v = Some (four_bytes v)"
  using write_law [of "[]" 0 "replicate 4 0" "[]" v] by simp

lemma write_buffer_law:
  assumes "io_fine e 4" "nd_db_file nd = Some file" "fs file = Some (a @ m @ r)" "length a = offset" "length m = 4"
  shows "write_buffer e fs nd offset (four_bytes v) 4 = Some (fs(file \<mapsto> a @ four_bytes v @ r), 0)"
  using assms locked_write_law [of e "four_bytes v" fs "file" a m r offset] by (simp add: write_buffer_def io_fine_def)

lemma setter_laws:
  assumes "io_fine e 4" "nd_db_file nd = Some file" "fs file = Some (node_pack nd @ r)"
  shows "sarah_node_set_created_at e fs nd v 1
      = Some (fs(file \<mapsto> node_pack (nd\<lparr>nd_created_at := v\<rparr>) @ r), nd\<lparr>nd_created_at := v\<rparr>, 0)"
    and "sarah_node_set_interval e fs nd v 1
      = Some (fs(file \<mapsto> node_pack (nd\<lparr>nd_interval := v\<rparr>) @ r), nd\<lparr>nd_interval := v\<rparr>, 0)"
    and "sarah_node_set_last_boot_at e fs nd v 1
      = Some (fs(file \<mapsto> node_pack (nd\<lparr>nd_last_boot_at := v\<rparr>) @ r), nd\<lparr>nd_last_boot_at := v\<rparr>, 0)"
proof -
  let ?c = "four_bytes (nd_created_at nd)" and ?i = "four_bytes (nd_interval nd)" and ?b = "four_bytes (nd_last_boot_at nd)"
  let ?t = "take 40 (nd_node_id nd) @ r"
  have f: "fs file = Some (?c @ ?i @ ?b @ ?t)" using assms(3) by (simp add: node_pack_def)
  show "sarah_node_set_created_at e fs nd v 1
      = Some (fs(file \<mapsto> node_pack (nd\<lparr>nd_created_at := v\<rparr>) @ r), nd\<lparr>nd_created_at := v\<rparr>, 0)"
    using write_buffer_law [of e "nd\<lparr>nd_created_at := v\<rparr>" "file" fs "[]" ?c "?i @ ?b @ ?t" 0 v] assms f
    by (simp add: sarah_node_set_created_at_def write_four node_pack_def)
  show "sarah_node_set_interval e fs nd v 1
      = Some (fs(file \<mapsto> node_pack (nd\<lparr>nd_interval := v\<rparr>) @ r), nd\<lparr>nd_interval := v\<rparr>, 0)"
    using write_buffer_law [of e "nd\<lparr>nd_interval := v\<rparr>" "file" fs ?c ?i "?b @ ?t" 4 v] assms f
    by (simp add: sarah_node_set_interval_def write_four node_pack_def)
  show "sarah_node_set_last_boot_at e fs nd v 1
      = Some (fs(file \<mapsto> node_pack (nd\<lparr>nd_last_boot_at := v\<rparr>) @ r), nd\<lparr>nd_last_boot_at := v\<rparr>, 0)"
    using write_buffer_law [of e "nd\<lparr>nd_last_boot_at := v\<rparr>" "file" fs "?c @ ?i" ?b ?t 8 v] assms f
    by (simp add: sarah_node_set_last_boot_at_def write_four node_pack_def)
qed

lemma load_law:
  assumes "io_fine e 52" "nd_node_id nd = t @ [0]" "length t = 40" "length buff = 52" "nd_node_id nd0 = replicate 41 0"
  shows "load_record e (node_pack nd @ r) buff nd0
    = Some (nd0\<lparr>nd_created_at := nd_created_at nd, nd_interval := nd_interval nd, nd_last_boot_at := nd_last_boot_at nd,
                nd_node_id := t @ [0]\<rparr>, 0)"
proof -
  let ?c = "four_bytes (nd_created_at nd)" and ?i = "four_bytes (nd_interval nd)" and ?b = "four_bytes (nd_last_boot_at nd)"
  have p: "node_pack nd = ?c @ ?i @ ?b @ t" "length (node_pack nd) = 52" using assms(2,3) by (simp_all add: node_pack_def)
  have 1: "blit buff 0 (node_pack nd @ r) 52 = Some (node_pack nd)" using p(2) assms(4) by (simp add: blit_def)
  have 2: "read_unsigned_int (node_pack nd) 0 = Some (nd_created_at nd)"
    "read_unsigned_int (node_pack nd) 4 = Some (nd_interval nd)" "read_unsigned_int (node_pack nd) 8 = Some (nd_last_boot_at nd)"
    using read_law [of "[]" 0 _ "?i @ ?b @ t"] read_law [of ?c 4 _ "?b @ t"] read_law [of "?c @ ?i" 8 _ t]
    unfolding p(1) by simp_all
  have 3: "blit (nd_node_id nd0) 0 (drop 12 (node_pack nd)) 40 = Some (t @ [0])"
    using assms(3,5) unfolding p(1) by (simp add: blit_def)
  have "52 \<le> io_count e" "io_lock e" "io_open e" using assms(1) by (auto simp: io_fine_def)
  with 1 2 3 p(2) show ?thesis by (simp add: load_record_def)
qed

lemma files_differ: "dir @ node_conf_file \<noteq> dir @ node_db_file"
  by (simp add: node_conf_file_def node_db_file_def bytes_of_def)

section \<open>The configuration text\<close>

definition is_comment :: "bytes \<Rightarrow> bool" where
  "is_comment l \<longleftrightarrow> take 1 l = [35]"

definition text_line :: "nat \<Rightarrow> bytes \<Rightarrow> bool" where
  "text_line n l \<longleftrightarrow> 10 \<notin> set l \<and> no_nul l \<and> length l < n"

lemma first_char: "cstr d = l \<Longrightarrow> 0 < length d \<Longrightarrow> \<exists>c. rd d 0 = Some c \<and> (c = 35 \<longleftrightarrow> is_comment l)"
  by (cases d) (auto simp: rd_def cstr_def is_comment_def split: if_splits)

text \<open>One line: \<open>r\<close> is the rest of the stream.\<close>

lemma config_line:
  assumes "sb_wf sb" "text_line (length fb) l" "s = l @ 10 # r \<or> s = l \<and> r = []" "s \<noteq> []" "sb_size sb + length l < 2 ^ 30"
  obtains fb' sb' where "length fb' = length fb" "sb_wf sb'" "content sb' = content sb @ (if is_comment l then [] else l)"
    "config_lines (Suc fuel) (\<lambda>_. True) fb s sb = config_lines fuel (\<lambda>_. True) fb' r sb'"
proof -
  obtain fb' where fb': "sarah_get_line fb s = Some (fb', r, True)" "cstr fb' = l" "length fb' = length fb"
    using get_line_law [of l fb s r] assms(2-4) by (auto simp: text_line_def)
  obtain c where c: "rd fb' 0 = Some c" "c = 35 \<longleftrightarrow> is_comment l"
    using first_char [OF fb'(2)] fb'(3) assms(2) unfolding text_line_def by (metis gr_zeroI not_less_zero)
  show ?thesis
  proof (cases "is_comment l")
    case True
    with fb' c assms(1) show ?thesis by (intro that [of fb' sb]) auto
  next
    case False
    obtain sb' where "cel_strbuff_append_from (\<lambda>_. True) sb l (length l) 1 = Some (sb', 1)" "sb_wf sb'" "content sb' = content sb @ l"
      using append_once [OF assms(1,5)] by blast
    with False fb' c show ?thesis by (intro that [of fb' sb']) (auto simp del: cel_strbuff_append_from.simps)
  qed
qed

lemma config_lines_law:
  "sb_wf sb \<Longrightarrow> \<forall>l \<in> set (ls @ [z]). text_line (length fb) l \<Longrightarrow> sb_size sb + length (concat (ls @ [z])) < 2 ^ 30 \<Longrightarrow>
   length ls + 1 < fuel \<Longrightarrow>
   \<exists>sb'. config_lines fuel (\<lambda>_. True) fb (concat (map (\<lambda>l. l @ [10]) ls) @ z) sb = Some sb' \<and> sb_wf sb'
     \<and> content sb' = content sb @ concat (filter (\<lambda>l. \<not> is_comment l) (ls @ [z]))"
proof (induction ls arbitrary: fuel fb sb)
  case Nil
  obtain f where f: "fuel = Suc (Suc f)" using Nil.prems(4) by (cases fuel; cases "fuel - 1") auto
  have pos: "0 < length fb" using Nil.prems(2) by (auto simp: text_line_def)
  have stop: "config_lines (Suc n) (\<lambda>_. True) fb2 [] sb2 = Some sb2" if e: "length fb2 = length fb" for fb2 sb2 n
  proof -
    obtain fb3 where "sarah_get_line fb2 [] = Some (fb3, [], False)" using get_line_law [of "[]" fb2 "[]" "[]"] pos e by (cases fb2) auto
    then show ?thesis by simp
  qed
  show ?case
  proof (cases "z = []")
    case True
    with stop [of fb "Suc f" sb] f Nil.prems(1) show ?thesis by (simp add: is_comment_def)
  next
    case False
    obtain fb' sb' where l: "length fb' = length fb" "sb_wf sb'" "content sb' = content sb @ (if is_comment z then [] else z)"
      "config_lines (Suc (Suc f)) (\<lambda>_. True) fb z sb = config_lines (Suc f) (\<lambda>_. True) fb' [] sb'"
      by (rule config_line [of sb fb z z "[]" "Suc f"]) (use Nil.prems False in auto)
    with stop [of fb' f sb'] f show ?thesis by (intro exI [of _ sb']) (simp del: config_lines.simps)
  qed
next
  case (Cons l ls)
  obtain f where f: "fuel = Suc f" using Cons.prems(4) by (cases fuel) auto
  let ?r = "concat (map (\<lambda>l. l @ [10]) ls) @ z"
  obtain fb' sb' where l: "length fb' = length fb" "sb_wf sb'" "content sb' = content sb @ (if is_comment l then [] else l)"
    "config_lines (Suc f) (\<lambda>_. True) fb (l @ 10 # ?r) sb = config_lines f (\<lambda>_. True) fb' ?r sb'"
    by (rule config_line [of sb fb l "l @ 10 # ?r" ?r f]) (use Cons.prems in auto)
  have "sb_size sb' \<le> sb_size sb + length l"
    using l(2,3) Cons.prems(1) length_content [of sb] length_content [of sb'] by (auto split: if_splits)
  then have "\<exists>sb''. config_lines f (\<lambda>_. True) fb' ?r sb' = Some sb'' \<and> sb_wf sb''
     \<and> content sb'' = content sb' @ concat (filter (\<lambda>l. \<not> is_comment l) (ls @ [z]))"
    using Cons.prems l(1,2) f by (intro Cons.IH) auto
  with l(3,4) f show ?case by (auto simp del: config_lines.simps)
qed

text \<open>The node that a start with this directory works on, and the two halves of a start.\<close>

definition started :: "path \<Rightarrow> node" where
  "started dir = zero_node\<lparr>nd_base_dir := Some dir, nd_db_file := Some (dir @ node_db_file)\<rparr>"

lemma make_record_law:
  assumes "macs_full ck" "io_fine e 52" "length buff = 52"
    "fs (dir @ node_db_file) = None"
  obtains t where "length t = 40" "no_nul t"
    "make_record ck e fs buff (started dir) = (let nd = (started dir)\<lparr>nd_is_new := True, nd_node_id := t @ [0],
        nd_created_at := word_of_nat (ck_sec ck)\<rparr> in Some (fs(dir @ node_db_file \<mapsto> node_pack nd), nd))"
proof -
  obtain t where t: "sarah_gen_node_id ck (replicate 41 0) = Some (t @ [0])" "length t = 40" "no_nul t"
    using gen_law [OF assms(1)] by blast
  let ?nd = "(started dir)\<lparr>nd_is_new := True, nd_node_id := t @ [0], nd_created_at := word_of_nat (ck_sec ck)\<rparr>"
  have "sarah_node_flush e fs ?nd buff = Some (fs(dir @ node_db_file \<mapsto> node_pack ?nd), 0)"
    using flush_law [of e ?nd "dir @ node_db_file" buff fs] assms(2-4) t(2) by (simp add: started_def)
  moreover have "?nd\<lparr>nd_interval := 30\<rparr> = ?nd" by (simp add: started_def zero_node_def)
  ultimately have "make_record ck e fs buff (started dir) = Some (fs(dir @ node_db_file \<mapsto> node_pack ?nd), ?nd)"
    using t(1) by (simp add: make_record_def started_def zero_node_def Let_def)
  with t(2,3) show ?thesis by (intro that [of t]) (simp_all add: Let_def)
qed

lemma init_unfold:
  "sarah_node_init al sb buff file_buff ck e parse fs (Some dir) =
     (if \<not> al (length (dir @ node_db_file) + 1) then None
      else do {
        (fs, nd, rno) \<leftarrow> (case fs (dir @ node_db_file) of
            Some contents \<Rightarrow> do { (nd, rno) \<leftarrow> load_record (ni_db e) contents buff (started dir); Some (fs, nd, rno) }
          | None \<Rightarrow> do { (fs, nd) \<leftarrow> make_record ck (ni_flush e) fs buff (started dir); Some (fs, nd, 0) });
        (fs, nd, _) \<leftarrow> sarah_node_set_last_boot_at (ni_boot e) fs nd (word_of_nat (ck_sec ck)) (if nd_is_new nd then 0 else 1);
        (if \<not> al (length (dir @ node_conf_file) + 1) then None
         else do {
           let nd = nd\<lparr>nd_config_file := Some (dir @ node_conf_file)\<rparr>;
           (r, cf) \<leftarrow> load_config al sb file_buff parse (if ni_conf e then fs (dir @ node_conf_file) else None) (nd_config nd);
           let rno = (if r = 0 then rno else r);
           let nd = nd\<lparr>nd_config := cf\<rparr>;
           Some (fs, if rno > 0 then nd\<lparr>nd_db_file := None, nd_config_file := None\<rparr> else nd, rno) }) })"
  by (simp only: sarah_node_init_def started_def Let_def option.case)

lemma set_boot_new: "sarah_node_set_last_boot_at e fs nd v 0 = Some (fs, nd\<lparr>nd_last_boot_at := v\<rparr>, 0)"
  by (simp add: sarah_node_set_last_boot_at_def write_four)

text \<open>The end of a start, after the record: \<open>q\<close> is the code so far.\<close>

definition finish_init ::
  "(nat \<Rightarrow> bool) \<Rightarrow> strbuff \<Rightarrow> bytes \<Rightarrow> (bytes \<Rightarrow> 'n json option) \<Rightarrow> files \<Rightarrow> path \<Rightarrow> bytes option \<Rightarrow> node \<Rightarrow> nat
   \<Rightarrow> (files \<times> node \<times> nat) option" where
  "finish_init al sb file_buff parse fs dir fd nd q =
     (if \<not> al (length (dir @ node_conf_file) + 1) then None
      else do {
        (r, cf) \<leftarrow> load_config al sb file_buff parse fd (nd_config nd);
        let rno = (if r = 0 then q else r);
        let nd = nd\<lparr>nd_config_file := Some (dir @ node_conf_file), nd_config := cf\<rparr>;
        Some (fs, if rno > 0 then nd\<lparr>nd_db_file := None, nd_config_file := None\<rparr> else nd, rno) })"

lemma init_new:
  assumes "fs (dir @ node_db_file) = None" "al (length (dir @ node_db_file) + 1)"
    "make_record ck (ni_flush e) fs buff (started dir) = Some (fs1, nd)" "nd_is_new nd"
  shows "sarah_node_init al sb buff file_buff ck e parse fs (Some dir)
    = finish_init al sb file_buff parse fs1 dir (if ni_conf e then fs1 (dir @ node_conf_file) else None)
        (nd\<lparr>nd_last_boot_at := word_of_nat (ck_sec ck)\<rparr>) 0"
  unfolding init_unfold finish_init_def using assms by (simp add: set_boot_new Let_def)

lemma init_old:
  assumes "fs (dir @ node_db_file) = Some contents" "al (length (dir @ node_db_file) + 1)"
    "load_record (ni_db e) contents buff (started dir) = Some (nd, q)" "\<not> nd_is_new nd"
    "sarah_node_set_last_boot_at (ni_boot e) fs nd (word_of_nat (ck_sec ck)) 1 = Some (fs1, nd1, r)"
  shows "sarah_node_init al sb buff file_buff ck e parse fs (Some dir)
    = finish_init al sb file_buff parse fs1 dir (if ni_conf e then fs1 (dir @ node_conf_file) else None) nd1 q"
  unfolding init_unfold finish_init_def using assms by (simp add: Let_def)

lemma finish_law:
  "finish_init al sb file_buff parse fs dir fd nd 0 = Some (fs', nd', 0) \<longleftrightarrow>
     fs' = fs \<and> al (length (dir @ node_conf_file) + 1)
     \<and> (\<exists>cf. load_config al sb file_buff parse fd (nd_config nd) = Some (0, cf)
         \<and> nd' = nd\<lparr>nd_config_file := Some (dir @ node_conf_file), nd_config := cf\<rparr>)"
  by (auto simp: finish_init_def Let_def split: if_splits bind_splits)

section \<open>Properties\<close>

text \<open>C5: a node keeps its identity: after a first start that made the record, a later start on the same
  directory finds the same id of 40 characters, the same creation time, interval and configuration, knows that
  the node is not new, sets the time of the last boot, and leaves the file the image of the node.\<close>

theorem node_survives_reboot:
  assumes first: "sarah_node_init al sb buff file_buff ck e parse fs (Some dir) = Some (fs1, nd1, 0)"
    and new: "fs (dir @ node_db_file) = None" "macs_full ck"
    and io: "io_fine (ni_flush e) 52" "length buff = 52"
    and io': "io_fine (ni_db e') 52" "io_fine (ni_boot e') 4" "ni_conf e'" "length buff' = 52"
  shows "nd_is_new nd1 \<and> nd_created_at nd1 = word_of_nat (ck_sec ck)
    \<and> (\<exists>t. nd_node_id nd1 = t @ [0] \<and> length t = 40 \<and> no_nul t)
    \<and> (\<exists>fs2 nd2. sarah_node_init al sb buff' file_buff ck' e' parse fs1 (Some dir) = Some (fs2, nd2, 0)
        \<and> \<not> nd_is_new nd2 \<and> nd_node_id nd2 = nd_node_id nd1 \<and> nd_created_at nd2 = nd_created_at nd1
        \<and> nd_interval nd2 = nd_interval nd1 \<and> nd_config nd2 = nd_config nd1
        \<and> nd_last_boot_at nd2 = word_of_nat (ck_sec ck') \<and> fs2 = fs1(dir @ node_db_file \<mapsto> node_pack nd2))"
proof -
  let ?db = "dir @ node_db_file" and ?conf = "dir @ node_conf_file"
  obtain t where t: "length t = 40" "no_nul t"
    "make_record ck (ni_flush e) fs buff (started dir) = (let nd = (started dir)\<lparr>nd_is_new := True, nd_node_id := t @ [0],
        nd_created_at := word_of_nat (ck_sec ck)\<rparr> in Some (fs(?db \<mapsto> node_pack nd), nd))"
    using make_record_law [of ck "ni_flush e" buff fs dir] new io by blast
  let ?nd = "(started dir)\<lparr>nd_is_new := True, nd_node_id := t @ [0], nd_created_at := word_of_nat (ck_sec ck)\<rparr>"
  have al: "al (length ?db + 1)"
    using first unfolding init_unfold by (rule contrapos_pp) simp
  have "finish_init al sb file_buff parse (fs(?db \<mapsto> node_pack ?nd)) dir
      (if ni_conf e then (fs(?db \<mapsto> node_pack ?nd)) ?conf else None) (?nd\<lparr>nd_last_boot_at := word_of_nat (ck_sec ck)\<rparr>) 0 = Some (fs1, nd1, 0)"
    using first new(1) al init_new [of fs dir al ck e buff "fs(?db \<mapsto> node_pack ?nd)" ?nd sb file_buff parse] t(3)
    by (simp add: Let_def)
  then obtain cf where fs1: "fs1 = fs(?db \<mapsto> node_pack ?nd)" and al2: "al (length ?conf + 1)"
    and cfg: "load_config al sb file_buff parse (if ni_conf e then (fs(?db \<mapsto> node_pack ?nd)) ?conf else None) (nd_config ?nd) = Some (0, cf)"
    and nd1: "nd1 = ?nd\<lparr>nd_last_boot_at := word_of_nat (ck_sec ck), nd_config_file := Some ?conf, nd_config := cf\<rparr>"
    unfolding finish_law by auto
  have cfg': "load_config al sb file_buff parse (fs ?conf) (nd_config (started dir)) = Some (0, cf)"
    using cfg files_differ [of dir] by (cases "ni_conf e") (simp_all add: load_config_def)
  let ?l = "(started dir)\<lparr>nd_created_at := word_of_nat (ck_sec ck), nd_node_id := t @ [0]\<rparr>"
  have "load_record (ni_db e') (node_pack ?nd @ []) buff' (started dir) = Some (?l, 0)"
    using load_law [of "ni_db e'" ?nd t buff' "started dir" "[]"] io' t(1) by (simp add: started_def zero_node_def)
  moreover have "node_pack ?nd = node_pack ?l" by (simp add: node_pack_def)
  ultimately have ld: "load_record (ni_db e') (node_pack ?nd) buff' (started dir) = Some (?l, 0)" by simp
  let ?nd2 = "?l\<lparr>nd_last_boot_at := word_of_nat (ck_sec ck')\<rparr>"
  have st: "sarah_node_set_last_boot_at (ni_boot e') fs1 ?l (word_of_nat (ck_sec ck')) 1 = Some (fs1(?db \<mapsto> node_pack ?nd2), ?nd2, 0)"
    using setter_laws(3) [of "ni_boot e'" ?l ?db fs1 "[]"] io'(2) \<open>node_pack ?nd = node_pack ?l\<close>
    by (simp add: fs1 started_def)
  let ?nd3 = "?nd2\<lparr>nd_config_file := Some ?conf, nd_config := cf\<rparr>"
  have "\<not> nd_is_new ?l" by (simp add: started_def zero_node_def)
  with init_old [of fs1 dir "node_pack ?nd" al e' buff' ?l 0 ck' "fs1(?db \<mapsto> node_pack ?nd2)" ?nd2 0 sb file_buff parse] al ld st
  have "sarah_node_init al sb buff' file_buff ck' e' parse fs1 (Some dir)
      = finish_init al sb file_buff parse (fs1(?db \<mapsto> node_pack ?nd2)) dir (fs ?conf) ?nd2 0"
    using io'(3) files_differ [of dir] by (simp add: fs1)
  also have "\<dots> = Some (fs1(?db \<mapsto> node_pack ?nd2), ?nd3, 0)"
    using al2 cfg' unfolding finish_law by simp
  finally have run: "sarah_node_init al sb buff' file_buff ck' e' parse fs1 (Some dir) = Some (fs1(?db \<mapsto> node_pack ?nd2), ?nd3, 0)" .
  have "node_pack ?nd2 = node_pack ?nd3" by (simp add: node_pack_def)
  with run t(1,2) show ?thesis
    unfolding nd1
    by (intro conjI exI [of _ t] exI [of _ "fs1(?db \<mapsto> node_pack ?nd2)"] exI [of _ ?nd3]) (simp_all add: started_def zero_node_def)
qed

text \<open>A first start at second 100 in an empty directory with a small configuration, and a second at 200.\<close>

definition sample_io :: node_io where
  "sample_io = (let f = \<lparr>io_open = True, io_lock = True, io_cut = True, io_count = 2048\<rparr> in
     \<lparr>ni_db = f, ni_flush = f, ni_boot = f, ni_conf = True\<rparr>)"

definition sample_clock :: "nat \<Rightarrow> clock" where
  "sample_clock sec = \<lparr>ck_sec = sec, ck_usec = 5, ck_rand = (\<lambda>n. 7 * n + 3), ck_nets = []\<rparr>"

definition sample_files :: files where
  "sample_files = Map.empty(bytes_of ''/config.json'' \<mapsto> [35, 10, 123, 125])"

definition sample_parse :: "bytes \<Rightarrow> nat json option" where
  "sample_parse s = (if s = [123, 125] then Some (Json None cJSON_Object None 0 0 []) else None)"


lemma load_config_law:
  assumes "\<forall>l \<in> set (ls @ [z]). text_line (length fb) l" "length (concat (ls @ [z])) < 2 ^ 30"
  shows "\<exists>sb'. content sb' = concat (filter (\<lambda>l. \<not> is_comment l) (ls @ [z])) \<and> sb_wf sb'
     \<and> load_config (\<lambda>_. True) sb fb parse (Some (concat (map (\<lambda>l. l @ [10]) ls) @ z)) cf
      = (if length (content sb') < 2 then Some (7, cf)
         else case parse (cstr (content sb')) of None \<Rightarrow> Some (8, cf) | Some j \<Rightarrow> do { cf \<leftarrow> read_config j cf; Some (0, cf) })"
proof -
  let ?s = "concat (map (\<lambda>l. l @ [10]) ls) @ z"
  obtain sb0 where sb0: "cel_strbuff_init (\<lambda>_. True) sb 128 None = Some (sb0, 1)" "sb_wf sb0" "content sb0 = []"
    using strbuff_init_law [of 128 "\<lambda>_. True" sb] by auto
  then have z: "sb_size sb0 = 0" using length_content [of sb0] by simp
  have "length ls \<le> length ?s" by (induction ls) auto
  with z sb0(2,3) config_lines_law [of sb0 ls z fb "length ?s + 2"] assms obtain sb' where sb':
    "config_lines (length ?s + 2) (\<lambda>_. True) fb ?s sb0 = Some sb'" "sb_wf sb'"
    "content sb' = concat (filter (\<lambda>l. \<not> is_comment l) (ls @ [z]))" by auto
  then show ?thesis
    using sb0(1) length_content [OF sb'(2)] sb_wf_cstr(2) [OF sb'(2)]
    by (intro exI [of _ sb']) (simp add: load_config_def del: config_lines.simps)
qed

text \<open>C36: a configuration file whose lines have less than 1024 characters is read to its end, whatever their
  number: the text that is parsed is that of its lines without those that start with a comment sign, the
  newlines left out; a text of less than two characters gives code 7, one that does not parse code 8.\<close>

theorem config_text:
  assumes "\<forall>l \<in> set (ls @ [z]). text_line 1024 l" "length (concat (ls @ [z])) < 2 ^ 30" "length fb = 1024"
    and "s = concat (filter (\<lambda>l. \<not> is_comment l) (ls @ [z]))"
  shows "load_config (\<lambda>_. True) sb fb parse (Some (concat (map (\<lambda>l. l @ [10]) ls) @ z)) cf
      = (if length s < 2 then Some (7, cf)
         else case parse s of None \<Rightarrow> Some (8, cf) | Some j \<Rightarrow> do { cf \<leftarrow> read_config j cf; Some (0, cf) })"
proof -
  have "no_nul s" unfolding assms(4) using assms(1) by (auto simp: text_line_def no_nul_def)
  with load_config_law [of ls z fb sb parse cf] assms show ?thesis by auto
qed

definition zero_sb :: strbuff where
  "zero_sb = \<lparr>sb_buffer = [], sb_opacity = 0, sb_size = 0\<rparr>"

lemma sample_config:
  "read_config (Json None cJSON_Object None 0 (0 :: nat) []) cf = Some cf"
  by (simp add: read_config_def config_string_def config_partition_def cJSON_GetObjectItem_def)

lemma sample_lines:
  "\<forall>l \<in> set ([[35, 120], [123]] @ [[125]]). text_line 1024 l" "\<forall>l \<in> set ([[35]] @ [[123, 125]]). text_line 1024 l"
  "length (concat ([[35, 120], [123]] @ [[125 :: u8]])) < 2 ^ 30" "length (concat ([[35]] @ [[123, 125 :: u8]])) < 2 ^ 30"
  "[123, 125] = concat (filter (\<lambda>l. \<not> is_comment l) ([[35, 120], [123]] @ [[125]]))"
  "concat (filter (\<lambda>l. \<not> is_comment l) ([[35]] @ [[123, 125]])) = [123, 125]"
  by (simp_all add: text_line_def is_comment_def)

lemma config_text_witness:
  "load_config (\<lambda>_. True) zero_sb (replicate 1024 0) sample_parse (Some [35, 120, 10, 123, 10, 125]) (nd_config zero_node)
    = Some (0, nd_config zero_node)"
  using config_text [OF sample_lines(1,3) length_replicate sample_lines(5), of zero_sb 0 sample_parse "nd_config zero_node"]
    sample_config [of "nd_config zero_node"]
  by (simp add: sample_parse_def)

lemma sample_load:
  "load_config (\<lambda>_. True) zero_sb (replicate 1024 0) sample_parse (Some [35, 10, 123, 125]) cf = Some (0, cf)"
proof -
  have c: "cstr [123, 125] = [123, 125]" by (simp add: cstr_def)
  have "\<forall>l \<in> set ([[35]] @ [[123, 125]]). text_line (length (replicate 1024 (0 :: u8))) l"
    using sample_lines(2) by (simp only: length_replicate)
  from load_config_law [OF this sample_lines(4), of zero_sb sample_parse cf] sample_config [of cf] show ?thesis
    unfolding sample_lines(6) by (auto simp: sample_parse_def c)
qed

text \<open>The example: a first start in second 100, a second one in second 200.\<close>

lemma node_survives_reboot_witness:
  "\<exists>fs1 nd1 fs2 nd2.
     sarah_node_init (\<lambda>_. True) zero_sb (replicate 52 0) (replicate 1024 0) (sample_clock 100) sample_io sample_parse
       sample_files (Some (bytes_of ''/'')) = Some (fs1, nd1, 0) \<and> nd_created_at nd1 = 100
   \<and> sarah_node_init (\<lambda>_. True) zero_sb (replicate 52 0) (replicate 1024 0) (sample_clock 200) sample_io sample_parse
       fs1 (Some (bytes_of ''/'')) = Some (fs2, nd2, 0) \<and> nd_created_at nd2 = 100 \<and> nd_last_boot_at nd2 = 200
   \<and> nd_node_id nd2 = nd_node_id nd1"
proof -
  have io: "io_fine (ni_flush sample_io) 52" "io_fine (ni_db sample_io) 52" "io_fine (ni_boot sample_io) 4" "ni_conf sample_io"
    by (simp_all add: sample_io_def io_fine_def Let_def)
  have fs: "sample_files (bytes_of ''/'' @ node_db_file) = None" "sample_files (bytes_of ''/'' @ node_conf_file) = Some [35, 10, 123, 125]"
    by (simp_all add: sample_files_def node_db_file_def node_conf_file_def bytes_of_def)
  have macs: "macs_full (sample_clock n)" for n by (simp add: macs_full_def sample_clock_def)
  obtain t where t: "make_record (sample_clock 100) (ni_flush sample_io) sample_files (replicate 52 0) (started (bytes_of ''/''))
      = (let nd = (started (bytes_of ''/''))\<lparr>nd_is_new := True, nd_node_id := t @ [0], nd_created_at := word_of_nat 100\<rparr>
         in Some (sample_files(bytes_of ''/'' @ node_db_file \<mapsto> node_pack nd), nd))"
    using make_record_law [OF macs io(1), of "replicate 52 0" sample_files "bytes_of ''/''" 100] fs(1)
    by (auto simp: sample_clock_def)
  let ?nd = "(started (bytes_of ''/''))\<lparr>nd_is_new := True, nd_node_id := t @ [0], nd_created_at := word_of_nat 100\<rparr>"
  have "sarah_node_init (\<lambda>_. True) zero_sb (replicate 52 0) (replicate 1024 0) (sample_clock 100) sample_io sample_parse
       sample_files (Some (bytes_of ''/''))
     = finish_init (\<lambda>_. True) zero_sb (replicate 1024 0) sample_parse (sample_files(bytes_of ''/'' @ node_db_file \<mapsto> node_pack ?nd))
         (bytes_of ''/'') (Some [35, 10, 123, 125]) (?nd\<lparr>nd_last_boot_at := word_of_nat 100\<rparr>) 0"
    using init_new [of sample_files "bytes_of ''/''" "\<lambda>_. True" "sample_clock 100" sample_io "replicate 52 0" _ ?nd zero_sb
        "replicate 1024 0" sample_parse] fs t io(4) files_differ [of "bytes_of ''/''"]
    by (simp add: Let_def sample_clock_def)
  then obtain fs1 nd1 where run: "sarah_node_init (\<lambda>_. True) zero_sb (replicate 52 0) (replicate 1024 0) (sample_clock 100) sample_io
      sample_parse sample_files (Some (bytes_of ''/'')) = Some (fs1, nd1, 0)"
    using sample_load by (simp add: finish_init_def)
  have "nd_created_at nd1 = word_of_nat (ck_sec (sample_clock 100))
    \<and> (\<exists>fs2 nd2. sarah_node_init (\<lambda>_. True) zero_sb (replicate 52 0) (replicate 1024 0) (sample_clock 200) sample_io sample_parse
          fs1 (Some (bytes_of ''/'')) = Some (fs2, nd2, 0)
        \<and> nd_node_id nd2 = nd_node_id nd1 \<and> nd_created_at nd2 = nd_created_at nd1
        \<and> nd_last_boot_at nd2 = word_of_nat (ck_sec (sample_clock 200)))"
    using node_survives_reboot [OF run fs(1) macs io(1) length_replicate io(2-4) length_replicate, of 0 "sample_clock 200"]
    by blast
  moreover have "ck_sec (sample_clock n) = n" for n by (simp add: sample_clock_def)
  ultimately show ?thesis using run by (simp only: of_nat_numeral) metis
qed



end
