(* ===== verification/Ip2region.thy ===== *)
theory Ip2region
  imports FourBytes Numerals CelText
begin

text \<open>
  The address database of \<open>src/ext/ip2region/ip2region.c\<close>: the searches in memory and on the file, and the
  reading of a dotted address.

  A database is the list of its bytes; \<open>al\<close> says which block sizes \<open>malloc\<close> gives.  A position is an \<open>int\<close> in
  the code: one of \<open>2 ^ 31\<close> or more has no meaning in the model.  Reading outside of the block of the database
  is undefined, while a short \<open>fread\<close> ends the search with 0.  \<open>atoi(buffer) << p\<close> is taken to wrap, as
  compilers do.  The search over the header blocks is not modelled.

  Shown: both searches find the block of the address in a well-formed database and fill in the same data; an
  address behind the last block makes the search in memory read behind the index; a dotted address is read
  as its number.
\<close>

section \<open>Addresses\<close>

text \<open>The loop over the characters: the buffer of four characters, the number of characters in it, the shift
  of the next part and the value so far.\<close>

fun ip2long_loop :: "bytes \<Rightarrow> bytes \<Rightarrow> nat \<Rightarrow> int \<Rightarrow> u32 \<Rightarrow> (bytes \<times> nat \<times> u32) option" where
  "ip2long_loop [] buffer i p ipval = Some (buffer, i, ipval)"
| "ip2long_loop (c # cs) buffer i p ipval =
     (if c = 0 then Some (buffer, i, ipval)
      else if c = 32 then ip2long_loop cs buffer i p ipval
      else if c = 46 then
        if i > 3 then Some (buffer, i, 0)
        else if p < 0 then Some (buffer, i, ipval)
        else do {
          buffer \<leftarrow> wr buffer i 0;
          v \<leftarrow> atoi buffer;
          ip2long_loop cs buffer 0 (p - 8) (ipval OR push_bit (nat p) (word_of_int v)) }
      else do { buffer \<leftarrow> wr buffer i c; ip2long_loop cs buffer (i + 1) p ipval })"

definition ip2long :: "bytes \<Rightarrow> bytes \<Rightarrow> u32 option" where
  "ip2long buffer ip = do {
     (buffer, i, ipval) \<leftarrow> ip2long_loop ip buffer 0 24 0;
     (if i > 3 then Some 0
      else do {
        buffer \<leftarrow> wr buffer i 0;
        v \<leftarrow> atoi buffer;
        Some (ipval OR word_of_int v) }) }"

section \<open>The database\<close>

definition getUnsignedInt :: "bytes \<Rightarrow> nat \<Rightarrow> u32 option" where
  "getUnsignedInt buffer offset = read_unsigned_int buffer offset"

record ip2region =
  ir_dbHandler :: bytes
  ir_dbBinStr :: "bytes option"
  ir_firstIndexPtr :: u32
  ir_lastIndexPtr :: u32
  ir_totalBlocks :: u32

record datablock =
  db_city_id :: u32
  db_region :: bytes

text \<open>\<open>ip2region_create\<close>: the two header blocks, then the file.\<close>

definition ip2region_create :: "(nat \<Rightarrow> nat \<Rightarrow> bool) \<Rightarrow> bytes option \<Rightarrow> ip2region option" where
  "ip2region_create al dbFile =
     (if \<not> al 0 8192 \<or> \<not> al 1 8192 then None
      else case dbFile of None \<Rightarrow> None | Some f \<Rightarrow>
        Some \<lparr>ir_dbHandler = f, ir_dbBinStr = None, ir_firstIndexPtr = 0, ir_lastIndexPtr = 0, ir_totalBlocks = 0\<rparr>)"

text \<open>The binary search over the index blocks \<open>l\<close> to \<open>h\<close>.  \<open>get m k\<close> is the number at offset \<open>k\<close> of the
  block \<open>m\<close>: undefined, not there (the search returns 0), or a number.\<close>

function block_search :: "(int \<Rightarrow> nat \<Rightarrow> u32 option option) \<Rightarrow> u32 \<Rightarrow> int \<Rightarrow> int \<Rightarrow> u32 option option" where
  "block_search get ip l h =
     (if h < l then Some (Some 0)
      else
        let m = (l + h) div 2 in
        (case get m 0 of
           None \<Rightarrow> None
         | Some None \<Rightarrow> Some None
         | Some (Some sip) \<Rightarrow>
             if ip < sip then block_search get ip l (m - 1)
             else (case get m 4 of
                 None \<Rightarrow> None
               | Some None \<Rightarrow> Some None
               | Some (Some eip) \<Rightarrow> if eip < ip then block_search get ip (m + 1) h else get m 8)))"
  by auto
termination by (relation "measure (\<lambda>(_, _, l, h). nat (h - l + 1))") auto

declare block_search.simps [simp del]

text \<open>\<open>firstIndexPtr + m * INDEX_BLOCK_LENGTH\<close> as an \<open>int\<close>.\<close>

definition block_pos :: "u32 \<Rightarrow> int \<Rightarrow> nat option" where
  "block_pos first m = (let p = unat (first + word_of_int m * 12) in if p < 2 ^ 31 then Some p else None)"

definition memory_get :: "bytes \<Rightarrow> u32 \<Rightarrow> int \<Rightarrow> nat \<Rightarrow> u32 option option" where
  "memory_get db first m k = do { p \<leftarrow> block_pos first m; v \<leftarrow> getUnsignedInt db (p + k); Some (Some v) }"

definition file_get :: "bytes \<Rightarrow> u32 \<Rightarrow> int \<Rightarrow> nat \<Rightarrow> u32 option option" where
  "file_get db first m k = do {
     p \<leftarrow> block_pos first m;
     (if length db < p + 12 then Some None
      else do { v \<leftarrow> getUnsignedInt (take 12 (drop p db)) k; Some (Some v) }) }"

text \<open>Loading the two pointers of the super block.\<close>

definition set_index :: "ip2region \<Rightarrow> bytes \<Rightarrow> ip2region option" where
  "set_index r buffer = do {
     f \<leftarrow> getUnsignedInt buffer 0;
     l \<leftarrow> getUnsignedInt buffer 4;
     Some (r\<lparr>ir_firstIndexPtr := f, ir_lastIndexPtr := l, ir_totalBlocks := (l - f) div 12 + 1\<rparr>) }"

text \<open>\<open>datablock->region\<close> gets \<open>dataLen - 4\<close> bytes and a NUL; a length below 4 is a huge one for \<open>memcpy\<close>.\<close>

definition fill_data :: "bytes \<Rightarrow> nat \<Rightarrow> nat \<Rightarrow> datablock \<Rightarrow> datablock option" where
  "fill_data buffer off dataLen d = do {
     c \<leftarrow> getUnsignedInt buffer off;
     (if dataLen < 4 then None
      else do {
        region \<leftarrow> blit (db_region d) 0 (drop (off + 4) buffer) (dataLen - 4);
        region \<leftarrow> wr region (dataLen - 4) 0;
        Some \<lparr>db_city_id = c, db_region = region\<rparr> }) }"

definition data_len :: "u32 \<Rightarrow> nat" where
  "data_len dptr = unat (drop_bit 24 dptr AND 0xFF)"

definition data_ptr :: "u32 \<Rightarrow> nat" where
  "data_ptr dptr = unat (dptr AND 0x00FFFFFF)"

definition ip2region_memory_search ::
  "(nat \<Rightarrow> bool) \<Rightarrow> ip2region \<Rightarrow> u32 \<Rightarrow> datablock \<Rightarrow> (ip2region \<times> datablock \<times> nat) option" where
  "ip2region_memory_search al r ip d = do {
     (r, loaded) \<leftarrow> (case ir_dbBinStr r of
            Some _ \<Rightarrow> Some (r, True)
          | None \<Rightarrow>
              if \<not> al (length (ir_dbHandler r)) then Some (r, False)
              else do {
                let r = r\<lparr>ir_dbBinStr := Some (ir_dbHandler r)\<rparr>;
                (if ir_dbHandler r = [] then Some (r, False)
                 else do { r \<leftarrow> set_index r (ir_dbHandler r); Some (r, True) }) });
     (if \<not> loaded then Some (r, d, 0)
      else do {
        db \<leftarrow> ir_dbBinStr r;
        v \<leftarrow> block_search (memory_get db (ir_firstIndexPtr r)) ip 0 (to_int32 (unat (ir_totalBlocks r)));
        dptr \<leftarrow> v;
        (if dptr = 0 then Some (r, d, 0)
         else do {
           d \<leftarrow> fill_data db (data_ptr dptr) (data_len dptr) d;
           Some (r, d, 1) }) }) }"

text \<open>The search on the file reads each block, and then the data, into a local buffer of 256 bytes; what was
  in the buffer before shows when the data is shorter than four bytes.\<close>

definition ip2region_binary_search ::
  "bytes \<Rightarrow> ip2region \<Rightarrow> u32 \<Rightarrow> datablock \<Rightarrow> (ip2region \<times> datablock \<times> nat) option" where
  "ip2region_binary_search stale r ip d = do {
     r' \<leftarrow> (if ir_totalBlocks r \<noteq> 0 then Some (Some r)
          else if length (ir_dbHandler r) < 8 then Some None
          else do { r \<leftarrow> set_index r (take 8 (ir_dbHandler r)); Some (Some r) });
     (case r' of None \<Rightarrow> Some (r, d, 0) | Some r \<Rightarrow> do {
        v \<leftarrow> block_search (file_get (ir_dbHandler r) (ir_firstIndexPtr r)) ip 0 (to_int32 (unat (ir_totalBlocks r)));
        (case v of None \<Rightarrow> Some (r, d, 0) | Some dptr \<Rightarrow>
           if dptr = 0 then Some (r, d, 0)
           else if data_len dptr = 0 \<or> length (ir_dbHandler r) < data_ptr dptr + data_len dptr then Some (r, d, 0)
           else do {
             let buffer = take (data_len dptr) (drop (data_ptr dptr) (ir_dbHandler r)) @ drop (data_len dptr) stale;
             d \<leftarrow> fill_data buffer 0 (data_len dptr) d;
             Some (r, d, 1) }) }) }"

section \<open>The search finds the block\<close>

text \<open>A block of the index: first and last address and the pointer to its data.\<close>

type_synonym ip_block = "u32 \<times> u32 \<times> u32"

definition block_sip :: "ip_block \<Rightarrow> u32" where "block_sip b = fst b"
definition block_eip :: "ip_block \<Rightarrow> u32" where "block_eip b = fst (snd b)"
definition block_dptr :: "ip_block \<Rightarrow> u32" where "block_dptr b = snd (snd b)"

definition index_sorted :: "ip_block list \<Rightarrow> bool" where
  "index_sorted idx \<longleftrightarrow> (\<forall>i<length idx. block_sip (idx ! i) \<le> block_eip (idx ! i))
     \<and> (\<forall>j<length idx. \<forall>i<j. block_eip (idx ! i) < block_sip (idx ! j))"

definition ip_lookup :: "ip_block list \<Rightarrow> u32 \<Rightarrow> u32" where
  "ip_lookup idx ip =
     (case find (\<lambda>b. block_sip b \<le> ip \<and> ip \<le> block_eip b) idx of None \<Rightarrow> 0 | Some b \<Rightarrow> block_dptr b)"

text \<open>The access to the blocks of an index.\<close>

definition gets_index :: "(int \<Rightarrow> nat \<Rightarrow> u32 option option) \<Rightarrow> ip_block list \<Rightarrow> bool" where
  "gets_index get idx \<longleftrightarrow> (\<forall>m<length idx. get (int m) 0 = Some (Some (block_sip (idx ! m)))
     \<and> get (int m) 4 = Some (Some (block_eip (idx ! m))) \<and> get (int m) 8 = Some (Some (block_dptr (idx ! m))))"

lemma lookup_hit:
  assumes "index_sorted idx" "m < length idx" "block_sip (idx ! m) \<le> ip" "ip \<le> block_eip (idx ! m)"
  shows "ip_lookup idx ip = block_dptr (idx ! m)"
proof -
  have "find (\<lambda>b. block_sip b \<le> ip \<and> ip \<le> block_eip b) idx = Some (idx ! m)"
    unfolding find_Some_iff
  proof (intro exI [of _ m] conjI allI impI)
    fix j assume "j < m"
    then have "block_eip (idx ! j) < block_sip (idx ! m)" using assms(1,2) by (simp add: index_sorted_def)
    then show "\<not> (block_sip (idx ! j) \<le> ip \<and> ip \<le> block_eip (idx ! j))" using assms(3) by auto
  qed (use assms in auto)
  then show ?thesis by (simp add: ip_lookup_def)
qed

lemma lookup_miss:
  assumes "\<And>i. i < length idx \<Longrightarrow> ip < block_sip (idx ! i) \<or> block_eip (idx ! i) < ip"
  shows "ip_lookup idx ip = 0"
proof -
  have "find (\<lambda>b. block_sip b \<le> ip \<and> ip \<le> block_eip b) idx = None"
    unfolding find_None_iff using assms by (force simp: in_set_conv_nth)
  then show ?thesis by (simp add: ip_lookup_def)
qed

lemma middle:
  "0 \<le> l \<Longrightarrow> l \<le> h \<Longrightarrow> h \<le> int n \<Longrightarrow> \<exists>m. (l + h) div 2 = int m \<and> m \<le> n \<and> (m = n \<longrightarrow> l = int n)"
  by (intro exI [of _ "nat ((l + h) div 2)"]) (auto simp: nat_le_iff)

text \<open>The blocks before \<open>l\<close> end before the address, those behind \<open>h\<close> begin after it, and some block does not
  end before it: then the block behind the last one is never looked at.\<close>

lemma search_law:
  assumes "gets_index get idx" "index_sorted idx"
  shows "0 \<le> l \<Longrightarrow> h \<le> int (length idx) \<Longrightarrow>
    \<forall>i<length idx. int i < l \<longrightarrow> block_eip (idx ! i) < ip \<Longrightarrow> \<forall>i<length idx. h < int i \<longrightarrow> ip < block_sip (idx ! i) \<Longrightarrow>
    \<exists>i<length idx. ip \<le> block_eip (idx ! i) \<Longrightarrow>
    block_search get ip l h = Some (Some (ip_lookup idx ip))"
  using assms
proof (induction get ip l h rule: block_search.induct)
  case (1 get ip l h)
  show ?case
  proof (cases "h < l")
    case True
    have "ip_lookup idx ip = 0"
    proof (rule lookup_miss)
      fix i assume "i < length idx"
      then show "ip < block_sip (idx ! i) \<or> block_eip (idx ! i) < ip" using 1(5,6) True by (cases "int i < l") auto
    qed
    with True show ?thesis by (simp add: block_search.simps)
  next
    case False
    then obtain m where m: "(l + h) div 2 = int m" "m \<le> length idx" "m = length idx \<longrightarrow> l = int (length idx)"
      using middle [of l h "length idx"] 1(3,4) by auto
    have "m \<noteq> length idx" using m(3) 1(5,7) by auto
    with m(2) have lt: "m < length idx" by simp
    with 1(8) have g: "get (int m) 0 = Some (Some (block_sip (idx ! m)))" "get (int m) 4 = Some (Some (block_eip (idx ! m)))"
      "get (int m) 8 = Some (Some (block_dptr (idx ! m)))" by (auto simp: gets_index_def)
    have sorted: "block_sip (idx ! i) \<le> block_eip (idx ! i)" "i < j \<Longrightarrow> block_eip (idx ! i) < block_sip (idx ! j)"
      if "i < length idx" "j < length idx" for i j using 1(9) that by (auto simp: index_sorted_def)
    consider "ip < block_sip (idx ! m)" | "block_eip (idx ! m) < ip" | "block_sip (idx ! m) \<le> ip" "ip \<le> block_eip (idx ! m)"
      by fastforce
    then show ?thesis
    proof cases
      case 1
      have "ip < block_sip (idx ! i)" if "i < length idx" "int m - 1 < int i" for i
      proof (cases "i = m")
        case False
        with that sorted(1) [OF lt lt] sorted(2) [OF lt that(1)] 1 show ?thesis by simp
      qed (use 1 in simp)
      then have "block_search get ip l (int m - 1) = Some (Some (ip_lookup idx ip))"
        using "1.IH"(1) [OF False refl, unfolded m(1), OF g(1) refl 1] "1.prems" lt by auto
      with 1 g m(1) False show ?thesis by (simp add: block_search.simps [of get ip l h])
    next
      case 2
      have "block_eip (idx ! i) < ip" if "i < length idx" "int i < int m + 1" for i
      proof (cases "i = m")
        case False
        with that have "block_eip (idx ! i) < block_sip (idx ! m)" using sorted(2) [OF that(1) lt] by simp
        with sorted(1) [OF lt lt] 2 show ?thesis by order
      qed (use 2 in simp)
      moreover have ge: "\<not> ip < block_sip (idx ! m)" using sorted(1) [OF lt lt] 2 by order
      ultimately have "block_search get ip (int m + 1) h = Some (Some (ip_lookup idx ip))"
        using "1.IH"(2) [OF False refl, unfolded m(1), OF g(1) refl _ g(2) refl 2] "1.prems" by auto
      with 2 g m(1) False ge show ?thesis by (simp add: block_search.simps [of get ip l h] Let_def)
    next
      case 3
      then have "\<not> ip < block_sip (idx ! m)" "\<not> block_eip (idx ! m) < ip" by auto
      with lookup_hit [OF \<open>index_sorted idx\<close> lt 3] g m(1) False show ?thesis by (simp add: block_search.simps [of get ip l h] Let_def)
    qed
  qed
qed

text \<open>An address behind all blocks makes the search look at the block behind the last one.\<close>

lemma search_behind:
  assumes "gets_index get idx" "index_sorted idx" "get (int (length idx)) 0 = v" "v = None \<or> v = Some None"
  shows "0 \<le> l \<Longrightarrow> l \<le> int (length idx) \<Longrightarrow> h = int (length idx) \<Longrightarrow> \<forall>i<length idx. block_eip (idx ! i) < ip \<Longrightarrow>
    block_search get ip l h = v"
  using assms
proof (induction get ip l h rule: block_search.induct)
  case (1 get ip l h)
  have le: "\<not> h < l" using 1(4,5) by simp
  obtain m where m: "(l + h) div 2 = int m" "m \<le> length idx"
    using middle [of l h "length idx"] "1.prems"(1-3) le by (simp only: not_less) blast
  show ?case
  proof (cases "m = length idx")
    case True
    then have "get (int m) 0 = v" using "1.prems"(7) by simp
    with "1.prems"(8) show ?thesis by (elim disjE) (simp_all add: block_search.simps [of get ip l h] m(1) le Let_def)
  next
    case False
    with m(2) have lt: "m < length idx" by simp
    with 1(7) have g: "get (int m) 0 = Some (Some (block_sip (idx ! m)))" "get (int m) 4 = Some (Some (block_eip (idx ! m)))"
      by (auto simp: gets_index_def)
    have e: "block_eip (idx ! m) < ip" "block_sip (idx ! m) \<le> block_eip (idx ! m)"
      using "1.prems"(4,6) lt by (simp_all add: index_sorted_def)
    then have ge: "\<not> ip < block_sip (idx ! m)" by order
    have "block_search get ip (int m + 1) h = v"
      by (rule "1.IH"(2) [OF le refl, unfolded m(1), OF g(1) refl ge g(2) refl e(1)]) (use "1.prems" lt in simp_all)
    with g ge e(1) m(1) le show ?thesis by (simp add: block_search.simps [of get ip l h] Let_def)
  qed
qed

section \<open>Databases\<close>

definition block_bytes :: "ip_block \<Rightarrow> bytes" where
  "block_bytes b = four_bytes (block_sip b) @ four_bytes (block_eip b) @ four_bytes (block_dptr b)"

text \<open>A database: the positions of the first and the last block, other data, the index, and what follows it.\<close>

definition db_ok :: "bytes \<Rightarrow> ip_block list \<Rightarrow> bytes \<Rightarrow> bool" where
  "db_ok db idx rest \<longleftrightarrow> index_sorted idx \<and> idx \<noteq> [] \<and> length db < 2 ^ 31
     \<and> (\<exists>mid. let first = 8 + length mid in
          db = four_bytes (word_of_nat first) @ four_bytes (word_of_nat (first + 12 * (length idx - 1))) @ mid
             @ concat (map block_bytes idx) @ rest)"

lemma length_block_bytes [simp]: "length (block_bytes b) = 12"
  by (simp add: block_bytes_def)

lemma length_blocks [simp]: "length (concat (map block_bytes idx)) = 12 * length idx"
  by (induction idx) simp_all

lemma blocks_at:
  "m < length idx \<Longrightarrow> concat (map block_bytes idx) = concat (map block_bytes (take m idx)) @ block_bytes (idx ! m) @ concat (map block_bytes (drop (Suc m) idx))"
proof -
  assume "m < length idx"
  then have "idx = take m idx @ idx ! m # drop (Suc m) idx" by (rule id_take_nth_drop)
  then have "concat (map block_bytes idx) = concat (map block_bytes (take m idx @ idx ! m # drop (Suc m) idx))" by (rule arg_cong)
  then show ?thesis by simp
qed

lemma read_in: "read_unsigned_int (a @ c @ d) (length a + k) = read_unsigned_int (c @ d) k"
  by (simp add: read_unsigned_int_def rd_def nth_append)

lemma read_front: "k + 4 \<le> length c \<Longrightarrow> read_unsigned_int (c @ d) k = read_unsigned_int c k"
  by (simp add: read_unsigned_int_def rd_def nth_append)

lemma read_block:
  "read_unsigned_int (block_bytes b) 0 = Some (block_sip b)" "read_unsigned_int (block_bytes b) 4 = Some (block_eip b)"
  "read_unsigned_int (block_bytes b) 8 = Some (block_dptr b)"
  using read_law [of "[]" 0 "block_sip b" "four_bytes (block_eip b) @ four_bytes (block_dptr b)"]
    read_law [of "four_bytes (block_sip b)" 4 "block_eip b" "four_bytes (block_dptr b)"]
    read_law [of "four_bytes (block_sip b) @ four_bytes (block_eip b)" 8 "block_dptr b" "[]"]
  by (simp_all add: block_bytes_def)

lemma unat_small: "n < 2 ^ 32 \<Longrightarrow> unat (word_of_nat n :: u32) = n"
  by (simp add: unat_of_nat take_bit_nat_eq_self)

lemma block_pos_law:
  assumes "8 + k + 12 * m < 2 ^ 31"
  shows "block_pos (word_of_nat (8 + k)) (int m) = Some (8 + k + 12 * m)"
proof -
  have "(word_of_nat (8 + k) :: u32) + word_of_int (int m) * 12 = word_of_nat (8 + k + 12 * m)" by simp
  then show ?thesis using assms unat_small [of "8 + k + 12 * m"] by (simp only: block_pos_def Let_def) auto
qed

lemma total_law:
  assumes "8 + k + 12 * n < 2 ^ 31" "0 < n"
  shows "((word_of_nat (8 + k + 12 * (n - 1)) :: u32) - word_of_nat (8 + k)) div 12 + 1 = word_of_nat n"
proof -
  have "(word_of_nat (8 + k + 12 * (n - 1)) :: u32) - word_of_nat (8 + k) = word_of_nat (12 * (n - 1))"
    by (simp only: of_nat_add) simp
  moreover have "(word_of_nat (12 * (n - 1)) :: u32) div 12 = word_of_nat (n - 1)"
  proof -
    have "unat ((word_of_nat (12 * (n - 1)) :: u32) div 12) = 12 * (n - 1) div 12"
      using assms unat_small [of "12 * (n - 1)"] by (simp add: unat_div del: of_nat_mult)
    also have "\<dots> = unat (word_of_nat (n - 1) :: u32)" using assms unat_small [of "n - 1"] by simp
    finally show ?thesis by (simp add: word_unat_eq_iff)
  qed
  moreover have "(word_of_nat (n - 1) :: u32) + 1 = word_of_nat n" using assms(2) by (cases n) simp_all
  ultimately show ?thesis by simp
qed

text \<open>What a database gives to the code: its index.\<close>

lemma db_law:
  assumes "db_ok db idx rest"
  obtains first last where
    "\<forall>r. set_index r (take 8 db) = Some (r\<lparr>ir_firstIndexPtr := first, ir_lastIndexPtr := last,
        ir_totalBlocks := word_of_nat (length idx)\<rparr>)"
    "\<forall>r. set_index r db = set_index r (take 8 db)" "8 \<le> length db" "length idx < 2 ^ 31"
    "gets_index (memory_get db first) idx" "gets_index (file_get db first) idx"
    "rest = [] \<longrightarrow> memory_get db first (int (length idx)) 0 = None \<and> file_get db first (int (length idx)) 0 = Some None"
proof -
  obtain mid where db0: "db = four_bytes (word_of_nat (8 + length mid)) @ four_bytes (word_of_nat (8 + length mid + 12 * (length idx - 1)))
      @ mid @ concat (map block_bytes idx) @ rest" and ok: "index_sorted idx" "idx \<noteq> []" "length db < 2 ^ 31"
    using assms by (auto simp: db_ok_def Let_def)
  obtain first last :: u32 where fl: "first = word_of_nat (8 + length mid)"
    "last = word_of_nat (8 + length mid + 12 * (length idx - 1))" by simp
  obtain h where h: "h = four_bytes first @ four_bytes last @ mid" by simp
  have db: "db = h @ concat (map block_bytes idx) @ rest" unfolding h fl db0 by simp
  have lh: "length h = 8 + length mid" unfolding h by simp
  have len: "length db = length h + 12 * length idx + length rest" unfolding db by simp
  have t8: "take 8 db = four_bytes first @ four_bytes last" unfolding db h by simp
  have g: "getUnsignedInt (four_bytes first @ four_bytes last @ r) 0 = Some first"
    "getUnsignedInt (four_bytes first @ four_bytes last @ r) 4 = Some last" for r
    using read_law [of "[]" 0] read_law [of "four_bytes first" 4 last r] by (simp_all add: getUnsignedInt_def)
  have total: "(last - first) div 12 + 1 = word_of_nat (length idx)"
    unfolding fl by (rule total_law) (use ok len lh in simp_all)
  have 1: "set_index r (take 8 db) = Some (r\<lparr>ir_firstIndexPtr := first, ir_lastIndexPtr := last,
        ir_totalBlocks := word_of_nat (length idx)\<rparr>)" for r
    using g [of "[]"] total unfolding t8 set_index_def by simp
  have 2: "set_index r db = set_index r (take 8 db)" for r
    using g [of "[]"] g [of "mid @ concat (map block_bytes idx) @ rest"] unfolding t8 set_index_def db h by simp
  have pos: "block_pos first (int m) = Some (length h + 12 * m)" if "m \<le> length idx" for m
    unfolding fl(1) using block_pos_law [of "length mid" m] that len lh ok(3) by simp
  have at: "read_unsigned_int db (length h + 12 * m + k) = read_unsigned_int (block_bytes (idx ! m)) k"
    "take 12 (drop (length h + 12 * m) db) = block_bytes (idx ! m)" "length h + 12 * m + 12 \<le> length db"
    if m: "m < length idx" "k + 4 \<le> 12" for m k
  proof -
    let ?a = "h @ concat (map block_bytes (take m idx))"
    let ?d = "concat (map block_bytes (drop (Suc m) idx)) @ rest"
    have split: "db = ?a @ block_bytes (idx ! m) @ ?d" unfolding db by (subst blocks_at [OF m(1)]) simp
    have la: "length ?a = length h + 12 * m" using m(1) by simp
    show "read_unsigned_int db (length h + 12 * m + k) = read_unsigned_int (block_bytes (idx ! m)) k"
      unfolding la [symmetric] by (subst split) (use m(2) in \<open>simp only: read_in read_front length_block_bytes\<close>)
    show "take 12 (drop (length h + 12 * m) db) = block_bytes (idx ! m)"
      unfolding la [symmetric] by (subst split) simp
    show "length h + 12 * m + 12 \<le> length db" using m(1) len by simp
  qed
  have 3: "gets_index (memory_get db first) idx"
    using pos at(1) [of _ 0] at(1) [of _ 4] at(1) [of _ 8]
    by (simp add: gets_index_def memory_get_def getUnsignedInt_def read_block)
  have 4: "gets_index (file_get db first) idx"
    unfolding gets_index_def
  proof (intro allI impI)
    fix m assume m: "m < length idx"
    have "file_get db first (int m) k = do { v \<leftarrow> read_unsigned_int (block_bytes (idx ! m)) k; Some (Some v) }" for k
      using pos [of m] at(2,3) [OF m, of 0] m by (simp add: file_get_def getUnsignedInt_def)
    then show "file_get db first (int m) 0 = Some (Some (block_sip (idx ! m)))
     \<and> file_get db first (int m) 4 = Some (Some (block_eip (idx ! m))) \<and> file_get db first (int m) 8 = Some (Some (block_dptr (idx ! m)))"
      by (simp add: read_block)
  qed
  have 5: "memory_get db first (int (length idx)) 0 = None \<and> file_get db first (int (length idx)) 0 = Some None" if "rest = []"
    using pos [of "length idx"] len that
    by (simp add: memory_get_def file_get_def getUnsignedInt_def read_unsigned_int_def rd_def)
  show ?thesis using 1 2 3 4 5 len lh ok(3) by (intro that [of last first]) simp_all
qed

lemma data_len_bound: "data_len dptr < 256"
proof -
  have "unat (drop_bit 24 dptr AND 0xFF) \<le> unat (0xFF :: u32)" using word_and_le1 word_le_nat_alt by blast
  then show ?thesis by (simp add: data_len_def)
qed

text \<open>The data of a block, in the file and copied to a buffer.\<close>

lemma fill_law:
  assumes "4 \<le> n" "n < 256" "off + n \<le> length buffer" "length (db_region d) = 256"
  shows "\<exists>c. getUnsignedInt buffer off = Some c \<and> fill_data buffer off n d
    = Some \<lparr>db_city_id = c, db_region = take (n - 4) (drop (off + 4) buffer) @ 0 # drop (n - 3) (db_region d)\<rparr>"
proof -
  obtain c where c: "getUnsignedInt buffer off = Some c" using assms(1,3) by (simp add: getUnsignedInt_def read_unsigned_int_def rd_def)
  let ?t = "take (n - 4) (drop (off + 4) buffer)"
  have lt: "length ?t = n - 4" using assms(1,3) by simp
  have "blit (db_region d) 0 (drop (off + 4) buffer) (n - 4) = Some (?t @ drop (n - 4) (db_region d))"
  proof -
    have "n - 4 \<le> length buffer - (off + 4)" "n - 4 \<le> 256" using assms(1-3) by arith+
    then show ?thesis using assms(4) by (simp add: blit_def)
  qed
  moreover have "wr (?t @ drop (n - 4) (db_region d)) (n - 4) 0 = Some (?t @ 0 # drop (Suc (n - 4)) (db_region d))"
    using assms lt by (simp add: wr_def list_update_append upd_conv_take_nth_drop)
  moreover have "Suc (n - 4) = n - 3" using assms(1) by simp
  ultimately show ?thesis using c assms(1) by (intro exI [of _ c]) (simp add: fill_data_def)
qed

lemma read_copy:
  "4 \<le> n \<Longrightarrow> off + n \<le> length db \<Longrightarrow> getUnsignedInt (take n (drop off db) @ s) 0 = getUnsignedInt db off"
  by (simp add: getUnsignedInt_def read_unsigned_int_def rd_def nth_append)

lemma copied_law:
  assumes "4 \<le> n" "n < 256" "off + n \<le> length db" "length (db_region d) = 256"
  shows "fill_data (take n (drop off db) @ s) 0 n d = fill_data db off n d"
proof -
  have "take (n - 4) (drop 4 (take n (drop off db) @ s)) = take (n - 4) (drop (off + 4) db)"
    using assms(1,3) by (simp add: drop_take add.commute)
  with fill_law [OF assms] fill_law [of n 0 "take n (drop off db) @ s" d] read_copy [OF assms(1,3), of s] assms show ?thesis by auto
qed

text \<open>C16: on a well-formed database both searches agree: they find the block of the address, fill in its city
  and region and return 1, or return 0 when no block has the address or its block has no data.  For an
  address behind all blocks, with nothing behind the index, the search in memory reads outside of the
  database, for it looks at one block too many, while the search on the file returns 0.\<close>

theorem searches_find_block:
  assumes "db_ok db idx rest" "ir_dbHandler r = db" "ir_dbBinStr r = None" "ir_totalBlocks r = 0"
    and "length (db_region d) = 256" "al (length db)" "dptr = ip_lookup idx ip"
    and "dptr \<noteq> 0 \<longrightarrow> 4 \<le> data_len dptr \<and> data_ptr dptr + data_len dptr \<le> length db"
  shows "((\<exists>i<length idx. ip \<le> block_eip (idx ! i)) \<longrightarrow>
      (\<exists>rm rf d'. ip2region_memory_search al r ip d = Some (rm, d', if dptr = 0 then 0 else 1)
        \<and> ip2region_binary_search stale r ip d = Some (rf, d', if dptr = 0 then 0 else 1)
        \<and> (if dptr = 0 then d' = d
           else getUnsignedInt db (data_ptr dptr) = Some (db_city_id d')
             \<and> db_region d' = take (data_len dptr - 4) (drop (data_ptr dptr + 4) db) @ 0 # drop (data_len dptr - 3) (db_region d))))
    \<and> ((\<forall>i<length idx. block_eip (idx ! i) < ip) \<and> rest = [] \<longrightarrow>
        ip2region_memory_search al r ip d = None \<and> (\<exists>rf. ip2region_binary_search stale r ip d = Some (rf, d, 0)))"
proof -
  obtain first last where f: "\<forall>r. set_index r (take 8 db) = Some (r\<lparr>ir_firstIndexPtr := first, ir_lastIndexPtr := last,
        ir_totalBlocks := word_of_nat (length idx)\<rparr>)"
    "\<forall>r. set_index r db = set_index r (take 8 db)" "8 \<le> length db" "length idx < 2 ^ 31"
    "gets_index (memory_get db first) idx" "gets_index (file_get db first) idx"
    "rest = [] \<longrightarrow> memory_get db first (int (length idx)) 0 = None \<and> file_get db first (int (length idx)) 0 = Some None"
    using db_law [OF assms(1)] .
  have sorted: "index_sorted idx" using assms(1) by (simp add: db_ok_def)
  have n: "to_int32 (unat (word_of_nat (length idx) :: u32)) = int (length idx)"
    using unat_small [of "length idx"] f(4) by simp
  have ne: "db \<noteq> []" using f(3) by auto
  let ?ix = "\<lambda>r. r\<lparr>ir_firstIndexPtr := first, ir_lastIndexPtr := last,
        ir_totalBlocks := word_of_nat (length idx)\<rparr>"
  let ?rm = "?ix (r\<lparr>ir_dbBinStr := Some db\<rparr>)" and ?rf = "?ix r"
  have mem: "ip2region_memory_search al r ip d = do {
        v \<leftarrow> block_search (memory_get db first) ip 0 (int (length idx));
        dptr \<leftarrow> v;
        (if dptr = 0 then Some (?rm, d, 0)
         else do { d \<leftarrow> fill_data db (data_ptr dptr) (data_len dptr) d; Some (?rm, d, 1) }) }"
    using assms(2,3,6) ne f(1,2) by (simp add: ip2region_memory_search_def n)
  have bin: "ip2region_binary_search stale r ip d = do {
        v \<leftarrow> block_search (file_get db first) ip 0 (int (length idx));
        (case v of None \<Rightarrow> Some (?rf, d, 0) | Some dptr \<Rightarrow>
           if dptr = 0 then Some (?rf, d, 0)
           else if data_len dptr = 0 \<or> length db < data_ptr dptr + data_len dptr then Some (?rf, d, 0)
           else do {
             d \<leftarrow> fill_data (take (data_len dptr) (drop (data_ptr dptr) db) @ drop (data_len dptr) stale) 0 (data_len dptr) d;
             Some (?rf, d, 1) }) }"
    using assms(2,4) f(1,3) by (simp add: ip2region_binary_search_def n Let_def cong: option.case_cong if_cong)
  have A: "\<exists>rm rf d'. ip2region_memory_search al r ip d = Some (rm, d', if dptr = 0 then 0 else 1)
        \<and> ip2region_binary_search stale r ip d = Some (rf, d', if dptr = 0 then 0 else 1)
        \<and> (if dptr = 0 then d' = d
           else getUnsignedInt db (data_ptr dptr) = Some (db_city_id d')
             \<and> db_region d' = take (data_len dptr - 4) (drop (data_ptr dptr + 4) db) @ 0 # drop (data_len dptr - 3) (db_region d))"
    if "\<exists>i<length idx. ip \<le> block_eip (idx ! i)"
  proof -
    have s: "block_search (memory_get db first) ip 0 (int (length idx)) = Some (Some dptr)"
      "block_search (file_get db first) ip 0 (int (length idx)) = Some (Some dptr)"
      unfolding assms(7) using f(5,6) that by (auto intro!: search_law [OF _ sorted])
    show ?thesis
    proof (cases "dptr = 0")
      case True
      with s show ?thesis unfolding mem bin by simp
    next
      case False
      with assms(8) have dl: "4 \<le> data_len dptr" "data_ptr dptr + data_len dptr \<le> length db" by auto
      obtain c where c: "getUnsignedInt db (data_ptr dptr) = Some c" "fill_data db (data_ptr dptr) (data_len dptr) d
        = Some \<lparr>db_city_id = c, db_region = take (data_len dptr - 4) (drop (data_ptr dptr + 4) db) @ 0 # drop (data_len dptr - 3) (db_region d)\<rparr>"
        using fill_law [OF dl(1) data_len_bound dl(2) assms(5)] by blast
      with False s dl show ?thesis unfolding mem bin
        by (simp add: copied_law [OF dl(1) data_len_bound dl(2) assms(5)])
    qed
  qed
  have B: "ip2region_memory_search al r ip d = None \<and> (\<exists>rf. ip2region_binary_search stale r ip d = Some (rf, d, 0))"
    if "(\<forall>i<length idx. block_eip (idx ! i) < ip) \<and> rest = []"
  proof -
    have "block_search (memory_get db first) ip 0 (int (length idx)) = None"
      using search_behind [OF f(5) sorted refl, of 0 "int (length idx)" ip] f(7) that by auto
    moreover have "block_search (file_get db first) ip 0 (int (length idx)) = Some None"
      using search_behind [OF f(6) sorted refl, of 0 "int (length idx)" ip] f(7) that by auto
    ultimately show ?thesis unfolding mem bin by simp
  qed
  from A B show ?thesis by blast
qed

text \<open>A database with one block: the addresses 5 to 9, whose data are six bytes at position 8.\<close>

definition sample_db :: bytes where
  "sample_db = four_bytes 14 @ four_bytes 14 @ [7, 0, 0, 0, 65, 66] @ four_bytes 5 @ four_bytes 9 @ four_bytes 0x06000008"

definition sample_region :: ip2region where
  "sample_region = \<lparr>ir_dbHandler = sample_db, ir_dbBinStr = None, ir_firstIndexPtr = 0, ir_lastIndexPtr = 0, ir_totalBlocks = 0\<rparr>"

lemma searches_find_block_witness:
  "\<exists>rm rf d'. ip2region_memory_search (\<lambda>_. True) sample_region 6 \<lparr>db_city_id = 0, db_region = replicate 256 0\<rparr> = Some (rm, d', 1)
     \<and> ip2region_binary_search [] sample_region 6 \<lparr>db_city_id = 0, db_region = replicate 256 0\<rparr> = Some (rf, d', 1)
     \<and> db_city_id d' = 7 \<and> take 3 (db_region d') = [65, 66, 0]"
proof -
  let ?idx = "[(5, 9, 0x06000008)] :: ip_block list"
  let ?d = "\<lparr>db_city_id = 0, db_region = replicate 256 0\<rparr> :: datablock"
  have ok: "db_ok sample_db ?idx []"
    unfolding db_ok_def sample_db_def Let_def
    by (intro conjI exI [of _ "[7, 0, 0, 0, 65, 66]"])
      (simp_all add: index_sorted_def block_sip_def block_eip_def block_dptr_def block_bytes_def)
  have look: "ip_lookup ?idx 6 = 0x06000008" by (simp add: ip_lookup_def block_sip_def block_eip_def block_dptr_def)
  have data: "data_len 0x06000008 = 6" "data_ptr 0x06000008 = 8" by (simp_all add: data_len_def data_ptr_def)
  have len: "length sample_db = 26" by (simp add: sample_db_def)
  have city: "getUnsignedInt sample_db 8 = Some 7" "take 2 (drop 12 sample_db) = [65, 66]"
    using read_law [of "four_bytes 14 @ four_bytes 14" 8 7 "[65, 66] @ four_bytes 5 @ four_bytes 9 @ four_bytes 0x06000008"]
    by (simp_all add: getUnsignedInt_def sample_db_def four_bytes_def)
  show ?thesis
    using searches_find_block [OF ok, of sample_region ?d "\<lambda>_. True" "0x06000008" 6 "[]"] look data len city
    by (auto simp: sample_region_def block_eip_def)
qed

section \<open>Dotted addresses\<close>

lemma or_add:
  assumes "y < 2 ^ k"
  shows "word_of_nat (x * 2 ^ k) OR word_of_nat y = (word_of_nat (x * 2 ^ k + y) :: u32)"
proof -
  have y: "(word_of_nat y :: u32) = take_bit k (word_of_nat y)"
    using assms by (simp add: take_bit_of_nat take_bit_nat_eq_self)
  have x: "(word_of_nat (x * 2 ^ k) :: u32) = push_bit k (word_of_nat x)"
    by (simp add: push_bit_eq_mult)
  have "(word_of_nat (x * 2 ^ k) :: u32) + word_of_nat y = word_of_nat (x * 2 ^ k) OR word_of_nat y"
  proof (rule disjunctive_add)
    fix n
    show "\<not> bit (word_of_nat (x * 2 ^ k) :: u32) n \<or> \<not> bit (word_of_nat y :: u32) n"
      by (subst x, subst y) (auto simp: bit_push_bit_iff bit_take_bit_iff)
  qed
  then show ?thesis by simp
qed

lemma part_digits:
  "list_all is_digit ds \<Longrightarrow> i + length ds \<le> 4 \<Longrightarrow> length buffer = 4 \<Longrightarrow>
   ip2long_loop (ds @ cs) buffer i p v
    = ip2long_loop cs (take i buffer @ ds @ drop (i + length ds) buffer) (i + length ds) p v"
proof (induction ds arbitrary: i buffer)
  case (Cons d ds)
  have d: "d \<noteq> 0" "d \<noteq> 32" "d \<noteq> 46" using Cons.prems(1) by (auto simp: is_digit_def)
  have "ip2long_loop (ds @ cs) (buffer[i := d]) (Suc i) p v
    = ip2long_loop cs (take (Suc i) (buffer[i := d]) @ ds @ drop (Suc i + length ds) (buffer[i := d])) (Suc i + length ds) p v"
    using Cons.prems by (intro Cons.IH) auto
  with Cons.prems d show ?case by (simp add: wr_def take_update_end)
qed simp

lemma atoi_part: "n < 256 \<Longrightarrow> atoi (dec_digits n @ 0 # r) = Some (int n)"
  using atoi_signed [of "int n" r] by (simp add: signed_digits_def)

lemma part_length: "n < 256 \<Longrightarrow> length (dec_digits n) \<le> 3"
  by (rule length_dec_digits) simp_all

text \<open>A part with its dot.\<close>

lemma part_law:
  assumes "n < 256" "length buffer = 4"
  shows "\<exists>b. length b = 4 \<and> ip2long_loop (dec_digits n @ cs) buffer 0 p v = ip2long_loop cs b (length (dec_digits n)) p v
     \<and> (\<exists>b'. length b' = 4 \<and> wr b (length (dec_digits n)) 0 = Some b' \<and> atoi b' = Some (int n))"
proof -
  let ?b = "dec_digits n @ drop (length (dec_digits n)) buffer"
  have l: "length (dec_digits n) \<le> 3" using part_length [OF assms(1)] .
  have "?b[length (dec_digits n) := 0] = dec_digits n @ 0 # drop (Suc (length (dec_digits n))) buffer"
    using l assms(2) by (simp add: list_update_append upd_conv_take_nth_drop)
  with l assms atoi_part [OF assms(1)] part_digits [of "dec_digits n" 0 buffer cs p v] dec_digits_read [of n] show ?thesis
    by (intro exI [of _ ?b]) (simp add: wr_def)
qed

lemma dot_law:
  assumes "n < 256" "length buffer = 4"
  shows "\<exists>b. length b = 4 \<and> ip2long_loop (dec_digits n @ 46 # cs) buffer 0 (int k) v
    = ip2long_loop cs b 0 (int k - 8) (v OR push_bit k (word_of_int (int n)))"
  using part_law [OF assms, of "46 # cs" "int k" v] part_length [OF assms(1)] by auto

text \<open>A dotted address is read as its number.  A part of four characters gives 0, one of five is written
  behind the buffer of the part.\<close>

theorem ip2long_dotted:
  assumes "a < 256" "b < 256" "c < 256" "d < 256" "length buffer = 4"
  shows "ip2long buffer (dec_digits a @ 46 # dec_digits b @ 46 # dec_digits c @ 46 # dec_digits d)
      = Some (word_of_nat (a * 2 ^ 24 + b * 2 ^ 16 + c * 2 ^ 8 + d))
    \<and> ip2long buffer ([48, 48, 48, 48, 46] @ s) = Some 0
    \<and> ip2long buffer ([48, 48, 48, 48, 48] @ s) = None"
proof (intro conjI)
  let ?cs = "dec_digits b @ 46 # dec_digits c @ 46 # dec_digits d"
  obtain b1 where b1: "length b1 = 4" "ip2long_loop (dec_digits a @ 46 # ?cs) buffer 0 24 0
      = ip2long_loop ?cs b1 0 16 (push_bit 24 (word_of_int (int a)))"
    using dot_law [OF assms(1,5), of ?cs 24 0] by auto
  let ?va = "push_bit 24 (word_of_int (int a)) :: u32"
  obtain b2 where b2: "length b2 = 4" "ip2long_loop ?cs b1 0 16 ?va
      = ip2long_loop (dec_digits c @ 46 # dec_digits d) b2 0 8 (?va OR push_bit 16 (word_of_int (int b)))"
    using dot_law [OF assms(2) b1(1), of "dec_digits c @ 46 # dec_digits d" 16 ?va] by auto
  let ?vb = "?va OR push_bit 16 (word_of_int (int b)) :: u32"
  obtain b3 where b3: "length b3 = 4" "ip2long_loop (dec_digits c @ 46 # dec_digits d) b2 0 8 ?vb
      = ip2long_loop (dec_digits d) b3 0 0 (?vb OR push_bit 8 (word_of_int (int c)))"
    using dot_law [OF assms(3) b2(1), of "dec_digits d" 8 ?vb] by auto
  let ?vc = "?vb OR push_bit 8 (word_of_int (int c)) :: u32"
  obtain b4 b5 where b4: "ip2long_loop (dec_digits d) b3 0 0 ?vc = Some (b4, length (dec_digits d), ?vc)"
    "wr b4 (length (dec_digits d)) 0 = Some b5" "atoi b5 = Some (int d)"
    using part_law [OF assms(4) b3(1), of "[]" 0 ?vc] by auto
  have pb: "push_bit k (word_of_int (int n)) = (word_of_nat (n * 2 ^ k) :: u32)" for k n
    by (simp add: push_bit_eq_mult)
  have "?va = word_of_nat (a * 2 ^ 24)" unfolding pb ..
  moreover have "word_of_nat (a * 2 ^ 24) OR word_of_nat (b * 2 ^ 16) = (word_of_nat (a * 2 ^ 24 + b * 2 ^ 16) :: u32)"
    using assms(2) by (intro or_add) simp
  moreover have "word_of_nat ((a * 2 ^ 8 + b) * 2 ^ 16) OR word_of_nat (c * 2 ^ 8) = (word_of_nat ((a * 2 ^ 8 + b) * 2 ^ 16 + c * 2 ^ 8) :: u32)"
    using assms(3) by (intro or_add) simp
  moreover have "(a * 2 ^ 8 + b) * 2 ^ 16 = a * 2 ^ 24 + b * 2 ^ 16" by simp
  ultimately have vc: "?vc = word_of_nat (a * 2 ^ 24 + b * 2 ^ 16 + c * 2 ^ 8)" unfolding pb by (simp only:)
  have "word_of_nat ((a * 2 ^ 16 + b * 2 ^ 8 + c) * 2 ^ 8) OR word_of_nat d = (word_of_nat ((a * 2 ^ 16 + b * 2 ^ 8 + c) * 2 ^ 8 + d) :: u32)"
    using assms(4) by (intro or_add) simp
  moreover have "(a * 2 ^ 16 + b * 2 ^ 8 + c) * 2 ^ 8 = a * 2 ^ 24 + b * 2 ^ 16 + c * 2 ^ 8" by simp
  ultimately have vd: "?vc OR word_of_int (int d) = word_of_nat (a * 2 ^ 24 + b * 2 ^ 16 + c * 2 ^ 8 + d)"
    unfolding vc by (simp only: of_int_of_nat_eq)
  show "ip2long buffer (dec_digits a @ 46 # dec_digits b @ 46 # dec_digits c @ 46 # dec_digits d)
      = Some (word_of_nat (a * 2 ^ 24 + b * 2 ^ 16 + c * 2 ^ 8 + d))"
    unfolding ip2long_def b1(2) b2(2) b3(2) b4(1) using b4(2,3) part_length [OF assms(4)] vd by simp
qed (use assms(5) in \<open>auto simp: ip2long_def wr_def\<close>)

lemma ip2long_dotted_witness:
  "ip2long [0, 0, 0, 0] (dec_digits 10 @ 46 # dec_digits 0 @ 46 # dec_digits 0 @ 46 # dec_digits 1) = Some 167772161"
  using ip2long_dotted [of 10 0 0 1 "[0, 0, 0, 0]" "[]"] by simp

end
