(* ===== verification/Smartdisk.thy ===== *)
theory Smartdisk
  imports CelHashmap CelText Numerals
begin

text \<open>
  The disk application: \<open>src/main/app_smartdisk.c\<close> with the parts of \<open>src/main/disk.c\<close> it decides
  by, the known file systems and the partition number at the end of a device name.

  The partition count of the main loop is a client of the locale \<open>tally_map\<close>; it sees the disk list as
  the list of its pairs of identifier (\<open>wwn\<close>) and partition number.  Partition starts and sizes are
  64-bit block numbers.  Mounting works in the 256-byte buffer \<open>_target\<close>; the system calls are the
  fields of a record of outcomes.

  Shown: the count is exact; the start of every partition and the block lost between two; the mount
  point that is made, and its error codes.
\<close>

section \<open>Counting partitions\<close>

text \<open>The loop of \<open>sarah_smartdisk_application\<close> that fills \<open>disk_map\<close>.\<close>

fun count_partitions ::
  "('m \<Rightarrow> bytes \<Rightarrow> nat option) \<Rightarrow> ('m \<Rightarrow> bytes \<Rightarrow> int \<Rightarrow> ('m \<times> nat) option) \<Rightarrow> ('m \<Rightarrow> bytes \<Rightarrow> int \<Rightarrow> ('m \<times> nat) option)
   \<Rightarrow> 'm \<Rightarrow> (bytes \<times> int) list \<Rightarrow> 'm option" where
  "count_partitions has inc put m [] = Some m"
| "count_partitions has inc put m ((wwn, part_no) # ds) = do {
     e \<leftarrow> has m wwn;
     m \<leftarrow> (if e = 1
           then (if part_no > - 1 then do { (m, _) \<leftarrow> inc m wwn 1; Some m } else Some m)
           else do { (m, _) \<leftarrow> put m wwn (if part_no = - 1 then 0 else 1); Some m });
     count_partitions has inc put m ds }"

definition partitions_of :: "(bytes \<times> int) list \<Rightarrow> bytes \<Rightarrow> nat" where
  "partitions_of ds w = length (filter (\<lambda>(w', n). w' = w \<and> n > - 1) ds)"

definition tally_of :: "(bytes \<times> int) list \<Rightarrow> bytes \<Rightarrow> int option" where
  "tally_of ds w = (if w \<in> fst ` set ds then Some (int (partitions_of ds w)) else None)"

lemma tally_of_snoc:
  "tally_of (ds @ [(w, n)]) = (tally_of ds)(w \<mapsto> int (partitions_of ds w) + (if n > - 1 then 1 else 0))"
  by (auto simp: tally_of_def partitions_of_def fun_eq_iff)

lemma partitions_of_bound: "partitions_of ds w \<le> length ds"
  by (simp add: partitions_of_def)

lemma partitions_of_absent: "w \<notin> fst ` set ds \<Longrightarrow> partitions_of ds w = 0"
  by (auto simp: partitions_of_def filter_empty_conv image_iff)

context tally_map
begin

lemma count_from:
  "wf m \<Longrightarrow> view m = tally_of done \<Longrightarrow> used m \<le> length done \<Longrightarrow> length done + length ds \<le> room m \<Longrightarrow>
   length done + length ds < 2 ^ 31 \<Longrightarrow> \<forall>(w, n) \<in> set ds. - 1 \<le> n \<Longrightarrow>
   \<exists>m'. count_partitions has inc put m ds = Some m' \<and> wf m' \<and> view m' = tally_of (done @ ds)"
proof (induction ds arbitrary: m "done")
  case Nil
  then show ?case by simp
next
  case (Cons d ds)
  obtain w n where d: "d = (w, n)" by (cases d)
  have n: "- 1 \<le> n" using Cons.prems(6) by (simp add: d)
  obtain m1 where m1: "(do { e \<leftarrow> has m w;
       m \<leftarrow> (if e = 1 then (if n > - 1 then do { (m, _) \<leftarrow> inc m w 1; Some m } else Some m)
             else do { (m, _) \<leftarrow> put m w (if n = - 1 then 0 else 1); Some m });
       Some m }) = Some m1" "wf m1" "view m1 = tally_of (done @ [d])" "used m1 \<le> length (done @ [d])" "room m1 = room m"
  proof (cases "w \<in> fst ` set done")
    case True
    then have v: "view m w = Some (int (partitions_of done w))" using Cons.prems(2) by (simp add: tally_of_def)
    show ?thesis
    proof (cases "n > - 1")
      case True
      have "int (partitions_of done w) + 1 < 2 ^ 31"
        using partitions_of_bound [of "done" w] Cons.prems(5) by simp
      then obtain m1 where "inc m w 1 = Some (m1, 1)" "wf m1" "view m1 = (view m)(w \<mapsto> int (partitions_of done w) + 1)"
        "used m1 = used m" "room m1 = room m"
        using inc_law [OF Cons.prems(1) v, of 1] by auto
      with True v Cons.prems(1-3) that [of m1] show ?thesis by (simp add: has_law d tally_of_snoc)
    next
      case False
      moreover have "tally_of (done @ [d]) = tally_of done" using v Cons.prems(2) False by (auto simp: d tally_of_snoc)
      ultimately show ?thesis using v Cons.prems(1-3) that [of m] by (simp add: has_law)
    qed
  next
    case False
    then have v: "view m w = None" using Cons.prems(2) by (simp add: tally_of_def)
    have "used m < room m" using Cons.prems(3,4) by simp
    then obtain m1 where "put m w (if n = - 1 then 0 else 1) = Some (m1, 1)" "wf m1"
      "view m1 = (view m)(w \<mapsto> (if n = - 1 then 0 else 1))" "used m1 \<le> used m + 1" "room m1 = room m"
      using put_law [OF Cons.prems(1), of w "if n = - 1 then 0 else 1"] by auto
    moreover from this have "view m1 = tally_of (done @ [d])"
      using False n Cons.prems(2) by (auto simp: d tally_of_snoc partitions_of_absent)
    ultimately show ?thesis using v Cons.prems(1,3) that [of m1] by (simp add: has_law)
  qed
  have "\<exists>m'. count_partitions has inc put m1 ds = Some m' \<and> wf m' \<and> view m' = tally_of ((done @ [d]) @ ds)"
    using Cons.prems(4-6) m1(2-5) by (intro Cons.IH) auto
  moreover have "count_partitions has inc put m (d # ds) = count_partitions has inc put m1 ds"
    using m1(1) has_law [OF Cons.prems(1), of w] by (auto simp: d split: if_splits option.splits bind_splits)
  ultimately show ?case by simp
qed

lemma count_after_clear:
  assumes "wf m" "length ds \<le> room m" "length ds < 2 ^ 31" "\<forall>(w, n) \<in> set ds. - 1 \<le> n"
  shows "\<exists>m0 m'. clear m = Some m0 \<and> count_partitions has inc put m0 ds = Some m' \<and> wf m' \<and> view m' = tally_of ds"
proof -
  obtain m0 where m0: "clear m = Some m0" "wf m0" "view m0 = Map.empty" "used m0 = 0" "room m0 = room m"
    using clear_law [OF assms(1)] by blast
  moreover have "view m0 = tally_of []" using m0(3) by (simp add: tally_of_def fun_eq_iff)
  ultimately show ?thesis using count_from [of m0 "[]" ds] assms(2-4) by auto
qed

end

section \<open>Known file systems and device numbers\<close>

definition all_types :: "bytes list" where
  "all_types = map bytes_of [''fat16'', ''fat32'', ''ntfs'', ''exfat'', ''hpfs'', ''ext2'', ''ext3'', ''ext4'',
     ''vfat'', ''jfs'', ''xfs'']"

text \<open>The loop looks at the first \<open>len = 10\<close> of the eleven names; 0 says valid.\<close>

fun disk_type_loop :: "bytes \<Rightarrow> bytes list \<Rightarrow> nat \<Rightarrow> nat" where
  "disk_type_loop t names 0 = 1"
| "disk_type_loop t [] (Suc n) = 1"
| "disk_type_loop t (x # xs) (Suc n) = (if map to_lower t = map to_lower x then 0 else disk_type_loop t xs n)"

definition sarah_is_valid_disk_type :: "bytes \<Rightarrow> nat" where
  "sarah_is_valid_disk_type t = disk_type_loop t all_types 10"

text \<open>\<open>_get_tailing_integer\<close>: the trailing digits are copied to a zeroed buffer of 12 bytes and read by
  \<open>atoi\<close>, which is undefined for a number that is no \<open>int\<close> and needs the NUL.  The result is the
  return code and the number stored.\<close>

fun digit_scan :: "bytes \<Rightarrow> nat \<Rightarrow> nat" where
  "digit_scan src 0 = 0"
| "digit_scan src (Suc i) = (if is_digit (src ! i) then digit_scan src i else Suc i)"

definition get_tailing_integer :: "bytes \<Rightarrow> (nat \<times> int option) option" where
  "get_tailing_integer src =
     (let i = digit_scan src (length src) in
      if i = length src then Some (1, None)
      else do {
        buf \<leftarrow> blit (replicate 12 0) 0 (drop i src) (length src - i);
        n \<leftarrow> strlen buf;
        v \<leftarrow> int32 (int (decimal (take n buf)));
        Some (0, Some v) })"

text \<open>\<open>_smartdisk_scan_filter\<close>: 1 drops the disk.\<close>

definition smartdisk_scan_filter :: "bytes \<Rightarrow> bytes \<Rightarrow> int \<Rightarrow> nat" where
  "smartdisk_scan_filter name format step =
     (if step = - 1 then
        (if take 9 name = bytes_of ''/dev/loop'' \<or> take 8 name = bytes_of ''/dev/ram'' then 1 else 0)
      else if step = 1 then (if sarah_is_valid_disk_type format > 0 then 1 else 0)
      else 0)"

section \<open>Dividing a disk\<close>

definition part_offset :: nat where
  "part_offset = 4294967296"

definition wrap64 :: "nat \<Rightarrow> nat" where
  "wrap64 n = n mod 2 ^ 64"

text \<open>The first loop counts; with a disk of nearly \<open>2\<^sup>6\<^sup>4\<close> blocks it would not end.\<close>

partial_function (option) part_count :: "nat \<Rightarrow> nat \<Rightarrow> nat \<Rightarrow> nat option" where
  "part_count blocks cur n =
     (if cur < blocks then part_count blocks (wrap64 (cur + part_offset)) (n + 1) else Some n)"

text \<open>The second loop: \<open>k\<close> partitions are left before the last one.  The result lists starts and
  sizes.\<close>

fun part_fill :: "nat \<Rightarrow> nat \<Rightarrow> nat \<Rightarrow> (nat \<times> nat) list" where
  "part_fill blocks cur 0 = [(cur, wrap64 (blocks + 2 ^ 64 - cur))]"
| "part_fill blocks cur (Suc k) = (cur, part_offset) # part_fill blocks (wrap64 (cur + (part_offset + 1))) k"

definition get_disk_partitions_by_offset :: "nat \<Rightarrow> (nat \<times> nat) list option" where
  "get_disk_partitions_by_offset blocks = do {
     n \<leftarrow> part_count blocks 0 0;
     (if n = 0 then None else Some (part_fill blocks 0 (n - 1))) }"

section \<open>Mounting\<close>

text \<open>The outcomes of the system calls on a path; \<open>path_mount\<close> takes the first three arguments of \<open>mount\<close>: device,
  target and format.\<close>

record mount_env =
  path_exists :: "bytes \<Rightarrow> bool"
  path_mkdir :: "bytes \<Rightarrow> bool"
  path_mount :: "bytes \<Rightarrow> bytes \<Rightarrow> bytes \<Rightarrow> bool"
  path_chmod :: "bytes \<Rightarrow> bool"

text \<open>The loop \<open>for ( ; _target[len-1] == '/'; len-- )\<close> has no lower bound.\<close>

fun strip_slashes :: "bytes \<Rightarrow> nat \<Rightarrow> (bytes \<times> nat) option" where
  "strip_slashes t 0 = None"
| "strip_slashes t (Suc n) = do {
     c \<leftarrow> rd t n;
     (if c = 47 then do { t \<leftarrow> wr t n 0; strip_slashes t n } else Some (t, Suc n)) }"

definition mount_name :: "bytes \<Rightarrow> bytes \<Rightarrow> int \<Rightarrow> bytes" where
  "mount_name prefix wwn part_no = 47 # prefix @ wwn @ bytes_of ''_part'' @ signed_digits part_no"

text \<open>\<open>sarah_disk_mount\<close>: the error number and the 156-byte \<open>mount\<close> field of the disk.\<close>

definition sarah_disk_mount ::
  "mount_env \<Rightarrow> bytes \<Rightarrow> bytes \<Rightarrow> bytes \<Rightarrow> bytes \<Rightarrow> bytes \<Rightarrow> int \<Rightarrow> bytes \<Rightarrow> (nat \<times> bytes) option" where
  "sarah_disk_mount env base prefix device format wwn part_no field = do {
     t \<leftarrow> blit (replicate 256 0) 0 base (length base);
     (t, len) \<leftarrow> strip_slashes t (length base);
     (if \<not> path_exists env base \<and> \<not> path_mkdir env base then Some (1, field)
      else do {
        let name = mount_name prefix wwn part_no;
        t \<leftarrow> blit t len (name @ [0]) (length name + 1);
        let target = cstr t;
        (if \<not> path_exists env target \<and> \<not> path_mkdir env target then Some (2, field)
         else if \<not> path_mount env device target format then Some (3, field)
         else do {
           field \<leftarrow> blit field 0 target (length target);
           (if \<not> path_chmod env target then Some (4, field) else Some (0, field)) }) }) }"

section \<open>Lemmas\<close>

lemma disk_type_loop_iff: "disk_type_loop t xs n = (if map to_lower t \<in> map to_lower ` set (take n xs) then 0 else 1)"
  by (induction t xs n rule: disk_type_loop.induct) auto

lemma digit_scan_split:
  "list_all is_digit ds \<Longrightarrow> p = [] \<or> \<not> is_digit (last p) \<Longrightarrow> digit_scan (p @ ds) (length p + length ds) = length p"
proof (induction ds rule: rev_induct)
  case Nil
  show ?case
  proof (cases p rule: rev_cases)
    case (snoc q x)
    then show ?thesis using Nil by (simp add: nth_append)
  qed simp
next
  case (snoc d ds)
  have "digit_scan (p @ ds @ [d]) n = digit_scan (p @ ds) n" if "n \<le> length (p @ ds)" for n
    using that by (induction n) (auto simp: nth_append)
  with snoc show ?case by (simp add: nth_append)
qed

lemma part_count_eq:
  "cur + part_offset * k < 2 ^ 63 + part_offset \<Longrightarrow> blocks \<le> cur + part_offset * k \<Longrightarrow> blocks < 2 ^ 63 \<Longrightarrow>
   k = 0 \<or> cur + part_offset * (k - 1) < blocks \<Longrightarrow> part_count blocks cur n = Some (n + k)"
proof (induction k arbitrary: cur n)
  case 0
  then show ?case by (subst part_count.simps) simp
next
  case (Suc k)
  have lt: "cur < blocks" using Suc.prems(4) by (auto simp: part_offset_def)
  then have "wrap64 (cur + part_offset) = cur + part_offset"
    using Suc.prems(3) by (simp add: wrap64_def part_offset_def)
  moreover have "part_count blocks (cur + part_offset) (n + 1) = Some (n + 1 + k)"
    using Suc.prems by (intro Suc.IH) (cases k; auto simp: algebra_simps part_offset_def)+
  ultimately show ?case using lt by (subst part_count.simps) simp
qed

lemma part_fill_nth:
  "cur + (part_offset + 1) * k < 2 ^ 64 \<Longrightarrow> length (part_fill blocks cur k) = k + 1
   \<and> (\<forall>i < k. part_fill blocks cur k ! i = (cur + (part_offset + 1) * i, part_offset))
   \<and> part_fill blocks cur k ! k = (cur + (part_offset + 1) * k, wrap64 (blocks + 2 ^ 64 - (cur + (part_offset + 1) * k)))"
proof (induction k arbitrary: cur)
  case 0
  then show ?case by simp
next
  case (Suc k)
  let ?c = "cur + (part_offset + 1)"
  have w: "wrap64 ?c = ?c" using Suc.prems by (simp add: wrap64_def)
  have step: "?c + (part_offset + 1) * i = cur + (part_offset + 1) * Suc i" for i by simp
  have "?c + (part_offset + 1) * k < 2 ^ 64" using Suc.prems unfolding step .
  note IH = Suc.IH [OF this, unfolded step]
  have "part_fill blocks cur (Suc k) ! i = (cur + (part_offset + 1) * i, part_offset)" if "i < Suc k" for i
  proof (cases i)
    case (Suc j)
    then show ?thesis using IH that w by (simp del: mult_Suc_right)
  qed simp
  then show ?case using IH w by (simp del: mult_Suc_right)
qed

lemma strip_slashes_run:
  "k < length s \<Longrightarrow> s ! k \<noteq> 47 \<Longrightarrow> (\<forall>i. k < i \<and> i < length s \<longrightarrow> s ! i = 47) \<Longrightarrow>
   strip_slashes (s @ r) (length s) = Some (take (Suc k) s @ replicate (length s - Suc k) 0 @ r, Suc k)"
proof (induction "length s - Suc k" arbitrary: s r)
  case 0
  then have "length s = Suc k" by simp
  with 0 show ?case by (simp add: rd_def nth_append)
next
  case (Suc d)
  obtain q where q: "s = q @ [47]"
  proof (cases s rule: rev_cases)
    case (snoc q x)
    have "k < length q" using Suc.hyps(2) snoc by simp
    then have "s ! length q = 47" using Suc.prems(3) [rule_format, of "length q"] snoc by simp
    with snoc that show ?thesis by (simp add: nth_append)
  qed (use Suc.prems in simp)
  have kq: "k < length q" using Suc.hyps(2) q by simp
  have rest: "\<forall>i. k < i \<and> i < length q \<longrightarrow> q ! i = 47"
  proof (intro allI impI)
    fix i assume "k < i \<and> i < length q"
    then show "q ! i = 47" using Suc.prems(3) [rule_format, of i] q by (simp add: nth_append)
  qed
  have "strip_slashes (q @ 0 # r) (length q) = Some (take (Suc k) q @ replicate (length q - Suc k) 0 @ 0 # r, Suc k)"
    using Suc.hyps(1) [of q "0 # r"] Suc.hyps(2) Suc.prems(2) kq rest q by (simp add: nth_append)
  moreover have "replicate (length q - Suc k) 0 @ 0 # r = replicate (Suc (length q) - Suc k) 0 @ r"
  proof -
    have "Suc (length q) - Suc k = Suc (length q - Suc k)" using kq by simp
    then show ?thesis by (simp only: replicate_Suc append_Cons replicate_app_Cons_same)
  qed
  ultimately show ?case using q kq by (simp add: rd_def wr_def nth_append list_update_append)
qed

section \<open>Properties\<close>

text \<open>The partition count of a scan is exact: on a cleared \<open>disk_map\<close> with room for the disks the
  loop is defined and maps every identifier that occurs to the number of its entries with a partition
  number.\<close>

theorem partition_count_exact:
  assumes "hm_wf m" "hm_length m * 2 + 1 \<le> 2147117569" "length ds \<le> hm_threshold m" "hm_threshold m < 2 ^ 31"
    "\<forall>(w, n) \<in> set ds. - 1 \<le> n"
  shows "\<exists>m0 m'. cel_ihashmap_clear m = Some m0
     \<and> count_partitions cel_ihashmap_exists cel_ihashmap_inc (cel_ihashmap_put (\<lambda>_. True)) m0 ds = Some m'
     \<and> (\<forall>w. cel_ihashmap_exists m' w = Some (if w \<in> fst ` set ds then 1 else 0)
          \<and> cel_ihashmap_get m' w = Some (int (length (filter (\<lambda>(w', n). w' = w \<and> n > - 1) ds))))"
proof -
  have "small_wf m" using assms by (simp add: small_wf_def may_grow_def)
  then obtain m0 m' where m: "cel_ihashmap_clear m = Some m0"
    "count_partitions cel_ihashmap_exists cel_ihashmap_inc (cel_ihashmap_put (\<lambda>_. True)) m0 ds = Some m'"
    "small_wf m'" "hm_map m' = tally_of ds"
    using tally.count_after_clear [of m ds] assms(3-5) by auto
  have get: "cel_ihashmap_get m' w = Some (case hm_map m' w of None \<Rightarrow> 0 | Some v \<Rightarrow> v)" for w
    using lookup_law [of m' w] m(3) by (auto simp: cel_ihashmap_get_def small_wf_def split: option.split)
  show ?thesis
    using m get small_has [OF m(3)] partitions_of_absent [of _ ds]
    by (auto simp: tally_of_def partitions_of_def)
qed

lemma partition_count_exact_witness:
  "\<exists>m m0 m'. cel_hashmap_init (\<lambda>_. True) m0 16 \<lparr>fl_man = 14260634, fl_places = 24\<rparr> = (m, 1)
     \<and> do { m \<leftarrow> cel_ihashmap_clear m; count_partitions cel_ihashmap_exists cel_ihashmap_inc
          (cel_ihashmap_put (\<lambda>_. True)) m [([97], - 1), ([97], 1), ([98], 2), ([97], 2)] } = Some m'
     \<and> cel_ihashmap_get m' [97] = Some 2 \<and> cel_ihashmap_get m' [98] = Some 1 \<and> cel_ihashmap_exists m' [99] = Some 0"
proof -
  let ?f = "\<lparr>fl_man = 14260634, fl_places = 24\<rparr>"
  let ?m0 = "\<lparr>hm_table = [], hm_length = 0, hm_size = 0, hm_threshold = 0, hm_factor = ?f\<rparr> :: int hmap"
  have "scale ?f 16 = 13" by (simp add: scale_def round24_def bit_length.simps Let_def)
  then obtain m where m: "cel_hashmap_init (\<lambda>_. True) ?m0 16 ?f = (m, 1)" "hm_wf m" "hm_length m = 16" "hm_threshold m = 13"
    using init_map_law [of 16 "\<lambda>_. True" ?m0 ?f] by auto
  let ?ds = "[([97], - 1), ([97], 1), ([98], 2), ([97], 2)] :: (bytes \<times> int) list"
  have h: "hm_length m * 2 + 1 \<le> 2147117569" "length ?ds \<le> hm_threshold m" "hm_threshold m < 2 ^ 31"
    "\<forall>(w, n) \<in> set ?ds. - 1 \<le> n"
    using m(3,4) by simp_all
  from partition_count_exact [OF m(2) h] obtain m1 m' where c: "cel_ihashmap_clear m = Some m1"
     "count_partitions cel_ihashmap_exists cel_ihashmap_inc (cel_ihashmap_put (\<lambda>_. True)) m1 ?ds = Some m'"
     "\<forall>w. cel_ihashmap_exists m' w = Some (if w \<in> fst ` set ?ds then 1 else 0)
        \<and> cel_ihashmap_get m' w = Some (int (length (filter (\<lambda>(w', n). w' = w \<and> n > - 1) ?ds)))"
    by blast
  have r: "cel_ihashmap_get m' [97] = Some 2" "cel_ihashmap_get m' [98] = Some 1" "cel_ihashmap_exists m' [99] = Some 0"
    using c(3) [rule_format, of "[97]"] c(3) [rule_format, of "[98]"] c(3) [rule_format, of "[99]"] by simp_all
  show ?thesis
    by (rule exI [of _ m], rule exI [of _ ?m0], rule exI [of _ m']) (use m(1) c(1,2) r in simp)
qed

text \<open>A disk of \<open>blocks\<close> blocks, neither empty nor of \<open>2\<^sup>6\<^sup>3\<close> blocks or more, is cut into one partition per started \<open>2\<^sup>3\<^sup>2\<close>
  blocks; partition \<open>i\<close> starts at \<open>i * (2\<^sup>3\<^sup>2 + 1)\<close>, so that one block is lost between two partitions, and the
  size of the last is the difference to the end of the disk, modulo \<open>2\<^sup>6\<^sup>4\<close>.  For an empty disk the code
  stores in front of its array.\<close>

theorem partitions_layout:
  assumes "blocks < 2 ^ 63"
  shows "case get_disk_partitions_by_offset blocks of
       None \<Rightarrow> blocks = 0
     | Some ps \<Rightarrow> 0 < blocks \<and> length ps = (blocks + (2 ^ 32 - 1)) div 2 ^ 32
         \<and> (\<forall>i < length ps. fst (ps ! i) = i * (2 ^ 32 + 1)
              \<and> snd (ps ! i) = (if i + 1 < length ps then 2 ^ 32
                                else (blocks + 2 ^ 64 - (length ps - 1) * (2 ^ 32 + 1)) mod 2 ^ 64))"
proof (cases "blocks = 0")
  case True
  then show ?thesis
    by (simp add: get_disk_partitions_by_offset_def part_count.simps)
next
  case False
  let ?k = "(blocks + (2 ^ 32 - 1)) div 2 ^ 32"
  have k: "0 < ?k" "blocks \<le> part_offset * ?k" "part_offset * (?k - 1) < blocks" "?k \<le> 2 ^ 31"
    using False assms by (simp_all add: part_offset_def)
  have "part_count blocks 0 0 = Some (0 + ?k)"
    using k assms by (intro part_count_eq) (auto simp: part_offset_def)
  have "(part_offset + 1) * (?k - 1) < 2 ^ 64" using k(4) by (simp add: part_offset_def)
  then have fill: "length (part_fill blocks 0 (?k - 1)) = ?k"
    "\<And>i. i < ?k - 1 \<Longrightarrow> part_fill blocks 0 (?k - 1) ! i = ((part_offset + 1) * i, part_offset)"
    "part_fill blocks 0 (?k - 1) ! (?k - 1) = ((part_offset + 1) * (?k - 1), wrap64 (blocks + 2 ^ 64 - (part_offset + 1) * (?k - 1)))"
    using part_fill_nth [of 0 "?k - 1" blocks] k(1) by auto
  have at: "fst (part_fill blocks 0 (?k - 1) ! i) = i * (2 ^ 32 + 1)
      \<and> snd (part_fill blocks 0 (?k - 1) ! i) = (if i + 1 < ?k then 2 ^ 32
          else (blocks + 2 ^ 64 - (?k - 1) * (2 ^ 32 + 1)) mod 2 ^ 64)" if "i < ?k" for i
  proof (cases "i + 1 < ?k")
    case True
    then show ?thesis using fill(2) [of i] by (simp add: part_offset_def)
  next
    case False
    with that have "i = ?k - 1" by simp
    then show ?thesis using fill(3) k(1) by (simp add: part_offset_def wrap64_def mult.commute)
  qed
  have "get_disk_partitions_by_offset blocks = Some (part_fill blocks 0 (?k - 1))"
    using \<open>part_count blocks 0 0 = Some (0 + ?k)\<close> k(1) by (simp add: get_disk_partitions_by_offset_def)
  then show ?thesis using fill(1) at False by (simp del: One_nat_def)
qed

lemma partitions_layout_witness:
  "(case get_disk_partitions_by_offset 9000000000 of None \<Rightarrow> False | Some ps \<Rightarrow> length ps = 3 \<and> fst (ps ! 1) = 4294967297)"
  using partitions_layout [of 9000000000] by (auto split: option.splits)

lemma mount_point_law:
  assumes "i < length base" "base ! i \<noteq> 47" "\<forall>j. i < j \<and> j < length base \<longrightarrow> base ! j = 47"
    and "no_nul base" "no_nul prefix" "no_nul wwn" "length base \<le> 256"
    and "Suc i + length (mount_name prefix wwn n) < 156" "length field = 156"
  shows "let target = take (Suc i) base @ mount_name prefix wwn n in
     sarah_disk_mount env base prefix device format wwn n field =
       Some (if \<not> path_exists env base \<and> \<not> path_mkdir env base then (1, field)
             else if \<not> path_exists env target \<and> \<not> path_mkdir env target then (2, field)
             else if \<not> path_mount env device target format then (3, field)
             else (if path_chmod env target then 0 else 4, target @ drop (length target) field))"
proof -
  let ?name = "mount_name prefix wwn n"
  let ?target = "take (Suc i) base @ ?name"
  have nn: "no_nul ?name" using assms(5,6) by (auto simp: mount_name_def signed_digits_def bytes_of_def)
  have strip: "strip_slashes (base @ replicate (256 - length base) 0) (length base)
    = Some (take (Suc i) base @ replicate (256 - Suc i) 0, Suc i)"
  proof -
    have "replicate (length base - Suc i) 0 @ replicate (256 - length base) 0 = replicate (256 - Suc i) (0 :: u8)"
      using assms(1,7) by (simp flip: replicate_add)
    then show ?thesis using strip_slashes_run [OF assms(1-3), of "replicate (256 - length base) 0"] by simp
  qed
  have start: "blit (replicate 256 0) 0 base (length base) = Some (base @ replicate (256 - length base) 0)"
    using assms(7) by (simp add: blit_def)
  have put: "blit (take (Suc i) base @ replicate (256 - Suc i) 0) (Suc i) (?name @ [0]) (length ?name + 1)
    = Some (take (Suc i) base @ (?name @ [0]) @ replicate (256 - Suc i - (length ?name + 1)) 0)"
    using assms(1,8) by (simp add: blit_def)
  have cut: "cstr (take (Suc i) base @ (?name @ [0]) @ replicate (256 - Suc i - (length ?name + 1)) 0) = ?target"
  proof -
    have "no_nul ?target" using nn assms(4) by (simp add: no_nul_take)
    then have "cstr (?target @ 0 # replicate (256 - Suc i - (length ?name + 1)) 0) = ?target"
      by (rule cstr_terminated)
    then show ?thesis by simp
  qed
  have fieldput: "blit field 0 ?target (length ?target) = Some (?target @ drop (length ?target) field)"
    using assms(1,8,9) by (simp add: blit_def)
  show ?thesis
    unfolding sarah_disk_mount_def Let_def using start strip put cut fieldput by simp
qed

text \<open>The mount point of a partition is the base directory without its trailing slashes, followed by
  the name made of prefix, identifier and partition number; each of the four steps that fails has
  its error number, and the \<open>mount\<close> field is set once the mount succeeded.\<close>

theorem disk_mount_point:
  assumes "i < length base" "base ! i \<noteq> 47" "\<forall>j. i < j \<and> j < length base \<longrightarrow> base ! j = 47"
    and "no_nul base" "no_nul prefix" "no_nul wwn" "length base \<le> 256"
    and "Suc i + length (mount_name prefix wwn n) < 156" "length field = 156"
  shows "let target = take (Suc i) base @ mount_name prefix wwn n in
     sarah_disk_mount env base prefix device format wwn n field =
       Some (if \<not> path_exists env base \<and> \<not> path_mkdir env base then (1, field)
             else if \<not> path_exists env target \<and> \<not> path_mkdir env target then (2, field)
             else if \<not> path_mount env device target format then (3, field)
             else (if path_chmod env target then 0 else 4, target @ drop (length target) field))"
  using assms by (rule mount_point_law)

lemma disk_mount_point_witness:
  "sarah_disk_mount \<lparr>path_exists = (\<lambda>_. True), path_mkdir = (\<lambda>_. True), path_mount = (\<lambda>_ _ _. True), path_chmod = (\<lambda>_. True)\<rparr>
     (bytes_of ''/data//'') (bytes_of ''sarah_'') (bytes_of ''/dev/sda2'') (bytes_of ''ext4'') (bytes_of ''0x5'') 2 (replicate 156 0)
   = Some (0, bytes_of ''/data/sarah_0x5_part2'' @ replicate 135 0)"
proof -
  have base: "bytes_of ''/data//'' = [47, 100, 97, 116, 97, 47, 47]" by (simp add: bytes_of_def)
  have prefix: "bytes_of ''sarah_'' = [115, 97, 114, 97, 104, 95]" by (simp add: bytes_of_def)
  have wwn: "bytes_of ''0x5'' = [48, 120, 53]" by (simp add: bytes_of_def)
  have name: "mount_name [115, 97, 114, 97, 104, 95] [48, 120, 53] 2
      = [47, 115, 97, 114, 97, 104, 95, 48, 120, 53, 95, 112, 97, 114, 116, 50]"
    by (simp add: mount_name_def signed_digits_def bytes_of_def dec_digits_def digits_of.simps)
  have tgt: "bytes_of ''/data/sarah_0x5_part2'' = [47, 100, 97, 116, 97, 47, 115, 97, 114, 97, 104, 95, 48, 120, 53, 95, 112, 97, 114, 116, 50]"
    by (simp add: bytes_of_def)
  show ?thesis
    unfolding base prefix wwn tgt
    using disk_mount_point [of 4 "[47, 100, 97, 116, 97, 47, 47]" "[115, 97, 114, 97, 104, 95]" "[48, 120, 53]" 2 "replicate 156 0"
        "\<lparr>path_exists = (\<lambda>_. True), path_mkdir = (\<lambda>_. True), path_mount = (\<lambda>_ _ _. True), path_chmod = (\<lambda>_. True)\<rparr>"]
    by (auto simp: name Let_def nth_Cons' drop_replicate_tail)
qed

text \<open>Of the file systems it lists the check knows the first ten, in any case of letters: a disk
  formatted with \<open>xfs\<close> is refused.\<close>

theorem known_disk_types:
  "sarah_is_valid_disk_type t = (if map to_lower t \<in> set (take 10 all_types) then 0 else 1)
   \<and> bytes_of ''xfs'' \<in> set all_types \<and> sarah_is_valid_disk_type (bytes_of ''xfs'') = 1"
proof -
  have low: "map to_lower ` set (take 10 all_types) = set (take 10 all_types)" by code_simp
  have "sarah_is_valid_disk_type (bytes_of ''xfs'') = 1" "bytes_of ''xfs'' \<in> set all_types" by code_simp+
  then show ?thesis by (simp add: sarah_is_valid_disk_type_def disk_type_loop_iff low)
qed

text \<open>The partition number is the decimal number at the end of the device name.\<close>

lemma tailing_integer_value:
  assumes "list_all is_digit ds" "ds \<noteq> []" "p = [] \<or> \<not> is_digit (last p)" "length ds < 12" "decimal ds < 2 ^ 31"
  shows "get_tailing_integer (p @ ds) = Some (0, Some (int (decimal ds)))"
proof -
  have "length ds < 12 \<Longrightarrow> blit (replicate 12 0) 0 ds (length ds) = Some (ds @ 0 # replicate (11 - length ds) 0)"
  proof -
    assume "length ds < 12"
    then have "12 - length ds = Suc (11 - length ds)" by simp
    with \<open>length ds < 12\<close> show "blit (replicate 12 0) 0 ds (length ds) = Some (ds @ 0 # replicate (11 - length ds) 0)"
      by (simp add: blit_def)
  qed
  with assms show ?thesis
    using digit_scan_split [OF assms(1,3)] digits_no_nul [OF assms(1)]
    by (simp add: get_tailing_integer_def int32_def)
qed

end
