(* ===== verification/JsonItems.thy ===== *)
theory JsonItems
  imports Json Floats
begin

text \<open>
  Making JSON items: the constructors of \<open>src/main/cJSON.c\<close> and adding an item to an array or object.

  A null item is \<open>None\<close>; adding to or adding a null item changes nothing, and neither does an item whose key
  cannot be copied.  The conversion of NaN to \<open>int\<close> is undefined.

  Every call of \<open>malloc\<close> may fail on its own: a run is a tree of calls, an argument of type \<open>mallocs\<close> says for each
  place in the tree, a list of numbers, and each size whether the allocation made there succeeds, and \<open>call i\<close>
  goes to the \<open>i\<close>-th branch.  No place is used twice in a run.
\<close>

section \<open>Allocations\<close>

type_synonym mallocs = "nat list \<Rightarrow> nat \<Rightarrow> bool"

definition malloc :: "mallocs \<Rightarrow> nat \<Rightarrow> bool" where
  "malloc al n = al [] n"

definition call :: "nat \<Rightarrow> mallocs \<Rightarrow> mallocs" where
  "call i al = (\<lambda>place. al (i # place))"

text \<open>Enough memory for everything.\<close>

definition plenty :: mallocs where
  "plenty = (\<lambda>_ _. True)"

lemma plenty_calls [simp]: "call i plenty = plenty" "malloc plenty = (\<lambda>_. True)"
  by (simp_all add: call_def malloc_def plenty_def fun_eq_iff)

lemma plenty_eq: "(\<And>p n. al p n) \<Longrightarrow> al = plenty"
  by (simp add: plenty_def fun_eq_iff)

lemma all_calls: "(\<And>p n. al p n) \<Longrightarrow> call i al = al" "(\<And>p n. al p n) \<Longrightarrow> malloc al n"
  by (simp_all add: call_def malloc_def fun_eq_iff)

lemma malloc_places: "malloc (call i al) n = al [i] n" "malloc (call i (call j al)) n = al [j, i] n"
  by (simp_all add: malloc_def call_def)

section \<open>JSON items\<close>

text \<open>The string in a block, which has to have its NUL.\<close>

definition text_of :: "bytes \<Rightarrow> bytes option" where
  "text_of block = (if 0 \<in> set block then Some (cstr block) else None)"

definition cJSON_New_Item :: "mallocs \<Rightarrow> fp json option" where
  "cJSON_New_Item al = (if malloc al 64 then Some (Json None cJSON_Invalid None 0 (Fin 0) []) else None)"

definition with_type :: "json_type \<Rightarrow> fp json \<Rightarrow> fp json" where
  "with_type t j = Json (js_name j) t (js_string j) (js_int j) (js_num j) (js_child j)"

definition cJSON_CreateObject :: "mallocs \<Rightarrow> fp json option" where
  "cJSON_CreateObject al = map_option (with_type cJSON_Object) (cJSON_New_Item al)"

definition cJSON_CreateArray :: "mallocs \<Rightarrow> fp json option" where
  "cJSON_CreateArray al = map_option (with_type cJSON_Array) (cJSON_New_Item al)"

definition cJSON_strdup :: "mallocs \<Rightarrow> bytes option \<Rightarrow> bytes option" where
  "cJSON_strdup al string = (case string of None \<Rightarrow> None | Some s \<Rightarrow> if malloc al (length s + 1) then Some s else None)"

definition cJSON_CreateString :: "mallocs \<Rightarrow> bytes option \<Rightarrow> fp json option" where
  "cJSON_CreateString al string = do {
     item \<leftarrow> cJSON_New_Item (call 0 al);
     valuestring \<leftarrow> cJSON_strdup (call 1 al) string;
     Some (Json (js_name item) cJSON_String (Some valuestring) (js_int item) (js_num item) (js_child item)) }"

text \<open>The item points to the string of the caller, which has to have its NUL when it is read.\<close>

definition cJSON_CreateStringReference :: "mallocs \<Rightarrow> bytes \<Rightarrow> fp json option" where
  "cJSON_CreateStringReference al string =
     map_option (\<lambda>item. Json (js_name item) cJSON_String (Some string) (js_int item) (js_num item) (js_child item)) (cJSON_New_Item al)"

definition with_number :: "int \<Rightarrow> fp \<Rightarrow> fp json \<Rightarrow> fp json" where
  "with_number i d j = Json (js_name j) cJSON_Number (js_string j) i d (js_child j)"

definition number_item :: "mallocs \<Rightarrow> rat \<Rightarrow> fp json option" where
  "number_item al q = map_option (with_number (saturated q) (Fin q)) (cJSON_New_Item al)"

definition cJSON_CreateNumber :: "mallocs \<Rightarrow> fp \<Rightarrow> fp json option option" where
  "cJSON_CreateNumber al num =
     (case int_of_double num of
        Some i \<Rightarrow> Some (map_option (with_number i num) (cJSON_New_Item al))
      | None \<Rightarrow> (if malloc al 64 then None else Some None))"

definition add_child :: "fp json \<Rightarrow> fp json \<Rightarrow> fp json" where
  "add_child array item =
     Json (js_name array) (js_type array) (js_string array) (js_int array) (js_num array) (js_child array @ [item])"

definition cJSON_AddItemToArray :: "fp json option \<Rightarrow> fp json option \<Rightarrow> fp json option" where
  "cJSON_AddItemToArray array item =
     (case array of None \<Rightarrow> None | Some a \<Rightarrow> (case item of None \<Rightarrow> Some a | Some i \<Rightarrow> Some (add_child a i)))"

definition named :: "bytes \<Rightarrow> fp json \<Rightarrow> fp json" where
  "named key j = Json (Some key) (js_type j) (js_string j) (js_int j) (js_num j) (js_child j)"

definition cJSON_AddItemToObject :: "mallocs \<Rightarrow> fp json option \<Rightarrow> bytes \<Rightarrow> fp json option \<Rightarrow> fp json option" where
  "cJSON_AddItemToObject al object string item =
     (case object of None \<Rightarrow> None | Some ob \<Rightarrow> (case item of None \<Rightarrow> Some ob | Some i \<Rightarrow>
        (case cJSON_strdup al (Some string) of None \<Rightarrow> Some ob | Some key \<Rightarrow> Some (add_child ob (named key i)))))"

text \<open>An object or array made and filled in the order of the code: each entry is made, and its key copied, at a
  place of its own.\<close>

type_synonym entry = "string \<times> (mallocs \<Rightarrow> fp json option)"

fun fill_object :: "mallocs \<Rightarrow> nat \<Rightarrow> fp json option \<Rightarrow> entry list \<Rightarrow> fp json option" where
  "fill_object al i ob [] = ob"
| "fill_object al i ob ((k, v) # kvs) =
     fill_object al (i + 2) (cJSON_AddItemToObject (call (i + 1) al) ob (bytes_of k) (v (call i al))) kvs"

fun fill_array :: "mallocs \<Rightarrow> nat \<Rightarrow> fp json option \<Rightarrow> (mallocs \<Rightarrow> fp json option) list \<Rightarrow> fp json option" where
  "fill_array al i a [] = a"
| "fill_array al i a (v # vs) = fill_array al (i + 1) (cJSON_AddItemToArray a (v (call i al))) vs"

definition object_of :: "entry list \<Rightarrow> mallocs \<Rightarrow> fp json option" where
  "object_of kvs al = fill_object al 1 (cJSON_CreateObject (call 0 al)) kvs"

definition array_of :: "(mallocs \<Rightarrow> fp json option) list \<Rightarrow> mallocs \<Rightarrow> fp json option" where
  "array_of vs al = fill_array al 1 (cJSON_CreateArray (call 0 al)) vs"

section \<open>Documents\<close>

text \<open>What the parser makes: fields that a type does not use are those of a new item, members have names and elements have none.\<close>

fun plain :: "fp json \<Rightarrow> bool" where
  "plain (Json n t s i x cs) \<longleftrightarrow>
     (case t of
        cJSON_NULL \<Rightarrow> s = None \<and> i = 0 \<and> x = Fin 0 \<and> cs = []
      | cJSON_False \<Rightarrow> s = None \<and> i = 0 \<and> x = Fin 0 \<and> cs = []
      | cJSON_True \<Rightarrow> s = None \<and> i = 1 \<and> x = Fin 0 \<and> cs = []
      | cJSON_Number \<Rightarrow> s = None \<and> int_of_double x = Some i \<and> cs = []
      | cJSON_String \<Rightarrow> (\<exists>w. s = Some w \<and> no_nul w) \<and> i = 0 \<and> x = Fin 0 \<and> cs = []
      | cJSON_Array \<Rightarrow> s = None \<and> i = 0 \<and> x = Fin 0 \<and> (\<forall>c \<in> set cs. js_name c = None)
      | cJSON_Object \<Rightarrow> s = None \<and> i = 0 \<and> x = Fin 0 \<and> (\<forall>c \<in> set cs. \<exists>w. js_name c = Some w \<and> no_nul w)
      | _ \<Rightarrow> False)
     \<and> (\<forall>c \<in> set cs. plain c)"

text \<open>How many arrays and objects are around the innermost value, this one included.\<close>

fun nesting :: "fp json \<Rightarrow> nat" where
  "nesting (Json n t s i x cs) =
     (if t = cJSON_Array \<or> t = cJSON_Object then Suc (foldr max (map nesting cs) 0) else 0)"

lemma nesting_children: "foldr max (map nesting cs) 0 \<le> k \<longleftrightarrow> (\<forall>c \<in> set cs. nesting c \<le> k)"
  by (induction cs) auto

text \<open>A new item, apart from its name and type.\<close>

definition blank_item :: "fp json \<Rightarrow> bool" where
  "blank_item j \<longleftrightarrow> js_string j = None \<and> js_int j = 0 \<and> js_num j = Fin 0 \<and> js_child j = []"

end
