(* ===== verification/JsonPrint.thy ===== *)
theory JsonPrint
  imports JsonItems
begin

text \<open>
  Printing JSON: \<open>print_value\<close> and what it calls in \<open>src/main/cJSON.c\<close>, with the print buffer that grows.

  A printer returns \<open>Some None\<close> where the code returns false, which ends the printing; the buffer, freed or not,
  is then not used again.  The hooks are \<open>malloc\<close>, \<open>free\<close> and \<open>realloc\<close>: the client never sets others.  A
  string is read up to its NUL.

  Shown: the printers stay inside the buffer and write what \<open>render\<close> says, the text of the item, or return
  false; with enough memory they do not, as long as the text is no longer than an \<open>int\<close> can say and the item
  has a type that can be printed.
\<close>

section \<open>The print buffer\<close>

text \<open>\<open>pb_fresh\<close> is what \<open>malloc\<close> and \<open>realloc\<close> leave in new bytes.\<close>

record printbuffer =
  pb_buffer :: bytes
  pb_length :: nat
  pb_offset :: nat
  pb_depth :: nat
  pb_noalloc :: bool
  pb_format :: bool
  pb_fresh :: u8

definition grow_buffer :: "(nat \<Rightarrow> bool) \<Rightarrow> printbuffer \<Rightarrow> nat \<Rightarrow> printbuffer option" where
  "grow_buffer al p newsize =
     (if al newsize
      then Some (p\<lparr>pb_buffer := take newsize (pb_buffer p) @ replicate (newsize - length (pb_buffer p)) (pb_fresh p),
                   pb_length := newsize\<rparr>)
      else None)"

definition ensure :: "(nat \<Rightarrow> bool) \<Rightarrow> printbuffer \<Rightarrow> nat \<Rightarrow> printbuffer option" where
  "ensure al p needed =
     (if pb_length p > 0 \<and> pb_offset p \<ge> pb_length p then None
      else if needed > 2147483647 then None
      else
        let needed = needed + pb_offset p + 1
        in if needed \<le> pb_length p then Some p
           else if pb_noalloc p then None
           else if needed > 2147483647 div 2 then
             (if needed \<le> 2147483647 then grow_buffer al p 2147483647 else None)
           else grow_buffer al p (needed * 2))"

text \<open>The test that follows each call.\<close>

definition ensured :: "(nat \<Rightarrow> bool) \<Rightarrow> printbuffer \<Rightarrow> nat \<Rightarrow> (printbuffer \<Rightarrow> printbuffer option option) \<Rightarrow> printbuffer option option" where
  "ensured al p needed f = (case ensure al p needed of None \<Rightarrow> Some None | Some p \<Rightarrow> f p)"

definition tried :: "printbuffer option option \<Rightarrow> (printbuffer \<Rightarrow> printbuffer option option) \<Rightarrow> printbuffer option option" where
  "tried x f = (case x of None \<Rightarrow> None | Some None \<Rightarrow> Some None | Some (Some p) \<Rightarrow> f p)"

text \<open>Bytes written at the offset.\<close>

definition put :: "printbuffer \<Rightarrow> bytes \<Rightarrow> printbuffer option" where
  "put p s = do { buf \<leftarrow> blit (pb_buffer p) (pb_offset p) s (length s); Some (p\<lparr>pb_buffer := buf\<rparr>) }"

abbreviation move :: "nat \<Rightarrow> printbuffer \<Rightarrow> printbuffer" where
  "move n p \<equiv> p\<lparr>pb_offset := pb_offset p + n\<rparr>"

definition update_offset :: "printbuffer \<Rightarrow> printbuffer option" where
  "update_offset p = do { n \<leftarrow> strlen (drop (pb_offset p) (pb_buffer p)); Some (move n p) }"

section \<open>Numbers and strings\<close>

text \<open>The numbers that \<open>==\<close> does not tell apart.\<close>

definition same_double :: "fp \<Rightarrow> fp \<Rightarrow> bool" where
  "same_double a b \<longleftrightarrow> a \<noteq> NaN \<and> b \<noteq> NaN \<and> (a = b \<or> {a, b} = {Fin 0, MinusZero})"

text \<open>The text of a number, in an array of 26 bytes.\<close>

definition number_text :: "(rat \<Rightarrow> rat) \<Rightarrow> fp \<Rightarrow> bytes option" where
  "number_text r d =
     (if d \<in> {Inf, MinusInf, NaN} then Some (bytes_of ''null'')
      else do {
        s \<leftarrow> (if length (print_g 15 d) < 26 then Some (print_g 15 d) else None);
        let (test, n) = strtod r s;
        if n = 0 \<or> \<not> same_double test d
        then (if length (print_g 17 d) < 26 then Some (print_g 17 d) else None)
        else Some s })"

definition print_number :: "(nat \<Rightarrow> bool) \<Rightarrow> (rat \<Rightarrow> rat) \<Rightarrow> fp json \<Rightarrow> printbuffer \<Rightarrow> printbuffer option option" where
  "print_number al r item p = do {
     s \<leftarrow> number_text r (js_num item);
     ensured al p (length s + 1) (\<lambda>p. do {
       p \<leftarrow> put p (s @ [0]);
       Some (Some (move (length s) p)) }) }"

text \<open>How many bytes more than one the escape of a byte has, its letter, and the four digits of \<open>%04x\<close>.\<close>

definition escape_extra :: "u8 \<Rightarrow> nat" where
  "escape_extra c = (if c \<in> set [34, 92, 8, 12, 10, 13, 9] then 1 else if c < 32 then 5 else 0)"

definition escape_letter :: "u8 \<Rightarrow> u8 option" where
  "escape_letter c = map_of [(92, 92), (34, 34), (8, 98), (12, 102), (10, 110), (13, 114), (9, 116)] c"

fun escape_loop :: "bytes \<Rightarrow> nat \<Rightarrow> bytes \<Rightarrow> bytes option" where
  "escape_loop buf pos [] = Some buf"
| "escape_loop buf pos (c # s) =
     (if c > 31 \<and> c \<noteq> 34 \<and> c \<noteq> 92 then do { buf \<leftarrow> wr buf pos c; escape_loop buf (pos + 1) s }
      else do {
        buf \<leftarrow> wr buf pos 92;
        (case escape_letter c of
           Some l \<Rightarrow> do { buf \<leftarrow> wr buf (pos + 1) l; escape_loop buf (pos + 2) s }
         | None \<Rightarrow> do {
             buf \<leftarrow> blit buf (pos + 1) (bytes_of ''u00'' @ hex2 c @ [0]) 6;
             escape_loop buf (pos + 6) s }) })"

definition print_string_ptr :: "(nat \<Rightarrow> bool) \<Rightarrow> bytes option \<Rightarrow> printbuffer \<Rightarrow> printbuffer option option" where
  "print_string_ptr al input p =
     (case input of
        None \<Rightarrow> ensured al p 3 (\<lambda>p. map_option Some (put p [34, 34, 0]))
      | Some block \<Rightarrow>
          let s = cstr block; escape_characters = sum_list (map escape_extra s); output_length = length s + escape_characters
          in ensured al p (output_length + 3) (\<lambda>p.
               if escape_characters = 0 then map_option Some (put p (34 # s @ [34, 0]))
               else do {
                 p \<leftarrow> put p [34];
                 buf \<leftarrow> escape_loop (pb_buffer p) (pb_offset p + 1) s;
                 buf \<leftarrow> wr buf (pb_offset p + output_length + 1) 34;
                 buf \<leftarrow> wr buf (pb_offset p + output_length + 2) 0;
                 Some (Some (p\<lparr>pb_buffer := buf\<rparr>)) }))"

definition print_string :: "(nat \<Rightarrow> bool) \<Rightarrow> fp json \<Rightarrow> printbuffer \<Rightarrow> printbuffer option option" where
  "print_string al item p = print_string_ptr al (js_string item) p"

definition print_literal :: "(nat \<Rightarrow> bool) \<Rightarrow> bytes \<Rightarrow> printbuffer \<Rightarrow> printbuffer option option" where
  "print_literal al s p = ensured al p (length s + 1) (\<lambda>p. map_option Some (put p (s @ [0])))"

section \<open>Values\<close>

definition tabs :: "nat \<Rightarrow> bytes" where
  "tabs n = replicate n 9"

text \<open>An array and an object are given by their children.\<close>

fun print_value :: "(nat \<Rightarrow> bool) \<Rightarrow> (rat \<Rightarrow> rat) \<Rightarrow> fp json \<Rightarrow> printbuffer \<Rightarrow> printbuffer option option"
  and print_elements :: "(nat \<Rightarrow> bool) \<Rightarrow> (rat \<Rightarrow> rat) \<Rightarrow> fp json list \<Rightarrow> printbuffer \<Rightarrow> printbuffer option option"
  and print_members :: "(nat \<Rightarrow> bool) \<Rightarrow> (rat \<Rightarrow> rat) \<Rightarrow> fp json list \<Rightarrow> printbuffer \<Rightarrow> printbuffer option option"
where
  "print_value al r (Json n t s i x cs) p =
     (case t of
        cJSON_NULL \<Rightarrow> print_literal al (bytes_of ''null'') p
      | cJSON_False \<Rightarrow> print_literal al (bytes_of ''false'') p
      | cJSON_True \<Rightarrow> print_literal al (bytes_of ''true'') p
      | cJSON_Number \<Rightarrow> print_number al r (Json n t s i x cs) p
      | cJSON_Raw \<Rightarrow> (case s of None \<Rightarrow> Some None | Some raw \<Rightarrow> print_literal al (cstr raw) p)
      | cJSON_String \<Rightarrow> print_string al (Json n t s i x cs) p
      | cJSON_Array \<Rightarrow>
          ensured al p 1 (\<lambda>p. do {
            p \<leftarrow> put p [91];
            tried (print_elements al r cs ((move 1 p)\<lparr>pb_depth := pb_depth p + 1\<rparr>)) (\<lambda>p.
              ensured al p 2 (\<lambda>p. do {
                p \<leftarrow> put p [93, 0];
                Some (Some (p\<lparr>pb_depth := pb_depth p - 1\<rparr>)) })) })
      | cJSON_Object \<Rightarrow>
          let len = (if pb_format p then 2 else 1)
          in ensured al p (len + 1) (\<lambda>p. do {
            p \<leftarrow> put p (123 # (if pb_format p then [10] else []));
            tried (print_members al r cs ((move len p)\<lparr>pb_depth := pb_depth p + 1\<rparr>)) (\<lambda>p.
              ensured al p (if pb_format p then pb_depth p + 1 else 2) (\<lambda>p. do {
                p \<leftarrow> put p ((if pb_format p then tabs (pb_depth p - 1) else []) @ [125, 0]);
                Some (Some (p\<lparr>pb_depth := pb_depth p - 1\<rparr>)) })) })
      | cJSON_Invalid \<Rightarrow> Some None)"
| "print_elements al r [] p = Some (Some p)"
| "print_elements al r (c # cs) p =
     tried (print_value al r c p) (\<lambda>p. do {
       p \<leftarrow> update_offset p;
       (if cs = [] then print_elements al r cs p
        else
          let len = (if pb_format p then 2 else 1)
          in ensured al p (len + 1) (\<lambda>p. do {
               p \<leftarrow> put p (44 # (if pb_format p then [32] else []) @ [0]);
               print_elements al r cs (move len p) })) })"
| "print_members al r [] p = Some (Some p)"
| "print_members al r (c # cs) p =
     tried (if pb_format p
            then ensured al p (pb_depth p) (\<lambda>p. do {
              p \<leftarrow> put p (tabs (pb_depth p));
              Some (Some (move (pb_depth p) p)) })
            else Some (Some p)) (\<lambda>p.
     tried (print_string_ptr al (js_name c) p) (\<lambda>p. do {
       p \<leftarrow> update_offset p;
       let len = (if pb_format p then 2 else 1);
       ensured al p len (\<lambda>p. do {
         p \<leftarrow> put p (58 # (if pb_format p then [9] else []));
         tried (print_value al r c (move len p)) (\<lambda>p. do {
           p \<leftarrow> update_offset p;
           let len = (if pb_format p then 1 else 0) + (if cs \<noteq> [] then 1 else 0);
           ensured al p (len + 1) (\<lambda>p. do {
             p \<leftarrow> put p ((if cs \<noteq> [] then [44] else []) @ (if pb_format p then [10] else []) @ [0]);
             print_members al r cs (move len p) }) }) }) }))"

section \<open>The entry points\<close>

definition print_buffer :: "u8 \<Rightarrow> nat \<Rightarrow> bool \<Rightarrow> printbuffer" where
  "print_buffer fresh n fmt = \<lparr>pb_buffer = replicate n fresh, pb_length = n, pb_offset = 0, pb_depth = 0,
     pb_noalloc = False, pb_format = fmt, pb_fresh = fresh\<rparr>"

text \<open>The block returned has \<open>pb_offset + 1\<close> bytes.\<close>

definition print_json :: "(nat \<Rightarrow> bool) \<Rightarrow> u8 \<Rightarrow> (rat \<Rightarrow> rat) \<Rightarrow> bool \<Rightarrow> fp json option \<Rightarrow> bytes option option" where
  "print_json al fresh r fmt item =
     (if \<not> al 256 then Some None
      else case item of None \<Rightarrow> Some None | Some j \<Rightarrow>
        (case print_value al r j (print_buffer fresh 256 fmt) of
           None \<Rightarrow> None
         | Some None \<Rightarrow> Some None
         | Some (Some p) \<Rightarrow> do {
             p \<leftarrow> update_offset p;
             Some (if al (pb_offset p + 1) then Some (take (pb_offset p + 1) (pb_buffer p)) else None) }))"

definition cJSON_Print :: "(nat \<Rightarrow> bool) \<Rightarrow> u8 \<Rightarrow> (rat \<Rightarrow> rat) \<Rightarrow> fp json option \<Rightarrow> bytes option option" where
  "cJSON_Print al fresh r item = print_json al fresh r True item"

definition cJSON_PrintUnformatted :: "(nat \<Rightarrow> bool) \<Rightarrow> u8 \<Rightarrow> (rat \<Rightarrow> rat) \<Rightarrow> fp json option \<Rightarrow> bytes option option" where
  "cJSON_PrintUnformatted al fresh r item = print_json al fresh r False item"

definition cJSON_PrintBuffered :: "(nat \<Rightarrow> bool) \<Rightarrow> u8 \<Rightarrow> (rat \<Rightarrow> rat) \<Rightarrow> fp json option \<Rightarrow> int \<Rightarrow> bool \<Rightarrow> bytes option option" where
  "cJSON_PrintBuffered al fresh r item prebuffer fmt =
     (if prebuffer < 0 \<or> \<not> al (nat prebuffer) then Some None
      else case item of None \<Rightarrow> Some None | Some j \<Rightarrow>
        map_option (map_option pb_buffer) (print_value al r j (print_buffer fresh (nat prebuffer) fmt)))"

text \<open>Into a block of the caller, of at least \<open>len\<close> bytes; the value is whether all was printed, and the block.\<close>

definition cJSON_PrintPreallocated :: "(rat \<Rightarrow> rat) \<Rightarrow> fp json option \<Rightarrow> bytes \<Rightarrow> int \<Rightarrow> bool \<Rightarrow> bytes option option" where
  "cJSON_PrintPreallocated r item buf len fmt =
     (if len < 0 then Some None
      else case item of None \<Rightarrow> Some None | Some j \<Rightarrow>
        map_option (map_option pb_buffer) (print_value (\<lambda>_. False) r j
          \<lparr>pb_buffer = buf, pb_length = nat len, pb_offset = 0, pb_depth = 0, pb_noalloc = True, pb_format = fmt,
           pb_fresh = 0\<rparr>))"

section \<open>The text of an item\<close>

definition escape :: "u8 \<Rightarrow> bytes" where
  "escape c = (if c > 31 \<and> c \<noteq> 34 \<and> c \<noteq> 92 then [c]
     else case escape_letter c of Some l \<Rightarrow> [92, l] | None \<Rightarrow> 92 # bytes_of ''u00'' @ hex2 c)"

definition quoted :: "bytes option \<Rightarrow> bytes" where
  "quoted s = 34 # (case s of None \<Rightarrow> [] | Some b \<Rightarrow> concat (map escape (cstr b))) @ [34]"

definition number_string :: "(rat \<Rightarrow> rat) \<Rightarrow> fp \<Rightarrow> bytes" where
  "number_string r d = (case number_text r d of None \<Rightarrow> [] | Some s \<Rightarrow> s)"

abbreviation blanks :: "bool \<Rightarrow> bytes \<Rightarrow> bytes" where
  "blanks fmt s \<equiv> (if fmt then s else [])"

text \<open>With the blanks of a formatted print or not, at a depth.\<close>

fun render :: "(rat \<Rightarrow> rat) \<Rightarrow> bool \<Rightarrow> nat \<Rightarrow> fp json \<Rightarrow> bytes"
  and render_elements :: "(rat \<Rightarrow> rat) \<Rightarrow> bool \<Rightarrow> nat \<Rightarrow> fp json list \<Rightarrow> bytes"
  and render_members :: "(rat \<Rightarrow> rat) \<Rightarrow> bool \<Rightarrow> nat \<Rightarrow> fp json list \<Rightarrow> bytes"
where
  "render r fmt d (Json n t s i x cs) =
     (case t of
        cJSON_NULL \<Rightarrow> bytes_of ''null''
      | cJSON_False \<Rightarrow> bytes_of ''false''
      | cJSON_True \<Rightarrow> bytes_of ''true''
      | cJSON_Number \<Rightarrow> number_string r x
      | cJSON_Raw \<Rightarrow> (case s of None \<Rightarrow> [] | Some raw \<Rightarrow> cstr raw)
      | cJSON_String \<Rightarrow> quoted s
      | cJSON_Array \<Rightarrow> [91] @ render_elements r fmt (d + 1) cs @ [93]
      | cJSON_Object \<Rightarrow> (123 # blanks fmt [10]) @ render_members r fmt (d + 1) cs @ blanks fmt (tabs d) @ [125]
      | cJSON_Invalid \<Rightarrow> [])"
| "render_elements r fmt d [] = []"
| "render_elements r fmt d (c # cs) =
     render r fmt d c @ (if cs = [] then [] else 44 # blanks fmt [32]) @ render_elements r fmt d cs"
| "render_members r fmt d [] = []"
| "render_members r fmt d (c # cs) =
     blanks fmt (tabs d) @ quoted (js_name c) @ (58 # blanks fmt [9]) @ render r fmt d c
       @ ((if cs = [] then [] else [44]) @ blanks fmt [10]) @ render_members r fmt d cs"

text \<open>An item whose numbers are those of \<open>double\<close>, and one that has a type that can be printed.\<close>

fun json_all :: "(fp json \<Rightarrow> bool) \<Rightarrow> fp json \<Rightarrow> bool" where
  "json_all P (Json n t s i x cs) \<longleftrightarrow> P (Json n t s i x cs) \<and> (\<forall>c \<in> set cs. json_all P c)"

definition is_double :: "fp \<Rightarrow> bool" where
  "is_double d \<longleftrightarrow> (case d of Fin q \<Rightarrow> double_range q | _ \<Rightarrow> True)"

definition doubles :: "fp json \<Rightarrow> bool" where
  "doubles = json_all (\<lambda>j. is_double (js_num j))"

definition can_print :: "fp json \<Rightarrow> bool" where
  "can_print = json_all (\<lambda>j. js_type j \<noteq> cJSON_Invalid \<and> (js_type j = cJSON_Raw \<longrightarrow> js_string j \<noteq> None))"

section \<open>What the buffer holds\<close>

definition pb_ok :: "printbuffer \<Rightarrow> bool" where
  "pb_ok p \<longleftrightarrow> length (pb_buffer p) = pb_length p \<and> (pb_offset p < pb_length p \<or> pb_offset p = 0 \<and> pb_length p = 0)"

definition alike :: "printbuffer \<Rightarrow> printbuffer \<Rightarrow> bool" where
  "alike p p' \<longleftrightarrow> pb_ok p' \<and> pb_depth p' = pb_depth p \<and> pb_format p' = pb_format p \<and> pb_noalloc p' = pb_noalloc p
     \<and> (pb_noalloc p \<longrightarrow> pb_length p' = pb_length p)"

text \<open>The text stands behind the offset, which is at it or in it; or before the offset.\<close>

definition wrote :: "printbuffer \<Rightarrow> bytes \<Rightarrow> printbuffer \<Rightarrow> bool" where
  "wrote p s p' \<longleftrightarrow> alike p p' \<and> (\<exists>k \<le> length s. pb_offset p' = pb_offset p + k)
     \<and> (\<exists>rest. pb_buffer p' = take (pb_offset p) (pb_buffer p) @ s @ 0 # rest) \<and> pb_offset p \<le> length (pb_buffer p)"

definition moved :: "printbuffer \<Rightarrow> bytes \<Rightarrow> printbuffer \<Rightarrow> bool" where
  "moved p s p' \<longleftrightarrow> alike p p' \<and> pb_offset p' = pb_offset p + length s
     \<and> take (pb_offset p') (pb_buffer p') = take (pb_offset p) (pb_buffer p) @ s \<and> pb_offset p \<le> length (pb_buffer p)
     \<and> pb_offset p' \<le> length (pb_buffer p')"

definition outcome :: "bool \<Rightarrow> (printbuffer \<Rightarrow> bool) \<Rightarrow> printbuffer option option \<Rightarrow> bool" where
  "outcome A R res \<longleftrightarrow> (case res of None \<Rightarrow> False | Some None \<Rightarrow> \<not> A | Some (Some p') \<Rightarrow> R p')"

definition fits :: "(nat \<Rightarrow> bool) \<Rightarrow> printbuffer \<Rightarrow> nat \<Rightarrow> bool" where
  "fits al p n \<longleftrightarrow> pb_offset p + n + 3 \<le> 2147483647
     \<and> (pb_noalloc p \<longrightarrow> pb_offset p + n + 3 \<le> pb_length p) \<and> (pb_noalloc p \<or> (\<forall>k. al k))"

lemma outcome_simps [simp]: "outcome A R (Some (Some p)) = R p" "outcome A R (Some None) = (\<not> A)" "\<not> outcome A R None"
  by (simp_all add: outcome_def)

lemma tried_outcome:
  "outcome A R x \<Longrightarrow> (\<And>p'. R p' \<Longrightarrow> outcome A S (f p')) \<Longrightarrow> outcome A S (tried x f)"
  by (cases x rule: option.exhaust; cases "the x") (auto simp: tried_def)

lemma outcome_mono: "outcome A R x \<Longrightarrow> (B \<Longrightarrow> A) \<Longrightarrow> (\<And>p. R p \<Longrightarrow> S p) \<Longrightarrow> outcome B S x"
  by (auto simp: outcome_def split: option.splits)

lemma moved_moved: "moved p s p1 \<Longrightarrow> moved p1 t p2 \<Longrightarrow> moved p (s @ t) p2"
  by (auto simp: moved_def alike_def)

lemma moved_wrote: "moved p s p1 \<Longrightarrow> wrote p1 t p2 \<Longrightarrow> wrote p (s @ t) p2"
  unfolding moved_def wrote_def alike_def by auto

lemma moved_ok: "moved p s p' \<Longrightarrow> pb_ok p'"
  by (simp add: moved_def alike_def)

lemma fits_moved: "moved p s p' \<Longrightarrow> fits al p (length s + n) \<Longrightarrow> fits al p' n"
  by (auto simp: fits_def moved_def alike_def)

lemma ensure_law:
  assumes "pb_ok p" "ensure al p n = Some p'"
  shows "moved p [] p' \<and> pb_offset p' + n < length (pb_buffer p')"
  using assms by (auto simp: ensure_def grow_buffer_def Let_def moved_def alike_def pb_ok_def split: if_splits)

lemma ensure_fits: "fits al p n' \<Longrightarrow> n \<le> n' + 2 \<Longrightarrow> pb_ok p \<Longrightarrow> ensure al p n \<noteq> None"
  by (auto simp: ensure_def grow_buffer_def Let_def fits_def pb_ok_def)

lemma ensured_outcome:
  assumes "pb_ok p" "A \<Longrightarrow> fits al p n'" "n \<le> n' + 2"
    and f: "\<And>p'. moved p [] p' \<Longrightarrow> pb_offset p' + n < length (pb_buffer p') \<Longrightarrow> outcome A S (f p')"
  shows "outcome A S (ensured al p n f)"
proof (cases "ensure al p n")
  case None
  then show ?thesis using ensure_fits [OF _ assms(3,1), of al] assms(2) by (auto simp: ensured_def)
next
  case (Some p')
  then show ?thesis using f ensure_law [OF assms(1) Some] by (simp add: ensured_def)
qed

lemma put_moved:
  assumes "pb_ok p" "pb_offset p + length s < length (pb_buffer p)"
  obtains p' where "put p s = Some p'" "moved p s (move (length s) p')" "pb_offset p' = pb_offset p"
    "pb_depth p' = pb_depth p" "pb_format p' = pb_format p" "length (pb_buffer p') = length (pb_buffer p)"
  using assms by (auto simp: put_def blit_def moved_def alike_def pb_ok_def)

lemma put_wrote:
  assumes "pb_ok p" "pb_offset p + length s < length (pb_buffer p)"
  obtains p' where "put p (s @ [0]) = Some p'" "moved p s (move (length s) p')" "wrote p s p'" "wrote p s (move (length s) p')"
    "pb_depth p' = pb_depth p" "pb_format p' = pb_format p"
  using assms by (auto simp: put_def blit_def moved_def wrote_def alike_def pb_ok_def)

lemma update_moved:
  assumes "wrote p s p'" "no_nul s"
  obtains p'' where "update_offset p' = Some p''" "moved p s p''"
proof -
  obtain k rest where k: "k \<le> length s" "pb_offset p' = pb_offset p + k"
    "pb_buffer p' = take (pb_offset p) (pb_buffer p) @ s @ 0 # rest" "pb_offset p \<le> length (pb_buffer p)" and al: "alike p p'"
    using assms(1) by (auto simp: wrote_def)
  have "drop (pb_offset p') (pb_buffer p') = drop k s @ 0 # rest" using k by simp
  then have "update_offset p' = Some (move (length s - k) p')" using no_nul_drop [OF assms(2)] by (simp add: update_offset_def)
  moreover have "moved p s (move (length s - k) p')" using k al by (auto simp: moved_def alike_def pb_ok_def)
  ultimately show ?thesis using that by blast
qed

section \<open>The printers of leaves\<close>

lemma literal_law:
  assumes "pb_ok p" "A \<Longrightarrow> fits al p (length s)"
  shows "outcome A (wrote p s) (print_literal al s p)"
  unfolding print_literal_def
proof (rule ensured_outcome [OF assms])
  fix p' assume p': "moved p [] p'" "pb_offset p' + (length s + 1) < length (pb_buffer p')"
  then have "pb_offset p' + length s < length (pb_buffer p')" by simp
  from put_wrote [OF moved_ok [OF p'(1)] this] obtain q where "put p' (s @ [0]) = Some q" "wrote p' s q" by blast
  then show "outcome A (wrote p s) (map_option Some (put p' (s @ [0])))" using moved_wrote [OF p'(1)] by simp
next
  show "length s + 1 \<le> length s + 2" by simp
qed

lemma number_text_made:
  assumes "is_double d"
  shows "number_text r d \<noteq> None"
proof -
  have d: "case d of Fin q \<Rightarrow> double_range q | _ \<Rightarrow> True" using assms by (simp add: is_double_def)
  have "length (print_g 15 d) < 26" "length (print_g 17 d) < 26" using print_length [OF d, of 15] print_length [OF d, of 17] by auto
  then show ?thesis by (auto simp: number_text_def split: prod.splits)
qed

lemma number_text_chars:
  assumes "number_text r d = Some s" "d \<notin> {Inf, MinusInf, NaN}"
  shows "list_all number_char s \<and> s \<noteq> [] \<and> (hd s = 45 \<or> is_digit (hd s)) \<and> snd (strtod r s) = length s \<and> length s < 26"
  using assms print_read [OF assms(2), of 15 r] print_read [OF assms(2), of 17 r]
  by (auto simp: number_text_def Let_def split: if_splits prod.splits)

lemma number_string_length: "is_double d \<Longrightarrow> length (number_string r d) < 26"
  using number_text_made [of d r]
  by (auto simp: number_string_def number_text_def Let_def bytes_of_def split: if_splits prod.splits)

lemma number_char_nonzero: "list_all number_char s \<Longrightarrow> no_nul s"
  by (auto simp: list_all_iff no_nul_def number_char_def is_digit_def bytes_of_def)

lemma number_string_no_nul: "no_nul (number_string r d)"
proof (cases "number_text r d")
  case (Some s)
  then show ?thesis using number_text_chars [OF Some] number_char_nonzero
    by (cases "d \<in> {Inf, MinusInf, NaN}") (auto simp: number_string_def number_text_def bytes_of_def)
qed (simp add: number_string_def)

lemma number_law:
  assumes "pb_ok p" "is_double (js_num j)" "A \<Longrightarrow> fits al p (length (number_string r (js_num j)))"
  shows "outcome A (wrote p (number_string r (js_num j))) (print_number al r j p)"
proof -
  obtain s where s: "number_text r (js_num j) = Some s" using number_text_made [OF assms(2), of r] by auto
  then have n: "number_string r (js_num j) = s" by (simp add: number_string_def)
  have "outcome A (wrote p s) (ensured al p (length s + 1) (\<lambda>p. do { p \<leftarrow> put p (s @ [0]); Some (Some (move (length s) p)) }))"
  proof (rule ensured_outcome [OF assms(1) assms(3) [unfolded n]])
    fix p' assume p': "moved p [] p'" "pb_offset p' + (length s + 1) < length (pb_buffer p')"
    then have "pb_offset p' + length s < length (pb_buffer p')" by simp
    from put_wrote [OF moved_ok [OF p'(1)] this] obtain q where "put p' (s @ [0]) = Some q" "wrote p' s (move (length s) q)" by blast
    then show "outcome A (wrote p s) (do { p \<leftarrow> put p' (s @ [0]); Some (Some (move (length s) p)) })"
      using moved_wrote [OF p'(1)] by simp
  qed simp_all
  then show ?thesis by (simp add: print_number_def s n)
qed

lemma escape_length: "length (escape c) = 1 + escape_extra c"
proof -
  have "c \<le> 31 \<longleftrightarrow> c < 32" by (simp add: word_less_nat_alt word_le_nat_alt) linarith
  then show ?thesis by (auto simp: escape_def escape_extra_def escape_letter_def not_less bytes_of_def)
qed

lemma escapes_length: "length (concat (map escape s)) = length s + sum_list (map escape_extra s)"
  by (induction s) (simp_all add: escape_length)

lemma escapes_plain: "sum_list (map escape_extra s) = 0 \<Longrightarrow> concat (map escape s) = s"
proof (induction s)
  case (Cons c s)
  then have "length (escape c) = 1" by (simp add: escape_length)
  then have "escape c = [c]" by (auto simp: escape_def bytes_of_def split: if_splits option.splits)
  then show ?case using Cons by simp
qed simp

lemma escape_loop_law:
  assumes "length (concat (map escape s)) < length junk"
  shows "\<exists>rest. escape_loop (pre @ junk) (length pre) s = Some (pre @ concat (map escape s) @ rest)
    \<and> length rest + length (concat (map escape s)) = length junk"
  using assms
proof (induction s arbitrary: pre junk)
  case (Cons c s)
  let ?e = "escape c"
  have len: "length ?e + length (concat (map escape s)) < length junk" using Cons.prems by simp
  obtain junk' where step: "escape_loop (pre @ junk) (length pre) (c # s) = escape_loop (pre @ ?e @ junk') (length (pre @ ?e)) s"
    "length junk' + length ?e = length junk"
  proof (cases "c > 31 \<and> c \<noteq> 34 \<and> c \<noteq> 92")
    case True
    obtain x junk' where "junk = x # junk'" using len by (cases junk) auto
    then show ?thesis using that [of junk'] True by (simp add: wr_def list_update_append escape_def)
  next
    case no: False
    show ?thesis
    proof (cases "escape_letter c")
      case (Some l)
      then have e: "?e = [92, l]" using no by (auto simp: escape_def)
      then obtain x y junk' where "junk = x # y # junk'" using len by (cases junk; cases "tl junk") auto
      then show ?thesis using that [of junk'] no Some e by (auto simp: wr_def list_update_append)
    next
      case None
      then have e: "?e = 92 # bytes_of ''u00'' @ hex2 c" using no by (auto simp: escape_def)
      have "6 < length junk" using len by (simp add: e)
      then obtain x y where x: "junk = x # y" "6 \<le> length y" by (cases junk) auto
      have "escape_loop (pre @ junk) (length pre) (c # s)
          = escape_loop (pre @ ?e @ 0 # drop 6 y) (length (pre @ ?e)) s"
        using no None x(2) unfolding x(1) by (auto simp: wr_def blit_def list_update_append e eval_nat_numeral)
      then show ?thesis using that [of "0 # drop 6 y"] x e by simp
    qed
  qed
  have "length (concat (map escape s)) < length junk'" using len step(2) by linarith
  from Cons.IH [OF this, of "pre @ ?e"] step show ?case by auto
qed simp

lemma string_law:
  assumes "pb_ok p" "A \<Longrightarrow> fits al p (length (quoted s))"
  shows "outcome A (wrote p (quoted s)) (print_string_ptr al s p)"
proof (cases s)
  case None
  then have q: "quoted s = [34, 34]" by (simp add: quoted_def)
  have "outcome A (wrote p (quoted s)) (ensured al p 3 (\<lambda>p. map_option Some (put p [34, 34, 0])))"
  proof (rule ensured_outcome [OF assms])
    fix p' assume p': "moved p [] p'" "pb_offset p' + 3 < length (pb_buffer p')"
    then have "pb_offset p' + length (quoted s) < length (pb_buffer p')" by (simp add: q)
    from put_wrote [OF moved_ok [OF p'(1)] this] obtain p'' where "put p' (quoted s @ [0]) = Some p''" "wrote p' (quoted s) p''" by blast
    then show "outcome A (wrote p (quoted s)) (map_option Some (put p' [34, 34, 0]))" using moved_wrote [OF p'(1)] by (simp add: q)
  next
    show "3 \<le> length (quoted s) + 2" by (simp add: q)
  qed
  then show ?thesis by (simp add: print_string_ptr_def None)
next
  case (Some block)
  define t where "t = cstr block"
  define es where "es = concat (map escape t)"
  define n where "n = length t + sum_list (map escape_extra t)"
  have n: "length es = n" unfolding es_def n_def by (rule escapes_length)
  have q: "quoted s = 34 # es @ [34]" by (simp add: quoted_def Some t_def es_def)
  have "outcome A (wrote p (quoted s)) (ensured al p (n + 3) (\<lambda>p. if sum_list (map escape_extra t) = 0 then map_option Some (put p (34 # t @ [34, 0]))
               else do {
                 p \<leftarrow> put p [34];
                 buf \<leftarrow> escape_loop (pb_buffer p) (pb_offset p + 1) t;
                 buf \<leftarrow> wr buf (pb_offset p + n + 1) 34;
                 buf \<leftarrow> wr buf (pb_offset p + n + 2) 0;
                 Some (Some (p\<lparr>pb_buffer := buf\<rparr>)) }))"
  proof (rule ensured_outcome [OF assms])
    fix p' assume p': "moved p [] p'" "pb_offset p' + (n + 3) < length (pb_buffer p')"
    show "outcome A (wrote p (quoted s)) (if sum_list (map escape_extra t) = 0 then map_option Some (put p' (34 # t @ [34, 0]))
               else do {
                 p \<leftarrow> put p' [34];
                 buf \<leftarrow> escape_loop (pb_buffer p) (pb_offset p + 1) t;
                 buf \<leftarrow> wr buf (pb_offset p + n + 1) 34;
                 buf \<leftarrow> wr buf (pb_offset p + n + 2) 0;
                 Some (Some (p\<lparr>pb_buffer := buf\<rparr>)) })"
    proof (cases "sum_list (map escape_extra t) = 0")
      case True
      have "pb_offset p' + length (quoted s) < length (pb_buffer p')" using p'(2) n by (simp add: q)
      from put_wrote [OF moved_ok [OF p'(1)] this] obtain p'' where "put p' (quoted s @ [0]) = Some p''" "wrote p' (quoted s) p''" by blast
      then show ?thesis using moved_wrote [OF p'(1)] True escapes_plain [OF True] by (simp add: q es_def)
    next
      case False
      define pre where "pre = take (pb_offset p') (pb_buffer p') @ [34]"
      define junk where "junk = drop (pb_offset p' + 1) (pb_buffer p')"
      have len: "length pre = pb_offset p' + 1" "length es < length junk" using p'(2) by (auto simp: pre_def junk_def n)
      have put: "put p' [34] = Some (p'\<lparr>pb_buffer := pre @ junk\<rparr>)" using p'(2) by (simp add: put_def blit_def pre_def junk_def)
      from escape_loop_law [OF len(2) [unfolded es_def], of pre] obtain rest
        where rest: "escape_loop (pre @ junk) (length pre) t = Some (pre @ es @ rest)" "length rest + n = length junk"
        by (auto simp: es_def [symmetric] n)
      have "2 < length rest" using rest(2) p'(2) by (simp add: junk_def)
      then obtain x y rest' where r: "rest = x # y # rest'" by (cases rest; cases "tl rest") auto
      have "wrote p' (quoted s) (p'\<lparr>pb_buffer := pre @ es @ 34 # 0 # rest'\<rparr>)"
        using moved_ok [OF p'(1)] p'(2) rest(2) r by (auto simp: wrote_def alike_def pb_ok_def q pre_def junk_def n)
      note w = moved_wrote [OF p'(1) this]
      have at: "pb_offset p' + n + 1 = length (pre @ es)" "pb_offset p' + n + 2 = length (pre @ es @ [34])" by (simp_all add: len(1) n)
      have wr: "wr (pre @ es @ x # y # rest') (pb_offset p' + n + 1) 34 = Some (pre @ es @ 34 # y # rest')"
        "wr (pre @ es @ 34 # y # rest') (pb_offset p' + n + 2) 0 = Some (pre @ es @ 34 # 0 # rest')"
        unfolding at by (simp_all add: wr_def list_update_append)
      show ?thesis using w rest(1) wr unfolding if_not_P [OF False] put r len(1) by simp
    qed
  next
    show "n + 3 \<le> length (quoted s) + 2" using n by (simp add: q)
  qed
  then show ?thesis unfolding print_string_ptr_def Some option.case Let_def t_def n_def .
qed

lemma escape_no_nul: "c \<noteq> 0 \<Longrightarrow> no_nul (escape c)"
  by (auto simp: escape_def escape_letter_def bytes_of_def)

lemma quoted_no_nul: "no_nul (quoted s)"
proof -
  have "no_nul b \<Longrightarrow> no_nul (concat (map escape b))" for b by (induction b) (auto intro: escape_no_nul)
  then show ?thesis by (auto simp: quoted_def split: option.splits)
qed

lemma tabs_no_nul: "no_nul (tabs n)"
  by (auto simp: tabs_def no_nul_def)

lemma render_no_nul: "no_nul (render r fmt d j)"
  "no_nul (render_elements r fmt d cs)"
  "no_nul (render_members r fmt d cs)"
  by (induction r fmt d j and r fmt d cs and r fmt d cs rule: render_render_elements_render_members.induct)
    (auto simp: bytes_of_def number_string_no_nul quoted_no_nul tabs_no_nul split: json_type.splits option.splits)

section \<open>The printers of values\<close>

lemma moved_same: "moved p s p' \<Longrightarrow> pb_depth p' = pb_depth p \<and> pb_format p' = pb_format p"
  by (simp add: moved_def alike_def)

lemma moved_nil: "pb_ok p \<Longrightarrow> moved p [] p"
  by (auto simp: moved_def alike_def pb_ok_def)

lemma fits_less: "fits al p n \<Longrightarrow> m \<le> n \<Longrightarrow> fits al p m"
  by (auto simp: fits_def)

text \<open>A text put behind the offset, which then moves over it.\<close>

lemma put_step:
  assumes "moved p s p1" "A \<Longrightarrow> fits al p (length s + n')" "length t + 1 \<le> n" "n \<le> n' + 2"
    and f: "\<And>q. pb_depth q = pb_depth p1 \<Longrightarrow> pb_format q = pb_format p1 \<Longrightarrow> f q = t @ [0]"
    and k: "\<And>q. moved p (s @ t) (move (length t) q) \<Longrightarrow> wrote p1 t q \<Longrightarrow> outcome A R (k q)"
  shows "outcome A R (ensured al p1 n (\<lambda>p. do { p \<leftarrow> put p (f p); k p }))"
proof (rule ensured_outcome [OF moved_ok [OF assms(1)] _ assms(4)])
  show "fits al p1 n'" if A using assms(1,2) fits_moved that by blast
  fix p2 assume p2: "moved p1 [] p2" "pb_offset p2 + n < length (pb_buffer p2)"
  then have "pb_offset p2 + length t < length (pb_buffer p2)" using assms(3) by simp
  from put_wrote [OF moved_ok [OF p2(1)] this] obtain q where q: "put p2 (t @ [0]) = Some q" "moved p2 t (move (length t) q)" "wrote p2 t q"
    by metis
  have "f p2 = t @ [0]" using f moved_same [OF p2(1)] by simp
  moreover have "moved p (s @ t) (move (length t) q)" using moved_moved [OF assms(1) moved_moved [OF p2(1) q(2)]] by simp
  moreover have "wrote p1 t q" using moved_wrote [OF p2(1) q(3)] by simp
  ultimately show "outcome A R (do { p \<leftarrow> put p2 (f p2); k p })" using k q(1) by simp
qed

lemma put_open_step:
  assumes "moved p s p1" "A \<Longrightarrow> fits al p (length s + n')" "length t \<le> n" "n \<le> n' + 2"
    and f: "\<And>q. pb_depth q = pb_depth p1 \<Longrightarrow> pb_format q = pb_format p1 \<Longrightarrow> f q = t"
    and k: "\<And>q. moved p (s @ t) (move (length t) q) \<Longrightarrow> outcome A R (k q)"
  shows "outcome A R (ensured al p1 n (\<lambda>p. do { p \<leftarrow> put p (f p); k p }))"
proof (rule ensured_outcome [OF moved_ok [OF assms(1)] _ assms(4)])
  show "fits al p1 n'" if A using assms(1,2) fits_moved that by blast
  fix p2 assume p2: "moved p1 [] p2" "pb_offset p2 + n < length (pb_buffer p2)"
  then have "pb_offset p2 + length t < length (pb_buffer p2)" using assms(3) by simp
  from put_moved [OF moved_ok [OF p2(1)] this] obtain q where q: "put p2 t = Some q" "moved p2 t (move (length t) q)" by metis
  have "f p2 = t" using f moved_same [OF p2(1)] by simp
  moreover have "moved p (s @ t) (move (length t) q)" using moved_moved [OF assms(1) moved_moved [OF p2(1) q(2)]] by simp
  ultimately show "outcome A R (do { p \<leftarrow> put p2 (f p2); k p })" using k q(1) by simp
qed

text \<open>A printer called behind a text.\<close>

lemma call_step:
  assumes "moved p s p1" "outcome A (wrote p1 t) x" "no_nul t"
    and k: "\<And>q. moved p (s @ t) q \<Longrightarrow> outcome A R (k q)"
  shows "outcome A R (tried x (\<lambda>p. do { p \<leftarrow> update_offset p; k p }))"
proof (rule tried_outcome [OF assms(2)])
  fix p2 assume "wrote p1 t p2"
  from update_moved [OF this assms(3)] obtain q where "update_offset p2 = Some q" "moved p1 t q" by blast
  then show "outcome A R (do { p \<leftarrow> update_offset p2; k p })" using k moved_moved [OF assms(1)] by simp
qed

text \<open>What is shown of the printer of values, for one item.\<close>

definition prints_well :: "(nat \<Rightarrow> bool) \<Rightarrow> (rat \<Rightarrow> rat) \<Rightarrow> fp json \<Rightarrow> bool" where
  "prints_well al r c \<longleftrightarrow> (\<forall>p A. pb_ok p \<longrightarrow> (A \<longrightarrow> fits al p (length (render r (pb_format p) (pb_depth p) c)) \<and> can_print c)
     \<longrightarrow> outcome A (wrote p (render r (pb_format p) (pb_depth p) c)) (print_value al r c p))"

lemma prints_wellD:
  assumes "prints_well al r c" "moved p s p1" "A \<Longrightarrow> fits al p (length s + length (render r (pb_format p) (pb_depth p) c))"
    "A \<Longrightarrow> can_print c"
  shows "outcome A (wrote p1 (render r (pb_format p) (pb_depth p) c)) (print_value al r c p1)"
proof -
  have "A \<longrightarrow> fits al p1 (length (render r (pb_format p1) (pb_depth p1) c)) \<and> can_print c"
    using fits_moved [OF assms(2)] assms(3,4) moved_same [OF assms(2)] by auto
  then have "outcome A (wrote p1 (render r (pb_format p1) (pb_depth p1) c)) (print_value al r c p1)"
    using assms(1) moved_ok [OF assms(2)] unfolding prints_well_def by blast
  then show ?thesis using moved_same [OF assms(2)] by simp
qed

lemma elements_law:
  assumes "\<And>c. c \<in> set cs \<Longrightarrow> prints_well al r c" "moved p s p1"
    "A \<Longrightarrow> fits al p (length s + length (render_elements r (pb_format p) (pb_depth p) cs))" "A \<Longrightarrow> \<forall>c \<in> set cs. can_print c"
  shows "outcome A (moved p (s @ render_elements r (pb_format p) (pb_depth p) cs)) (print_elements al r cs p1)"
  using assms
proof (induction cs arbitrary: s p1)
  case (Cons c cs)
  let ?f = "pb_format p" and ?d = "pb_depth p"
  let ?t = "render r ?f ?d c" and ?sep = "44 # blanks ?f [32]"
  have call: "outcome A (wrote p1 ?t) (print_value al r c p1)"
    using Cons.prems fits_less [of al p] by (intro prints_wellD [OF _ Cons.prems(2)]) (auto)
  show ?case unfolding print_elements.simps
  proof (rule call_step [OF Cons.prems(2) call render_no_nul(1)])
    fix q assume q: "moved p (s @ ?t) q"
    show "outcome A (moved p (s @ render_elements r ?f ?d (c # cs)))
      (if cs = [] then print_elements al r cs q
        else let len = (if pb_format q then 2 else 1) in ensured al q (len + 1) (\<lambda>p. do {
               p \<leftarrow> put p (44 # (if pb_format p then [32] else []) @ [0]); print_elements al r cs (move len p) }))"
    proof (cases "cs = []")
      case True
      then show ?thesis using q by simp
    next
      case False
      have len: "(if pb_format q then 2 else 1) = length ?sep" using moved_same [OF q] by simp
      let ?r = "render_elements r ?f ?d cs"
      show ?thesis unfolding if_not_P [OF False] Let_def len
      proof (rule put_step [OF q, where n' = "length ?sep + length ?r"])
        show "fits al p (length (s @ ?t) + (length ?sep + length ?r))" if A using Cons.prems(3) [OF that] False by (simp add: add.assoc)
      next
        fix q2 assume q2: "moved p ((s @ ?t) @ ?sep) (move (length ?sep) q2)"
        have "outcome A (moved p (((s @ ?t) @ ?sep) @ ?r)) (print_elements al r cs (move (length ?sep) q2))"
        proof (rule Cons.IH [OF _ q2])
          show "fits al p (length ((s @ ?t) @ ?sep) + length ?r)" if A using Cons.prems(3) [OF that] False by (simp add: add.assoc)
        qed (use Cons.prems in auto)
        then show "outcome A (moved p (s @ render_elements r ?f ?d (c # cs))) (print_elements al r cs (move (length ?sep) q2))"
          using False by simp
      qed (use moved_same [OF q] in auto)
    qed
  qed
qed simp

lemma members_law:
  assumes "\<And>c. c \<in> set cs \<Longrightarrow> prints_well al r c" "moved p s p1"
    "A \<Longrightarrow> fits al p (length s + length (render_members r (pb_format p) (pb_depth p) cs))" "A \<Longrightarrow> \<forall>c \<in> set cs. can_print c"
  shows "outcome A (moved p (s @ render_members r (pb_format p) (pb_depth p) cs)) (print_members al r cs p1)"
  using assms
proof (induction cs arbitrary: s p1)
  case (Cons c cs)
  let ?f = "pb_format p" and ?d = "pb_depth p"
  let ?tabs = "blanks ?f (tabs ?d)" and ?name = "quoted (js_name c)" and ?colon = "58 # blanks ?f [9]"
    and ?v = "render r ?f ?d c" and ?comma = "(if cs \<noteq> [] then [44] else []) @ blanks ?f [10]" and ?r = "render_members r ?f ?d cs"
  have all: "render_members r ?f ?d (c # cs) = ?tabs @ ?name @ ?colon @ ?v @ ?comma @ ?r" by simp
  have fits: "fits al p n" if A "n \<le> length s + length ?tabs + length ?name + length ?colon + length ?v + length ?comma + length ?r" for n
    using fits_less [OF Cons.prems(3) [OF that(1)], of n] that(2) unfolding all by simp
  note same = moved_same [OF Cons.prems(2)]
  have start: "outcome A (moved p (s @ ?tabs)) (if pb_format p1
            then ensured al p1 (pb_depth p1) (\<lambda>p. do { p \<leftarrow> put p (tabs (pb_depth p)); Some (Some (move (pb_depth p) p)) })
            else Some (Some p1))"
  proof (cases ?f)
    case True
    have "outcome A (moved p (s @ ?tabs)) (ensured al p1 ?d (\<lambda>p. do { p \<leftarrow> put p (tabs (pb_depth p)); Some (Some (move (pb_depth p) p)) }))"
    proof (rule put_open_step [OF Cons.prems(2), where n' = ?d and t = "tabs ?d"])
      show "fits al p (length s + ?d)" if A using that True by (intro fits) (simp_all add: tabs_def)
      fix q assume q: "moved p (s @ tabs ?d) (move (length (tabs ?d)) q)"
      have "pb_depth q = ?d" using moved_same [OF q] by simp
      then show "outcome A (moved p (s @ ?tabs)) (Some (Some (move (pb_depth q) q)))" using q True by (simp add: tabs_def)
    qed (use same in \<open>simp_all add: tabs_def\<close>)
    then show ?thesis using True same by simp
  qed (use same Cons.prems(2) in simp)
  show ?case unfolding print_members.simps
  proof (rule tried_outcome [OF start], rule call_step [where t = ?name])
    fix q assume q: "moved p (s @ ?tabs) q"
    show "moved p (s @ ?tabs) q" by (rule q)
    show "outcome A (wrote q ?name) (print_string_ptr al (js_name c) q)"
      using fits_moved [OF q] fits by (intro string_law moved_ok [OF q]) simp
    show "no_nul ?name" by (rule quoted_no_nul)
  next
    fix q0 q assume "moved p (s @ ?tabs) q0" and q: "moved p ((s @ ?tabs) @ ?name) q"
    have len: "(if pb_format q then 2 else 1) = length ?colon" using moved_same [OF q] by simp
    show "outcome A (moved p (s @ render_members r ?f ?d (c # cs))) (let len = if pb_format q then 2 else 1
       in ensured al q len (\<lambda>p. do {
         p \<leftarrow> put p (58 # (if pb_format p then [9] else []));
         tried (print_value al r c (move len p)) (\<lambda>p. do {
           p \<leftarrow> update_offset p;
           let len = (if pb_format p then 1 else 0) + (if cs \<noteq> [] then 1 else 0);
           ensured al p (len + 1) (\<lambda>p. do {
             p \<leftarrow> put p ((if cs \<noteq> [] then [44] else []) @ (if pb_format p then [10] else []) @ [0]);
             print_members al r cs (move len p) }) }) }))"
      unfolding Let_def len
    proof (rule put_open_step [OF q, where n' = "length ?colon"])
      show "fits al p (length ((s @ ?tabs) @ ?name) + length ?colon)" if A using that by (intro fits) simp_all
      fix q1 assume q1: "moved p (((s @ ?tabs) @ ?name) @ ?colon) (move (length ?colon) q1)"
      show "outcome A (moved p (s @ render_members r ?f ?d (c # cs))) (tried (print_value al r c (move (length ?colon) q1)) (\<lambda>p. do {
           p \<leftarrow> update_offset p;
           ensured al p ((if pb_format p then 1 else 0) + (if cs \<noteq> [] then 1 else 0) + 1) (\<lambda>pa. do {
             pa \<leftarrow> put pa ((if cs \<noteq> [] then [44] else []) @ (if pb_format pa then [10] else []) @ [0]);
             print_members al r cs (move ((if pb_format p then 1 else 0) + (if cs \<noteq> [] then 1 else 0)) pa) }) }))"
      proof (rule call_step [OF q1 _ render_no_nul(1)])
        show "outcome A (wrote (move (length ?colon) q1) ?v) (print_value al r c (move (length ?colon) q1))"
          using Cons.prems(1,4) fits by (intro prints_wellD [OF _ q1]) auto
        fix q2 assume q2: "moved p ((((s @ ?tabs) @ ?name) @ ?colon) @ ?v) q2"
        have len: "(if pb_format q2 then 1 else 0) + (if cs \<noteq> [] then 1 else 0) = length ?comma" using moved_same [OF q2] by simp
        show "outcome A (moved p (s @ render_members r ?f ?d (c # cs)))
           (ensured al q2 ((if pb_format q2 then 1 else 0) + (if cs \<noteq> [] then 1 else 0) + 1) (\<lambda>pa. do {
             pa \<leftarrow> put pa ((if cs \<noteq> [] then [44] else []) @ (if pb_format pa then [10] else []) @ [0]);
             print_members al r cs (move ((if pb_format q2 then 1 else 0) + (if cs \<noteq> [] then 1 else 0)) pa) }))"
          unfolding len
        proof (rule put_step [OF q2, where n' = "length ?comma + length ?r"])
          show "fits al p (length ((((s @ ?tabs) @ ?name) @ ?colon) @ ?v) + (length ?comma + length ?r))" if A
            using that by (intro fits) simp_all
          fix q3 assume q3: "moved p (((((s @ ?tabs) @ ?name) @ ?colon) @ ?v) @ ?comma) (move (length ?comma) q3)"
          have "outcome A (moved p ((((((s @ ?tabs) @ ?name) @ ?colon) @ ?v) @ ?comma) @ ?r)) (print_members al r cs (move (length ?comma) q3))"
          proof (rule Cons.IH [OF _ q3])
            show "fits al p (length (((((s @ ?tabs) @ ?name) @ ?colon) @ ?v) @ ?comma) + length ?r)" if A
              using that by (intro fits) simp_all
          qed (use Cons.prems(1,4) in auto)
          then show "outcome A (moved p (s @ render_members r ?f ?d (c # cs))) (print_members al r cs (move (length ?comma) q3))"
            unfolding all by (simp only: append_assoc)
        qed (use moved_same [OF q2] in auto)
      qed
    qed (use moved_same [OF q] in auto)
  qed
qed simp

text \<open>The brackets: the depth is one more between them.\<close>

abbreviation deeper :: "printbuffer \<Rightarrow> printbuffer" where
  "deeper p \<equiv> p\<lparr>pb_depth := Suc (pb_depth p)\<rparr>"

lemma deeper_moved: "moved p s (move n q) \<Longrightarrow> moved (deeper p) s ((move n q)\<lparr>pb_depth := pb_depth q + 1\<rparr>)"
  by (auto simp: moved_def alike_def pb_ok_def)

lemma leave_step:
  assumes "moved (deeper p) s p1" "A \<Longrightarrow> fits al p (length s + length t)" "length t + 1 \<le> n" "n \<le> length t + 1"
    and f: "\<And>q. pb_depth q = Suc (pb_depth p) \<Longrightarrow> pb_format q = pb_format p \<Longrightarrow> f q = t @ [0]"
  shows "outcome A (wrote p (s @ t)) (ensured al p1 n (\<lambda>p. do { p \<leftarrow> put p (f p); Some (Some (p\<lparr>pb_depth := pb_depth p - 1\<rparr>)) }))"
proof (rule put_step [OF assms(1), where t = t and n' = "length t"])
  show "fits al (deeper p) (length s + length t)" if A using assms(2) that by (simp add: fits_def)
  fix q assume "wrote p1 t q"
  from moved_wrote [OF assms(1) this] have w: "wrote (deeper p) (s @ t) q" .
  then have "wrote p (s @ t) (q\<lparr>pb_depth := pb_depth p\<rparr>)" "pb_depth q = Suc (pb_depth p)"
    by (auto simp: wrote_def alike_def pb_ok_def)
  then show "outcome A (wrote p (s @ t)) (Some (Some (q\<lparr>pb_depth := pb_depth q - 1\<rparr>)))" by simp
qed (use assms moved_same [OF assms(1)] in auto)

lemma array_law:
  assumes "\<And>c. c \<in> set cs \<Longrightarrow> prints_well al r c" "pb_ok p"
    and A: "A \<Longrightarrow> fits al p (length (render r (pb_format p) (pb_depth p) (Json n cJSON_Array s i x cs))) \<and> (\<forall>c \<in> set cs. can_print c)"
  shows "outcome A (wrote p (render r (pb_format p) (pb_depth p) (Json n cJSON_Array s i x cs))) (print_value al r (Json n cJSON_Array s i x cs) p)"
proof -
  let ?e = "render_elements r (pb_format p) (Suc (pb_depth p)) cs"
  have fits: "fits al p n" if A "n \<le> length ?e + 2" for n
    using A that fits_less [of al p "length ?e + 2" n] by simp
  have "outcome A (wrote p (([91] @ ?e) @ [93])) (print_value al r (Json n cJSON_Array s i x cs) p)"
    unfolding print_value.simps json_type.case
  proof (rule put_open_step [OF moved_nil [OF assms(2)], where t = "[91]" and n' = "length ?e"])
    fix q assume "moved p ([] @ [91]) (move (length [91 :: u8]) q)"
    from deeper_moved [OF this] have q: "moved (deeper p) [91] ((move 1 q)\<lparr>pb_depth := pb_depth q + 1\<rparr>)" by simp
    show "outcome A (wrote p (([91] @ ?e) @ [93])) (tried (print_elements al r cs ((move 1 q)\<lparr>pb_depth := pb_depth q + 1\<rparr>)) (\<lambda>p.
              ensured al p 2 (\<lambda>p. do { p \<leftarrow> put p [93, 0]; Some (Some (p\<lparr>pb_depth := pb_depth p - 1\<rparr>)) })))"
    proof (rule tried_outcome [OF _ leave_step])
      have "fits al (deeper p) (length [91 :: u8] + length ?e)" if A using fits [OF that, of "1 + length ?e"] by (simp add: fits_def)
      then show "outcome A (moved (deeper p) ([91] @ ?e)) (print_elements al r cs ((move 1 q)\<lparr>pb_depth := pb_depth q + 1\<rparr>))"
        using elements_law [where A = A, OF assms(1) q] A by simp
    qed (use fits in auto)
  qed (use fits in auto)
  then show ?thesis by simp
qed

lemma object_law:
  assumes "\<And>c. c \<in> set cs \<Longrightarrow> prints_well al r c" "pb_ok p"
    and A: "A \<Longrightarrow> fits al p (length (render r (pb_format p) (pb_depth p) (Json n cJSON_Object s i x cs))) \<and> (\<forall>c \<in> set cs. can_print c)"
  shows "outcome A (wrote p (render r (pb_format p) (pb_depth p) (Json n cJSON_Object s i x cs))) (print_value al r (Json n cJSON_Object s i x cs) p)"
proof -
  let ?f = "pb_format p" and ?d = "pb_depth p"
  let ?o = "123 # blanks ?f [10]" and ?e = "render_members r ?f (Suc ?d) cs" and ?c = "blanks ?f (tabs ?d) @ [125]"
  have fits: "fits al p n" if A "n \<le> length ?o + length ?e + length ?c" for n
    using A [OF that(1)] that(2) fits_less [of al p "length ?o + length ?e + length ?c" n] by (simp add: add.assoc)
  have len: "(if ?f then 2 else 1) = length ?o" by simp
  have "outcome A (wrote p ((?o @ ?e) @ ?c)) (print_value al r (Json n cJSON_Object s i x cs) p)"
    unfolding print_value.simps json_type.case Let_def len
  proof (rule put_open_step [OF moved_nil [OF assms(2)], where t = ?o and n' = "length ?o"])
    fix q assume "moved p ([] @ ?o) (move (length ?o) q)"
    from deeper_moved [OF this] have q: "moved (deeper p) ?o ((move (length ?o) q)\<lparr>pb_depth := pb_depth q + 1\<rparr>)" by simp
    show "outcome A (wrote p ((?o @ ?e) @ ?c)) (tried (print_members al r cs ((move (length ?o) q)\<lparr>pb_depth := pb_depth q + 1\<rparr>)) (\<lambda>p.
              ensured al p (if pb_format p then pb_depth p + 1 else 2) (\<lambda>p. do {
                p \<leftarrow> put p ((if pb_format p then tabs (pb_depth p - 1) else []) @ [125, 0]);
                Some (Some (p\<lparr>pb_depth := pb_depth p - 1\<rparr>)) })))"
    proof (rule tried_outcome)
      have "fits al (deeper p) (length ?o + length ?e)" if A using fits [OF that, of "length ?o + length ?e"] by (simp add: fits_def)
      then show "outcome A (moved (deeper p) (?o @ ?e)) (print_members al r cs ((move (length ?o) q)\<lparr>pb_depth := pb_depth q + 1\<rparr>))"
        using members_law [where A = A, OF assms(1) q] A by simp
      fix q2 assume q2: "moved (deeper p) (?o @ ?e) q2"
      show "outcome A (wrote p ((?o @ ?e) @ ?c)) (ensured al q2 (if pb_format q2 then pb_depth q2 + 1 else 2) (\<lambda>p. do {
                p \<leftarrow> put p ((if pb_format p then tabs (pb_depth p - 1) else []) @ [125, 0]);
                Some (Some (p\<lparr>pb_depth := pb_depth p - 1\<rparr>)) }))"
        using moved_same [OF q2] fits by (intro leave_step [OF q2]) (auto simp: tabs_def add.assoc)
    qed
  qed (use fits in auto)
  then show ?thesis by simp
qed

lemma value_law: "doubles j \<Longrightarrow> prints_well al r j"
proof (induction j)
  case (Json n t s i x cs)
  let ?j = "Json n t s i x cs"
  have IH: "prints_well al r c" if "c \<in> set cs" for c using Json that by (auto simp: doubles_def)
  show ?case unfolding prints_well_def
  proof (intro allI impI)
    fix p A assume ok: "pb_ok p" and A: "A \<longrightarrow> fits al p (length (render r (pb_format p) (pb_depth p) ?j)) \<and> can_print ?j"
    let ?f = "pb_format p" and ?d = "pb_depth p"
    have can: "\<forall>c \<in> set cs. can_print c" if A using A that by (auto simp: can_print_def)
    have lit: "outcome A (wrote p b) (print_literal al b p)" if "render r ?f ?d ?j = b" for b
      using literal_law [OF ok, of A al b] A that by simp
    have no: "outcome A R (Some None)" if "t = cJSON_Invalid \<or> t = cJSON_Raw \<and> s = None" for R
      using A that by (auto simp: can_print_def)
    show "outcome A (wrote p (render r ?f ?d ?j)) (print_value al r ?j p)"
    proof (cases t)
      case cJSON_Array
      then show ?thesis using array_law [where A = A, OF IH ok] A can by simp
    next
      case cJSON_Object
      then show ?thesis using object_law [where A = A, OF IH ok] A can by simp
    next
      case cJSON_Number
      have "is_double x" using Json.prems by (simp add: doubles_def)
      then show ?thesis using number_law [OF ok, of ?j A al r] A cJSON_Number by simp
    next
      case cJSON_String
      then show ?thesis using string_law [OF ok, of A al s] A by (simp add: print_string_def)
    next
      case cJSON_Raw
      then show ?thesis using no lit by (cases s) auto
    qed (use no lit in auto)
  qed
qed

section \<open>Printing an item\<close>

lemma printed_law:
  assumes "doubles j" "pb_ok p" "pb_offset p = 0"
  shows "\<exists>res. print_value al r j p = Some res \<and> (case res of
      None \<Rightarrow> \<not> (fits al p (length (render r (pb_format p) (pb_depth p) j)) \<and> can_print j)
    | Some p' \<Rightarrow> \<exists>rest. pb_buffer p' = render r (pb_format p) (pb_depth p) j @ 0 # rest
        \<and> pb_offset p' \<le> length (render r (pb_format p) (pb_depth p) j) \<and> length (pb_buffer p') = pb_length p'
        \<and> (pb_noalloc p \<longrightarrow> pb_length p' = pb_length p))"
proof -
  let ?s = "render r (pb_format p) (pb_depth p) j"
  have "outcome (fits al p (length ?s) \<and> can_print j) (wrote p ?s) (print_value al r j p)"
    using value_law [OF assms(1)] assms(2) unfolding prints_well_def by blast
  then show ?thesis using assms(3)
    by (auto simp: outcome_def wrote_def alike_def pb_ok_def split: option.splits)
qed

lemma print_json_law:
  assumes "doubles j"
  shows "\<exists>res. print_json al fresh r fmt (Some j) = Some res \<and> (res = None \<or> res = Some (render r fmt 0 j @ [0]))
    \<and> ((\<forall>n. al n) \<and> can_print j \<and> length (render r fmt 0 j) + 3 \<le> 2147483647 \<longrightarrow> res \<noteq> None)"
proof -
  let ?p = "print_buffer fresh 256 fmt" and ?s = "render r fmt 0 j"
  have p: "pb_ok ?p" "pb_offset ?p = 0" "pb_format ?p = fmt" "pb_depth ?p = 0" "pb_noalloc ?p = False"
    by (simp_all add: print_buffer_def pb_ok_def)
  obtain res where res: "print_value al r j ?p = Some res" "case res of
      None \<Rightarrow> \<not> (fits al ?p (length ?s) \<and> can_print j)
    | Some p' \<Rightarrow> \<exists>rest. pb_buffer p' = ?s @ 0 # rest \<and> pb_offset p' \<le> length ?s \<and> length (pb_buffer p') = pb_length p'
        \<and> (pb_noalloc ?p \<longrightarrow> pb_length p' = pb_length ?p)"
    using printed_law [OF assms p(1,2), of al r] unfolding p(3,4) by blast
  show ?thesis
  proof (cases res)
    case None
    then show ?thesis using res p by (auto simp: print_json_def fits_def)
  next
    case (Some p')
    then obtain rest where q: "pb_buffer p' = ?s @ 0 # rest" "pb_offset p' \<le> length ?s" using res(2) by auto
    have "no_nul (drop (pb_offset p') ?s)" by (rule no_nul_drop [OF render_no_nul(1)])
    then have "strlen (drop (pb_offset p') (pb_buffer p')) = Some (length ?s - pb_offset p')" using q by simp
    then show ?thesis using res(1) Some q by (auto simp: print_json_def update_offset_def)
  qed
qed

lemma preallocated_law:
  assumes "doubles j" "int (length buf) = len" "len \<le> 2147483647"
  shows "\<exists>res. cJSON_PrintPreallocated r (Some j) buf len fmt = Some res \<and> (case res of
      None \<Rightarrow> \<not> (can_print j \<and> int (length (render r fmt 0 j)) + 3 \<le> len)
    | Some out \<Rightarrow> length out = length buf \<and> cstr out = render r fmt 0 j \<and> 0 \<in> set out)"
proof -
  let ?p = "\<lparr>pb_buffer = buf, pb_length = nat len, pb_offset = 0, pb_depth = 0, pb_noalloc = True, pb_format = fmt, pb_fresh = 0\<rparr>"
  have p: "pb_ok ?p" "pb_offset ?p = 0" using assms(2) by (auto simp: pb_ok_def)
  from printed_law [OF assms(1) p, of "\<lambda>_. False" r] obtain res where
    "print_value (\<lambda>_. False) r j ?p = Some res" "case res of None \<Rightarrow> \<not> (can_print j \<and> int (length (render r fmt 0 j)) + 3 \<le> len)
      | Some p' \<Rightarrow> \<exists>rest. pb_buffer p' = render r fmt 0 j @ 0 # rest \<and> length (pb_buffer p') = nat len"
    using assms(2,3) by (fastforce simp: fits_def split: option.splits)
  then show ?thesis using assms(2) by (auto simp: cJSON_PrintPreallocated_def render_no_nul split: option.splits)
qed

lemma buffered_law:
  assumes "doubles j"
  shows "\<exists>res. cJSON_PrintBuffered al fresh r (Some j) prebuffer fmt = Some res \<and> (case res of
      None \<Rightarrow> \<not> ((\<forall>n. al n) \<and> 0 \<le> prebuffer \<and> can_print j \<and> length (render r fmt 0 j) + 3 \<le> 2147483647)
    | Some out \<Rightarrow> cstr out = render r fmt 0 j \<and> 0 \<in> set out)"
proof (cases "prebuffer < 0 \<or> \<not> al (nat prebuffer)")
  case True
  then show ?thesis by (auto simp: cJSON_PrintBuffered_def)
next
  case False
  let ?p = "print_buffer fresh (nat prebuffer) fmt"
  have p: "pb_ok ?p" "pb_offset ?p = 0" "pb_format ?p = fmt" "pb_depth ?p = 0" "pb_noalloc ?p = False"
    by (auto simp: print_buffer_def pb_ok_def)
  from printed_law [OF assms p(1,2), of al r, unfolded p(3,4)] obtain res where
    "print_value al r j ?p = Some res" "case res of
        None \<Rightarrow> \<not> ((\<forall>n. al n) \<and> can_print j \<and> length (render r fmt 0 j) + 3 \<le> 2147483647)
      | Some p' \<Rightarrow> \<exists>rest. pb_buffer p' = render r fmt 0 j @ 0 # rest"
    using p by (fastforce simp: fits_def split: option.splits)
  then show ?thesis using False by (auto simp: cJSON_PrintBuffered_def render_no_nul split: option.splits)
qed

section \<open>The four functions that print\<close>

text \<open>C13: printing an item whose numbers are doubles has no undefined behaviour, whatever \<open>malloc\<close> does: no write leaves the
  buffer, at any growth, and no number its array of 26 bytes.  \<open>cJSON_Print\<close> and \<open>cJSON_PrintUnformatted\<close> give nothing or
  exactly the text of the item and its NUL; \<open>cJSON_PrintBuffered\<close> and \<open>cJSON_PrintPreallocated\<close> leave the text in the
  block.  Nothing is given only when memory lacks, the item has a part without a type or a raw part without text, or the text comes
  within three bytes of \<open>INT_MAX\<close>; a block of the caller is enough when it has three bytes more than the text.\<close>

theorem json_printed:
  assumes "doubles j" "int (length buf) = len" "len \<le> 2147483647"
  shows "(\<exists>res. (if fmt then cJSON_Print al fresh r (Some j) else cJSON_PrintUnformatted al fresh r (Some j)) = Some res
      \<and> (case res of
          None \<Rightarrow> \<not> ((\<forall>n. al n) \<and> can_print j \<and> length (render r fmt 0 j) + 3 \<le> 2147483647)
        | Some out \<Rightarrow> out = render r fmt 0 j @ [0]))
    \<and> (\<exists>res. cJSON_PrintBuffered al fresh r (Some j) prebuffer fmt = Some res \<and> (case res of
          None \<Rightarrow> \<not> ((\<forall>n. al n) \<and> 0 \<le> prebuffer \<and> can_print j \<and> length (render r fmt 0 j) + 3 \<le> 2147483647)
        | Some out \<Rightarrow> cstr out = render r fmt 0 j \<and> 0 \<in> set out))
    \<and> (\<exists>res. cJSON_PrintPreallocated r (Some j) buf len fmt = Some res \<and> (case res of
          None \<Rightarrow> \<not> (can_print j \<and> int (length (render r fmt 0 j)) + 3 \<le> len)
        | Some out \<Rightarrow> length out = length buf \<and> cstr out = render r fmt 0 j \<and> 0 \<in> set out))"
proof -
  obtain res where "print_json al fresh r fmt (Some j) = Some res" "res = None \<or> res = Some (render r fmt 0 j @ [0])"
    "(\<forall>n. al n) \<and> can_print j \<and> length (render r fmt 0 j) + 3 \<le> 2147483647 \<longrightarrow> res \<noteq> None"
    using print_json_law [OF assms(1), of al fresh r fmt] by blast
  then show ?thesis using buffered_law [OF assms(1)] preallocated_law [OF assms]
    by (auto simp: cJSON_Print_def cJSON_PrintUnformatted_def split: option.splits)
qed

theorem json_printed_witness:
  "cJSON_PrintUnformatted (\<lambda>_. True) 7 id
     (Some (Json None cJSON_Array None 0 (Fin 0) [Json None cJSON_String (Some [34, 10, 1]) 0 (Fin 0) []]))
   = Some (Some [91, 34, 92, 34, 92, 110, 92, 117, 48, 48, 48, 49, 34, 93, 0])"
proof -
  let ?j = "Json None cJSON_Array None 0 (Fin 0) [Json None cJSON_String (Some [34, 10, 1]) 0 (Fin 0) []] :: fp json"
  have "render id False 0 ?j = [91, 34, 92, 34, 92, 110, 92, 117, 48, 48, 48, 49, 34, 93]"
    by (simp add: quoted_def cstr_def escape_def escape_letter_def bytes_of_def hex2_def hex_digit_def)
  moreover have "double_range 0" by (rule double_range_small) simp_all
  then have "doubles ?j" "can_print ?j" by (simp_all add: doubles_def can_print_def is_double_def)
  ultimately show ?thesis
    using json_printed [of ?j "[]" 0 False "\<lambda>_. True" 7 id 0] by (auto split: option.splits)
qed

end
