(* ===== verification/JsonParse.thy ===== *)
theory JsonParse
  imports JsonItems
begin

text \<open>
  Parsing JSON: \<open>cJSON_Parse\<close> and what it calls in \<open>src/main/cJSON.c\<close>.

  A parser gives the item, or \<open>None\<close> where the code returns false, and the buffer.  The lists of children that the code
  links and, after a failure, deletes are lists.  Each item and each string is allocated at a place of its own, so that any
  call of \<open>malloc\<close> may fail and the others not.  Every read is checked against the text with its NUL, every
  write of a string against the block that was allocated for it.

  The nesting limit bounds the recursion: \<open>parse_value\<close> has the fuel 1001, one more than the limit, and a loop over the
  elements as much as the text has bytes, since each element takes one.

  Shown: no text makes the parser leave a block, run out of fuel or loop; what it makes is a document of the types
  of JSON whose nesting is within the limit.
\<close>

record parse_buffer =
  bf_content :: bytes
  bf_length :: nat
  bf_offset :: nat
  bf_depth :: nat

abbreviation step :: "nat \<Rightarrow> parse_buffer \<Rightarrow> parse_buffer" where
  "step n b \<equiv> b\<lparr>bf_offset := bf_offset b + n\<rparr>"

text \<open>\<open>can_read\<close> and the comparison with a literal; \<open>can_access_at_index\<close> with a test of the byte.\<close>

definition starts :: "parse_buffer \<Rightarrow> string \<Rightarrow> bool option" where
  "starts b s =
     (if bf_offset b + length s \<le> bf_length b
      then if bf_offset b + length s \<le> length (bf_content b)
           then Some (take (length s) (drop (bf_offset b) (bf_content b)) = bytes_of s) else None
      else Some False)"

definition next_is :: "parse_buffer \<Rightarrow> (u8 \<Rightarrow> bool) \<Rightarrow> bool option" where
  "next_is b test = (if bf_offset b < bf_length b then map_option test (rd (bf_content b) (bf_offset b)) else Some False)"

section \<open>White space\<close>

function skip_loop :: "parse_buffer \<Rightarrow> parse_buffer option" where
  "skip_loop b =
     (if bf_offset b < bf_length b then do {
        c \<leftarrow> rd (bf_content b) (bf_offset b);
        (if c \<le> 32 then skip_loop (step 1 b) else Some b) }
      else Some b)"
  by auto
termination by (relation "measure (\<lambda>b. bf_length b - bf_offset b)") auto

declare skip_loop.simps [simp del]

text \<open>The length counts the NUL, so it is not 0.\<close>

definition buffer_skip_whitespace :: "parse_buffer \<Rightarrow> parse_buffer option" where
  "buffer_skip_whitespace b = do {
     b \<leftarrow> skip_loop b;
     Some (if bf_offset b = bf_length b then b\<lparr>bf_offset := bf_offset b - 1\<rparr> else b) }"

definition skip_utf8_bom :: "parse_buffer \<Rightarrow> parse_buffer option" where
  "skip_utf8_bom b =
     (if bf_offset b + 4 < bf_length b
      then if bf_offset b + 3 \<le> length (bf_content b)
           then Some (if take 3 (drop (bf_offset b) (bf_content b)) = [0xEF, 0xBB, 0xBF] then step 3 b else b) else None
      else Some b)"

section \<open>Numbers\<close>

text \<open>The characters are copied to an array of 64 bytes.\<close>

definition parse_number :: "(rat \<Rightarrow> rat) \<Rightarrow> fp json \<Rightarrow> parse_buffer \<Rightarrow> (fp json option \<times> parse_buffer) option" where
  "parse_number r item b =
     (let s = takeWhile number_char (take 63 (drop (bf_offset b) (take (bf_length b) (bf_content b))));
          (number, n) = strtod r s
      in if n = 0 then Some (None, b)
         else do { i \<leftarrow> int_of_double number; Some (Some (with_number i number item), step n b) })"

section \<open>Strings\<close>

definition hex_value :: "u8 \<Rightarrow> nat option" where
  "hex_value c =
     (if c \<ge> 48 \<and> c \<le> 57 then Some (unat c - 48)
      else if c \<ge> 65 \<and> c \<le> 70 then Some (10 + unat c - 65)
      else if c \<ge> 97 \<and> c \<le> 102 then Some (10 + unat c - 97)
      else None)"

fun hex4_loop :: "nat \<Rightarrow> bytes \<Rightarrow> nat" where
  "hex4_loop h [] = h"
| "hex4_loop h (c # s) = (case hex_value c of None \<Rightarrow> 0 | Some d \<Rightarrow> hex4_loop (16 * h + d) s)"

definition parse_hex4 :: "bytes \<Rightarrow> nat \<Rightarrow> nat option" where
  "parse_hex4 buf p = (if p + 4 \<le> length buf then Some (hex4_loop 0 (take 4 (drop p buf))) else None)"

text \<open>The loop over the bytes after the first, from the last one.\<close>

fun utf8_tail :: "nat \<Rightarrow> u64 \<Rightarrow> bytes \<Rightarrow> u64 \<times> bytes" where
  "utf8_tail 0 cp s = (cp, s)"
| "utf8_tail (Suc n) cp s = utf8_tail n (drop_bit 6 cp) (ucast ((cp OR 0x80) AND 0xBF) # s)"

definition encode_utf8 :: "nat \<Rightarrow> u64 \<Rightarrow> u64 \<Rightarrow> bytes" where
  "encode_utf8 utf8_length first_byte_mark cp =
     (let (cp, s) = utf8_tail (utf8_length - 1) cp []
      in ucast (if utf8_length > 1 then (cp OR first_byte_mark) AND 0xFF else cp AND 0x7F) # s)"

definition codepoint_utf8 :: "nat \<Rightarrow> bytes option" where
  "codepoint_utf8 cp =
     (if cp < 0x80 then Some (encode_utf8 1 0 (word_of_nat cp))
      else if cp < 0x800 then Some (encode_utf8 2 0xC0 (word_of_nat cp))
      else if cp < 0x10000 then Some (encode_utf8 3 0xE0 (word_of_nat cp))
      else if cp \<le> 0x10FFFF then Some (encode_utf8 4 0xF0 (word_of_nat cp))
      else None)"

text \<open>The bytes and the length of the sequence, which is 0 for a failure.  The literal starts at \<open>p\<close>, the string ends at \<open>e\<close>.\<close>

definition utf16_literal_to_utf8 :: "bytes \<Rightarrow> nat \<Rightarrow> nat \<Rightarrow> (bytes \<times> nat) option" where
  "utf16_literal_to_utf8 buf p e =
     (if e - p < 6 then Some ([], 0)
      else do {
        first_code \<leftarrow> parse_hex4 buf (p + 2);
        (if 0xDC00 \<le> first_code \<and> first_code \<le> 0xDFFF then Some ([], 0)
         else if 0xD800 \<le> first_code \<and> first_code \<le> 0xDBFF then
           (if e - (p + 6) < 6 then Some ([], 0)
            else do {
              c0 \<leftarrow> rd buf (p + 6);
              c1 \<leftarrow> rd buf (p + 7);
              (if c0 \<noteq> 92 \<or> c1 \<noteq> 117 then Some ([], 0)
               else do {
                 second_code \<leftarrow> parse_hex4 buf (p + 8);
                 (if second_code < 0xDC00 \<or> second_code > 0xDFFF then Some ([], 0)
                  else case codepoint_utf8 (0x10000 + ((first_code mod 0x400) * 0x400 + second_code mod 0x400)) of
                         None \<Rightarrow> Some ([], 0) | Some s \<Rightarrow> Some (s, 12)) }) })
         else case codepoint_utf8 first_code of None \<Rightarrow> Some ([], 0) | Some s \<Rightarrow> Some (s, 6)) })"

text \<open>The search for the end of the string: where it is and how many bytes are skipped, \<open>Inl ()\<close> for a failure.\<close>

function string_end :: "bytes \<Rightarrow> nat \<Rightarrow> nat \<Rightarrow> nat \<Rightarrow> (unit + nat \<times> nat) option" where
  "string_end buf len e skipped =
     (if e < len then do {
        c \<leftarrow> rd buf e;
        (if c = 34 then Some (Inr (e, skipped))
         else if c = 92 then
           (if e + 1 \<ge> len then Some (Inl ()) else string_end buf len (e + 2) (skipped + 1))
         else string_end buf len (e + 1) skipped) }
      else Some (Inl ()))"
  by auto
termination by (relation "measure (\<lambda>(buf, len, e, skipped). len - e)") auto

declare string_end.simps [simp del]

definition out_put :: "nat \<Rightarrow> bytes \<Rightarrow> bytes \<Rightarrow> bytes option" where
  "out_put cap out s = (if length out + length s \<le> cap then Some (out @ s) else None)"

text \<open>What the letter of an escape stands for, apart from \<open>u\<close>.\<close>

definition unescape_letter :: "u8 \<Rightarrow> u8 option" where
  "unescape_letter c = map_of [(98, 8), (102, 12), (110, 10), (114, 13), (116, 9), (34, 34), (92, 92), (47, 47)] c"

text \<open>The loop through the literal, into a block of \<open>cap\<close> bytes: \<open>Inl p\<close> is a failure at \<open>p\<close>.\<close>

function unescape_loop :: "bytes \<Rightarrow> nat \<Rightarrow> nat \<Rightarrow> nat \<Rightarrow> bytes \<Rightarrow> (nat + bytes) option" where
  "unescape_loop buf e cap p out =
     (if p < e then do {
        c \<leftarrow> rd buf p;
        (if c \<noteq> 92 then do { out \<leftarrow> out_put cap out [c]; unescape_loop buf e cap (p + 1) out }
         else do {
           k \<leftarrow> rd buf (p + 1);
           (case unescape_letter k of
              Some x \<Rightarrow> do { out \<leftarrow> out_put cap out [x]; unescape_loop buf e cap (p + 2) out }
            | None \<Rightarrow>
                if k = 117 then do {
                  (s, n) \<leftarrow> utf16_literal_to_utf8 buf p e;
                  (if n = 0 then Some (Inl p)
                   else do { out \<leftarrow> out_put cap out s; unescape_loop buf e cap (p + n) out }) }
                else Some (Inl p)) }) }
      else Some (Inr out))"
  by auto
termination by (relation "measure (\<lambda>(buf, e, cap, p, out). e - p)") auto

declare unescape_loop.simps [simp del]

definition with_string :: "bytes \<Rightarrow> fp json \<Rightarrow> fp json" where
  "with_string s j = Json (js_name j) cJSON_String (Some s) (js_int j) (js_num j) (js_child j)"

definition parse_string :: "mallocs \<Rightarrow> fp json \<Rightarrow> parse_buffer \<Rightarrow> (fp json option \<times> parse_buffer) option" where
  "parse_string al item b = do {
     c \<leftarrow> rd (bf_content b) (bf_offset b);
     (if c \<noteq> 34 then Some (None, step 1 b)
      else do {
        ends \<leftarrow> string_end (bf_content b) (bf_length b) (bf_offset b + 1) 0;
        (case ends of
           Inl _ \<Rightarrow> Some (None, step 1 b)
         | Inr (e, skipped) \<Rightarrow>
             let allocation_length = e - bf_offset b - skipped
             in if \<not> malloc al (allocation_length + 1) then Some (None, step 1 b)
                else do {
                  res \<leftarrow> unescape_loop (bf_content b) e (allocation_length + 1) (bf_offset b + 1) [];
                  (case res of
                     Inl p \<Rightarrow> Some (None, b\<lparr>bf_offset := p\<rparr>)
                   | Inr out \<Rightarrow> do {
                       block \<leftarrow> out_put (allocation_length + 1) out [0];
                       Some (Some (with_string (cstr block) item), b\<lparr>bf_offset := e + 1\<rparr>) }) }) }) }"

section \<open>Values\<close>

type_synonym parser = "fp json \<Rightarrow> parse_buffer \<Rightarrow> (fp json option \<times> parse_buffer) option"

text \<open>The loops over the elements of an array and the members of an object, from the byte in front of one.\<close>

fun parse_elements :: "mallocs \<Rightarrow> (mallocs \<Rightarrow> parser) \<Rightarrow> nat \<Rightarrow> fp json list \<Rightarrow> parse_buffer \<Rightarrow> (fp json list option \<times> parse_buffer) option" where
  "parse_elements al pv 0 cs b = None"
| "parse_elements al pv (Suc k) cs b =
     (case cJSON_New_Item (call 0 (call k al)) of None \<Rightarrow> Some (None, b) | Some new_item \<Rightarrow> do {
        b \<leftarrow> buffer_skip_whitespace (step 1 b);
        (v, b) \<leftarrow> pv (call 1 (call k al)) new_item b;
        (case v of None \<Rightarrow> Some (None, b) | Some c \<Rightarrow> do {
           b \<leftarrow> buffer_skip_whitespace b;
           more \<leftarrow> next_is b (\<lambda>c. c = 44);
           (if more then parse_elements al pv k (cs @ [c]) b else Some (Some (cs @ [c]), b)) }) })"

text \<open>The string just parsed becomes the name.\<close>

definition string_to_name :: "fp json \<Rightarrow> fp json" where
  "string_to_name j = Json (js_string j) (js_type j) None (js_int j) (js_num j) (js_child j)"

fun parse_members :: "mallocs \<Rightarrow> (mallocs \<Rightarrow> parser) \<Rightarrow> nat \<Rightarrow> fp json list \<Rightarrow> parse_buffer \<Rightarrow> (fp json list option \<times> parse_buffer) option" where
  "parse_members al pv 0 cs b = None"
| "parse_members al pv (Suc k) cs b =
     (case cJSON_New_Item (call 0 (call k al)) of None \<Rightarrow> Some (None, b) | Some new_item \<Rightarrow> do {
        b \<leftarrow> buffer_skip_whitespace (step 1 b);
        (v, b) \<leftarrow> parse_string (call 1 (call k al)) new_item b;
        (case v of None \<Rightarrow> Some (None, b) | Some c \<Rightarrow> do {
           b \<leftarrow> buffer_skip_whitespace b;
           colon \<leftarrow> next_is b (\<lambda>c. c = 58);
           (if \<not> colon then Some (None, b)
            else do {
              b \<leftarrow> buffer_skip_whitespace (step 1 b);
              (v, b) \<leftarrow> pv (call 2 (call k al)) (string_to_name c) b;
              (case v of None \<Rightarrow> Some (None, b) | Some c \<Rightarrow> do {
                 b \<leftarrow> buffer_skip_whitespace b;
                 more \<leftarrow> next_is b (\<lambda>c. c = 44);
                 (if more then parse_members al pv k (cs @ [c]) b else Some (Some (cs @ [c]), b)) }) }) }) })"

definition with_children :: "json_type \<Rightarrow> fp json list \<Rightarrow> fp json \<Rightarrow> fp json" where
  "with_children t cs j = Json (js_name j) t (js_string j) (js_int j) (js_num j) cs"

text \<open>What arrays and objects share: the brackets, the empty list and the end.  \<open>CJSON_NESTING_LIMIT\<close> is 1000.\<close>

definition parse_bracketed :: "json_type \<Rightarrow> u8 \<Rightarrow> u8
   \<Rightarrow> (nat \<Rightarrow> fp json list \<Rightarrow> parse_buffer \<Rightarrow> (fp json list option \<times> parse_buffer) option) \<Rightarrow> parser" where
  "parse_bracketed t opening closing loop item b =
     (if bf_depth b \<ge> 1000 then Some (None, b)
      else do {
        let b = b\<lparr>bf_depth := bf_depth b + 1\<rparr>;
        here \<leftarrow> next_is b (\<lambda>c. c = opening);
        (if \<not> here then Some (None, b)
         else do {
           b \<leftarrow> buffer_skip_whitespace (step 1 b);
           empty \<leftarrow> next_is b (\<lambda>c. c = closing);
           (if empty then Some (Some (with_children t [] item), step 1 (b\<lparr>bf_depth := bf_depth b - 1\<rparr>))
            else if \<not> bf_offset b < bf_length b then Some (None, b\<lparr>bf_offset := bf_offset b - 1\<rparr>)
            else do {
              (cs, b) \<leftarrow> loop (bf_length b) [] (b\<lparr>bf_offset := bf_offset b - 1\<rparr>);
              (case cs of None \<Rightarrow> Some (None, b) | Some cs \<Rightarrow> do {
                 end_ok \<leftarrow> next_is b (\<lambda>c. c = closing);
                 (if \<not> end_ok then Some (None, b)
                  else Some (Some (with_children t cs item), step 1 (b\<lparr>bf_depth := bf_depth b - 1\<rparr>))) }) }) }) })"

definition parse_array :: "mallocs \<Rightarrow> (mallocs \<Rightarrow> parser) \<Rightarrow> parser" where
  "parse_array al pv = parse_bracketed cJSON_Array 91 93 (parse_elements al pv)"

definition parse_object :: "mallocs \<Rightarrow> (mallocs \<Rightarrow> parser) \<Rightarrow> parser" where
  "parse_object al pv = parse_bracketed cJSON_Object 123 125 (parse_members al pv)"

fun parse_value :: "nat \<Rightarrow> mallocs \<Rightarrow> (rat \<Rightarrow> rat) \<Rightarrow> parser" where
  "parse_value 0 al r item b = None"
| "parse_value (Suc n) al r item b = do {
     is_null \<leftarrow> starts b ''null'';
     is_false \<leftarrow> starts b ''false'';
     is_true \<leftarrow> starts b ''true'';
     is_string \<leftarrow> next_is b (\<lambda>c. c = 34);
     is_number \<leftarrow> next_is b (\<lambda>c. c = 45 \<or> is_digit c);
     is_array \<leftarrow> next_is b (\<lambda>c. c = 91);
     is_object \<leftarrow> next_is b (\<lambda>c. c = 123);
     (if is_null then Some (Some (with_type cJSON_NULL item), step 4 b)
      else if is_false then Some (Some (with_type cJSON_False item), step 5 b)
      else if is_true then
        Some (Some (Json (js_name item) cJSON_True (js_string item) 1 (js_num item) (js_child item)), step 4 b)
      else if is_string then parse_string al item b
      else if is_number then parse_number r item b
      else if is_array then parse_array al (\<lambda>al. parse_value n al r) item b
      else if is_object then parse_object al (\<lambda>al. parse_value n al r) item b
      else Some (None, b)) }"

section \<open>The entry points\<close>

text \<open>The item, or null, and the place where the parser stopped, which \<open>return_parse_end\<close> gets.\<close>

definition stop_position :: "parse_buffer \<Rightarrow> nat" where
  "stop_position b = (if bf_offset b < bf_length b then bf_offset b else if bf_length b > 0 then bf_length b - 1 else 0)"

definition cJSON_ParseWithOpts :: "mallocs \<Rightarrow> (rat \<Rightarrow> rat) \<Rightarrow> bytes option \<Rightarrow> bool \<Rightarrow> (fp json option \<times> nat) option" where
  "cJSON_ParseWithOpts al r value require_null_terminated =
     (case value of None \<Rightarrow> Some (None, 0) | Some block \<Rightarrow> do {
        n \<leftarrow> strlen block;
        let b = \<lparr>bf_content = take (n + 1) block, bf_length = n + 1, bf_offset = 0, bf_depth = 0\<rparr>;
        (case cJSON_New_Item (call 0 al) of None \<Rightarrow> Some (None, stop_position b) | Some item \<Rightarrow> do {
           b \<leftarrow> skip_utf8_bom b;
           b \<leftarrow> buffer_skip_whitespace b;
           (v, b) \<leftarrow> parse_value 1001 (call 1 al) r item b;
           (case v of None \<Rightarrow> Some (None, stop_position b) | Some j \<Rightarrow>
              if require_null_terminated then do {
                b \<leftarrow> buffer_skip_whitespace b;
                ends \<leftarrow> next_is b (\<lambda>c. c = 0);
                Some (if ends then Some j else None, if ends then bf_offset b else stop_position b) }
              else Some (Some j, bf_offset b)) }) })"

definition cJSON_Parse :: "mallocs \<Rightarrow> (rat \<Rightarrow> rat) \<Rightarrow> bytes option \<Rightarrow> fp json option option" where
  "cJSON_Parse al r value = map_option fst (cJSON_ParseWithOpts al r value False)"

section \<open>Staying in the text\<close>

definition bf_ok :: "parse_buffer \<Rightarrow> bool" where
  "bf_ok b \<longleftrightarrow> length (bf_content b) = bf_length b \<and> bf_content b \<noteq> [] \<and> last (bf_content b) = 0 \<and> bf_offset b \<le> bf_length b"

definition follows :: "parse_buffer \<Rightarrow> parse_buffer \<Rightarrow> bool" where
  "follows b b' \<longleftrightarrow> bf_content b' = bf_content b \<and> bf_length b' = bf_length b \<and> bf_ok b'"

lemma follows_trans: "follows a b \<Longrightarrow> follows b c \<Longrightarrow> follows a c"
  by (simp add: follows_def)

lemma next_is_ok: "bf_ok b \<Longrightarrow> next_is b P = Some (bf_offset b < bf_length b \<and> P (bf_content b ! bf_offset b))"
  by (simp add: next_is_def rd_def bf_ok_def)

lemma starts_ok:
  "bf_ok b \<Longrightarrow> starts b s = Some (take (length s) (drop (bf_offset b) (bf_content b)) = bytes_of s)"
  by (auto simp: starts_def bf_ok_def dest: arg_cong [where f = length])

text \<open>A byte that is not 0 is not the last one.\<close>

lemma not_last:
  assumes "bf_ok b" "bf_offset b < bf_length b" "bf_content b ! bf_offset b \<noteq> 0"
  shows "bf_offset b + 1 < bf_length b"
proof (rule ccontr)
  assume "\<not> bf_offset b + 1 < bf_length b"
  then have "bf_offset b = length (bf_content b) - 1" using assms by (simp add: bf_ok_def)
  then show False using assms(1,3) last_conv_nth [of "bf_content b"] by (simp add: bf_ok_def)
qed

lemma not_last_run:
  assumes "bf_ok b" "bf_offset b + n \<le> bf_length b" "no_nul (take n (drop (bf_offset b) (bf_content b)))" "0 < n"
  shows "bf_offset b + n < bf_length b"
proof -
  let ?t = "take n (drop (bf_offset b) (bf_content b))"
  have "length ?t = n" using assms(1,2) by (simp add: bf_ok_def)
  then have "?t ! (n - 1) \<noteq> 0" using assms(3,4) by (metis diff_less no_nul_def nth_mem zero_less_one)
  then have "bf_content b ! (bf_offset b + n - 1) \<noteq> 0" using assms(1,2,4) by (simp add: bf_ok_def)
  then show ?thesis
    using not_last [of "b\<lparr>bf_offset := bf_offset b + n - 1\<rparr>"] assms(1,2,4) by (simp add: bf_ok_def)
qed

lemma skip_loop_law:
  assumes "length (bf_content b) = bf_length b" "bf_offset b \<le> bf_length b"
  shows "\<exists>b'. skip_loop b = Some b' \<and> b' = b\<lparr>bf_offset := bf_offset b'\<rparr> \<and> bf_offset b \<le> bf_offset b' \<and> bf_offset b' \<le> bf_length b"
  using assms
proof (induction b rule: skip_loop.induct)
  case (1 b)
  show ?case
  proof (cases "bf_offset b < bf_length b \<and> bf_content b ! bf_offset b \<le> 32")
    case True
    then have c: "rd (bf_content b) (bf_offset b) = Some (bf_content b ! bf_offset b)" using 1 by (simp add: rd_def)
    from 1 True obtain b' where "skip_loop (step 1 b) = Some b'" "b' = (step 1 b)\<lparr>bf_offset := bf_offset b'\<rparr>"
      "bf_offset (step 1 b) \<le> bf_offset b'" "bf_offset b' \<le> bf_length (step 1 b)" by (force simp: c)
    then show ?thesis using True c by (subst skip_loop.simps) auto
  next
    case False
    then show ?thesis using 1 by (subst skip_loop.simps) (auto simp: rd_def)
  qed
qed

lemma skip_law:
  assumes "bf_ok b"
  obtains b' where "buffer_skip_whitespace b = Some b'" "follows b b'" "bf_depth b' = bf_depth b"
    "bf_offset b' < bf_length b'" "bf_offset b' \<ge> bf_offset b \<or> bf_offset b' = bf_length b - 1"
proof -
  have l: "length (bf_content b) = bf_length b" "0 < bf_length b"
    using assms by (auto simp: bf_ok_def simp flip: length_greater_0_conv)
  obtain b1 where b1: "skip_loop b = Some b1" "b1 = b\<lparr>bf_offset := bf_offset b1\<rparr>" "bf_offset b \<le> bf_offset b1" "bf_offset b1 \<le> bf_length b"
    using skip_loop_law [OF l(1)] assms by (auto simp: bf_ok_def)
  obtain k where k: "b1 = b\<lparr>bf_offset := k\<rparr>" using b1(2) by blast
  let ?b = "if k = bf_length b then b\<lparr>bf_offset := k - 1\<rparr> else b\<lparr>bf_offset := k\<rparr>"
  have "buffer_skip_whitespace b = Some ?b" using b1(1) by (simp add: buffer_skip_whitespace_def k)
  then show ?thesis
    using that [of ?b] assms b1(3,4) l by (auto simp: k follows_def bf_ok_def split: if_splits)
qed

section \<open>Strings fit into their block\<close>

text \<open>The escapes that the search for the end skips: no two are adjacent.\<close>

definition escapes :: "bytes \<Rightarrow> nat \<Rightarrow> nat set \<Rightarrow> bool" where
  "escapes buf e S \<longleftrightarrow> finite S \<and> (\<forall>i \<in> S. buf ! i = 92 \<and> i + 2 \<le> e \<and> i + 1 \<notin> S)"

lemma escapes_sparse: "escapes buf e S \<Longrightarrow> card (S \<inter> {p..<p + 2 * m}) \<le> m"
proof (induction m arbitrary: p)
  case (Suc m)
  have fin: "finite S" using Suc.prems by (simp add: escapes_def)
  have two: "card (S \<inter> {p..<p + 2}) \<le> 1"
  proof (cases "p \<in> S")
    case True
    then have "S \<inter> {p..<p + 2} \<subseteq> {p}" using Suc.prems by (auto simp: escapes_def less_Suc_eq numeral_2_eq_2)
    then show ?thesis using card_mono [of "{p}"] by fastforce
  next
    case False
    then have "S \<inter> {p..<p + 2} \<subseteq> {p + 1}" by (auto simp: less_Suc_eq numeral_2_eq_2 le_Suc_eq)
    then show ?thesis using card_mono [of "{p + 1}"] by fastforce
  qed
  have "S \<inter> {p..<p + 2 * Suc m} = (S \<inter> {p..<p + 2}) \<union> (S \<inter> {p + 2..<p + 2 + 2 * m})" by auto
  then have "card (S \<inter> {p..<p + 2 * Suc m}) \<le> card (S \<inter> {p..<p + 2}) + card (S \<inter> {p + 2..<p + 2 + 2 * m})"
    by (metis card_Un_le)
  then show ?case using two Suc.IH [OF Suc.prems, of "p + 2"] by linarith
qed simp

lemma string_end_law:
  assumes "length buf = len"
  shows "\<exists>res. string_end buf len e k = Some res \<and> (case res of Inl _ \<Rightarrow> True
    | Inr (e', k') \<Rightarrow> e \<le> e' \<and> e' < len \<and> buf ! e' = 34 \<and> (\<exists>S. escapes buf e' S \<and> S \<subseteq> {e..<e'} \<and> k' = k + card S))"
  using assms
proof (induction buf len e k rule: string_end.induct)
  case (1 buf len e k)
  show ?case
  proof (cases "e < len")
    case False
    then show ?thesis by (subst string_end.simps) simp
  next
    case e: True
    then have c: "rd buf e = Some (buf ! e)" using "1.prems" by (simp add: rd_def)
    consider "buf ! e = 34" | "buf ! e = 92" "e + 1 \<ge> len" | "buf ! e = 92" "\<not> e + 1 \<ge> len" | "buf ! e \<noteq> 34" "buf ! e \<noteq> 92" by blast
    then show ?thesis
    proof cases
      case 1
      then show ?thesis using e c by (subst string_end.simps) (auto simp: escapes_def intro!: exI [of _ "{}"])
    next
      case 2
      then show ?thesis using e c by (subst string_end.simps) simp
    next
      case 3
      from "1.IH"(1) [OF e c _ 3 "1.prems"] obtain res where res: "string_end buf len (e + 2) (k + 1) = Some res"
        "case res of Inl _ \<Rightarrow> True | Inr (e', k') \<Rightarrow> e + 2 \<le> e' \<and> e' < len \<and> buf ! e' = 34
           \<and> (\<exists>S. escapes buf e' S \<and> S \<subseteq> {e + 2..<e'} \<and> k' = k + 1 + card S)" using 3 by auto
      have "\<exists>S. escapes buf e' S \<and> S \<subseteq> {e..<e'} \<and> k' = k + card S"
        if h: "res = Inr (e', k')" for e' k'
      proof -
        obtain S where S: "escapes buf e' S" "S \<subseteq> {e + 2..<e'}" "k' = k + 1 + card S" "e + 2 \<le> e'" using res(2) h by auto
        have "e \<notin> S" using S(2) by auto
        moreover have "escapes buf e' (insert e S)" using S(1,2,4) 3 by (auto simp: escapes_def)
        moreover have "insert e S \<subseteq> {e..<e'}" using S(2,4) by auto
        ultimately show ?thesis using S by (intro exI [of _ "insert e S"]) (auto simp: escapes_def)
      qed
      then show ?thesis using e c 3 res by (subst string_end.simps) (auto split: sum.splits)
    next
      case 4
      from "1.IH"(2) [OF e c _ _ "1.prems"] 4 obtain res where res: "string_end buf len (e + 1) k = Some res"
        "case res of Inl _ \<Rightarrow> True | Inr (e', k') \<Rightarrow> e + 1 \<le> e' \<and> e' < len \<and> buf ! e' = 34
           \<and> (\<exists>S. escapes buf e' S \<and> S \<subseteq> {e + 1..<e'} \<and> k' = k + card S)" by auto
      have "\<exists>S. escapes buf e' S \<and> S \<subseteq> {e..<e'} \<and> k' = k + card S" if h: "res = Inr (e', k')" for e' k'
      proof -
        obtain S where "escapes buf e' S" "S \<subseteq> {e + 1..<e'}" "k' = k + card S" using res(2) h by auto
        then show ?thesis by (intro exI [of _ S]) auto
      qed
      then show ?thesis using e c 4 res by (subst string_end.simps) (auto split: sum.splits)
    qed
  qed
qed

lemma utf8_tail_length: "utf8_tail n cp s = (cp', t) \<Longrightarrow> length t = n + length s"
  by (induction n cp s rule: utf8_tail.induct) auto

lemma encode_length: "0 < n \<Longrightarrow> length (encode_utf8 n m cp) = n"
  by (auto simp: encode_utf8_def Let_def dest: utf8_tail_length split: prod.splits)

lemma codepoint_length:
  "codepoint_utf8 cp = Some s \<Longrightarrow> length s \<le> 4" "codepoint_utf8 cp = Some s \<Longrightarrow> cp < 0x10000 \<Longrightarrow> length s \<le> 3"
  by (auto simp: codepoint_utf8_def encode_length split: if_splits)

lemma hex_value_bound: "hex_value c = Some d \<Longrightarrow> d < 16"
  by (auto simp: hex_value_def word_le_nat_alt split: if_splits)

lemma hex4_loop_bound: "h < 16 ^ k \<Longrightarrow> hex4_loop h s < 16 ^ (k + length s)"
proof (induction s arbitrary: h k)
  case (Cons c s)
  show ?case
  proof (cases "hex_value c")
    case (Some d)
    have "16 * h + d < 16 * (h + 1)" using hex_value_bound [OF Some] by simp
    also have "\<dots> \<le> 16 ^ (k + 1)" using Cons.prems by simp
    finally show ?thesis using Cons.IH [of "16 * h + d" "k + 1"] Some by simp
  qed simp
qed simp

lemma parse_hex4_law: "p + 4 \<le> length buf \<Longrightarrow> \<exists>h. parse_hex4 buf p = Some h \<and> h < 0x10000"
  using hex4_loop_bound [of 0 0 "take 4 (drop p buf)"] by (simp add: parse_hex4_def)

lemma literal_fits:
  assumes "e < length buf" "p < e"
  shows "\<exists>s n. utf16_literal_to_utf8 buf p e = Some (s, n)
    \<and> (n = 0 \<or> n = 6 \<and> p + 6 \<le> e \<and> length s \<le> 3 \<or> n = 12 \<and> p + 12 \<le> e \<and> length s \<le> 4)"
proof (cases "e - p < 6")
  case False
  then have "p + 2 + 4 \<le> length buf" using assms by linarith
  from parse_hex4_law [OF this] obtain h where h: "parse_hex4 buf (p + 2) = Some h" "h < 0x10000" by blast
  show ?thesis
  proof (cases "0xD800 \<le> h \<and> h \<le> 0xDBFF \<and> \<not> e - (p + 6) < 6 \<and> rd buf (p + 6) = Some 92 \<and> rd buf (p + 7) = Some 117")
    case True
    then have "p + 8 + 4 \<le> length buf" using assms by linarith
    from parse_hex4_law [OF this] obtain h2 where "parse_hex4 buf (p + 8) = Some h2" by blast
    then show ?thesis using True False h(1) codepoint_length(1)
      by (auto simp: utf16_literal_to_utf8_def split: option.splits)
  next
    case no: False
    have c: "rd buf (p + 6) = Some (buf ! (p + 6))" "rd buf (p + 7) = Some (buf ! (p + 7))" if "\<not> e - (p + 6) < 6"
      using that assms by (auto simp: rd_def)
    then show ?thesis using no False h codepoint_length(2)
      by (auto simp: utf16_literal_to_utf8_def split: option.splits)
  qed
qed (simp add: utf16_literal_to_utf8_def)

text \<open>What is written so far and what is left to read, less the escapes there, is within the room.\<close>

definition room_left :: "bytes \<Rightarrow> nat \<Rightarrow> nat set \<Rightarrow> nat \<Rightarrow> nat \<Rightarrow> bytes \<Rightarrow> bool" where
  "room_left buf e S room p out \<longleftrightarrow> length out + (e - p) \<le> room + card (S \<inter> {p..<e})"

lemma room_left_step:
  assumes "room_left buf e S room p out" "escapes buf e S" "p < e"
    and "length s + card (S \<inter> {p..<p + c}) \<le> min c (e - p)"
  shows "room_left buf e S room (p + c) (out @ s) \<and> length (out @ s) \<le> room"
proof -
  have fin: "finite S" using assms(2) by (simp add: escapes_def)
  have "S \<inter> {p..<e} \<subseteq> (S \<inter> {p..<p + c}) \<union> (S \<inter> {p + c..<e})" by auto
  then have "card (S \<inter> {p..<e}) \<le> card ((S \<inter> {p..<p + c}) \<union> (S \<inter> {p + c..<e}))" using fin by (intro card_mono) auto
  also have "\<dots> \<le> card (S \<inter> {p..<p + c}) + card (S \<inter> {p + c..<e})" by (rule card_Un_le)
  finally have card: "card (S \<inter> {p..<e}) \<le> card (S \<inter> {p..<p + c}) + card (S \<inter> {p + c..<e})" .
  have "card (S \<inter> {p + c..<e}) \<le> card {p + c..<e}" by (intro card_mono) auto
  then have "card (S \<inter> {p + c..<e}) \<le> e - (p + c)" by simp
  with card assms(1,4) show ?thesis by (auto simp: room_left_def)
qed

lemma unescape_fits:
  assumes "e < length buf" "escapes buf e S" "room_left buf e S room p out" "room < cap" "length out \<le> room"
  shows "\<exists>res. unescape_loop buf e cap p out = Some res \<and> (case res of Inl q \<Rightarrow> q \<le> e | Inr out' \<Rightarrow> length out' \<le> room)"
  using assms
proof (induction buf e cap p out rule: unescape_loop.induct)
  case (1 buf e cap p out)
  note esc = "1.prems"(2) and room = "1.prems"(3)
  show ?case
  proof (cases "p < e")
    case False
    then show ?thesis using "1.prems" by (subst unescape_loop.simps) simp
  next
    case p: True
    then have c: "rd buf p = Some (buf ! p)" and k: "rd buf (p + 1) = Some (buf ! (p + 1))" using "1.prems"(1) by (auto simp: rd_def)
    have put: "out_put cap out s = Some (out @ s)" if "length (out @ s) \<le> room" for s using that "1.prems"(4) by (simp add: out_put_def)
    show ?thesis
    proof (cases "buf ! p = 92")
      case False
      then have "S \<inter> {p..<p + 1} = {}" using esc by (auto simp: escapes_def)
      then have st: "room_left buf e S room (p + 1) (out @ [buf ! p])" "length (out @ [buf ! p]) \<le> room"
        using room_left_step [OF room esc p, of "[buf ! p]" 1] p by auto
      have "\<exists>res. unescape_loop buf e cap (p + 1) (out @ [buf ! p]) = Some res
          \<and> (case res of Inl q \<Rightarrow> q \<le> e | Inr out' \<Rightarrow> length out' \<le> room)"
        by (rule "1.IH"(1) [OF p c False put [OF st(2)] "1.prems"(1,2) st(1) "1.prems"(4) st(2)])
      then show ?thesis using p c False put [OF st(2)] by (subst unescape_loop.simps) simp
    next
      case esc_p: True
      show ?thesis
      proof (cases "unescape_letter (buf ! (p + 1))")
        case (Some x)
        have "card (S \<inter> {p..<p + 2}) \<le> 1" using escapes_sparse [OF esc, of p 1] by simp
        moreover have "S \<inter> {p..<p + 2} = {}" if "e - p = 1"
          using that esc p by (fastforce simp: escapes_def)
        ultimately have "length [x] + card (S \<inter> {p..<p + 2}) \<le> min 2 (e - p)" using p by (cases "e - p = 1") auto
        then have st: "room_left buf e S room (p + 2) (out @ [x])" "length (out @ [x]) \<le> room"
          using room_left_step [OF room esc p, of "[x]" 2] by auto
        have "\<exists>res. unescape_loop buf e cap (p + 2) (out @ [x]) = Some res
          \<and> (case res of Inl q \<Rightarrow> q \<le> e | Inr out' \<Rightarrow> length out' \<le> room)"
          by (rule "1.IH"(3) [OF p c _ k Some put [OF st(2)] "1.prems"(1,2) st(1) "1.prems"(4) st(2)]) (simp add: esc_p)
        then show ?thesis using p c k esc_p put [OF st(2)] Some by (subst unescape_loop.simps) simp
      next
        case None
        obtain s n where u: "utf16_literal_to_utf8 buf p e = Some (s, n)"
          "n = 0 \<or> n = 6 \<and> p + 6 \<le> e \<and> length s \<le> 3 \<or> n = 12 \<and> p + 12 \<le> e \<and> length s \<le> 4"
          using literal_fits [OF "1.prems"(1) p] by blast
        show ?thesis
        proof (cases "buf ! (p + 1) = 117 \<and> n \<noteq> 0")
          case False
          then show ?thesis using p c k esc_p None u(1) by (subst unescape_loop.simps) auto
        next
          case True
          have "card (S \<inter> {p..<p + 6}) \<le> 3" "card (S \<inter> {p..<p + 12}) \<le> 6"
            using escapes_sparse [OF esc, of p 3] escapes_sparse [OF esc, of p 6] by simp_all
          then have "length s + card (S \<inter> {p..<p + n}) \<le> min n (e - p)" using u(2) True by auto
          then have st: "room_left buf e S room (p + n) (out @ s)" "length (out @ s) \<le> room"
            using room_left_step [OF room esc p, of s n] by auto
          have "\<exists>res. unescape_loop buf e cap (p + n) (out @ s) = Some res
            \<and> (case res of Inl q \<Rightarrow> q \<le> e | Inr out' \<Rightarrow> length out' \<le> room)"
            by (rule "1.IH"(2) [OF p c _ k None _ u(1) refl _ put [OF st(2)] "1.prems"(1,2) st(1) "1.prems"(4) st(2)])
              (use True esc_p in auto)
          then show ?thesis using p c k esc_p put [OF st(2)] None True u(1) by (subst unescape_loop.simps) simp
        qed
      qed
    qed
  qed
qed

text \<open>What a parser of one item does: it never fails to return, and after a success it has read something and
  stands in front of the end.\<close>

definition ends_well :: "parse_buffer \<Rightarrow> (fp json \<Rightarrow> bool) \<Rightarrow> (fp json option \<times> parse_buffer) option \<Rightarrow> bool" where
  "ends_well b Q res \<longleftrightarrow> (case res of None \<Rightarrow> False | Some (v, b') \<Rightarrow> follows b b' \<and> (case v of None \<Rightarrow> True
     | Some j \<Rightarrow> bf_depth b' = bf_depth b \<and> bf_offset b < bf_offset b' \<and> bf_offset b' < bf_length b' \<and> Q j))"

lemma ends_well_simps [simp]:
  "ends_well b Q (Some (None, b')) \<longleftrightarrow> follows b b'"
  "ends_well b Q (Some (Some j, b')) \<longleftrightarrow> follows b b' \<and> bf_depth b' = bf_depth b \<and> bf_offset b < bf_offset b'
     \<and> bf_offset b' < bf_length b' \<and> Q j"
  "\<not> ends_well b Q None"
  by (auto simp: ends_well_def)

lemma string_safe:
  assumes "bf_ok b" "bf_offset b < bf_length b"
  shows "ends_well b (\<lambda>j. \<exists>s. j = with_string s item \<and> no_nul s) (parse_string al item b)"
proof (cases "bf_content b ! bf_offset b = 34")
  case False
  then show ?thesis using assms by (auto simp: parse_string_def rd_def bf_ok_def follows_def)
next
  case True
  have ok: "length (bf_content b) = bf_length b" using assms(1) by (simp add: bf_ok_def)
  have c: "rd (bf_content b) (bf_offset b) = Some 34" using True assms ok by (simp add: rd_def)
  have one: "follows b (step 1 b)" using assms by (simp add: follows_def bf_ok_def)
  obtain res where res: "string_end (bf_content b) (bf_length b) (bf_offset b + 1) 0 = Some res" "case res of Inl _ \<Rightarrow> True
    | Inr (e', k') \<Rightarrow> bf_offset b + 1 \<le> e' \<and> e' < bf_length b \<and> bf_content b ! e' = 34
        \<and> (\<exists>S. escapes (bf_content b) e' S \<and> S \<subseteq> {bf_offset b + 1..<e'} \<and> k' = 0 + card S)"
    using string_end_law [OF ok, of "bf_offset b + 1" 0] by blast
  show ?thesis
  proof (cases res)
    case (Inl u)
    then show ?thesis using c res(1) one by (simp add: parse_string_def)
  next
    case (Inr ek)
    obtain e k where ek: "ek = (e, k)" by fastforce
    obtain S where e: "bf_offset b + 1 \<le> e" "e < bf_length b" "bf_content b ! e = 34"
      and S: "escapes (bf_content b) e S" "S \<subseteq> {bf_offset b + 1..<e}" "k = card S" using res(2) Inr ek by auto
    let ?n = "e - bf_offset b - k"
    have "card S \<le> card {bf_offset b + 1..<e}" using S(2) by (intro card_mono) auto
    then have k: "k \<le> e - (bf_offset b + 1)" using S(3) by simp
    have "S \<inter> {bf_offset b + 1..<e} = S" using S(2) by blast
    then have room: "room_left (bf_content b) e S (?n - 1) (bf_offset b + 1) []" using k S(3) e(1) by (simp add: room_left_def)
    have "?n - 1 < ?n + 1" "length [] \<le> ?n - 1" by simp_all
    then obtain out where out: "unescape_loop (bf_content b) e (?n + 1) (bf_offset b + 1) [] = Some out"
      "case out of Inl q \<Rightarrow> q \<le> e | Inr out' \<Rightarrow> length out' \<le> ?n - 1"
      using unescape_fits [OF _ S(1) room, of "?n + 1"] e(2) ok by auto
    have "bf_content b ! e \<noteq> 0" using e(3) by simp
    then have "e + 1 < bf_length b" using not_last [of "b\<lparr>bf_offset := e\<rparr>"] assms(1) e(2) by (simp add: bf_ok_def)
    then show ?thesis using c res(1) Inr ek out one assms(1) e(1,2)
      by (auto simp: parse_string_def Let_def out_put_def follows_def bf_ok_def split: sum.splits)
  qed
qed

lemma strtod_length: "snd (strtod r s) \<le> length s"
  by (auto simp: strtod_def Let_def split: prod.splits)

lemma strtod_number: "fst (strtod r s) \<noteq> NaN"
  by (auto simp: strtod_def to_double_def Let_def split: prod.splits)

lemma number_safe:
  assumes "bf_ok b" "bf_offset b < bf_length b"
  shows "ends_well b (\<lambda>j. \<exists>i x. j = with_number i x item \<and> int_of_double x = Some i) (parse_number r item b)"
proof -
  let ?s = "takeWhile number_char (take 63 (drop (bf_offset b) (bf_content b)))"
  obtain x n where xn: "strtod r ?s = (x, n)" by fastforce
  have n: "n \<le> length ?s" "x \<noteq> NaN" using strtod_length [of r ?s] strtod_number [of r ?s] xn by auto
  have ok: "length (bf_content b) = bf_length b" using assms(1) by (simp add: bf_ok_def)
  obtain i where i: "int_of_double x = Some i" using n(2) by (cases x) (auto simp: int_of_double_def)
  have s: "length ?s \<le> bf_length b - bf_offset b"
    using length_takeWhile_le [of number_char "take 63 (drop (bf_offset b) (bf_content b))"] ok by simp
  have "take n (drop (bf_offset b) (bf_content b)) = take n ?s"
  proof -
    let ?d = "drop (bf_offset b) (bf_content b)"
    have "?d = ?s @ (dropWhile number_char (take 63 ?d) @ drop 63 ?d)"
      by (metis append.assoc append_take_drop_id takeWhile_dropWhile_id)
    then obtain t where "?d = ?s @ t" by blast
    moreover have "take n (?s @ t) = take n ?s" using n(1) by simp
    ultimately show ?thesis by metis
  qed
  moreover have "no_nul (take n ?s)"
    by (auto simp: no_nul_def number_char_def is_digit_def bytes_of_def dest!: in_set_takeD set_takeWhileD)
  ultimately have "bf_offset b + n < bf_length b" if "0 < n" using not_last_run [OF assms(1), of n] that n(1) s assms(2) by simp
  then show ?thesis using xn i ok assms by (auto simp: parse_number_def follows_def bf_ok_def)
qed

section \<open>Values\<close>

text \<open>A parser of values at a depth: from a new item it makes a document within the nesting limit, with the item's name.\<close>

definition document :: "nat \<Rightarrow> fp json \<Rightarrow> fp json \<Rightarrow> bool" where
  "document d item j \<longleftrightarrow> plain j \<and> js_name j = js_name item \<and> nesting j + d \<le> 1000"

definition safe_parser :: "nat \<Rightarrow> parser \<Rightarrow> bool" where
  "safe_parser d pv \<longleftrightarrow> (\<forall>b item. bf_ok b \<and> bf_offset b < bf_length b \<and> bf_depth b = d \<and> blank_item item
     \<longrightarrow> ends_well b (document d item) (pv item b))"

text \<open>What a loop over children does.\<close>

definition loops_well :: "parse_buffer \<Rightarrow> (fp json \<Rightarrow> bool) \<Rightarrow> (fp json list option \<times> parse_buffer) option \<Rightarrow> bool" where
  "loops_well b Q res \<longleftrightarrow> (case res of None \<Rightarrow> False | Some (v, b') \<Rightarrow> follows b b' \<and> (case v of None \<Rightarrow> True
     | Some cs \<Rightarrow> bf_depth b' = bf_depth b \<and> bf_offset b \<le> bf_offset b' \<and> (\<forall>c \<in> set cs. Q c)))"

lemma loops_well_simps [simp]:
  "loops_well b Q (Some (None, b')) \<longleftrightarrow> follows b b'"
  "loops_well b Q (Some (Some cs, b')) \<longleftrightarrow> follows b b' \<and> bf_depth b' = bf_depth b \<and> bf_offset b \<le> bf_offset b' \<and> (\<forall>c \<in> set cs. Q c)"
  "\<not> loops_well b Q None"
  by (auto simp: loops_well_def)

lemma loops_well_later:
  "loops_well b' Q res \<Longrightarrow> follows b b' \<Longrightarrow> bf_depth b' = bf_depth b \<Longrightarrow> bf_offset b \<le> bf_offset b' \<Longrightarrow> loops_well b Q res"
  by (auto simp: loops_well_def intro: follows_trans split: option.splits prod.splits)

lemma ends_wellE:
  assumes "ends_well b Q res"
  obtains (fail) b' where "res = Some (None, b')" "follows b b'"
    | (done_) j b' where "res = Some (Some j, b')" "follows b b'" "bf_depth b' = bf_depth b" "bf_offset b < bf_offset b'"
      "bf_offset b' < bf_length b'" "Q j"
  using assms by (auto simp: ends_well_def split: option.splits prod.splits)

lemma follows_ok: "follows b b' \<Longrightarrow> bf_ok b'" and follows_length: "follows b b' \<Longrightarrow> bf_length b' = bf_length b"
  by (simp_all add: follows_def)

lemma new_item_fresh: "cJSON_New_Item al = Some j \<Longrightarrow> blank_item j \<and> js_name j = None"
  by (auto simp: cJSON_New_Item_def blank_item_def split: if_splits)

text \<open>A step over one byte and the white space behind it.\<close>

lemma step_skip:
  assumes "bf_ok b" "bf_offset b < bf_length b"
  obtains b' where "buffer_skip_whitespace (step 1 b) = Some b'" "follows b b'" "bf_depth b' = bf_depth b"
    "bf_offset b' < bf_length b'" "bf_offset b' > bf_offset b \<or> bf_offset b' = bf_length b - 1"
proof -
  have "bf_ok (step 1 b)" using assms by (simp add: bf_ok_def)
  from skip_law [OF this] obtain b' where b': "buffer_skip_whitespace (step 1 b) = Some b'" "follows (step 1 b) b'"
    "bf_depth b' = bf_depth (step 1 b)" "bf_offset b' < bf_length b'"
    "bf_offset b' \<ge> bf_offset (step 1 b) \<or> bf_offset b' = bf_length (step 1 b) - 1" by blast
  show ?thesis by (rule that [of b']) (use b' in \<open>auto simp: follows_def\<close>)
qed

lemma elements_safe:
  assumes pv: "\<And>al. safe_parser d (pv al)"
    and "bf_ok b" "bf_offset b < bf_length b" "bf_depth b = d" "bf_length b - bf_offset b \<le> k"
    and "\<forall>c \<in> set cs. plain c \<and> js_name c = None \<and> nesting c + d \<le> 1000"
  shows "loops_well b (\<lambda>c. plain c \<and> js_name c = None \<and> nesting c + d \<le> 1000) (parse_elements al pv k cs b)"
  using assms(2-)
proof (induction k arbitrary: b cs)
  case (Suc k)
  let ?Q = "\<lambda>c. plain c \<and> js_name c = None \<and> nesting c + d \<le> 1000"
  have refl: "follows b b" using Suc.prems(1) by (simp add: follows_def)
  show ?case
  proof (cases "cJSON_New_Item (call 0 (call k al))")
    case None
    then show ?thesis using refl by simp
  next
    case (Some new_item)
    obtain b1 where b1: "buffer_skip_whitespace (step 1 b) = Some b1" "follows b b1" "bf_depth b1 = bf_depth b"
      "bf_offset b1 < bf_length b1" "bf_offset b1 > bf_offset b \<or> bf_offset b1 = bf_length b - 1"
      using step_skip [OF Suc.prems(1,2)] by blast
    have "ends_well b1 (document d new_item) (pv (call 1 (call k al)) new_item b1)"
      using pv b1 Suc.prems(3) new_item_fresh [OF Some] by (auto simp: safe_parser_def follows_def)
    then show ?thesis
    proof (cases rule: ends_wellE)
      case (fail b2)
      then show ?thesis using Some b1(1,2) follows_trans by simp
    next
      case (done_ j b2)
      obtain b3 where b3: "buffer_skip_whitespace b2 = Some b3" "follows b2 b3" "bf_depth b3 = bf_depth b2"
        "bf_offset b3 < bf_length b3" "bf_offset b3 \<ge> bf_offset b2 \<or> bf_offset b3 = bf_length b2 - 1"
        using skip_law [OF follows_ok [OF done_(2)]] by blast
      have f: "follows b b3" using b1(2) done_(2) b3(2) follows_trans by blast
      have len: "bf_length b1 = bf_length b" "bf_length b2 = bf_length b" "bf_length b3 = bf_length b"
        using b1(2) done_(2) b3(2) by (simp_all add: follows_def)
      have off: "bf_offset b < bf_offset b3" using b1(4,5) done_(4,5) b3(4,5) len by linarith
      have Q: "\<forall>c \<in> set (cs @ [j]). ?Q c"
        using Suc.prems(5) done_(6) new_item_fresh [OF Some] by (auto simp: document_def)
      have depth: "bf_depth b3 = bf_depth b" using b1(3) done_(3) b3(3) by simp
      have lt: "bf_length b3 - bf_offset b3 \<le> k" using off len Suc.prems(2,4) by linarith
      note more = next_is_ok [OF follows_ok [OF f], of "\<lambda>c. c = 44"]
      show ?thesis
      proof (cases "bf_offset b3 < bf_length b3 \<and> bf_content b3 ! bf_offset b3 = 44")
        case True
        have "loops_well b3 ?Q (parse_elements al pv k (cs @ [j]) b3)"
          using Suc.IH [OF follows_ok [OF f] b3(4) _ lt Q] depth Suc.prems(3) by simp
        then have "loops_well b ?Q (parse_elements al pv k (cs @ [j]) b3)" using loops_well_later f depth off by simp
        then show ?thesis using True Some b1(1) done_(1) b3(1) more by simp
      next
        case False
        then show ?thesis using Q Some b1(1) done_(1) b3(1) more f depth off by auto
      qed
    qed
  qed
qed simp

lemma members_safe:
  assumes pv: "\<And>al. safe_parser d (pv al)"
    and "bf_ok b" "bf_offset b < bf_length b" "bf_depth b = d" "bf_length b - bf_offset b \<le> k"
    and "\<forall>c \<in> set cs. plain c \<and> (\<exists>w. js_name c = Some w \<and> no_nul w) \<and> nesting c + d \<le> 1000"
  shows "loops_well b (\<lambda>c. plain c \<and> (\<exists>w. js_name c = Some w \<and> no_nul w) \<and> nesting c + d \<le> 1000) (parse_members al pv k cs b)"
  using assms(2-)
proof (induction k arbitrary: b cs)
  case (Suc k)
  let ?Q = "\<lambda>c. plain c \<and> (\<exists>w. js_name c = Some w \<and> no_nul w) \<and> nesting c + d \<le> 1000"
  have refl: "follows b b" using Suc.prems(1) by (simp add: follows_def)
  show ?case
  proof (cases "cJSON_New_Item (call 0 (call k al))")
    case None
    then show ?thesis using refl by simp
  next
    case (Some new_item)
    obtain b1 where b1: "buffer_skip_whitespace (step 1 b) = Some b1" "follows b b1" "bf_depth b1 = bf_depth b"
      "bf_offset b1 < bf_length b1" "bf_offset b1 > bf_offset b \<or> bf_offset b1 = bf_length b - 1"
      using step_skip [OF Suc.prems(1,2)] by blast
    from string_safe [OF follows_ok [OF b1(2)] b1(4), of new_item "call 1 (call k al)"]
    show ?thesis
    proof (cases rule: ends_wellE)
      case (fail b2)
      then show ?thesis using Some b1(1,2) follows_trans by simp
    next
      case name: (done_ s b2)
      obtain w where w: "s = with_string w new_item" "no_nul w" using name(6) by blast
      obtain b3 where b3: "buffer_skip_whitespace b2 = Some b3" "follows b2 b3" "bf_depth b3 = bf_depth b2"
        "bf_offset b3 < bf_length b3" "bf_offset b3 \<ge> bf_offset b2 \<or> bf_offset b3 = bf_length b2 - 1"
        using skip_law [OF follows_ok [OF name(2)]] by blast
      have f3: "follows b b3" using b1(2) name(2) b3(2) follows_trans by blast
      note colon = next_is_ok [OF follows_ok [OF f3], of "\<lambda>c. c = 58"]
      show ?thesis
      proof (cases "bf_offset b3 < bf_length b3 \<and> bf_content b3 ! bf_offset b3 = 58")
        case False
        then show ?thesis using Some b1(1) name(1) b3(1) colon f3 by auto
      next
        case True
        obtain b4 where b4: "buffer_skip_whitespace (step 1 b3) = Some b4" "follows b3 b4" "bf_depth b4 = bf_depth b3"
          "bf_offset b4 < bf_length b4" "bf_offset b4 > bf_offset b3 \<or> bf_offset b4 = bf_length b3 - 1"
          using step_skip [OF follows_ok [OF f3] b3(4)] by blast
        have fr: "blank_item (string_to_name s)" "js_name (string_to_name s) = Some w"
          using new_item_fresh [OF Some] by (auto simp: w string_to_name_def with_string_def blank_item_def)
        have d4: "bf_depth b4 = d" using b1(3) name(3) b3(3) b4(3) Suc.prems(3) by simp
        have "ends_well b4 (document d (string_to_name s)) (pv (call 2 (call k al)) (string_to_name s) b4)"
          using pv fr(1) follows_ok [OF b4(2)] b4(4) d4 by (auto simp: safe_parser_def)
        then show ?thesis
        proof (cases rule: ends_wellE)
          case (fail b5)
          have "follows b b5" using f3 b4(2) fail(2) follows_trans by blast
          then show ?thesis using Some b1(1) name(1) b3(1) b4(1) colon True fail(1) by simp
        next
          case (done_ j b5)
          obtain b6 where b6: "buffer_skip_whitespace b5 = Some b6" "follows b5 b6" "bf_depth b6 = bf_depth b5"
            "bf_offset b6 < bf_length b6" "bf_offset b6 \<ge> bf_offset b5 \<or> bf_offset b6 = bf_length b5 - 1"
            using skip_law [OF follows_ok [OF done_(2)]] by blast
          have f: "follows b b6" using f3 b4(2) done_(2) b6(2) follows_trans by blast
          have len: "bf_length b1 = bf_length b" "bf_length b2 = bf_length b" "bf_length b3 = bf_length b" "bf_length b4 = bf_length b"
            "bf_length b5 = bf_length b" "bf_length b6 = bf_length b"
            using b1(2) name(2) b3(2) b4(2) done_(2) b6(2) by (simp_all add: follows_def)
          have "bf_offset b < bf_offset b1" using b1(5) name(4,5) len by linarith
          moreover have "bf_offset b2 \<le> bf_offset b3" using b3(5) name(5) len by linarith
          moreover have "bf_offset b3 < bf_offset b4" using b4(5) done_(4,5) len by linarith
          moreover have "bf_offset b5 \<le> bf_offset b6" using b6(5) done_(5) len by linarith
          ultimately have off: "bf_offset b < bf_offset b6" using name(4) done_(4) by linarith
          have Q: "\<forall>c \<in> set (cs @ [j]). ?Q c" using Suc.prems(5) done_(6) fr(2) w(2) by (auto simp: document_def)
          have depth: "bf_depth b6 = bf_depth b" using d4 done_(3) b6(3) Suc.prems(3) by simp
          have lt: "bf_length b6 - bf_offset b6 \<le> k" using off len Suc.prems(2,4) by linarith
          note more = next_is_ok [OF follows_ok [OF f], of "\<lambda>c. c = 44"]
          show ?thesis
          proof (cases "bf_offset b6 < bf_length b6 \<and> bf_content b6 ! bf_offset b6 = 44")
            case m: True
            have "loops_well b6 ?Q (parse_members al pv k (cs @ [j]) b6)"
              using Suc.IH [OF follows_ok [OF f] b6(4) _ lt Q] depth Suc.prems(3) by simp
            then have "loops_well b ?Q (parse_members al pv k (cs @ [j]) b6)" using loops_well_later f depth off by simp
            then show ?thesis using Some b1(1) name(1) b3(1) b4(1) colon True done_(1) b6(1) more m by simp
          next
            case m: False
            then show ?thesis using Q Some b1(1) name(1) b3(1) b4(1) colon True done_(1) b6(1) more f depth off by auto
          qed
        qed
      qed
    qed
  qed
qed simp

lemma follows_off: "bf_ok b \<Longrightarrow> n \<le> bf_length b \<Longrightarrow> follows b (b\<lparr>bf_offset := n, bf_depth := d\<rparr>)"
  by (simp add: follows_def bf_ok_def)

lemma bracketed_safe:
  assumes loop: "\<And>b'. follows b b' \<Longrightarrow> bf_offset b' < bf_length b' \<Longrightarrow> bf_depth b' = Suc d \<Longrightarrow> loops_well b' Q (loop (bf_length b') [] b')"
    and doc: "\<And>cs. \<forall>c \<in> set cs. Q c \<Longrightarrow> d < 1000 \<Longrightarrow> document d item (with_children t cs item)"
    and b: "bf_ok b" "bf_offset b < bf_length b" "bf_depth b = d" "opening \<noteq> 0" "closing \<noteq> 0"
  shows "ends_well b (document d item) (parse_bracketed t opening closing loop item b)"
proof -
  have refl: "follows b b" using b(1) by (simp add: follows_def)
  let ?b = "b\<lparr>bf_depth := Suc d\<rparr>"
  have fb: "follows b ?b" using b(1) by (simp add: follows_def bf_ok_def)
  consider "bf_depth b \<ge> 1000" | "bf_depth b < 1000" "bf_content b ! bf_offset b \<noteq> opening"
    | "d < 1000" "bf_content b ! bf_offset b = opening" using b(3) by linarith
  then show ?thesis
  proof cases
    case 1
    then show ?thesis using refl by (simp add: parse_bracketed_def)
  next
    case 2
    then show ?thesis using next_is_ok [OF follows_ok [OF fb], of "\<lambda>c. c = opening"] b(3) fb by (simp add: parse_bracketed_def)
  next
    case 3
    have here: "next_is ?b (\<lambda>c. c = opening) = Some True"
      using next_is_ok [OF follows_ok [OF fb], of "\<lambda>c. c = opening"] b(2) 3(2) by simp
    have nl: "bf_offset b + 1 < bf_length b" using not_last [OF b(1,2)] 3(2) b(4) by simp
    obtain b1 where b1: "buffer_skip_whitespace (step 1 ?b) = Some b1" "follows ?b b1" "bf_depth b1 = Suc d"
      "bf_offset b1 < bf_length b1" "bf_offset b1 > bf_offset b \<or> bf_offset b1 = bf_length b - 1"
      using step_skip [OF follows_ok [OF fb]] b(2) by auto
    have f1: "follows b b1" using fb b1(2) follows_trans by blast
    have len: "bf_length b1 = bf_length b" by (rule follows_length [OF f1])
    have gt: "bf_offset b < bf_offset b1" using b1(5) nl by auto
    define b2 where "b2 = b1\<lparr>bf_offset := bf_offset b1 - 1\<rparr>"
    have f2: "follows b b2" "bf_offset b2 < bf_length b2" "bf_depth b2 = Suc d" "bf_offset b \<le> bf_offset b2" "bf_length b1 = bf_length b2"
      using f1 b1(3,4) gt by (auto simp: b2_def follows_def bf_ok_def)
    note empty = next_is_ok [OF follows_ok [OF f1], of "\<lambda>c. c = closing"]
    have close: "ends_well b (document d item) (Some (Some (with_children t cs item), step 1 (b'\<lparr>bf_depth := bf_depth b' - 1\<rparr>)))"
      if "follows b b'" "bf_depth b' = Suc d" "bf_offset b' < bf_length b'" "bf_content b' ! bf_offset b' = closing"
        "bf_offset b \<le> bf_offset b'" "\<forall>c \<in> set cs. Q c" for b' cs
      using not_last [OF follows_ok [OF that(1)] that(3)] that b(3,5) doc [OF that(6) 3(1)]
      by (auto simp: follows_def bf_ok_def)
    show ?thesis
    proof (cases "bf_content b1 ! bf_offset b1 = closing")
      case True
      then have "next_is b1 (\<lambda>c. c = closing) = Some True" using empty b1(4) by simp
      then have "parse_bracketed t opening closing loop item b = Some (Some (with_children t [] item), step 1 (b1\<lparr>bf_depth := bf_depth b1 - 1\<rparr>))"
        using 3(1) here b1(1) b(3) by (simp add: parse_bracketed_def)
      then show ?thesis using close [OF f1 b1(3,4) True, of "[]"] gt b1(3) b(3) by simp
    next
      case False
      then have nc: "next_is b1 (\<lambda>c. c = closing) = Some False" using empty by simp
      have "loops_well b2 Q (loop (bf_length b1) [] b2)" using loop [OF f2(1-3)] f2(5) by simp
      then obtain v b3 where l: "loop (bf_length b1) [] b2 = Some (v, b3)" "loops_well b2 Q (Some (v, b3))"
        by (cases "loop (bf_length b1) [] b2") auto
      have eq: "parse_bracketed t opening closing loop item b = (case v of None \<Rightarrow> Some (None, b3) | Some cs \<Rightarrow> do {
                 end_ok \<leftarrow> next_is b3 (\<lambda>c. c = closing);
                 (if \<not> end_ok then Some (None, b3)
                  else Some (Some (with_children t cs item), step 1 (b3\<lparr>bf_depth := bf_depth b3 - 1\<rparr>))) })"
        using 3(1) here b1(1,4) nc l(1) b(3) by (simp add: parse_bracketed_def b2_def)
      show ?thesis
      proof (cases v)
        case None
        then show ?thesis using eq l(2) f2(1) follows_trans by auto
      next
        case (Some cs)
        then have w: "follows b b3" "bf_depth b3 = Suc d" "bf_offset b \<le> bf_offset b3" "\<forall>c \<in> set cs. Q c"
          using l(2) f2 follows_trans by auto
        note e = next_is_ok [OF follows_ok [OF w(1)], of "\<lambda>c. c = closing"]
        show ?thesis
        proof (cases "bf_offset b3 < bf_length b3 \<and> bf_content b3 ! bf_offset b3 = closing")
          case True
          then show ?thesis using eq e Some close [OF w(1,2) _ _ w(3,4)] w(2) b(3) by simp
        next
          case False
          then show ?thesis using eq e Some w(1) by auto
        qed
      qed
    qed
  qed
qed

lemma nest_child: "\<forall>c \<in> set cs. nesting c + Suc d \<le> 1000 \<Longrightarrow> d < 1000 \<Longrightarrow> Suc (foldr max (map nesting cs) 0) + d \<le> 1000"
proof -
  assume "\<forall>c \<in> set cs. nesting c + Suc d \<le> 1000" "d < 1000"
  then have "foldr max (map nesting cs) 0 \<le> 999 - d" unfolding nesting_children by fastforce
  with \<open>d < 1000\<close> show ?thesis by linarith
qed

lemma array_safe:
  assumes "\<And>al. safe_parser (Suc d) (pv al)" "bf_ok b" "bf_offset b < bf_length b" "bf_depth b = d" "blank_item item"
  shows "ends_well b (document d item) (parse_array al pv item b)"
  unfolding parse_array_def
proof (rule bracketed_safe [where Q = "\<lambda>c. plain c \<and> js_name c = None \<and> nesting c + Suc d \<le> 1000", OF _ _ assms(2-4)])
  fix b' assume "follows b b'" "bf_offset b' < bf_length b'" "bf_depth b' = Suc d"
  then show "loops_well b' (\<lambda>c. plain c \<and> js_name c = None \<and> nesting c + Suc d \<le> 1000) (parse_elements al pv (bf_length b') [] b')"
    using elements_safe [OF assms(1), of b' "bf_length b'" "[]" al] follows_ok by auto
next
  fix cs assume "\<forall>c \<in> set cs. plain c \<and> js_name c = None \<and> nesting c + Suc d \<le> 1000" "d < 1000"
  then show "document d item (with_children cJSON_Array cs item)"
    using nest_child [of cs d] assms(5) by (auto simp: document_def with_children_def blank_item_def)
qed simp_all

lemma object_safe:
  assumes "\<And>al. safe_parser (Suc d) (pv al)" "bf_ok b" "bf_offset b < bf_length b" "bf_depth b = d" "blank_item item"
  shows "ends_well b (document d item) (parse_object al pv item b)"
  unfolding parse_object_def
proof (rule bracketed_safe [where Q = "\<lambda>c. plain c \<and> (\<exists>w. js_name c = Some w \<and> no_nul w) \<and> nesting c + Suc d \<le> 1000", OF _ _ assms(2-4)])
  fix b' assume "follows b b'" "bf_offset b' < bf_length b'" "bf_depth b' = Suc d"
  then show "loops_well b' (\<lambda>c. plain c \<and> (\<exists>w. js_name c = Some w \<and> no_nul w) \<and> nesting c + Suc d \<le> 1000)
      (parse_members al pv (bf_length b') [] b')"
    using members_safe [OF assms(1), of b' "bf_length b'" "[]" al] follows_ok by auto
next
  fix cs assume "\<forall>c \<in> set cs. plain c \<and> (\<exists>w. js_name c = Some w \<and> no_nul w) \<and> nesting c + Suc d \<le> 1000" "d < 1000"
  then show "document d item (with_children cJSON_Object cs item)"
    using nest_child [of cs d] assms(5) by (auto simp: document_def with_children_def blank_item_def)
qed simp_all


lemma value_safe: "d + n = 1001 \<Longrightarrow> 0 < n \<Longrightarrow> safe_parser d (parse_value n al r)"
proof (induction n arbitrary: d al)
  case (Suc n)
  show ?case unfolding safe_parser_def
  proof (intro allI impI, elim conjE)
    fix b item
    assume b: "bf_ok b" "bf_offset b < bf_length b" "bf_depth b = d" and fr: "blank_item item"
    have d: "d \<le> 1000" using Suc.prems by simp
    have ok: "length (bf_content b) = bf_length b" using b(1) by (simp add: bf_ok_def)
    have lit: "ends_well b (document d item) (Some (Some j, step n b))"
      if "take n (drop (bf_offset b) (bf_content b)) = w" "no_nul w" "0 < n" "length w = n" "document d item j" for w j n
    proof -
      have "length (take n (drop (bf_offset b) (bf_content b))) = n" using that(1,4) by simp
      then have "n \<le> bf_length b - bf_offset b" using ok by simp
      then have "bf_offset b + n \<le> bf_length b" using b(2) by linarith
      then show ?thesis using not_last_run [OF b(1), of n] that b(1) by (simp add: follows_def bf_ok_def)
    qed
    have inner: "safe_parser (Suc d) (parse_value n al r)" if "d < 1000" for al using Suc.IH [of "Suc d"] Suc.prems that by simp
    have deep: "ends_well b (document d item) (parse_bracketed t o' c' loop item b)" if "\<not> d < 1000" for t o' c' loop
      using that b(1,3) by (simp add: parse_bracketed_def follows_def)
    have arr: "ends_well b (document d item) (parse_array al (\<lambda>al. parse_value n al r) item b)"
      using array_safe [OF inner b fr] deep by (cases "d < 1000") (auto simp: parse_array_def)
    have obj: "ends_well b (document d item) (parse_object al (\<lambda>al. parse_value n al r) item b)"
      using object_safe [OF inner b fr] deep by (cases "d < 1000") (auto simp: parse_object_def)
    have str: "ends_well b (document d item) (parse_string al item b)"
      using string_safe [OF b(1,2), of item al] fr d
      by (cases rule: ends_wellE) (auto simp: document_def with_string_def blank_item_def)
    have num: "ends_well b (document d item) (parse_number r item b)"
      using number_safe [OF b(1,2), of item r] fr d
      by (cases rule: ends_wellE) (auto simp: document_def with_number_def blank_item_def)
    have docs: "document d item (with_type cJSON_NULL item)" "document d item (with_type cJSON_False item)"
      "document d item (Json (js_name item) cJSON_True (js_string item) 1 (js_num item) (js_child item))"
      using fr d by (auto simp: document_def with_type_def blank_item_def)
    have fail: "ends_well b (document d item) (Some (None, b))" using b(1) by (simp add: follows_def)
    have st: "starts b ''null'' = Some (take 4 (drop (bf_offset b) (bf_content b)) = bytes_of ''null'')"
      "starts b ''false'' = Some (take 5 (drop (bf_offset b) (bf_content b)) = bytes_of ''false'')"
      "starts b ''true'' = Some (take 4 (drop (bf_offset b) (bf_content b)) = bytes_of ''true'')"
      using starts_ok [OF b(1)] by (simp_all add: eval_nat_numeral)
    have l: "ends_well b (document d item) (Some (Some (with_type cJSON_NULL item), step 4 b))"
      if "take 4 (drop (bf_offset b) (bf_content b)) = bytes_of ''null''"
      using lit [of 4 "bytes_of ''null''" "with_type cJSON_NULL item"] that docs(1) by (simp add: bytes_of_def)
    moreover have "ends_well b (document d item) (Some (Some (with_type cJSON_False item), step 5 b))"
      if "take 5 (drop (bf_offset b) (bf_content b)) = bytes_of ''false''"
      using lit [of 5 "bytes_of ''false''" "with_type cJSON_False item"] that docs(2) by (simp add: bytes_of_def)
    moreover have "ends_well b (document d item) (Some (Some (Json (js_name item) cJSON_True (js_string item) 1 (js_num item) (js_child item)), step 4 b))"
      if "take 4 (drop (bf_offset b) (bf_content b)) = bytes_of ''true''"
      using lit [of 4 "bytes_of ''true''" "Json (js_name item) cJSON_True (js_string item) 1 (js_num item) (js_child item)"] that docs(3)
      by (simp add: bytes_of_def)
    ultimately show "ends_well b (document d item) (parse_value (Suc n) al r item b)"
      using arr obj str num fail by (simp add: st next_is_ok [OF b(1)] del: ends_well_simps)
  qed
qed simp

section \<open>Any text\<close>

lemma bom_law:
  assumes "bf_ok b"
  obtains b' where "skip_utf8_bom b = Some b'" "follows b b'" "bf_depth b' = bf_depth b"
proof -
  have "follows b b" using assms by (simp add: follows_def)
  moreover have "follows b (step 3 b)" if "bf_offset b + 4 < bf_length b" using assms that by (simp add: follows_def bf_ok_def)
  ultimately show ?thesis using that [of b] that [of "step 3 b"] assms
    by (cases "bf_offset b + 4 < bf_length b"; cases "take 3 (drop (bf_offset b) (bf_content b)) = [0xEF, 0xBB, 0xBF]")
      (simp_all add: skip_utf8_bom_def bf_ok_def)
qed

lemma parse_law:
  assumes "0 \<in> set block"
  shows "\<exists>v e. cJSON_ParseWithOpts al r (Some block) req = Some (v, e) \<and> e \<le> length (cstr block)
    \<and> (case v of None \<Rightarrow> True | Some j \<Rightarrow> plain j \<and> js_name j = None \<and> nesting j \<le> 1000 \<and> (req \<longrightarrow> block ! e = 0))"
proof -
  let ?s = "cstr block"
  let ?b = "\<lparr>bf_content = take (length ?s + 1) block, bf_length = length ?s + 1, bf_offset = 0, bf_depth = 0\<rparr>"
  obtain rest where block: "block = ?s @ 0 # rest" using terminatedE [OF assms] by blast
  then have tx: "take (length ?s + 1) block = ?s @ [0]" by (metis append_Cons append_Nil append_assoc length_append_singleton Suc_eq_plus1 take_append_exact)
  have n: "strlen block = Some (length ?s)" using assms by (simp add: strlen_def)
  have ok: "bf_ok ?b" by (simp only: tx bf_ok_def) simp
  have stop: "stop_position b \<le> length ?s" if "follows ?b b" for b
    using that by (auto simp: stop_position_def follows_def bf_ok_def)
  show ?thesis
  proof (cases "cJSON_New_Item (call 0 al)")
    case None
    then show ?thesis using n stop [of ?b] ok by (simp add: cJSON_ParseWithOpts_def Let_def follows_def)
  next
    case (Some item)
    obtain b1 where b1: "skip_utf8_bom ?b = Some b1" "follows ?b b1" "bf_depth b1 = 0" using bom_law [OF ok] by auto
    obtain b2 where b2: "buffer_skip_whitespace b1 = Some b2" "follows b1 b2" "bf_depth b2 = bf_depth b1" "bf_offset b2 < bf_length b2"
      using skip_law [OF follows_ok [OF b1(2)]] by metis
    have f2: "follows ?b b2" using b1(2) b2(2) follows_trans by blast
    have "safe_parser 0 (parse_value 1001 (call 1 al) r)" by (rule value_safe) simp_all
    then have "ends_well b2 (document 0 item) (parse_value 1001 (call 1 al) r item b2)"
      using f2 b1(3) b2(3,4) new_item_fresh [OF Some] by (auto simp: safe_parser_def follows_def)
    then show ?thesis
    proof (cases rule: ends_wellE)
      case (fail b3)
      then show ?thesis using n Some b1(1) b2(1) stop [OF follows_trans [OF f2 fail(2)]]
        by (simp add: cJSON_ParseWithOpts_def Let_def)
    next
      case (done_ j b3)
      have f3: "follows ?b b3" using f2 done_(2) follows_trans by blast
      have j: "plain j \<and> js_name j = None \<and> nesting j \<le> 1000" using done_(6) new_item_fresh [OF Some] by (simp add: document_def)
      obtain b4 where b4: "buffer_skip_whitespace b3 = Some b4" "follows b3 b4" "bf_offset b4 < bf_length b4"
        using skip_law [OF follows_ok [OF f3]] by metis
      have f4: "follows ?b b4" using f3 b4(2) follows_trans by blast
      have len: "bf_length b3 = length ?s + 1" "bf_length b4 = length ?s + 1" using f3 f4 by (simp_all add: follows_def)
      have "bf_content b4 ! bf_offset b4 = block ! bf_offset b4" using f4 b4(3) len by (simp add: follows_def)
      then have e: "next_is b4 (\<lambda>c. c = 0) = Some (block ! bf_offset b4 = 0)"
        using next_is_ok [OF follows_ok [OF f4], of "\<lambda>c. c = 0"] b4(3) by simp
      show ?thesis using n Some b1(1) b2(1) done_(1,5) b4(1,3) e j len stop [OF f4]
        by (auto simp: cJSON_ParseWithOpts_def Let_def)
    qed
  qed
qed

section \<open>Parsing any text\<close>

text \<open>C4: whatever bytes stand before the first NUL and whichever calls of \<open>malloc\<close> fail, parsing ends without undefined behaviour: no
  read goes past the NUL, no string past the block made for it, the recursion stays within the nesting limit and the loops
  end.  The position handed back lies in the text.  What is made is a document of the types of JSON, whose members have names and whose
  nesting is at most 1000; when the end is required, the NUL stands behind it.\<close>

theorem parse_any_text:
  assumes "0 \<in> set block"
  shows "\<exists>v e. cJSON_ParseWithOpts al r (Some block) req = Some (v, e) \<and> cJSON_Parse al r (Some block) \<noteq> None
    \<and> e \<le> length (cstr block)
    \<and> (case v of None \<Rightarrow> True | Some j \<Rightarrow> plain j \<and> js_name j = None \<and> nesting j \<le> 1000 \<and> (req \<longrightarrow> block ! e = 0))"
  using parse_law [OF assms, of al r req] parse_law [OF assms, of al r False] by (auto simp: cJSON_Parse_def)

theorem parse_any_text_witness:
  "\<exists>v e. cJSON_ParseWithOpts (\<lambda>place n. length place < 4) id (Some [91, 34, 92, 117, 100, 56, 34, 44, 0]) True = Some (v, e) \<and> e \<le> 8"
  using parse_any_text [of "[91, 34, 92, 117, 100, 56, 34, 44, 0]" "\<lambda>place n. length place < 4" id True]
  by (auto simp: cstr_def)

text \<open>Four characters that are not all hexadecimal digits are taken for the code point 0, and what follows in the string is
  lost behind that NUL.\<close>

lemma bad_digits_loop: "\<exists>c \<in> set s. hex_value c = None \<Longrightarrow> hex4_loop h s = 0"
  by (induction s arbitrary: h) (auto split: option.splits)

lemma bad_digits_accepted:
  assumes "p + 6 \<le> e" "e \<le> length buf" "\<exists>c \<in> set (take 4 (drop (p + 2) buf)). hex_value c = None"
  shows "utf16_literal_to_utf8 buf p e = Some ([0], 6)"
  using assms bad_digits_loop [OF assms(3)]
  by (simp add: utf16_literal_to_utf8_def parse_hex4_def codepoint_utf8_def encode_utf8_def)

section \<open>The document in a text\<close>

text \<open>What a parse gives depends on the bytes before the first NUL only.\<close>

definition parsed :: "mallocs \<Rightarrow> (rat \<Rightarrow> rat) \<Rightarrow> bytes \<Rightarrow> fp json option" where
  "parsed al r s = the (cJSON_Parse al r (Some (s @ [0])))"

lemma parse_block:
  assumes "0 \<in> set block"
  shows "cJSON_Parse al r (Some block) = Some (parsed al r (cstr block))"
proof -
  let ?s = "cstr block"
  obtain rest where rest: "block = ?s @ 0 # rest" using terminatedE [OF assms] by blast
  have tx: "take (length ?s + 1) block = ?s @ [0]" by (subst (2) rest) simp
  have tx': "take (length ?s + 1) (?s @ [0]) = ?s @ [0]" by simp
  have n: "strlen block = Some (length ?s)" "strlen (?s @ [0]) = Some (length ?s)" using assms by (simp_all add: strlen_def)
  have "cJSON_Parse al r (Some block) = cJSON_Parse al r (Some (?s @ [0]))"
    unfolding cJSON_Parse_def cJSON_ParseWithOpts_def option.case n bind.bind_lunit tx tx' ..
  moreover have "cJSON_Parse al r (Some (cstr block @ [0])) \<noteq> None" using parse_law [of "cstr block @ [0]" al r False] by (auto simp: cJSON_Parse_def)
  ultimately show ?thesis by (auto simp: parsed_def)
qed

lemma parsed_nested: "parsed al r s = Some j \<Longrightarrow> plain j \<and> js_name j = None \<and> nesting j \<le> 1000"
  using parse_law [of "s @ [0]" al r False] by (auto simp: parsed_def cJSON_Parse_def)

end
