(* ===== verification/JsonTrip.thy ===== *)
theory JsonTrip
  imports JsonPrint JsonParse
begin

text \<open>
  Printing and parsing together: what \<open>cJSON_Print\<close> and \<open>cJSON_PrintUnformatted\<close> write, \<open>cJSON_Parse\<close> reads back as the
  same document, blanks or not, as long as its numbers can be told from their 17 digits.

  \<open>ahead b s\<close> says that the buffer stands in front of the text \<open>s\<close>; the laws of the parsers are stated for any text behind
  the one that is read.
\<close>

section \<open>Standing in front of a text\<close>

lemma drop_more: "drop e buf = u @ t \<Longrightarrow> drop (e + length u) buf = t"
  by (metis add.commute append_eq_conv_conj drop_drop)

lemma drop_less: "drop e buf = c # t \<Longrightarrow> e < length buf"
  by (metis drop_eq_Nil list.distinct(1) not_le_imp_less)

definition ahead :: "parse_buffer \<Rightarrow> bytes \<Rightarrow> bool" where
  "ahead b s \<longleftrightarrow> bf_ok b \<and> drop (bf_offset b) (bf_content b) = s"

lemma ahead_ok: "ahead b s \<Longrightarrow> bf_ok b"
  by (simp add: ahead_def)

lemma ahead_step: "ahead b (u @ s) \<Longrightarrow> ahead (step (length u) b) s"
proof -
  assume "ahead b (u @ s)"
  then have a: "bf_ok b" "drop (bf_offset b) (bf_content b) = u @ s" by (simp_all add: ahead_def)
  have "length (bf_content b) - bf_offset b = length u + length s" using arg_cong [OF a(2), of length] by simp
  then have "bf_offset b + length u \<le> bf_length b" using a(1) unfolding bf_ok_def by linarith
  then show ?thesis using a(1) drop_more [OF a(2)] by (simp add: ahead_def bf_ok_def)
qed

lemma ahead_Cons:
  assumes "ahead b (c # s)"
  shows "bf_offset b < bf_length b \<and> bf_content b ! bf_offset b = c \<and> ahead (step 1 b) s"
proof -
  have a: "bf_ok b" "drop (bf_offset b) (bf_content b) = c # s" using assms by (simp_all add: ahead_def)
  show ?thesis using drop_less [OF a(2)] nth_via_drop [OF a(2)] ahead_step [of b "[c]" s] assms a(1) by (simp add: bf_ok_def)
qed

lemma next_is_ahead: "ahead b (c # s) \<Longrightarrow> next_is b P = Some (P c)"
  using ahead_Cons next_is_ok [OF ahead_ok] by fastforce

lemma starts_at: "ahead b s \<Longrightarrow> starts b w = Some (take (length w) s = bytes_of w)"
  using starts_ok [OF ahead_ok] by (simp add: ahead_def)

lemma ahead_depth: "ahead (b\<lparr>bf_depth := d\<rparr>) s = ahead b s"
  by (simp add: ahead_def bf_ok_def)

lemma skip_loop_at: "ahead b (ws @ c # s) \<Longrightarrow> \<forall>w \<in> set ws. w \<le> 32 \<Longrightarrow> \<not> c \<le> 32 \<Longrightarrow> skip_loop b = Some (step (length ws) b)"
proof (induction ws arbitrary: b)
  case Nil
  then show ?case using ahead_Cons [of b c s] ahead_ok [of b] by (subst skip_loop.simps) (simp add: rd_def bf_ok_def)
next
  case (Cons w ws)
  have a: "ahead b (w # (ws @ c # s))" using Cons.prems(1) by simp
  note a' = ahead_Cons [OF a]
  have "skip_loop (step 1 b) = Some (step (length ws) (step 1 b))" using Cons.IH a' Cons.prems(2,3) by simp
  then show ?case using a' ahead_ok [OF a] Cons.prems(2) by (subst skip_loop.simps) (simp add: rd_def bf_ok_def)
qed

lemma skip_at:
  assumes "ahead b (ws @ c # s)" "\<forall>w \<in> set ws. w \<le> 32" "\<not> c \<le> 32"
  shows "buffer_skip_whitespace b = Some (step (length ws) b)" "ahead (step (length ws) b) (c # s)"
proof -
  show a: "ahead (step (length ws) b) (c # s)" by (rule ahead_step [OF assms(1)])
  show "buffer_skip_whitespace b = Some (step (length ws) b)"
    using skip_loop_at [OF assms] ahead_Cons [OF a] by (simp add: buffer_skip_whitespace_def)
qed

section \<open>Strings\<close>

definition escaped :: "u8 \<Rightarrow> bool" where
  "escaped c \<longleftrightarrow> \<not> (c > 31 \<and> c \<noteq> 34 \<and> c \<noteq> 92)"

lemma escape_forms:
  obtains (plain_) "escape c = [c]" "c \<noteq> 34" "c \<noteq> 92" "\<not> escaped c"
    | (letter) l where "escape c = [92, l]" "unescape_letter l = Some c" "escaped c"
    | (hex) h l where "escape c = [92, 117, 48, 48, h, l]" "hex2 c = [h, l]" "escaped c" "c < 32"
proof (cases "c > 31 \<and> c \<noteq> 34 \<and> c \<noteq> 92")
  case True
  then show ?thesis using plain_ by (simp add: escape_def escaped_def)
next
  case no: False
  show ?thesis
  proof (cases "escape_letter c")
    case (Some l)
    then have "unescape_letter l = Some c" by (auto simp: escape_letter_def unescape_letter_def split: if_splits)
    then show ?thesis using letter no Some by (auto simp: escape_def escaped_def)
  next
    case None
    have "c \<noteq> 34" "c \<noteq> 92" using None by (auto simp: escape_letter_def)
    then have "c < 32" using no by (simp add: word_less_nat_alt)
    then show ?thesis using hex no None by (auto simp: escape_def escaped_def bytes_of_def hex2_def)
  qed
qed

lemma hex_digit_value: "n < 16 \<Longrightarrow> hex_value (hex_digit n) = Some n \<and> hex_digit n \<noteq> 34 \<and> hex_digit n \<noteq> 92"
proof -
  assume n: "n < 16"
  have "list_all (\<lambda>n. hex_value (hex_digit n) = Some n \<and> hex_digit n \<noteq> 34 \<and> hex_digit n \<noteq> 92) [0..<16]"
    by (simp add: upt_rec hex_digit_def hex_value_def)
  then show ?thesis using n by (simp add: list_all_iff)
qed

lemma hex2_values:
  assumes "hex2 c = [h, l]"
  shows "hex_value h = Some (unat c div 16)" "hex_value l = Some (unat c mod 16)" "h \<noteq> 34" "h \<noteq> 92" "l \<noteq> 34" "l \<noteq> 92"
  using assms hex_digit_value [of "unat c div 16"] hex_digit_value [of "unat c mod 16"] unat_byte_bound [of c]
  by (auto simp: hex2_def less_mult_imp_div_less)

lemma string_end_step:
  assumes "drop e buf = c # t" "c \<noteq> 34" "c \<noteq> 92" "length buf = len"
  shows "string_end buf len e k = string_end buf len (e + 1) k"
proof -
  have "e < len" "buf ! e = c" using drop_less [OF assms(1)] nth_via_drop [OF assms(1)] assms(4) by simp_all
  then show ?thesis using assms by (subst string_end.simps) (simp add: rd_def)
qed


lemma string_end_next:
  "drop e buf = c # t \<Longrightarrow> c \<noteq> 34 \<Longrightarrow> c \<noteq> 92 \<Longrightarrow> length buf = len \<Longrightarrow> e' = e + 1
   \<Longrightarrow> string_end buf len e k = string_end buf len e' k"
  using string_end_step by simp

lemma string_end_escapes:
  assumes "drop e buf = concat (map escape w) @ 34 # t" "length buf = len"
  shows "string_end buf len e k = Some (Inr (e + length (concat (map escape w)), k + length (filter escaped w)))"
  using assms(1)
proof (induction w arbitrary: e k)
  case Nil
  then have d: "drop e buf = 34 # t" by simp
  show ?case using drop_less [OF d] nth_via_drop [OF d] assms(2) by (subst string_end.simps) (simp add: rd_def)
next
  case (Cons c w)
  let ?r = "concat (map escape w) @ 34 # t"
  have d: "drop e buf = escape c @ ?r" using Cons.prems by simp
  note IH = Cons.IH [OF drop_more [OF d]]
  have two: "string_end buf len e k = string_end buf len (e + 2) (k + 1)" if "escape c = 92 # x # u" for x u
  proof -
    have d': "drop e buf = 92 # x # (u @ ?r)" using d that by simp
    have "drop (e + 1) buf = x # (u @ ?r)" using drop_more [of e buf "[92]"] d' by simp
    then show ?thesis using drop_less [OF d'] nth_via_drop [OF d'] drop_less [of "e + 1" buf x] assms(2)
      by (subst string_end.simps) (simp add: rd_def)
  qed
  show ?case
  proof (cases rule: escape_forms [of c])
    case plain_
    then show ?thesis using IH [of k] string_end_step [of e buf c ?r len k] d assms(2) by simp
  next
    case (letter l)
    then show ?thesis using IH [of "k + 1"] two [OF letter(1)] by simp
  next
    case (hex h l)
    have d': "drop e buf = [92, 117] @ 48 # 48 # h # l # ?r" using d hex(1) by simp
    have d2: "drop (e + 2) buf = 48 # 48 # h # l # ?r" using drop_more [OF d'] by simp
    have d3: "drop (e + 3) buf = 48 # h # l # ?r" using drop_more [of "e + 2" buf "[48]"] d2 by (simp add: eval_nat_numeral)
    have d4: "drop (e + 4) buf = h # l # ?r" using drop_more [of "e + 3" buf "[48]"] d3 by (simp add: eval_nat_numeral)
    have d5: "drop (e + 5) buf = l # ?r" using drop_more [of "e + 4" buf "[h]"] d4 by (simp add: eval_nat_numeral)
    note v = hex2_values [OF hex(2)]
    have st: "string_end buf len (e + 2) (k + 1) = string_end buf len (e + 3) (k + 1)"
      "string_end buf len (e + 3) (k + 1) = string_end buf len (e + 4) (k + 1)"
      "string_end buf len (e + 4) (k + 1) = string_end buf len (e + 5) (k + 1)"
      "string_end buf len (e + 5) (k + 1) = string_end buf len (e + 6) (k + 1)"
      by (rule string_end_next [OF d2], use v assms(2) in simp_all, rule string_end_next [OF d3], use v assms(2) in simp_all,
        rule string_end_next [OF d4], use v assms(2) in simp_all, rule string_end_next [OF d5], use v assms(2) in simp_all)
    have "string_end buf len e k = string_end buf len (e + 6) (k + 1)" unfolding two [OF hex(1)] st ..
    then show ?thesis using IH [of "k + 1"] hex by (simp add: eval_nat_numeral)
  qed
qed

lemma ascii_utf8:
  assumes "unat c < 128"
  shows "codepoint_utf8 (unat c) = Some [c]"
proof -
  have m: "(0x7F :: u64) = mask 7" by (simp add: mask_eq_exp_minus_1)
  have "take_bit 7 (unat c) = unat c" using assms by (simp add: take_bit_nat_eq_self)
  moreover have "unat (ucast c :: u64) = unat c" using assms by (simp add: unsigned_ucast_eq take_bit_nat_eq_self)
  ultimately have "unat ((word_of_nat (unat c) :: u64) AND mask 7) = unat c"
    by (simp add: take_bit_eq_mask [symmetric] unsigned_take_bit_eq)
  then have "ucast ((word_of_nat (unat c) :: u64) AND mask 7) = c"
    by (simp add: word_unat_eq_iff unsigned_ucast_eq take_bit_nat_eq_self)
  then show ?thesis using assms by (simp add: codepoint_utf8_def encode_utf8_def m)
qed

lemma unescape_letters:
  assumes "drop p buf = concat (map escape w) @ 34 # t" "e = p + length (concat (map escape w))" "length out + length w \<le> cap"
    "no_nul w"
  shows "unescape_loop buf e cap p out = Some (Inr (out @ w))"
  using assms
proof (induction w arbitrary: p out)
  case Nil
  then show ?case by (subst unescape_loop.simps) simp
next
  case (Cons c w)
  let ?es = "concat (map escape w)"
  let ?r = "?es @ 34 # t"
  have d: "drop p buf = escape c @ ?r" using Cons.prems(1) by simp
  have IH: "unescape_loop buf e cap (p + length (escape c)) (out @ [c]) = Some (Inr (out @ c # w))"
    using Cons.IH [OF drop_more [OF d], of "out @ [c]"] Cons.prems(2-4) by simp
  have put: "out_put cap out [c] = Some (out @ [c])" using Cons.prems(3) by (simp add: out_put_def)
  show ?case
  proof (cases rule: escape_forms [of c])
    case plain_
    then have "p < e" "drop p buf = c # ?r" using Cons.prems(2) d by auto
    then show ?thesis using IH put plain_ drop_less [of p buf c] nth_via_drop [of p buf c]
      by (subst unescape_loop.simps) (simp add: rd_def)
  next
    case (letter l)
    then have d': "drop p buf = 92 # l # ?r" and e: "p < e" using Cons.prems(2) d by auto
    have d2: "drop (p + 1) buf = l # ?r" using drop_more [of p buf "[92]"] d' by simp
    show ?thesis using IH put letter e drop_less [OF d'] nth_via_drop [OF d'] drop_less [OF d2] nth_via_drop [OF d2]
      by (subst unescape_loop.simps) (simp add: rd_def)
  next
    case (hex h l)
    then have d': "drop p buf = 92 # 117 # 48 # 48 # h # l # ?r" and e: "e = p + 6 + length ?es" using Cons.prems(2) d by auto
    have d2: "drop (p + 1) buf = 117 # 48 # 48 # h # l # ?r" using drop_more [of p buf "[92]"] d' by simp
    have d3: "drop (p + 2) buf = 48 # 48 # h # l # ?r" using drop_more [of p buf "[92, 117]"] d' by simp
    have len: "p + 6 \<le> length buf" using arg_cong [OF d', of length] by simp
    note v = hex2_values [OF hex(2)]
    have "unat c < 32" using hex(4) by (simp add: word_less_nat_alt)
    then have "hex4_loop 0 [48, 48, h, l] = unat c" using v by (simp add: hex_value_def)
    then have h4: "parse_hex4 buf (p + 2) = Some (unat c)" using d3 len by (simp add: parse_hex4_def)
    have "codepoint_utf8 (unat c) = Some [c]"
      using ascii_utf8 [of c] \<open>unat c < 32\<close> by simp
    then have "utf16_literal_to_utf8 buf p e = Some ([c], 6)" using h4 e \<open>unat c < 32\<close> by (simp add: utf16_literal_to_utf8_def)
    moreover have "unescape_loop buf e cap (p + 6) (out @ [c]) = Some (Inr (out @ c # w))" using IH hex(1) by (simp add: eval_nat_numeral)
    ultimately show ?thesis using put hex e drop_less [OF d'] nth_via_drop [OF d'] drop_less [OF d2] nth_via_drop [OF d2]
      by (subst unescape_loop.simps) (simp add: rd_def unescape_letter_def)
  qed
qed

lemma escapes_room: "length w + length (filter escaped w) \<le> length (concat (map escape w))"
proof (induction w)
  case (Cons c w)
  have "1 + (if escaped c then 1 else 0) \<le> length (escape c)" by (cases rule: escape_forms [of c]) auto
  then show ?case using Cons by auto
qed simp

lemma escaped_length: "length (concat (map escape w)) \<le> 6 * length w"
proof (induction w)
  case (Cons c w)
  have "length (escape c) \<le> 6" by (cases rule: escape_forms [of c]) auto
  then show ?case using Cons by simp
qed simp

lemma quoted_length: "length (quoted (Some w)) \<le> 6 * length w + 2"
  using escaped_length [of "cstr w"] length_takeWhile_le [of "\<lambda>b. b \<noteq> 0" w] by (simp add: quoted_def cstr_def)

lemma string_read:
  assumes "ahead b (quoted (Some w) @ t)" "no_nul w" "\<And>p n. al p n"
  shows "parse_string al item b = Some (Some (with_string w item), step (length (quoted (Some w))) b)"
proof -
  let ?es = "concat (map escape w)" and ?o = "bf_offset b"
  have q: "quoted (Some w) = 34 # ?es @ [34]" using assms(2) by (simp add: quoted_def)
  have a: "ahead b (34 # ?es @ 34 # t)" using assms(1) by (simp add: q)
  have d: "drop (?o + 1) (bf_content b) = ?es @ 34 # t" "length (bf_content b) = bf_length b"
    using ahead_Cons [OF a] by (auto simp: ahead_def bf_ok_def)
  have c: "rd (bf_content b) ?o = Some 34" using ahead_Cons [OF a] d(2) by (simp add: rd_def)
  let ?k = "length (filter escaped w)" and ?e = "?o + 1 + length ?es"
  have e: "string_end (bf_content b) (bf_length b) (?o + 1) 0 = Some (Inr (?e, ?k))"
    using string_end_escapes [OF d, of 0] by simp
  have room: "length w + 1 \<le> ?e - ?o - ?k" using escapes_room [of w] by simp
  have u: "unescape_loop (bf_content b) ?e (?e - ?o - ?k + 1) (?o + 1) [] = Some (Inr w)"
    using unescape_letters [OF d(1), of ?e "[]" "?e - ?o - ?k + 1"] room assms(2) by simp
  have "step (length (quoted (Some w))) b = b\<lparr>bf_offset := ?e + 1\<rparr>" by (simp add: q)
  then show ?thesis using c e u room assms(2) all_calls(2) [OF assms(3)] unfolding parse_string_def Let_def
    by (simp add: out_put_def)
qed

section \<open>Numbers\<close>

text \<open>A number whose text is read as the same number: the guarantee of 17 digits.\<close>

definition read_back :: "(rat \<Rightarrow> rat) \<Rightarrow> fp \<Rightarrow> bool" where
  "read_back r d \<longleftrightarrow> d \<notin> {Inf, MinusInf, NaN} \<and> (\<exists>s. number_text r d = Some s \<and> fst (strtod r s) = d)"

lemma number_read:
  assumes "ahead b (number_string r d @ c # t)" "\<not> number_char c" "read_back r d" "int_of_double d = Some i"
  shows "parse_number r item b = Some (Some (with_number i d item), step (length (number_string r d)) b)"
    "\<exists>x u. number_string r d = x # u \<and> (x = 45 \<or> is_digit x)"
proof -
  obtain s where s: "number_text r d = Some s" "fst (strtod r s) = d" "number_string r d = s"
    using assms(3) by (auto simp: read_back_def number_string_def)
  have ch: "list_all number_char s" "s \<noteq> []" "hd s = 45 \<or> is_digit (hd s)" "snd (strtod r s) = length s" "length s < 26"
    using number_text_chars [OF s(1)] assms(3) by (auto simp: read_back_def)
  have d: "drop (bf_offset b) (bf_content b) = s @ c # t" "length (bf_content b) = bf_length b"
    using assms(1) by (auto simp: ahead_def bf_ok_def s(3))
  have "take 63 (s @ c # t) = s @ c # take (62 - length s) t" using ch(5) by (simp add: take_Cons')
  then have "takeWhile number_char (take 63 (drop (bf_offset b) (bf_content b))) = s"
    using ch(1) assms(2) d(1) takeWhile_stop [OF ch(1), of "c # take (62 - length s) t"] by simp
  moreover have "strtod r s = (d, length s)" using s(2) ch(4) by (cases "strtod r s") simp
  ultimately show "parse_number r item b = Some (Some (with_number i d item), step (length (number_string r d)) b)"
    using d(2) ch(2) assms(4) by (simp add: parse_number_def s(3))
  show "\<exists>x u. number_string r d = x # u \<and> (x = 45 \<or> is_digit x)" using ch(2,3) by (cases s) (auto simp: s(3))
qed

section \<open>Values\<close>

text \<open>The numbers of a document are read back.\<close>

definition numbers_back :: "(rat \<Rightarrow> rat) \<Rightarrow> fp json \<Rightarrow> bool" where
  "numbers_back r = json_all (\<lambda>j. js_type j = cJSON_Number \<longrightarrow> read_back r (js_num j))"

text \<open>What is shown of one document, at any place and nesting, with any text behind it that does not go on with a number.\<close>

definition reads_back :: "mallocs \<Rightarrow> (rat \<Rightarrow> rat) \<Rightarrow> fp json \<Rightarrow> bool" where
  "reads_back al r j \<longleftrightarrow> (\<forall>n b item fmt k c t. ahead b (render r fmt k j @ c # t) \<and> \<not> number_char c \<and> blank_item item
      \<and> js_name item = js_name j \<and> bf_depth b + nesting j \<le> 1000 \<and> nesting j < n
     \<longrightarrow> parse_value n al r item b = Some (Some j, step (length (render r fmt k j)) b))"

lemma reads_backD:
  "reads_back al r j \<Longrightarrow> ahead b (render r fmt k j @ c # t) \<Longrightarrow> \<not> number_char c \<Longrightarrow> blank_item item
   \<Longrightarrow> js_name item = js_name j \<Longrightarrow> bf_depth b + nesting j \<le> 1000 \<Longrightarrow> nesting j < n
   \<Longrightarrow> parse_value n al r item b = Some (Some j, step (length (render r fmt k j)) b)"
  unfolding reads_back_def by blast

definition white :: "bytes \<Rightarrow> bool" where
  "white ws \<longleftrightarrow> (\<forall>w \<in> set ws. w \<le> 32)"

lemma white_simps [simp]: "white []" "white (w # ws) \<longleftrightarrow> w \<le> 32 \<and> white ws" "white (u @ v) \<longleftrightarrow> white u \<and> white v" "white (tabs n)"
  by (auto simp: white_def tabs_def)

lemma skip_white:
  assumes "ahead b (ws @ c # s)" "white ws" "c > 32"
  shows "buffer_skip_whitespace b = Some (step (length ws) b)" "ahead (step (length ws) b) (c # s)"
  using skip_at [OF assms(1)] assms(2,3) by (auto simp: white_def)

text \<open>The first byte of a value.\<close>

definition value_start :: "u8 \<Rightarrow> bool" where
  "value_start c \<longleftrightarrow> c > 32 \<and> c \<noteq> 93 \<and> c \<noteq> 125"

lemma render_start:
  assumes "plain j" "numbers_back r j"
  obtains c s where "render r fmt k j = c # s" "value_start c"
proof (cases j)
  case (Json n t s i x cs)
  have "\<exists>c u. number_string r x = c # u \<and> value_start c" if t: "t = cJSON_Number"
  proof -
    have "read_back r x" using assms(2) Json t by (simp add: numbers_back_def)
    then obtain s where s: "number_text r x = Some s" "number_string r x = s" by (auto simp: read_back_def number_string_def)
    then have "s \<noteq> [] \<and> (hd s = 45 \<or> is_digit (hd s))" using number_text_chars [OF s(1)] \<open>read_back r x\<close> by (simp add: read_back_def)
    then show ?thesis using s(2) by (cases s) (auto simp: value_start_def is_digit_def word_le_nat_alt word_less_nat_alt)
  qed
  then show ?thesis using that assms(1) Json
    by (cases t) (auto simp: bytes_of_def value_start_def quoted_def)
qed

lemma elements_read:
  assumes pv: "\<And>c. c \<in> set cs \<Longrightarrow> reads_back al r c" "\<And>c. c \<in> set cs \<Longrightarrow> plain c \<and> numbers_back r c \<and> js_name c = None"
    and "\<And>p n. al p n" "ahead b (x # ws @ render_elements r fmt d cs @ 93 # t)" "white ws" "cs \<noteq> []" "length cs \<le> k"
    and "\<And>c. c \<in> set cs \<Longrightarrow> bf_depth b + nesting c \<le> 1000 \<and> nesting c < n"
  shows "parse_elements al (\<lambda>al. parse_value n al r) k acc b
    = Some (Some (acc @ cs), step (1 + length ws + length (render_elements r fmt d cs)) b)"
  using assms
proof (induction k arbitrary: b cs acc x ws)
  case (Suc k)
  obtain c cs' where cs: "cs = c # cs'" using Suc.prems(6) by (cases cs) auto
  let ?v = "render r fmt d c" and ?sep = "if cs' = [] then [] else 44 # blanks fmt [32]"
  let ?tail = "?sep @ render_elements r fmt d cs' @ 93 # t"
  obtain y s where y: "?v = y # s" "value_start y" using render_start [of c r fmt d] Suc.prems(2) [of c] cs by auto
  obtain new_item where new: "cJSON_New_Item al = Some new_item" "blank_item new_item" "js_name new_item = None"
    using all_calls(2) [OF Suc.prems(3)] by (simp add: cJSON_New_Item_def blank_item_def)
  have "ahead b (x # (ws @ y # (s @ ?tail)))" using Suc.prems(4) cs y(1) by simp
  then have a1: "ahead (step 1 b) (ws @ y # (s @ ?tail))" using ahead_Cons by blast
  note sk = skip_white [OF a1 Suc.prems(5)]
  let ?b1 = "step (length ws) (step 1 b)"
  have y32: "y > 32" using y(2) by (simp add: value_start_def)
  obtain z u where z: "?tail = z # u" "z = 93 \<or> z = 44" by (cases "cs' = []") auto
  have a2: "ahead ?b1 (?v @ z # u)" using sk(2) [OF y32] y(1) z(1) by simp
  have "\<not> number_char z" using z(2) by (auto simp: number_char_def is_digit_def bytes_of_def)
  then have v: "parse_value n al r new_item ?b1 = Some (Some c, step (length ?v) ?b1)"
    using Suc.prems(1) [of c] Suc.prems(2) [of c] Suc.prems(8) [of c] new cs by (intro reads_backD [OF _ a2]) simp_all
  let ?b2 = "step (length ?v) ?b1"
  have a3: "ahead ?b2 (z # u)" by (rule ahead_step [OF a2])
  have "z > 32" using z(2) by auto
  then have sk2: "buffer_skip_whitespace ?b2 = Some ?b2" using skip_white(1) [of ?b2 "[]" z u] a3 by simp
  have unf: "parse_elements al (\<lambda>al. parse_value n al r) (Suc k) acc b
      = (if z = 44 then parse_elements al (\<lambda>al. parse_value n al r) k (acc @ [c]) ?b2 else Some (Some (acc @ [c]), ?b2))"
    using new(1) sk(1) [OF y32] v sk2 next_is_ahead [OF a3] by (simp add: all_calls(1) [OF Suc.prems(3)])
  show ?case
  proof (cases "cs' = []")
    case True
    then show ?thesis using unf z cs by simp
  next
    case False
    then have z44: "z = 44" "u = blanks fmt [32] @ render_elements r fmt d cs' @ 93 # t" using z(1) by auto
    have "parse_elements al (\<lambda>al. parse_value n al r) k (acc @ [c]) ?b2
        = Some (Some ((acc @ [c]) @ cs'), step (1 + length (blanks fmt [32]) + length (render_elements r fmt d cs')) ?b2)"
    proof (rule Suc.IH)
      show "ahead ?b2 (44 # blanks fmt [32] @ render_elements r fmt d cs' @ 93 # t)" using a3 z44 by simp
    qed (use Suc.prems cs False in auto)
    then show ?thesis using unf z44(1) cs False by (simp add: ac_simps)
  qed
qed simp


text \<open>The members from the first name on.\<close>

definition member_text :: "(rat \<Rightarrow> rat) \<Rightarrow> bool \<Rightarrow> nat \<Rightarrow> fp json \<Rightarrow> fp json list \<Rightarrow> bytes" where
  "member_text r fmt d c cs = quoted (js_name c) @ (58 # blanks fmt [9]) @ render r fmt d c
     @ ((if cs = [] then [] else [44]) @ blanks fmt [10]) @ render_members r fmt d cs"

lemma members_text: "render_members r fmt d (c # cs) = blanks fmt (tabs d) @ member_text r fmt d c cs"
  by (simp add: member_text_def)

lemma members_read:
  assumes pv: "\<And>c'. c' \<in> set (c # cs) \<Longrightarrow> reads_back al r c'"
      "\<And>c'. c' \<in> set (c # cs) \<Longrightarrow> plain c' \<and> numbers_back r c' \<and> (\<exists>w. js_name c' = Some w \<and> no_nul w)"
    and "\<And>p n. al p n" "ahead b (x # ws @ member_text r fmt d c cs @ ws' @ 125 # t)" "white ws" "white ws'" "length (c # cs) \<le> k"
    and "\<And>c'. c' \<in> set (c # cs) \<Longrightarrow> bf_depth b + nesting c' \<le> 1000 \<and> nesting c' < n"
  shows "parse_members al (\<lambda>al. parse_value n al r) k acc b
    = Some (Some (acc @ c # cs), step (1 + length ws + length (member_text r fmt d c cs) + length ws') b)"
  using assms
proof (induction k arbitrary: b c cs acc x ws)
  case (Suc k)
  obtain w where w: "js_name c = Some w" "no_nul w" using Suc.prems(2) [of c] by auto
  let ?name = "quoted (Some w)" and ?tab = "blanks fmt [9]" and ?v = "render r fmt d c" and ?nl = "blanks fmt [10]"
  let ?close = "ws' @ 125 # t"
  let ?tail = "(if cs = [] then [] else [44]) @ ?nl @ render_members r fmt d cs @ ?close"
  obtain y s where y: "?v = y # s" "value_start y" using render_start [of c r fmt d] Suc.prems(2) [of c] by auto
  have y32: "y > 32" using y(2) by (simp add: value_start_def)
  obtain new_item where new: "cJSON_New_Item al = Some new_item" "blank_item new_item" "js_name new_item = None"
    using all_calls(2) [OF Suc.prems(3)] by (simp add: cJSON_New_Item_def blank_item_def)
  obtain nm where nm: "?name = 34 # nm" by (simp add: quoted_def)
  have "ahead b (x # (ws @ 34 # (nm @ 58 # ?tab @ ?v @ ?tail)))"
    using Suc.prems(4) nm unfolding member_text_def w by simp
  then have a1: "ahead (step 1 b) (ws @ 34 # (nm @ 58 # ?tab @ ?v @ ?tail))" using ahead_Cons by blast
  note sk = skip_white [OF a1 Suc.prems(5)]
  let ?b1 = "step (length ws) (step 1 b)"
  have a2: "ahead ?b1 (?name @ 58 # ?tab @ ?v @ ?tail)" using sk(2) nm by simp
  note str = string_read [where item = new_item, OF a2 w(2) Suc.prems(3)]
  let ?b2 = "step (length ?name) ?b1"
  have a3: "ahead ?b2 (58 # (?tab @ ?v @ ?tail))" by (rule ahead_step [OF a2])
  have sk2: "buffer_skip_whitespace ?b2 = Some ?b2" using skip_white(1) [of ?b2 "[]" 58] a3 by simp
  have "ahead (step 1 ?b2) (?tab @ y # (s @ ?tail))" using ahead_Cons [OF a3] y(1) by simp
  note sk3 = skip_white [OF this _ y32]
  let ?b3 = "step (length ?tab) (step 1 ?b2)" and ?item = "string_to_name (with_string w new_item)"
  have it: "blank_item ?item" "js_name ?item = Some w" using new(2) by (simp_all add: string_to_name_def with_string_def blank_item_def)
  obtain z u where z: "?tail = z # u" "z = 125 \<or> z = 44 \<or> z \<le> 32"
    using Suc.prems(6) by (cases "cs = []"; cases fmt; cases ws') auto
  have a4: "ahead ?b3 (?v @ z # u)" using sk3(2) y(1) z(1) by simp
  have "\<not> number_char z" using z(2) by (auto simp: number_char_def is_digit_def bytes_of_def word_le_nat_alt)
  then have v: "parse_value n al r ?item ?b3 = Some (Some c, step (length ?v) ?b3)"
    using Suc.prems(1) [of c] Suc.prems(8) [of c] it w by (intro reads_backD [OF _ a4]) simp_all
  define b4 where "b4 = step (length ?v) ?b3"
  have b4: "b4 = step (1 + length ws + length ?name + 1 + length ?tab + length ?v) b" by (simp add: b4_def ac_simps)
  have a5: "ahead b4 ?tail" using ahead_step [OF a4] z(1) by (simp add: b4_def)
  have pre: "parse_members al (\<lambda>al. parse_value n al r) (Suc k) acc b
      = (case buffer_skip_whitespace b4 of None \<Rightarrow> None | Some b \<Rightarrow> (case next_is b (\<lambda>c. c = 44) of None \<Rightarrow> None
          | Some m \<Rightarrow> if m then parse_members al (\<lambda>al. parse_value n al r) k (acc @ [c]) b else Some (Some (acc @ [c]), b)))"
    using new(1) sk(1) str sk2 next_is_ahead [OF a3] sk3(1) v unfolding b4_def
    by (simp add: all_calls(1) [OF Suc.prems(3)] split: option.split)
  show ?case
  proof (cases cs)
    case Nil
    then have a6: "ahead b4 ((?nl @ ws') @ 125 # t)" using a5 by simp
    have "white (?nl @ ws')" using Suc.prems(6) by simp
    note sk4 = skip_white [OF a6 this]
    have "parse_members al (\<lambda>al. parse_value n al r) (Suc k) acc b = Some (Some (acc @ [c]), step (length (?nl @ ws')) b4)"
      using pre sk4(1) next_is_ahead [OF sk4(2)] by (simp del: length_append)
    moreover have "step (length (?nl @ ws')) b4 = step (1 + length ws + length (member_text r fmt d c cs) + length ws') b"
      using Nil w(1) by (simp add: b4 member_text_def)
    ultimately show ?thesis using Nil by simp
  next
    case (Cons c' cs')
    let ?m = "member_text r fmt d c' cs'" and ?ws = "?nl @ blanks fmt (tabs d)"
    have a6: "ahead b4 (44 # ?ws @ ?m @ ws' @ 125 # t)"
      using a5 unfolding Cons members_text by simp
    have sk4: "buffer_skip_whitespace b4 = Some b4" using skip_white(1) [of b4 "[]" 44] a6 by simp
    have "parse_members al (\<lambda>al. parse_value n al r) k (acc @ [c]) b4
        = Some (Some ((acc @ [c]) @ c' # cs'), step (1 + length ?ws + length ?m + length ws') b4)"
      by (rule Suc.IH [OF _ _ Suc.prems(3) a6]) (use Suc.prems Cons in \<open>auto simp: b4\<close>)
    then have "parse_members al (\<lambda>al. parse_value n al r) (Suc k) acc b
        = Some (Some (acc @ c # cs), step (1 + length ?ws + length ?m + length ws') b4)"
      using pre sk4 next_is_ahead [OF a6] Cons by (simp del: length_append)
    moreover have "step (1 + length ?ws + length ?m + length ws') b4 = step (1 + length ws + length (member_text r fmt d c cs) + length ws') b"
      unfolding member_text_def [of r fmt d c] Cons members_text w(1) by (simp add: b4)
    ultimately show ?thesis by simp
  qed
qed simp

lemma elements_length:
  "\<forall>c \<in> set cs. plain c \<and> numbers_back r c \<Longrightarrow> length cs \<le> length (render_elements r fmt d cs)"
proof (induction cs)
  case (Cons c cs)
  obtain y s where "render r fmt d c = y # s" by (rule render_start [of c r fmt d]) (use Cons.prems in auto)
  then show ?case using Cons by auto
qed simp

lemma members_length: "length cs \<le> length (render_members r fmt d cs)"
  by (induction cs) auto

lemma ahead_length: "ahead b s \<Longrightarrow> length s \<le> bf_length b"
  by (auto simp: ahead_def bf_ok_def)

text \<open>The brackets around a loop that reads up to the closing one.\<close>

lemma bracketed_read:
  assumes b: "ahead b (opening # ws @ y # s)" "white ws" "y > 32" "bf_depth b < 1000"
    and y: "if none then y = closing else y \<noteq> closing
      \<and> loop (bf_length b) [] ((step (length ws) b)\<lparr>bf_depth := Suc (bf_depth b)\<rparr>)
          = Some (Some cs, (step n b)\<lparr>bf_depth := Suc (bf_depth b)\<rparr>) \<and> ahead (step n b) (closing # t)"
    and e: "none \<Longrightarrow> cs = [] \<and> n = 1 + length ws"
  shows "parse_bracketed t' opening closing loop item b = Some (Some (with_children t' cs item), step (n + 1) b)"
proof -
  let ?b = "b\<lparr>bf_depth := Suc (bf_depth b)\<rparr>"
  have a: "ahead ?b (opening # ws @ y # s)" using b(1) by (simp add: ahead_depth)
  have a1: "ahead (step 1 ?b) (ws @ y # s)" using ahead_Cons [OF a] by blast
  note sk = skip_white [OF a1 b(2,3)]
  define b1 where "b1 = step (length ws) (step 1 ?b)"
  have b1: "b1 = b\<lparr>bf_offset := bf_offset b + 1 + length ws, bf_depth := Suc (bf_depth b)\<rparr>" by (simp add: b1_def)
  have s: "buffer_skip_whitespace (step 1 ?b) = Some b1" "ahead b1 (y # s)" using sk by (simp_all add: b1_def)
  note here = next_is_ahead [OF a] and close = next_is_ahead [OF s(2)]
  have lt: "bf_offset b1 < bf_length b1" using ahead_Cons [OF s(2)] by simp
  have back_: "b1\<lparr>bf_offset := bf_offset b1 - 1\<rparr> = (step (length ws) b)\<lparr>bf_depth := Suc (bf_depth b)\<rparr>" "bf_length b1 = bf_length b"
    by (simp_all add: b1)
  show ?thesis
  proof (cases none)
    case True
    have st: "step 1 (b1\<lparr>bf_depth := bf_depth b1 - 1\<rparr>) = step (n + 1) b" using e [OF True] by (simp add: b1)
    have "parse_bracketed t' opening closing loop item b = Some (Some (with_children t' [] item), step 1 (b1\<lparr>bf_depth := bf_depth b1 - 1\<rparr>))"
      using b(4) here s(1) close y True by (simp add: parse_bracketed_def)
    then show ?thesis unfolding st using e [OF True] by simp
  next
    case False
    define b2 where "b2 = (step n b)\<lparr>bf_depth := Suc (bf_depth b)\<rparr>"
    have l: "loop (bf_length b1) [] (b1\<lparr>bf_offset := bf_offset b1 - 1\<rparr>) = Some (Some cs, b2)" "ahead b2 (closing # t)" "y \<noteq> closing"
      using y False unfolding back_ by (simp_all add: b2_def ahead_depth)
    have st: "step 1 (b2\<lparr>bf_depth := bf_depth b2 - 1\<rparr>) = step (n + 1) b" by (simp add: b2_def)
    have "parse_bracketed t' opening closing loop item b = Some (Some (with_children t' cs item), step 1 (b2\<lparr>bf_depth := bf_depth b2 - 1\<rparr>))"
      using b(4) here s(1) close l lt next_is_ahead [OF l(2)] by (simp add: parse_bracketed_def)
    then show ?thesis unfolding st .
  qed
qed

lemma array_read:
  assumes "\<And>c. c \<in> set cs \<Longrightarrow> reads_back al r c" "\<And>c. c \<in> set cs \<Longrightarrow> plain c \<and> numbers_back r c \<and> js_name c = None"
    and "\<And>p n. al p n" "ahead b (91 # render_elements r fmt d cs @ 93 # t)" "bf_depth b < 1000"
    and "\<And>c. c \<in> set cs \<Longrightarrow> Suc (bf_depth b) + nesting c \<le> 1000 \<and> nesting c < n"
  shows "parse_array al (\<lambda>al. parse_value n al r) item b
    = Some (Some (with_children cJSON_Array cs item), step (length (91 # render_elements r fmt d cs @ [93])) b)"
proof -
  let ?e = "render_elements r fmt d cs" and ?b = "b\<lparr>bf_depth := Suc (bf_depth b)\<rparr>"
  have "parse_bracketed cJSON_Array 91 93 (parse_elements al (\<lambda>al. parse_value n al r)) item b
      = Some (Some (with_children cJSON_Array cs item), step ((1 + length ?e) + 1) b)"
  proof (cases cs)
    case Nil
    have "ahead b (91 # [] @ 93 # t)" using assms(4) Nil by simp
    then show ?thesis using Nil by (rule_tac bracketed_read [where none = True and ws = "[]" and y = 93 and s = t])
        (use assms(5) in auto)
  next
    case (Cons c cs')
    obtain y s where y: "render r fmt d c = y # s" "value_start y" using render_start [of c r fmt d] assms(2) [of c] Cons by auto
    obtain s' where s': "?e @ 93 # t = y # s'" using y(1) Cons by simp
    have a: "ahead b (91 # [] @ y # s')" using assms(4) s' by simp
    have "length cs \<le> bf_length b" using elements_length [of cs r fmt d] assms(2) ahead_length [OF assms(4)] by auto
    have "parse_elements al (\<lambda>al. parse_value n al r) (bf_length b) [] ?b = Some (Some ([] @ cs), step (1 + length ([] :: bytes) + length ?e) ?b)"
    proof (rule elements_read [OF assms(1,2,3)])
      show "ahead ?b (91 # [] @ ?e @ 93 # t)" using assms(4) by (simp add: ahead_depth)
      show "length cs \<le> bf_length b" by fact
      show "bf_depth ?b + nesting c \<le> 1000 \<and> nesting c < n" if "c \<in> set cs" for c using assms(6) [OF that] by simp
    qed (use Cons in auto)
    moreover have "ahead (step (length (91 # ?e)) b) (93 # t)" using assms(4) by (intro ahead_step) simp
    ultimately show ?thesis using y(2) assms(5)
      by (intro bracketed_read [where none = False, OF a]) (auto simp: value_start_def)
  qed
  then show ?thesis by (simp add: parse_array_def)
qed

lemma object_read:
  assumes "\<And>c. c \<in> set cs \<Longrightarrow> reads_back al r c"
      "\<And>c. c \<in> set cs \<Longrightarrow> plain c \<and> numbers_back r c \<and> (\<exists>w. js_name c = Some w \<and> no_nul w)"
    and "\<And>p n. al p n" "ahead b (123 # blanks fmt [10] @ render_members r fmt d cs @ ws' @ 125 # t)" "white ws'" "bf_depth b < 1000"
    and "\<And>c. c \<in> set cs \<Longrightarrow> Suc (bf_depth b) + nesting c \<le> 1000 \<and> nesting c < n"
  shows "parse_object al (\<lambda>al. parse_value n al r) item b
    = Some (Some (with_children cJSON_Object cs item), step (length (123 # blanks fmt [10] @ render_members r fmt d cs @ ws' @ [125])) b)"
proof -
  let ?m = "render_members r fmt d cs" and ?b = "b\<lparr>bf_depth := Suc (bf_depth b)\<rparr>" and ?nl = "blanks fmt [10]"
  have "parse_bracketed cJSON_Object 123 125 (parse_members al (\<lambda>al. parse_value n al r)) item b
      = Some (Some (with_children cJSON_Object cs item), step ((1 + length ?nl + length ?m + length ws') + 1) b)"
  proof (cases cs)
    case Nil
    have "ahead b (123 # (?nl @ ws') @ 125 # t)" using assms(4) Nil by simp
    then show ?thesis using Nil assms(5,6)
      by (rule_tac bracketed_read [where none = True and ws = "?nl @ ws'" and y = 125 and s = t]) auto
  next
    case (Cons c cs')
    let ?ws = "?nl @ blanks fmt (tabs d)" and ?c = "member_text r fmt d c cs'"
    have m: "?m = blanks fmt (tabs d) @ ?c" unfolding Cons by (rule members_text)
    obtain y where y: "?c @ ws' @ 125 # t = 34 # y" by (simp add: member_text_def quoted_def)
    have a: "ahead b (123 # ?ws @ 34 # y)" using assms(4) unfolding m y [symmetric] by simp
    define x where "x = last (123 # ?ws)"
    have "123 # ?ws = butlast (123 # ?ws) @ [x]" unfolding x_def by (rule append_butlast_last_id [symmetric]) simp
    then have "ahead b (butlast (123 # ?ws) @ x # 34 # y)" using a by (metis append.assoc append_Cons append_Nil)
    note ax' = ahead_step [OF this]
    have "length (butlast (123 # ?ws)) = length ?ws" by (simp only: length_butlast list.size(4) add_diff_cancel_right')
    then have ax: "ahead (step (length ?ws) b) (x # [] @ ?c @ ws' @ 125 # t)" using ax' unfolding append_Nil y by metis
    have "length cs \<le> bf_length b" using members_length [of cs r fmt d] ahead_length [OF assms(4)] by auto
    define b' where "b' = (step (length ?ws) b)\<lparr>bf_depth := Suc (bf_depth b)\<rparr>"
    have each: "reads_back al r c2" "plain c2 \<and> numbers_back r c2 \<and> (\<exists>w. js_name c2 = Some w \<and> no_nul w)"
      "bf_depth b' + nesting c2 \<le> 1000 \<and> nesting c2 < n" if "c2 \<in> set (c # cs')" for c2
      using assms(1,2,7) [of c2] that unfolding Cons b'_def by simp_all
    have a': "ahead b' (x # [] @ ?c @ ws' @ 125 # t)" using ax by (simp add: ahead_depth b'_def)
    have "length (c # cs') \<le> bf_length b" using \<open>length cs \<le> bf_length b\<close> Cons by simp
    note members_read [OF each(1,2) assms(3) a' white_simps(1) assms(5) this each(3), of "[]"]
    then have "parse_members al (\<lambda>al. parse_value n al r) (bf_length b) [] b' = Some (Some ([] @ c # cs'), step (1 + length ([] :: bytes) + length ?c + length ws') b')"
      by simp
    note loop = this [unfolded b'_def]
    let ?n = "1 + length ?nl + length ?m + length ws'"
    have st: "step (1 + length ([] :: bytes) + length ?c + length ws') ((step (length ?ws) b)\<lparr>bf_depth := Suc (bf_depth b)\<rparr>)
        = (step ?n b)\<lparr>bf_depth := Suc (bf_depth b)\<rparr>" unfolding m by simp
    have "ahead (step (length (123 # ?nl @ ?m @ ws')) b) (125 # t)" using assms(4) by (intro ahead_step) simp
    then have "ahead (step ?n b) (125 # t)" by (cases fmt) simp_all
    then show ?thesis using loop assms(6) Cons unfolding st
      by (intro bracketed_read [where none = False, OF a]) auto
  qed
  then show ?thesis by (simp add: parse_object_def ac_simps)
qed

lemma type_item: "blank_item item \<Longrightarrow> with_type t item = Json (js_name item) t None 0 (Fin 0) []"
  "blank_item item \<Longrightarrow> with_string s item = Json (js_name item) cJSON_String (Some s) 0 (Fin 0) []"
  "blank_item item \<Longrightarrow> with_number i d item = Json (js_name item) cJSON_Number None i d []"
  "blank_item item \<Longrightarrow> with_children t cs item = Json (js_name item) t None 0 (Fin 0) cs"
  by (simp_all add: blank_item_def with_type_def with_string_def with_number_def with_children_def)

text \<open>What the first byte of a value tells.\<close>

lemma value_tests:
  assumes "ahead b (c # s)"
  shows "next_is b (\<lambda>c. c = 34) = Some (c = 34)" "next_is b (\<lambda>c. c = 45 \<or> is_digit c) = Some (c = 45 \<or> is_digit c)"
    "next_is b (\<lambda>c. c = 91) = Some (c = 91)" "next_is b (\<lambda>c. c = 123) = Some (c = 123)"
    "c \<noteq> 110 \<Longrightarrow> starts b ''null'' = Some False" "c \<noteq> 102 \<Longrightarrow> starts b ''false'' = Some False"
    "c \<noteq> 116 \<Longrightarrow> starts b ''true'' = Some False"
  using next_is_ahead [OF assms] starts_at [OF assms] by (simp_all add: bytes_of_def)

lemma nested:
  assumes "c \<in> set cs" "Suc d + foldr max (map nesting cs) 0 \<le> 1000" "foldr max (map nesting cs) 0 < n"
  shows "Suc d + nesting c \<le> 1000 \<and> nesting c < n"
proof -
  have "nesting c \<le> foldr max (map nesting cs) 0" using assms(1) nesting_children [of cs "foldr max (map nesting cs) 0"] by blast
  then show ?thesis using assms(2,3) by linarith
qed

lemma value_read: "plain j \<Longrightarrow> numbers_back r j \<Longrightarrow> (\<And>p n. al p n) \<Longrightarrow> reads_back al r j"
proof (induction j)
  case (Json nm t s i x cs)
  note children = Json.IH Json.prems
  show ?case unfolding reads_back_def
  proof (intro allI impI)
    fix n b item fmt k and c :: u8 and u :: bytes
    let ?j = "Json nm t s i x cs"
    let ?t = "render r fmt k ?j"
    assume "ahead b (?t @ c # u) \<and> \<not> number_char c \<and> blank_item item \<and> js_name item = js_name ?j
      \<and> bf_depth b + nesting ?j \<le> 1000 \<and> nesting ?j < n"
    then have a: "ahead b (?t @ c # u)" "\<not> number_char c" "blank_item item" "js_name item = nm"
      "bf_depth b + nesting ?j \<le> 1000" "nesting ?j < n" by simp_all
    obtain n' where n: "n = Suc n'" using a(6) by (cases n) auto
    obtain y z where y: "?t = y # z" "value_start y" by (rule render_start [OF Json.prems(1,2)])
    have ay: "ahead b (y # z @ c # u)" using a(1) y(1) by simp
    note tests = value_tests [OF ay]
    show "parse_value n al r item b = Some (Some ?j, step (length ?t) b)"
    proof (cases t)
      case cJSON_Number
      have rb: "read_back r x" and i: "int_of_double x = Some i" "s = None" "cs = []"
        using Json.prems cJSON_Number by (simp_all add: numbers_back_def)
      have an: "ahead b (number_string r x @ c # u)" using a(1) cJSON_Number by simp
      have "y = 45 \<or> is_digit y" using number_read(2) [OF an a(2) rb i(1)] y(1) cJSON_Number by auto
      then have "y \<noteq> 34 \<and> y \<noteq> 91 \<and> y \<noteq> 123 \<and> y \<noteq> 110 \<and> y \<noteq> 102 \<and> y \<noteq> 116" by (auto simp: is_digit_def)
      then show ?thesis using number_read(1) [OF an a(2) rb i(1)] tests i a(3,4) cJSON_Number \<open>y = 45 \<or> is_digit y\<close>
        by (simp add: n type_item)
    next
      case cJSON_String
      obtain w where w: "s = Some w" "no_nul w" "i = 0" "x = Fin 0" "cs = []" using Json.prems cJSON_String by auto
      have as: "ahead b (quoted (Some w) @ c # u)" using a(1) cJSON_String w(1) by simp
      have "y = 34" using y(1) cJSON_String w by (simp add: quoted_def)
      then show ?thesis using string_read [OF as w(2) Json.prems(3)] tests w a(3,4) cJSON_String
        by (simp add: n type_item is_digit_def)
    next
      case cJSON_Array
      have each: "plain c' \<and> numbers_back r c' \<and> js_name c' = None" "reads_back al r c'" "Suc (bf_depth b) + nesting c' \<le> 1000 \<and> nesting c' < n'"
        if "c' \<in> set cs" for c'
      proof -
        show "Suc (bf_depth b) + nesting c' \<le> 1000 \<and> nesting c' < n'" using a(5,6) n cJSON_Array by (intro nested [OF that]) simp_all
        show "plain c' \<and> numbers_back r c' \<and> js_name c' = None" using Json.prems(1,2) cJSON_Array that by (auto simp: numbers_back_def)
        then show "reads_back al r c'" using Json.IH [OF that] Json.prems(3) by blast
      qed
      have aa: "ahead b (91 # render_elements r fmt (k + 1) cs @ 93 # (c # u))" using a(1) cJSON_Array by simp
      have d: "bf_depth b < 1000" using a(5) cJSON_Array by simp
      have "y = 91" using y(1) cJSON_Array by simp
      then show ?thesis using array_read [OF each(2,1) Json.prems(3) aa d each(3), of item] tests a(3,4) cJSON_Array Json.prems(1)
        by (simp add: n type_item is_digit_def)
    next
      case cJSON_Object
      have each: "plain c' \<and> numbers_back r c' \<and> (\<exists>w. js_name c' = Some w \<and> no_nul w)" "reads_back al r c'" "Suc (bf_depth b) + nesting c' \<le> 1000 \<and> nesting c' < n'"
        if "c' \<in> set cs" for c'
      proof -
        show "Suc (bf_depth b) + nesting c' \<le> 1000 \<and> nesting c' < n'" using a(5,6) n cJSON_Object by (intro nested [OF that]) simp_all
        show "plain c' \<and> numbers_back r c' \<and> (\<exists>w. js_name c' = Some w \<and> no_nul w)" using Json.prems(1,2) cJSON_Object that by (auto simp: numbers_back_def)
        then show "reads_back al r c'" using Json.IH [OF that] Json.prems(3) by blast
      qed
      have ao: "ahead b (123 # blanks fmt [10] @ render_members r fmt (k + 1) cs @ blanks fmt (tabs k) @ 125 # (c # u))"
        using a(1) cJSON_Object by simp
      have d: "bf_depth b < 1000" using a(5) cJSON_Object by simp
      have wh: "white (blanks fmt (tabs k))" by simp
      have "y = 123" using y(1) cJSON_Object by simp
      then show ?thesis using object_read [OF each(2,1) Json.prems(3) ao wh d each(3), of item] tests a(3,4) cJSON_Object Json.prems(1)
        by (simp add: n type_item is_digit_def)
    qed (use Json.prems(1) a starts_at [OF a(1)] tests y in \<open>auto simp: n type_item bytes_of_def blank_item_def\<close>)
  qed
qed

lemma render_first:
  assumes "plain j" "numbers_back r j" "render r fmt k j = c # s"
  shows "unat c < 128 \<and> c > 32"
proof (cases j)
  case (Json n t s' i x cs)
  have "\<not> (c = 45 \<or> is_digit c) \<or> unat c < 128" by (auto simp: is_digit_def word_le_nat_alt)
  moreover have "c = 45 \<or> is_digit c" if t: "t = cJSON_Number"
  proof -
    have rb: "read_back r x" using assms(2) Json t by (simp add: numbers_back_def)
    then obtain u where u: "number_text r x = Some u" "c # s = u" using assms(3) Json t by (auto simp: read_back_def number_string_def)
    then show ?thesis using number_text_chars [OF u(1)] rb by (auto simp: read_back_def)
  qed
  moreover obtain c' s'' where "render r fmt k j = c' # s''" "value_start c'" by (rule render_start [OF assms(1,2)])
  ultimately show ?thesis using assms(1,3) Json by (cases t) (auto simp: bytes_of_def quoted_def value_start_def)
qed

lemma bom_at:
  assumes "ahead b (c # s)" "unat c < 128"
  shows "skip_utf8_bom b = Some b"
proof -
  have d: "drop (bf_offset b) (bf_content b) = c # s" "length (bf_content b) = bf_length b" using assms(1) by (simp_all add: ahead_def bf_ok_def)
  have "c \<noteq> 0xEF" using assms(2) by auto
  then show ?thesis using d by (auto simp: skip_utf8_bom_def)
qed

text \<open>A block that starts with the text of a document and a NUL is read as that document, up to the NUL.\<close>

lemma text_law:
  assumes "plain j" "js_name j = None" "nesting j \<le> 1000" "numbers_back r j" "\<And>p n. al p n"
  shows "cJSON_ParseWithOpts al r (Some (render r fmt 0 j @ 0 # rest)) req = Some (Some j, length (render r fmt 0 j))"
proof -
  let ?s = "render r fmt 0 j"
  let ?b = "\<lparr>bf_content = ?s @ [0], bf_length = length ?s + 1, bf_offset = 0, bf_depth = 0\<rparr>"
  obtain c s where c: "?s = c # s" "value_start c" by (rule render_start [OF assms(1,4)])
  have a: "ahead ?b (?s @ 0 # [])" by (simp add: ahead_def bf_ok_def)
  have a': "ahead ?b ([] @ c # (s @ [0]))" using a c(1) by simp
  have c': "unat c < 128" "c > 32" using render_first [OF assms(1,4) c(1)] by simp_all
  have sk: "skip_utf8_bom ?b = Some ?b" "buffer_skip_whitespace ?b = Some ?b"
    using bom_at [of ?b c "s @ [0]"] skip_white(1) [OF a' _ c'(2)] a' c'(1) by simp_all
  obtain item where item: "cJSON_New_Item al = Some item" "blank_item item" "js_name item = None"
    using all_calls(2) [OF assms(5)] by (simp add: cJSON_New_Item_def blank_item_def)
  have "\<not> number_char 0" by (simp add: number_char_def is_digit_def bytes_of_def)
  then have v: "parse_value 1001 al r item ?b = Some (Some j, step (length ?s) ?b)"
    using item assms(2,3) by (intro reads_backD [OF value_read [OF assms(1,4,5)] a]) simp_all
  let ?e = "?b\<lparr>bf_offset := length ?s\<rparr>"
  have at_end: "skip_loop ?e = Some (?b\<lparr>bf_offset := length ?s + 1\<rparr>)" by (simp add: skip_loop.simps rd_def)
  then have sk2: "buffer_skip_whitespace ?e = Some ?e" by (simp add: buffer_skip_whitespace_def)
  have "next_is ?e (\<lambda>c. c = 0) = Some True" by (simp add: next_is_def rd_def)
  moreover have "strlen (?s @ 0 # rest) = Some (length ?s)" using render_no_nul(1) by (rule strlen_terminated)
  moreover have "take (length ?s + 1) (?s @ 0 # rest) = ?s @ [0]" by simp
  ultimately show ?thesis using item(1) sk v sk2
    unfolding cJSON_ParseWithOpts_def by (simp add: Let_def all_calls(1) [OF assms(5)])
qed

lemma parsed_render:
  assumes "plain j" "js_name j = None" "nesting j \<le> 1000" "numbers_back r j" "\<And>p n. al p n"
  shows "parsed al r (render r fmt 0 j) = Some j"
  using text_law [OF assms, where fmt = fmt and rest = "[]" and req = False] by (simp add: parsed_def cJSON_Parse_def)

lemma trip_law:
  assumes "plain j" "js_name j = None" "nesting j \<le> 1000" "numbers_back r j" "\<And>p n. al p n"
    and "doubles j" "print_json al' fresh r fmt (Some j) = Some (Some block)"
  shows "cJSON_Parse al r (Some block) = Some (Some j)"
  using print_json_law [OF assms(6), of al' fresh r fmt] text_law [OF assms(1-5), where fmt = fmt and rest = "[]" and req = False] assms(7)
  by (auto simp: cJSON_Parse_def)

lemma json_all_mono: "json_all P j \<Longrightarrow> (\<And>j. P j \<Longrightarrow> Q j) \<Longrightarrow> json_all Q j"
  by (induction j) auto

lemma plain_can_print: "plain j \<Longrightarrow> can_print j"
  unfolding can_print_def by (induction j) (auto split: json_type.splits)

text \<open>Integers of up to 15 digits are read back, if the rounding keeps them.\<close>

lemma integer_text:
  assumes i: "\<bar>i\<bar> < 10 ^ 15" and r: "\<And>i. 0 \<le> i \<Longrightarrow> i < 10 ^ 15 \<Longrightarrow> r (rat_of_int i) = rat_of_int i"
  shows "number_text r (Fin (rat_of_int i)) = Some (signed_digits i)" "read_back r (Fin (rat_of_int i))"
proof -
  note g = int_read_back [of i r] r [of "\<bar>i\<bar>"] r [of 0] i
  have "double_range (rat_of_int i)"
  proof (rule double_range_small)
    show "rat_of_int i = 0 \<or> 1 \<le> \<bar>rat_of_int i\<bar>" by (cases "i = 0") (auto simp flip: of_int_abs)
    have "\<bar>rat_of_int i\<bar> < 10 ^ 15" using i by (metis of_int_abs of_int_less_iff of_int_power of_int_numeral)
    then show "\<bar>rat_of_int i\<bar> \<le> 10 ^ 20" by simp
  qed
  then have "length (print_g 15 (Fin (rat_of_int i))) < 26" using print_length [of "Fin (rat_of_int i)" 15] by simp
  then have "length (signed_digits i) < 26 \<and> snd (strtod r (print_g 15 (Fin (rat_of_int i)))) \<noteq> 0"
    using g print_read [of "Fin (rat_of_int i)" 15 r] by (cases "strtod r (signed_digits i)") auto
  then show n: "number_text r (Fin (rat_of_int i)) = Some (signed_digits i)" using g by (simp add: number_text_def same_double_def)
  then show "read_back r (Fin (rat_of_int i))" using g by (simp add: read_back_def)
qed

lemma integers_back:
  assumes "json_all (\<lambda>j. js_type j = cJSON_Number \<longrightarrow> (\<exists>i. \<bar>i\<bar> < 10 ^ 15 \<and> js_num j = Fin (rat_of_int i))) j"
    and "\<And>i. 0 \<le> i \<Longrightarrow> i < 10 ^ 15 \<Longrightarrow> r (rat_of_int i) = rat_of_int i"
  shows "numbers_back r j"
  unfolding numbers_back_def using integer_text(2) [OF _ assms(2)] by (intro json_all_mono [OF assms(1)]) auto

section \<open>What is printed is read back\<close>

text \<open>C3: a document printed with or without blanks is read back as the same document, up to the end of the text: every escape,
  every nesting up to the limit and every number whose 15 or 17 digits determine it.\<close>

theorem print_parse:
  assumes "plain j" "js_name j = None" "nesting j \<le> 1000" "doubles j" "numbers_back r j"
    and "length (render r fmt 0 j) + 3 \<le> 2147483647"
  shows "\<exists>block. (if fmt then cJSON_Print (\<lambda>_. True) fresh r (Some j) else cJSON_PrintUnformatted (\<lambda>_. True) fresh r (Some j))
        = Some (Some block)
    \<and> cJSON_Parse plenty r (Some block) = Some (Some j)
    \<and> cJSON_ParseWithOpts plenty r (Some block) True = Some (Some j, length block - 1)"
proof -
  have "print_json (\<lambda>_. True) fresh r fmt (Some j) = Some (Some (render r fmt 0 j @ [0]))"
    using print_json_law [OF assms(4), of "\<lambda>_. True" fresh r fmt] plain_can_print [OF assms(1)] assms(6) by auto
  then have "(if fmt then cJSON_Print (\<lambda>_. True) fresh r (Some j) else cJSON_PrintUnformatted (\<lambda>_. True) fresh r (Some j))
      = Some (Some (render r fmt 0 j @ [0]))" by (cases fmt) (simp_all add: cJSON_Print_def cJSON_PrintUnformatted_def)
  moreover have "cJSON_ParseWithOpts plenty r (Some (render r fmt 0 j @ [0])) req = Some (Some j, length (render r fmt 0 j))" for req
    by (rule text_law [OF assms(1-3,5)]) (simp add: plenty_def)
  ultimately show ?thesis by (intro exI [of _ "render r fmt 0 j @ [0]"]) (simp add: cJSON_Parse_def)
qed

theorem print_parse_witness:
  "let j = Json None cJSON_Object None 0 (Fin 0)
       [Json (Some [97]) cJSON_Number None (-15) (Fin (-15)) [], Json (Some [98]) cJSON_String (Some [34, 10, 200]) 0 (Fin 0) []]
   in \<exists>block. cJSON_Print (\<lambda>_. True) 7 id (Some j) = Some (Some block) \<and> cJSON_Parse plenty id (Some block) = Some (Some j)"
proof -
  let ?j = "Json None cJSON_Object None 0 (Fin 0)
       [Json (Some [97]) cJSON_Number None (-15) (Fin (-15)) [], Json (Some [98]) cJSON_String (Some [34, 10, 200]) 0 (Fin 0) []] :: fp json"
  have num: "\<exists>i. \<bar>i\<bar> < 10 ^ 15 \<and> (Fin (-15) :: fp) = Fin (rat_of_int i)" by (rule exI [of _ "-15"]) simp
  have "numbers_back id ?j" by (rule integers_back) (use num in simp_all)
  moreover have "number_string id (Fin (-15)) = [45, 49, 53]"
    using integer_text(1) [of "-15" id] by (simp add: number_string_def signed_digits_def dec_digits_rec)
  then have "length (render id True 0 ?j) + 3 \<le> 2147483647"
    by (simp add: quoted_def cstr_def escape_def escape_letter_def bytes_of_def hex2_def hex_digit_def tabs_def)
  moreover have "double_range (-15)" "double_range 0" by (rule double_range_small; simp)+
  then have "doubles ?j" by (simp add: doubles_def is_double_def)
  moreover have "plain ?j" by (simp add: int_of_double_def saturated_def)
  ultimately show ?thesis using print_parse [of ?j id True 7] by (simp add: Let_def) blast
qed

end
