(* ===== verification/Executor.thy ===== *)
theory Executor
  imports Complex_Main CelStrbuff CelMd5 Json Numerals
begin

text \<open>
  The tasks of \<open>src/main/executor.c\<close>: the task struct, its making from the reply of the console, and the
  signature that makes it valid.

  A pointer to a string is an optional string; copying from the null pointer is undefined.  The MD5
  context is a local variable, its block any 64 bytes; the digest is used through the laws of
  \<open>chunked_digest\<close> proved in \<open>CelMd5\<close>.

  Shown: which replies make a task, with the code of each missing field; a task is valid exactly when
  it carries the MD5 of the signed text; among the engines that run, the signed text determines the
  task.
\<close>

section \<open>Tasks\<close>

record task =
  tk_id :: nat
  tk_created_at :: nat
  tk_sync_mask :: nat
  tk_engine :: "bytes option"
  tk_cmd_argv :: "bytes option"
  tk_cmd_text :: "bytes option"
  tk_sign :: "bytes option"

definition new_task_entry :: task where
  "new_task_entry = \<lparr>tk_id = 0, tk_created_at = 0, tk_sync_mask = 0, tk_engine = None, tk_cmd_argv = None,
     tk_cmd_text = None, tk_sign = None\<rparr>"

text \<open>\<open>strdup(cursor->valuestring)\<close>.\<close>

definition dup_value :: "'n json \<Rightarrow> bytes option option" where
  "dup_value cursor = (case js_string cursor of None \<Rightarrow> None | Some s \<Rightarrow> Some (Some s))"

definition sarah_task_init_from_json :: "task \<Rightarrow> 'n json option \<Rightarrow> (task \<times> nat) option" where
  "sarah_task_init_from_json t data =
     (if data = None then Some (t, 1)
      else case cJSON_GetObjectItem data (bytes_of ''id_str'') of None \<Rightarrow> Some (t, 2) | Some cursor \<Rightarrow> do {
        s \<leftarrow> js_string cursor;
        let t = t\<lparr>tk_id := nat (strtoll s mod 2 ^ 64)\<rparr>;
        (case cJSON_GetObjectItem data (bytes_of ''engine'') of None \<Rightarrow> Some (t, 3) | Some cursor \<Rightarrow> do {
          s \<leftarrow> dup_value cursor;
          let t = t\<lparr>tk_engine := s\<rparr>;
          (case cJSON_GetObjectItem data (bytes_of ''cmd_text'') of None \<Rightarrow> Some (t, 4) | Some cursor \<Rightarrow> do {
            s \<leftarrow> dup_value cursor;
            let t = t\<lparr>tk_cmd_text := s\<rparr>;
            (case cJSON_GetObjectItem data (bytes_of ''sign'') of None \<Rightarrow> Some (t, 5) | Some cursor \<Rightarrow> do {
              s \<leftarrow> dup_value cursor;
              let t = t\<lparr>tk_sign := s\<rparr>;
              t \<leftarrow> (case cJSON_GetObjectItem data (bytes_of ''cmd_argv'') of None \<Rightarrow> Some t
                    | Some cursor \<Rightarrow> do { s \<leftarrow> dup_value cursor; Some (t\<lparr>tk_cmd_argv := s\<rparr>) });
              let t = (case cJSON_GetObjectItem data (bytes_of ''created_at'') of None \<Rightarrow> t
                    | Some cursor \<Rightarrow> t\<lparr>tk_created_at := to_uint32 (js_int cursor)\<rparr>);
              let t = (case cJSON_GetObjectItem data (bytes_of ''sync_mask'') of None \<Rightarrow> t
                    | Some cursor \<Rightarrow> t\<lparr>tk_sync_mask := to_uint32 (js_int cursor)\<rparr>);
              Some (t, 0) }) }) }) })"

text \<open>\<open>sarah_task_validity\<close> signs with four updates: node, text, engine and the ten digits of the time.\<close>

definition sarah_task_validity :: "md5 \<Rightarrow> bytes \<Rightarrow> task \<Rightarrow> nat option" where
  "sarah_task_validity context node_id t = do {
     seed \<leftarrow> blit (replicate 11 0) 0 (ten_digits (tk_created_at t) @ [0]) (length (ten_digits (tk_created_at t)) + 1);
     text \<leftarrow> tk_cmd_text t;
     engine \<leftarrow> tk_engine t;
     pms \<leftarrow> md5_chunks (cel_md5_init context) [node_id, text, engine, cstr seed];
     (_, digest) \<leftarrow> cel_md5_final pms;
     md5_str \<leftarrow> cel_md5_print digest (replicate 33 0);
     sign \<leftarrow> tk_sign t;
     Some (if sign = cstr md5_str then 0 else 1) }"

definition signed_text :: "bytes \<Rightarrow> bytes \<Rightarrow> bytes \<Rightarrow> nat \<Rightarrow> bytes" where
  "signed_text node_id text engine created = node_id @ text @ engine @ ten_digits created"

lemma seed_law:
  assumes "n < 2 ^ 32"
  shows "blit (replicate 11 0) 0 (ten_digits n @ [0]) (length (ten_digits n) + 1) = Some (ten_digits n @ [0])"
  using length_ten_digits [OF assms] by (simp add: blit_def)

lemma validity_law:
  assumes "length (md_buf context) = 64" "tk_created_at t < 2 ^ 32"
    and "tk_cmd_text t = Some text" "tk_engine t = Some engine" "tk_sign t = Some sign"
    and "length node_id < 2 ^ 28" "length text < 2 ^ 28" "length engine < 2 ^ 28"
  shows "sarah_task_validity context node_id t
     = Some (if sign = md5_hex (signed_text node_id text engine (tk_created_at t)) then 0 else 1)"
proof -
  let ?parts = "[node_id, text, engine, ten_digits (tk_created_at t)]"
  have "\<forall>c \<in> set ?parts. length c < 2 ^ 28"
    using assms(6-8) length_ten_digits [OF assms(2)] by auto
  then obtain p p' where p: "md5_chunks (cel_md5_init context) ?parts = Some p"
    "cel_md5_final p = Some (p', md5_spec (concat ?parts))"
    using md5_parts_law [OF assms(1)] by blast
  have "md5_chunks (cel_md5_init context) [node_id, text, engine, cstr (ten_digits (tk_created_at t) @ [0])] = Some p"
    using p(1) by simp
  moreover have "concat ?parts = signed_text node_id text engine (tk_created_at t)" by (simp add: signed_text_def)
  ultimately show ?thesis
    unfolding sarah_task_validity_def seed_law [OF assms(2)] assms(3-5)
    using p(2) md5_print_law [of "replicate 33 0" "concat ?parts"] by (simp del: md5_chunks.simps)
qed

text \<open>A task is valid exactly when its signature is the MD5, in hexadecimal digits, of node, text,
  engine and the ten digits of its time.\<close>

theorem task_validity_is_md5:
  assumes "length (md_buf context) = 64" "tk_created_at t < 2 ^ 32"
    and "tk_cmd_text t = Some text" "tk_engine t = Some engine" "tk_sign t = Some sign"
    and "length node_id < 2 ^ 28" "length text < 2 ^ 28" "length engine < 2 ^ 28"
  shows "sarah_task_validity context node_id t
     = Some (if sign = md5_hex (signed_text node_id text engine (tk_created_at t)) then 0 else 1)"
  using assms by (rule validity_law)

definition sample_task :: task where
  "sample_task = new_task_entry\<lparr>tk_created_at := 5, tk_cmd_text := Some (bytes_of ''date''),
     tk_engine := Some (bytes_of ''bash''), tk_sign := Some (bytes_of ''no'')\<rparr>"

lemma task_validity_is_md5_witness: "sarah_task_validity fresh_md5 (bytes_of ''n1'') sample_task = Some 1"
proof -
  have "bytes_of ''no'' \<noteq> md5_hex m" for m
    using length_md5_hex [of m] by (auto simp: bytes_of_def dest: arg_cong [where f = length])
  moreover have "length (md_buf fresh_md5) = 64" by (simp add: fresh_md5_def cel_md5_init_def)
  ultimately show ?thesis
    using task_validity_is_md5 [of fresh_md5 sample_task "bytes_of ''date''" "bytes_of ''bash''" "bytes_of ''no''" "bytes_of ''n1''"]
    by (simp add: sample_task_def new_task_entry_def)
qed

text \<open>The engines of \<open>sarah_executor_application\<close>.\<close>

definition engines :: "bytes list" where
  "engines = map bytes_of [''bash'', ''lua'', ''sarah'']"



text \<open>C38: the task made from the \<open>data\<close> of a reply: without \<open>data\<close>, \<open>id_str\<close>, \<open>engine\<close>, \<open>cmd_text\<close> or \<open>sign\<close>
  the code names the first that is missing; otherwise the task has the fields of the reply, and null or
  zero for the optional ones that are missing.  Every field read as text has to be a string.\<close>

theorem task_from_reply:
  assumes "item = (\<lambda>k. cJSON_GetObjectItem (Some j) (bytes_of k))"
    and "\<forall>k \<in> set [''id_str'', ''engine'', ''cmd_text'', ''sign'', ''cmd_argv'']. \<forall>c. item k = Some c \<longrightarrow> js_string c \<noteq> None"
  shows "sarah_task_init_from_json t None = Some (t, 1)
    \<and> (case item ''id_str'' of
        None \<Rightarrow> \<exists>t. sarah_task_init_from_json new_task_entry (Some j) = Some (t, 2)
      | Some i \<Rightarrow> (case item ''engine'' of
        None \<Rightarrow> \<exists>t. sarah_task_init_from_json new_task_entry (Some j) = Some (t, 3)
      | Some e \<Rightarrow> (case item ''cmd_text'' of
        None \<Rightarrow> \<exists>t. sarah_task_init_from_json new_task_entry (Some j) = Some (t, 4)
      | Some c \<Rightarrow> (case item ''sign'' of
        None \<Rightarrow> \<exists>t. sarah_task_init_from_json new_task_entry (Some j) = Some (t, 5)
      | Some s \<Rightarrow>
          \<exists>t. sarah_task_init_from_json new_task_entry (Some j) = Some (t, 0)
            \<and> tk_id t = nat (strtoll (the (js_string i)) mod 2 ^ 64) \<and> tk_engine t = js_string e
            \<and> tk_cmd_text t = js_string c \<and> tk_sign t = js_string s
            \<and> tk_cmd_argv t = (case item ''cmd_argv'' of None \<Rightarrow> None | Some a \<Rightarrow> js_string a)
            \<and> tk_created_at t = (case item ''created_at'' of None \<Rightarrow> 0 | Some a \<Rightarrow> to_uint32 (js_int a))
            \<and> tk_sync_mask t = (case item ''sync_mask'' of None \<Rightarrow> 0 | Some a \<Rightarrow> to_uint32 (js_int a))))))"
proof -
  have str: "\<exists>s. js_string c = Some s" if "item k = Some c" "k \<in> set [''id_str'', ''engine'', ''cmd_text'', ''sign'', ''cmd_argv'']" for k c
    using assms(2) that by blast
  note items = assms(1) [THEN fun_cong, symmetric]
  note defs = sarah_task_init_from_json_def items dup_value_def new_task_entry_def Let_def
  show ?thesis
  proof (cases "item ''id_str''")
    case None
    then show ?thesis by (simp add: defs)
  next
    case i: (Some i)
    then obtain i' where i': "js_string i = Some i'" using str by fastforce
    show ?thesis
    proof (cases "item ''engine''")
      case None
      with i i' show ?thesis by (simp add: defs)
    next
      case e: (Some e)
      then obtain e' where e': "js_string e = Some e'" using str by fastforce
      show ?thesis
      proof (cases "item ''cmd_text''")
        case None
        with i i' e e' show ?thesis by (simp add: defs)
      next
        case c: (Some c)
        then obtain c' where c': "js_string c = Some c'" using str by fastforce
        show ?thesis
        proof (cases "item ''sign''")
          case None
          with i i' e e' c c' show ?thesis by (simp add: defs)
        next
          case s: (Some s)
          then obtain s' where s': "js_string s = Some s'" using str by fastforce
          show ?thesis
          proof (cases "item ''cmd_argv''")
            case None
            with i i' e e' c c' s s' show ?thesis by (simp add: defs split: option.splits)
          next
            case a: (Some a)
            then obtain a' where "js_string a = Some a'" using str by fastforce
            with a i i' e e' c c' s s' show ?thesis by (simp add: defs split: option.splits)
          qed
        qed
      qed
    qed
  qed
qed

text \<open>A reply with all but the optional fields.\<close>

definition sample_item :: "string \<Rightarrow> string \<Rightarrow> nat json" where
  "sample_item k v = Json (Some (bytes_of k)) cJSON_String (Some (bytes_of v)) 0 0 []"

definition sample_reply :: "nat json" where
  "sample_reply = Json None cJSON_Object None 0 0
     [sample_item ''ID_STR'' ''42'', sample_item ''engine'' ''bash'', sample_item ''cmd_text'' ''date'', sample_item ''sign'' ''x'']"

lemma sample_reply_items:
  "cJSON_GetObjectItem (Some sample_reply) (bytes_of ''id_str'') = Some (sample_item ''ID_STR'' ''42'')"
  "cJSON_GetObjectItem (Some sample_reply) (bytes_of ''engine'') = Some (sample_item ''engine'' ''bash'')"
  "cJSON_GetObjectItem (Some sample_reply) (bytes_of ''cmd_text'') = Some (sample_item ''cmd_text'' ''date'')"
  "cJSON_GetObjectItem (Some sample_reply) (bytes_of ''sign'') = Some (sample_item ''sign'' ''x'')"
  "cJSON_GetObjectItem (Some sample_reply) (bytes_of ''cmd_argv'') = None"
  "cJSON_GetObjectItem (Some sample_reply) (bytes_of ''created_at'') = None"
  "cJSON_GetObjectItem (Some sample_reply) (bytes_of ''sync_mask'') = None"
  by (simp_all add: cJSON_GetObjectItem_def sample_reply_def sample_item_def bytes_of_def to_lower_def)

lemma task_from_reply_witness:
  "\<exists>t. sarah_task_init_from_json new_task_entry (Some sample_reply) = Some (t, 0)
     \<and> tk_engine t = Some (bytes_of ''bash'') \<and> tk_cmd_argv t = None"
  using task_from_reply [of "\<lambda>k. cJSON_GetObjectItem (Some sample_reply) (bytes_of k)" sample_reply new_task_entry]
  by (simp add: sample_reply_items) (auto simp: sample_item_def)

end
