(* ===== verification/Execution.thy ===== *)
theory Execution
  imports Executor Scan JsonTrip "HOL-Library.Sublist"
begin

text \<open>
  The executor entry of \<open>src/main/executor.c\<close> with its result buffers and the request that reports a
  result, and the shell executor of \<open>src/main/script_bash.c\<close>.

  \<open>al\<close> says which block sizes \<open>malloc\<close> gives.  The output of a command is the list of its bytes, read
  by \<open>fgets\<close>.  The request is a record of what curl and the JSON library deliver: the printed package,
  the chunks of the response body, the outcome and the parser.

  Shown: the result buffer holds the first \<open>max_datalen\<close> bytes of the output; the reporting address is
  built with the offsets of its two variable parts and rewritten in place; the reply that is parsed is
  everything received since the executor was made.
\<close>

section \<open>The executor entry\<close>

datatype engine_fn = Script_bash | Script_lua | Script_sarah

record executor =
  ex_task :: "task option"
  ex_dostring :: "engine_fn option"
  ex_dofile :: "engine_fn option"
  ex_sync_url :: "bytes option"
  ex_sign_offset :: nat
  ex_cmid_offset :: nat
  ex_res_buffer :: strbuff
  ex_errno :: int
  ex_status :: int
  ex_progress :: rat
  ex_attach :: nat
  ex_max_datalen :: nat
  ex_error_buffer :: strbuff
  ex_data_buffer :: strbuff

definition zero_buffer :: strbuff where
  "zero_buffer = \<lparr>sb_buffer = [], sb_opacity = 0, sb_size = 0\<rparr>"

definition executor_sync_url :: bytes where
  "executor_sync_url = bytes_of ''http://sarah.grandhelmsman.com/api/node/command/export/notify''"

definition sign_holder :: bytes where
  "sign_holder = bytes_of ''7f9106d9a1fa6d0f3550cc1783342638''"

definition cmd_id_holder :: bytes where
  "cmd_id_holder = bytes_of ''6639193343686609942''"

definition sarah_executor_init :: "(nat \<Rightarrow> bool) \<Rightarrow> bytes \<Rightarrow> bytes \<Rightarrow> (executor \<times> nat) option" where
  "sarah_executor_init al node_id app_key =
     (let ex = \<lparr>ex_task = None, ex_dostring = None, ex_dofile = None, ex_sync_url = None, ex_sign_offset = 0,
            ex_cmid_offset = 0, ex_res_buffer = zero_buffer, ex_errno = 0, ex_status = 0, ex_progress = 0, ex_attach = 0,
            ex_max_datalen = 1024 * 64 + 1, ex_error_buffer = zero_buffer, ex_data_buffer = zero_buffer\<rparr>;
          url_len = length executor_sync_url + length (bytes_of ''?node_uid=&app_key='') + length node_id
            + length app_key + length (bytes_of ''&sign='');
          ex = ex\<lparr>ex_sign_offset := url_len\<rparr>;
          url_len = url_len + length sign_holder + length (bytes_of ''&cmd_id='');
          ex = ex\<lparr>ex_cmid_offset := url_len\<rparr>;
          url_len = url_len + length cmd_id_holder
      in
      if \<not> al (url_len + 1) then Some (ex, 2)
      else do {
        let text = executor_sync_url @ bytes_of ''?node_uid='' @ node_id @ bytes_of ''&app_key='' @ app_key
             @ bytes_of ''&sign='' @ sign_holder @ bytes_of ''&cmd_id='' @ cmd_id_holder;
        url \<leftarrow> blit (replicate (url_len + 1) 0) 0 (text @ [0]) (length text + 1);
        url \<leftarrow> wr url url_len 0;
        let ex = ex\<lparr>ex_sync_url := Some url\<rparr>;
        (sb, ok) \<leftarrow> cel_strbuff_init al (ex_res_buffer ex) 128 None;
        let ex = ex\<lparr>ex_res_buffer := sb\<rparr>;
        (if ok = 0 then Some (ex\<lparr>ex_sync_url := None\<rparr>, 3)
         else do {
           (sb, ok) \<leftarrow> cel_strbuff_init al (ex_error_buffer ex) 256 None;
           let ex = ex\<lparr>ex_error_buffer := sb\<rparr>;
           (if ok = 0 then
              Some (ex\<lparr>ex_sync_url := None, ex_res_buffer := fst (cel_strbuff_destroy (ex_res_buffer ex))\<rparr>, 4)
            else do {
              (sb, ok) \<leftarrow> cel_strbuff_init al (ex_data_buffer ex) (ex_max_datalen ex) None;
              let ex = ex\<lparr>ex_data_buffer := sb\<rparr>;
              (if ok = 0 then
                 Some (ex\<lparr>ex_sync_url := None, ex_res_buffer := fst (cel_strbuff_destroy (ex_res_buffer ex)),
                       ex_error_buffer := fst (cel_strbuff_destroy (ex_error_buffer ex))\<rparr>, 5)
               else Some (ex, 0)) }) }) })"

definition sarah_executor_destroy :: "executor \<Rightarrow> executor" where
  "sarah_executor_destroy ex =
     ex\<lparr>ex_sync_url := None, ex_res_buffer := fst (cel_strbuff_destroy (ex_res_buffer ex)),
        ex_error_buffer := fst (cel_strbuff_destroy (ex_error_buffer ex)),
        ex_data_buffer := fst (cel_strbuff_destroy (ex_data_buffer ex))\<rparr>"

text \<open>The response buffer is not cleared.\<close>

definition sarah_executor_clear :: "executor \<Rightarrow> executor option" where
  "sarah_executor_clear ex = do {
     let ex = ex\<lparr>ex_task := None, ex_status := 0, ex_progress := 0, ex_errno := 0\<rparr>;
     (e, _) \<leftarrow> cel_strbuff_clear (ex_error_buffer ex);
     (d, _) \<leftarrow> cel_strbuff_clear (ex_data_buffer ex);
     Some (ex\<lparr>ex_error_buffer := e, ex_data_buffer := d\<rparr>) }"

definition sarah_executor_set_task :: "executor \<Rightarrow> task \<Rightarrow> executor" where
  "sarah_executor_set_task ex t = ex\<lparr>ex_task := Some t\<rparr>"

definition sarah_executor_set_status :: "executor \<Rightarrow> int \<Rightarrow> rat \<Rightarrow> executor" where
  "sarah_executor_set_status ex status progress = ex\<lparr>ex_status := status, ex_progress := progress\<rparr>"

definition sarah_executor_set_syntax :: "executor \<Rightarrow> bytes \<Rightarrow> executor \<times> nat" where
  "sarah_executor_set_syntax ex syn =
     (if syn = bytes_of ''bash'' then (ex\<lparr>ex_dostring := Some Script_bash, ex_dofile := Some Script_bash\<rparr>, 0)
      else if syn = bytes_of ''lua'' then (ex\<lparr>ex_dostring := Some Script_lua, ex_dofile := Some Script_lua\<rparr>, 0)
      else if syn = bytes_of ''sarah'' then (ex\<lparr>ex_dostring := Some Script_sarah, ex_dofile := Some Script_sarah\<rparr>, 0)
      else (ex, 1))"

section \<open>Result data\<close>

definition sarah_executor_data_available :: "executor \<Rightarrow> nat \<Rightarrow> nat" where
  "sarah_executor_data_available ex len =
     (if wrap32 (sb_size (ex_data_buffer ex) + len) > ex_max_datalen ex then 1 else 0)"

text \<open>The two limits compare as \<open>unsigned int\<close>.  The length is returned when the buffer call returns 0,
  which is its failure.\<close>

definition sarah_executor_data_append :: "(nat \<Rightarrow> bool) \<Rightarrow> executor \<Rightarrow> bytes \<Rightarrow> (executor \<times> nat) option" where
  "sarah_executor_data_append al ex data =
     (let d = ex_data_buffer ex in
      if sb_size d \<ge> ex_max_datalen ex then Some (ex, 0)
      else
        let dlen = length data;
            new_len = wrap32 (sb_size d + dlen);
            dlen = (if new_len > ex_max_datalen ex then ex_max_datalen ex - sb_size d else dlen)
        in do {
          (d, errno) \<leftarrow> cel_strbuff_append_from al d data dlen 1;
          Some (ex\<lparr>ex_data_buffer := d\<rparr>, if errno = 0 then dlen else 0) })"

definition sarah_executor_data_insert :: "(nat \<Rightarrow> bool) \<Rightarrow> executor \<Rightarrow> nat \<Rightarrow> bytes \<Rightarrow> (executor \<times> nat) option" where
  "sarah_executor_data_insert al ex idx data =
     (let d = ex_data_buffer ex in
      if sb_size d \<ge> ex_max_datalen ex then Some (ex, 0)
      else
        let dlen = length data;
            new_len = wrap32 (sb_size d + dlen);
            dlen = (if new_len > ex_max_datalen ex then ex_max_datalen ex - sb_size d else dlen)
        in do {
          (d, errno) \<leftarrow> cel_strbuff_insert_from al d idx data dlen 1;
          Some (ex\<lparr>ex_data_buffer := d\<rparr>, if errno = 0 then dlen else 0) })"

definition sarah_executor_error_append :: "(nat \<Rightarrow> bool) \<Rightarrow> executor \<Rightarrow> bytes \<Rightarrow> (executor \<times> nat) option" where
  "sarah_executor_error_append al ex errstr = do {
     (e, ok) \<leftarrow> cel_strbuff_append_from al (ex_error_buffer ex) errstr (length errstr) 1;
     Some (ex\<lparr>ex_error_buffer := e\<rparr>, if ok = 0 then 1 else 0) }"

function bash_loop :: "(nat \<Rightarrow> bool) \<Rightarrow> executor \<Rightarrow> bytes \<Rightarrow> executor option" where
  "bash_loop al ex out =
     (if out = [] then Some ex
      else case sarah_executor_data_append al ex (cstr (fst (fgets 1023 out))) of
        None \<Rightarrow> None
      | Some (ex, r) \<Rightarrow> if r \<noteq> 0 then Some ex else bash_loop al ex (snd (fgets 1023 out)))"
  by auto
termination
proof (relation "measure (\<lambda>(_, _, out). length out)", goal_cases)
  case (2 al ex out ex' r)
  then show ?case using fgets_split [of 1023 out] by (cases "fgets 1023 out") auto
qed auto

declare bash_loop.simps [simp del]

text \<open>\<open>None\<close> is a \<open>popen\<close> that failed.\<close>

definition script_bash_dostring :: "(nat \<Rightarrow> bool) \<Rightarrow> executor \<Rightarrow> bytes option \<Rightarrow> (executor \<times> nat) option" where
  "script_bash_dostring al ex run =
     (case run of
        None \<Rightarrow> Some (ex, 1)
      | Some out \<Rightarrow> do { ex \<leftarrow> bash_loop al ex out; Some (ex, 0) })"

text \<open>The executor with the text \<open>s\<close> in its data buffer.\<close>

definition holds_data :: "executor \<Rightarrow> bytes \<Rightarrow> bool" where
  "holds_data ex s \<longleftrightarrow> sb_wf (ex_data_buffer ex) \<and> content (ex_data_buffer ex) = s"

lemma data_append_law:
  assumes "holds_data ex s" "length s \<le> ex_max_datalen ex" "ex_max_datalen ex < 2 ^ 30" "length data < 2 ^ 30"
  shows "\<exists>d r. sarah_executor_data_append al ex data = Some (ex\<lparr>ex_data_buffer := d\<rparr>, r)
     \<and> (r = 0 \<and> holds_data (ex\<lparr>ex_data_buffer := d\<rparr>) (take (ex_max_datalen ex) (s @ data))
        \<or> r \<noteq> 0 \<and> holds_data (ex\<lparr>ex_data_buffer := d\<rparr>) s \<and> \<not> (\<forall>n. al n))"
proof -
  have wf: "sb_wf (ex_data_buffer ex)" "content (ex_data_buffer ex) = s" "sb_size (ex_data_buffer ex) = length s"
    using assms(1) length_content by (auto simp: holds_data_def)
  show ?thesis
  proof (cases "length s = ex_max_datalen ex")
    case True
    with wf show ?thesis
      by (intro exI [of _ "ex_data_buffer ex"]) (simp add: sarah_executor_data_append_def holds_data_def)
  next
    case False
    obtain n where n: "n = (if length s + length data > ex_max_datalen ex then ex_max_datalen ex - length s else length data)"
      by blast
    then have b: "n \<le> length data" "length s + n * 1 < 2 ^ 31" "length s + n * 1 < 2 ^ 30" using assms by auto
    then obtain d r where d: "cel_strbuff_append_from al (ex_data_buffer ex) data n 1 = Some (d, r)"
      "stored al (ex_data_buffer ex) (take n data) 1 d r"
      using append_from_stored [OF wf(1) b(1), of 1 al] wf(3) by metis
    from d(2) obtain k where k: "k \<le> 1" "sb_wf d" "content d = s @ concat (replicate k (take n data))"
      "r = (if k = 1 then 1 else 0)" "(\<forall>n. al n) \<and> length s + n < 2 ^ 30 \<longrightarrow> k = 1"
      using b(1) wf(2,3) by (auto simp: stored_def min_absorb2)
    have 1: "take (ex_max_datalen ex) (s @ data) = s @ take n data" using assms(2) n by simp
    have 2: "wrap32 (length s + length data) = length s + length data" using assms(2-4) by simp
    have "sarah_executor_data_append al ex data
        = do { (d, errno) \<leftarrow> cel_strbuff_append_from al (ex_data_buffer ex) data n 1;
               Some (ex\<lparr>ex_data_buffer := d\<rparr>, if errno = 0 then n else 0) }"
      using False assms(2) unfolding sarah_executor_data_append_def Let_def wf(3) 2 n [symmetric]
      by (simp del: cel_strbuff_append_from.simps)
    then have run: "sarah_executor_data_append al ex data = Some (ex\<lparr>ex_data_buffer := d\<rparr>, if r = 0 then n else 0)"
      using d(1) by (simp del: cel_strbuff_append_from.simps)
    consider "k = 1" | "k = 0" using k(1) by linarith
    then show ?thesis
    proof cases
      case 1
      then show ?thesis using run k 1 \<open>take (ex_max_datalen ex) (s @ data) = s @ take n data\<close>
        by (intro exI [of _ d] exI [of _ 0]) (simp add: holds_data_def)
    next
      case 2
      then have "content d = s" "r = 0" "\<not> (\<forall>n. al n)" using k b(3) by auto
      then show ?thesis using run k(2) 1 by (intro exI [of _ d] exI [of _ n]) (auto simp: holds_data_def)
    qed
  qed
qed

text \<open>What the loop reads: each line up to its first NUL, in pieces of at most 1023 bytes.\<close>

function read_text :: "bytes \<Rightarrow> bytes" where
  "read_text out = (if out = [] then [] else cstr (fst (fgets 1023 out)) @ read_text (snd (fgets 1023 out)))"
  by auto
termination by (relation "measure length") (auto simp: fgets_rest)

declare read_text.simps [simp del]

lemma read_text_plain: "no_nul out \<Longrightarrow> read_text out = out"
proof (induction out rule: read_text.induct)
  case (1 out)
  show ?case
  proof (cases "out = []")
    case False
    obtain l r where lr: "fgets 1023 out = (l, r)" by fastforce
    then have "out = l @ r" using fgets_split by blast
    then show ?thesis using 1 lr False by (subst read_text.simps) auto
  qed (simp add: read_text.simps [of "[]"])
qed

lemma bash_loop_law:
  "holds_data ex s \<Longrightarrow> length s \<le> ex_max_datalen ex \<Longrightarrow> ex_max_datalen ex < 2 ^ 30 \<Longrightarrow>
   \<exists>d t. bash_loop al ex out = Some (ex\<lparr>ex_data_buffer := d\<rparr>) \<and> holds_data (ex\<lparr>ex_data_buffer := d\<rparr>) t
     \<and> prefix s t \<and> prefix t (take (ex_max_datalen ex) (s @ read_text out))
     \<and> ((\<forall>n. al n) \<longrightarrow> t = take (ex_max_datalen ex) (s @ read_text out))"
proof (induction out arbitrary: ex s rule: length_induct)
  case (1 out)
  let ?m = "ex_max_datalen ex"
  show ?case
  proof (cases "out = []")
    case True
    with 1(2,3) show ?thesis
      by (intro exI [of _ "ex_data_buffer ex"] exI [of _ s]) (simp add: bash_loop.simps [of _ _ "[]"] read_text.simps [of "[]"] prefix_def)
  next
    case False
    obtain l r where lr: "fgets 1023 out = (l, r)" by fastforce
    have split: "out = l @ r" "length l \<le> 1023" "l \<noteq> []" using fgets_split [OF lr] False by auto
    have l: "length (cstr l) < 2 ^ 30" using split(2) length_takeWhile_le [of "\<lambda>b. b \<noteq> 0" l] by (simp add: cstr_def)
    have read: "read_text out = cstr l @ read_text r" using lr False by (subst read_text.simps) simp
    have step: "take ?m (take ?m (s @ cstr l) @ read_text r) = take ?m (s @ read_text out)"
      unfolding read using 1(3) by (cases "?m \<le> length (s @ cstr l)") (simp_all add: min_absorb1)
    obtain d n where d: "sarah_executor_data_append al ex (cstr l) = Some (ex\<lparr>ex_data_buffer := d\<rparr>, n)"
      "n = 0 \<and> holds_data (ex\<lparr>ex_data_buffer := d\<rparr>) (take ?m (s @ cstr l))
        \<or> n \<noteq> 0 \<and> holds_data (ex\<lparr>ex_data_buffer := d\<rparr>) s \<and> \<not> (\<forall>n. al n)"
      using data_append_law [OF 1(2-4) l, of al] by blast
    show ?thesis
    proof (cases "n = 0")
      case True
      have "length r < length out" using split by auto
      moreover have "length (take ?m (s @ cstr l)) \<le> ex_max_datalen (ex\<lparr>ex_data_buffer := d\<rparr>)" by simp
      moreover have "ex_max_datalen (ex\<lparr>ex_data_buffer := d\<rparr>) = ?m" by simp
      moreover have "ex\<lparr>ex_data_buffer := d\<rparr>\<lparr>ex_data_buffer := d2\<rparr> = ex\<lparr>ex_data_buffer := d2\<rparr>" for d2 by simp
      ultimately obtain d2 t where d2: "bash_loop al (ex\<lparr>ex_data_buffer := d\<rparr>) r = Some (ex\<lparr>ex_data_buffer := d2\<rparr>)"
        "holds_data (ex\<lparr>ex_data_buffer := d2\<rparr>) t" "prefix (take ?m (s @ cstr l)) t"
        "prefix t (take ?m (take ?m (s @ cstr l) @ read_text r))"
        "(\<forall>n. al n) \<longrightarrow> t = take ?m (take ?m (s @ cstr l) @ read_text r)"
        using 1(1) [rule_format, of r "ex\<lparr>ex_data_buffer := d\<rparr>" "take ?m (s @ cstr l)"] d(2) True 1(4) by metis
      have "prefix s (take ?m (s @ cstr l))" using 1(3) by (simp add: prefix_def)
      then have "prefix s t" using d2(3) prefix_order.trans by blast
      then show ?thesis using d(1) d2 True lr False unfolding step
        by (intro exI [of _ d2] exI [of _ t]) (simp add: bash_loop.simps [of _ ex])
    next
      case stop: False
      then have "holds_data (ex\<lparr>ex_data_buffer := d\<rparr>) s" "\<not> (\<forall>n. al n)" using d(2) by auto
      moreover have "prefix s (take ?m (s @ read_text out))" using 1(3) by (simp add: prefix_def)
      ultimately show ?thesis using d(1) stop lr False
        by (intro exI [of _ d] exI [of _ s]) (auto simp: bash_loop.simps [of _ ex] simp del: take_append)
    qed
  qed
qed

section \<open>The reporting request\<close>

record request =
  rq_curl :: bool
  rq_fresh :: u8
  rq_chunks :: "bytes list"
  rq_perform :: bool
  rq_code :: int
  rq_round :: rounding

text \<open>The report as a document, and printed: \<open>rq_fresh\<close> is what new memory holds.\<close>

definition report_package :: "mallocs \<Rightarrow> rounding \<Rightarrow> executor \<Rightarrow> fp json option option" where
  "report_package al R ex = do {
     err \<leftarrow> text_of (sb_buffer (ex_error_buffer ex));
     res \<leftarrow> text_of (sb_buffer (ex_data_buffer ex));
     Some (object_of
       [(''version'', \<lambda>al. number_item al (sarah_version R)),
        (''data'', object_of
           [(''status'', \<lambda>al. number_item al (rat_of_int (ex_status ex))), (''progress'', \<lambda>al. number_item al (ex_progress ex)),
            (''errno'', \<lambda>al. number_item al (rat_of_int (ex_errno ex))), (''attach'', \<lambda>al. number_item al (rat_of_nat (ex_attach ex))),
            (''res_error'', \<lambda>al. cJSON_CreateStringReference al err),
            (''res_data'', \<lambda>al. cJSON_CreateStringReference al res)])] al) }"

definition to_int64 :: "nat \<Rightarrow> int" where
  "to_int64 n = (if n < 2 ^ 63 then int n else int n - 2 ^ 64)"

definition sarah_executor_sync_status ::
  "mallocs \<Rightarrow> md5 \<Rightarrow> request \<Rightarrow> bytes \<Rightarrow> bytes \<Rightarrow> executor \<Rightarrow> (executor \<times> int) option" where
  "sarah_executor_sync_status al context rq node_id app_key ex =
     (case ex_task ex of None \<Rightarrow> Some (ex, 1) | Some t \<Rightarrow>
        if \<not> rq_curl rq then Some (ex, 1)
        else do {
          json_pack \<leftarrow> report_package (call 0 al) (rq_round rq) ex;
          printed \<leftarrow> cJSON_PrintUnformatted (malloc (call 1 al)) (rq_fresh rq) (r_double (rq_round rq)) json_pack;
          (case printed of None \<Rightarrow> Some (ex, 2) | Some json_string \<Rightarrow> do {
             let id_text = signed_digits (to_int64 (tk_id t));
             id_buffer \<leftarrow> blit (replicate 20 0) 0 (id_text @ [0]) (length id_text + 1);
             url \<leftarrow> ex_sync_url ex;
             url \<leftarrow> blit url (ex_cmid_offset ex) id_buffer 19;
             pms \<leftarrow> md5_chunks (cel_md5_init context) [node_id, cstr id_buffer, cstr json_string, app_key];
             (_, digest) \<leftarrow> cel_md5_final pms;
             md5_str \<leftarrow> cel_md5_print digest (replicate 33 0);
             url \<leftarrow> blit url (ex_sign_offset ex) md5_str 32;
             let ex = ex\<lparr>ex_sync_url := Some url\<rparr>;
             (res, _) \<leftarrow> deliver (post_recv_callback (\<lambda>sb b. cel_strbuff_append_from (malloc (call 2 al)) sb b (length b) 1))
                           (ex_res_buffer ex) (rq_chunks rq);
             let ex = ex\<lparr>ex_res_buffer := res\<rparr>;
             (if \<not> rq_perform rq then Some (ex, 3)
              else if rq_code rq \<noteq> 200 then Some (ex, 4)
              else do {
                reply \<leftarrow> cJSON_Parse (call 3 al) (r_double (rq_round rq)) (Some (sb_buffer res));
                (case reply of None \<Rightarrow> Some (ex, 5) | Some j \<Rightarrow> do {
                   r \<leftarrow> reply_check j;
                   (case r of Inl code \<Rightarrow> Some (ex, code) | Inr _ \<Rightarrow> Some (ex, 0)) }) }) }) })"

text \<open>The document of a report.\<close>

definition number_member :: "string \<Rightarrow> rat \<Rightarrow> fp json" where
  "number_member k q = Json (Some (bytes_of k)) cJSON_Number None (saturated q) (Fin q) []"

definition text_member :: "string \<Rightarrow> bytes \<Rightarrow> fp json" where
  "text_member k s = Json (Some (bytes_of k)) cJSON_String (Some s) 0 (Fin 0) []"

definition report_doc :: "rounding \<Rightarrow> executor \<Rightarrow> fp json" where
  "report_doc R ex = Json None cJSON_Object None 0 (Fin 0)
     [number_member ''version'' (sarah_version R),
      Json (Some (bytes_of ''data'')) cJSON_Object None 0 (Fin 0)
        [number_member ''status'' (rat_of_int (ex_status ex)), number_member ''progress'' (ex_progress ex),
         number_member ''errno'' (rat_of_int (ex_errno ex)), number_member ''attach'' (rat_of_nat (ex_attach ex)),
         text_member ''res_error'' (cstr (content (ex_error_buffer ex))), text_member ''res_data'' (cstr (content (ex_data_buffer ex)))]]"

lemma report_made:
  assumes "sb_wf (ex_error_buffer ex)" "sb_wf (ex_data_buffer ex)"
  shows "report_package plenty R ex = Some (Some (report_doc R ex))"
  using sb_wf_cstr [OF assms(1)] sb_wf_cstr [OF assms(2)]
  by (simp add: report_package_def text_of_def object_of_def cJSON_CreateObject_def cJSON_New_Item_def with_type_def number_item_def
    with_number_def cJSON_AddItemToObject_def cJSON_strdup_def cJSON_CreateStringReference_def add_child_def named_def report_doc_def
    number_member_def text_member_def)

text \<open>The report is printed, and its text is read as the same document.\<close>

lemma report_printed:
  assumes "sb_wf (ex_error_buffer ex)" "sb_wf (ex_data_buffer ex)" "doubles (report_doc R ex)"
    and "length (render (r_double R) False 0 (report_doc R ex)) < 2 ^ 28"
  shows "cJSON_PrintUnformatted (\<lambda>_. True) fresh (r_double R) (Some (report_doc R ex))
      = Some (Some (render (r_double R) False 0 (report_doc R ex) @ [0]))"
    and "numbers_back (r_double R) (report_doc R ex) \<Longrightarrow> (\<And>p n. al p n)
      \<Longrightarrow> parsed al (r_double R) (render (r_double R) False 0 (report_doc R ex)) = Some (report_doc R ex)"
proof -
  have plain: "plain (report_doc R ex)"
    by (simp add: report_doc_def number_member_def text_member_def int_of_double_def) (simp add: bytes_of_def)
  show "cJSON_PrintUnformatted (\<lambda>_. True) fresh (r_double R) (Some (report_doc R ex))
      = Some (Some (render (r_double R) False 0 (report_doc R ex) @ [0]))"
    using print_json_law [OF assms(3), of "\<lambda>_. True" fresh "r_double R" False] plain_can_print [OF plain] assms(4)
    by (auto simp: cJSON_PrintUnformatted_def)
  show "numbers_back (r_double R) (report_doc R ex) \<Longrightarrow> (\<And>p n. al p n)
      \<Longrightarrow> parsed al (r_double R) (render (r_double R) False 0 (report_doc R ex)) = Some (report_doc R ex)"
    by (rule parsed_render [OF plain]) (simp_all add: report_doc_def number_member_def text_member_def)
qed

text \<open>The address: a fixed part, 32 bytes for the signature, 19 bytes for the task.\<close>

definition url_head :: "bytes \<Rightarrow> bytes \<Rightarrow> bytes" where
  "url_head node_id app_key = executor_sync_url @ bytes_of ''?node_uid='' @ node_id @ bytes_of ''&app_key='' @ app_key
     @ bytes_of ''&sign=''"

definition url_shape :: "bytes \<Rightarrow> bytes \<Rightarrow> executor \<Rightarrow> bool" where
  "url_shape node_id app_key ex \<longleftrightarrow>
     (\<exists>sg mid. ex_sync_url ex = Some (url_head node_id app_key @ sg @ bytes_of ''&cmd_id='' @ mid @ [0])
        \<and> length sg = 32 \<and> length mid = 19 \<and> ex_sign_offset ex = length (url_head node_id app_key)
        \<and> ex_cmid_offset ex = length (url_head node_id app_key) + 40)"

text \<open>\<open>sarah_executor_init\<close> is defined whatever \<open>malloc\<close> does; its code says which of the four blocks
  failed, and then no address is left; when none does, the address has its shape with the offsets of its
  two variable parts, and the buffers are empty.\<close>

theorem executor_made:
  shows "\<exists>ex r. sarah_executor_init al node_id app_key = Some (ex, r)
    \<and> r = (if \<not> al (length (url_head node_id app_key) + 60) then 2 else if \<not> al 128 then 3
           else if \<not> al 256 then 4 else if \<not> al 65537 then 5 else 0)
    \<and> (if r = 0 then url_shape node_id app_key ex \<and> holds_data ex [] \<and> ex_max_datalen ex = 65537
           \<and> sb_wf (ex_res_buffer ex) \<and> content (ex_res_buffer ex) = []
        else ex_sync_url ex = None)"
proof -
  let ?L = "length (url_head node_id app_key)"
  let ?tx = "executor_sync_url @ bytes_of ''?node_uid='' @ node_id @ bytes_of ''&app_key='' @ app_key
     @ bytes_of ''&sign='' @ sign_holder @ bytes_of ''&cmd_id='' @ cmd_id_holder"
  let ?url = "url_head node_id app_key @ sign_holder @ bytes_of ''&cmd_id='' @ cmd_id_holder @ [0]"
  have len: "length sign_holder = 32" "length cmd_id_holder = 19" by (simp_all add: sign_holder_def cmd_id_holder_def)
  have l1: "length executor_sync_url + length (bytes_of ''?node_uid=&app_key='') + length node_id
      + length app_key + length (bytes_of ''&sign='') = ?L" by (simp add: url_head_def)
  have tx: "?tx @ [0] = ?url" "length ?tx = ?L + 59" by (simp_all add: url_head_def len)
  have b: "blit (replicate (?L + 60) 0) 0 (?tx @ [0]) (length ?tx + 1) = Some ?url"
    unfolding tx by (simp add: blit_def len)
  have w: "wr ?url (?L + 59) 0 = Some ?url" by (simp add: wr_def len list_update_append)
  have L: "?L + 32 + length (bytes_of ''&cmd_id='') = ?L + 40" "?L + 40 + length cmd_id_holder = ?L + 59" "?L + 59 + 1 = ?L + 60"
    by (simp_all add: len)
  have shape: "url_shape node_id app_key ex"
    if "ex_sync_url ex = Some ?url" "ex_sign_offset ex = ?L" "ex_cmid_offset ex = ?L + 40" for ex
    using that len unfolding url_shape_def by blast
  note eval = sarah_executor_init_def Let_def l1 len(1) L b w
  show ?thesis
  proof (cases "al (?L + 60)")
    case False
    then show ?thesis unfolding eval by simp
  next
    case al: True
    show ?thesis
    proof (cases "al 128")
      case False
      with strbuff_init_fail [of 128 al zero_buffer] al show ?thesis unfolding eval by (auto simp: w)
    next
      case True
      then obtain sb1 where 1: "cel_strbuff_init al zero_buffer 128 None = Some (sb1, 1)" "sb_wf sb1" "content sb1 = []"
        using strbuff_init_law [of 128 al zero_buffer] by auto
      show ?thesis
      proof (cases "al 256")
        case False
        with strbuff_init_fail [of 256 al zero_buffer] al True 1 show ?thesis unfolding eval by (auto simp: w)
      next
        case 256: True
        then obtain sb2 where 2: "cel_strbuff_init al zero_buffer 256 None = Some (sb2, 1)"
          using strbuff_init_law [of 256 al zero_buffer] by auto
        show ?thesis
        proof (cases "al 65537")
          case False
          with strbuff_init_fail [of 65537 al zero_buffer] al True 256 1 2 show ?thesis unfolding eval by (auto simp: w)
        next
          case last: True
          then obtain sb3 where "cel_strbuff_init al zero_buffer 65537 None = Some (sb3, 1)" "sb_wf sb3" "content sb3 = []"
            using strbuff_init_law [of 65537 al zero_buffer] by auto
          with al True 256 last 1 2 shape show ?thesis unfolding eval by (simp add: w holds_data_def)
        qed
      qed
    qed
  qed
qed

lemma id_buffer_law:
  assumes "n < 2 ^ 63"
  obtains r where "blit (replicate 20 0) 0 (signed_digits (to_int64 n) @ [0]) (length (signed_digits (to_int64 n)) + 1)
      = Some (dec_digits n @ 0 # r)"
    "take 19 (dec_digits n @ 0 # r) = dec_digits n @ replicate (19 - length (dec_digits n)) 0"
    "length (dec_digits n @ 0 # r) = 20" "length (dec_digits n) \<le> 19"
proof -
  let ?d = "dec_digits n"
  have "n < 10 ^ 19" using assms by simp
  then have len: "length ?d \<le> 19" by (rule length_dec_digits) simp
  have s: "signed_digits (to_int64 n) = ?d" using assms by (simp add: to_int64_def signed_digits_def)
  let ?r = "replicate (19 - length ?d) (0 :: u8)"
  have "drop (length ?d + 1) (replicate 20 (0 :: u8)) = ?r" using len by simp
  then have b: "blit (replicate 20 0) 0 (?d @ [0]) (length ?d + 1) = Some (?d @ 0 # ?r)"
    using len by (simp add: blit_def)
  have "0 # ?r = ?r @ [0]" by (simp add: replicate_append_same)
  then have "?d @ 0 # ?r = (?d @ ?r) @ [0]" by simp
  moreover have "length (?d @ ?r) = 19" using len by simp
  ultimately have "take 19 (?d @ 0 # ?r) = ?d @ ?r" by (metis append_eq_conv_conj)
  with b s len show ?thesis by (intro that [of ?r]) auto
qed

lemma url_blits:
  assumes "url = h @ sg @ m @ mid @ [0]" "length sg = 32" "length m = 8" "length mid = 19"
    "19 \<le> length idb" "32 \<le> length sig"
  shows "blit url (length h + 40) idb 19 = Some (h @ sg @ m @ take 19 idb @ [0])"
    "blit (h @ sg @ m @ take 19 idb @ [0]) (length h) sig 32 = Some (h @ take 32 sig @ m @ take 19 idb @ [0])"
  using assms by (auto simp: blit_def min_def)

text \<open>A request whose address is rewritten without fault.\<close>

lemma sync_eval:
  assumes "ex_task ex = Some t" "rq_curl rq" "ex_sync_url ex = Some url"
    and "report_package (call 0 al) (rq_round rq) ex = Some pack"
      "cJSON_PrintUnformatted (malloc (call 1 al)) (rq_fresh rq) (r_double (rq_round rq)) pack = Some (Some (js @ [0]))" "no_nul js"
    and "blit (replicate 20 0) 0 (signed_digits (to_int64 (tk_id t)) @ [0])
      (length (signed_digits (to_int64 (tk_id t))) + 1) = Some idb"
    and "blit url (ex_cmid_offset ex) idb 19 = Some u1"
    and "md5_chunks (cel_md5_init context) [node_id, cstr idb, js, app_key] = Some p"
    and "cel_md5_final p = Some (p', dg)" "cel_md5_print dg (replicate 33 0) = Some ms"
    and "blit u1 (ex_sign_offset ex) ms 32 = Some u2"
    and "deliver (post_recv_callback (\<lambda>sb b. cel_strbuff_append_from (malloc (call 2 al)) sb b (length b) 1)) (ex_res_buffer ex) (rq_chunks rq) = Some (sb, ok)"
    and "0 \<in> set (sb_buffer sb)"
  defines "ex' \<equiv> ex\<lparr>ex_sync_url := Some u2, ex_res_buffer := sb\<rparr>"
  shows "sarah_executor_sync_status al context rq node_id app_key ex =
         (if \<not> rq_perform rq then Some (ex', 3) else if rq_code rq \<noteq> 200 then Some (ex', 4)
          else case parsed (call 3 al) (r_double (rq_round rq)) (cstr (sb_buffer sb)) of None \<Rightarrow> Some (ex', 5)
            | Some j \<Rightarrow> (case reply_check j of None \<Rightarrow> None | Some (Inl code) \<Rightarrow> Some (ex', code)
                        | Some (Inr _) \<Rightarrow> Some (ex', 0)))"
proof -
  note chunks = assms(9)
  show ?thesis
    unfolding sarah_executor_sync_status_def
    using assms(1-8,10-13) chunks parse_block [OF assms(14)] by (simp add: ex'_def del: md5_chunks.simps split: option.split sum.split)
qed

text \<open>The code of a request, from everything the response buffer holds.\<close>

definition sync_code :: "request \<Rightarrow> bytes \<Rightarrow> int option" where
  "sync_code rq replies =
     (if \<not> rq_perform rq then Some 3 else if rq_code rq \<noteq> 200 then Some 4
      else case parsed plenty (r_double (rq_round rq)) (cstr replies) of None \<Rightarrow> Some 5
        | Some j \<Rightarrow> (case reply_check j of None \<Rightarrow> None | Some (Inl code) \<Rightarrow> Some code | Some (Inr _) \<Rightarrow> Some 0))"

lemma sync_law:
  assumes shape: "url_shape node_id app_key ex" and task: "ex_task ex = Some t" "tk_id t < 2 ^ 63"
    and rq: "rq_curl rq" and ctx: "length (md_buf context) = 64"
    and wf: "sb_wf (ex_error_buffer ex)" "sb_wf (ex_data_buffer ex)"
    and js: "js = render (r_double (rq_round rq)) False 0 (report_doc (rq_round rq) ex)" "doubles (report_doc (rq_round rq) ex)"
    and small: "length node_id < 2 ^ 28" "length js < 2 ^ 28" "length app_key < 2 ^ 28"
    and plain: "no_nul node_id" "no_nul app_key"
    and res: "sb_wf (ex_res_buffer ex)" "length (content (ex_res_buffer ex)) + length (concat (rq_chunks rq)) < 2 ^ 30"
  shows "\<exists>url sb. url_shape node_id app_key (ex\<lparr>ex_sync_url := Some url, ex_res_buffer := sb\<rparr>)
     \<and> cstr url = url_head node_id app_key @ md5_hex (node_id @ dec_digits (tk_id t) @ js @ app_key)
          @ bytes_of ''&cmd_id='' @ dec_digits (tk_id t)
     \<and> sb_wf sb \<and> content sb = content (ex_res_buffer ex) @ concat (rq_chunks rq)
     \<and> sarah_executor_sync_status plenty context rq node_id app_key ex
       = map_option (\<lambda>code. (ex\<lparr>ex_sync_url := Some url, ex_res_buffer := sb\<rparr>, code)) (sync_code rq (content sb))"
proof -
  let ?d = "dec_digits (tk_id t)" and ?h = "url_head node_id app_key" and ?m = "bytes_of ''&cmd_id=''"
  let ?sig = "md5_hex (node_id @ ?d @ js @ app_key)"
  obtain sg mid where url: "ex_sync_url ex = Some (?h @ sg @ ?m @ mid @ [0])" "length sg = 32" "length mid = 19"
    "ex_sign_offset ex = length ?h" "ex_cmid_offset ex = length ?h + 40"
    using shape unfolding url_shape_def by blast
  obtain r where idb: "blit (replicate 20 0) 0 (signed_digits (to_int64 (tk_id t)) @ [0])
      (length (signed_digits (to_int64 (tk_id t))) + 1) = Some (?d @ 0 # r)"
    and cut: "take 19 (?d @ 0 # r) = ?d @ replicate (19 - length ?d) 0" "length (?d @ 0 # r) = 20" "length ?d \<le> 19"
    using id_buffer_law [OF task(2)] .
  let ?mid = "?d @ replicate (19 - length ?d) 0"
  let ?parts = "[node_id, ?d, js, app_key]"
  have "\<forall>c \<in> set ?parts. length c < 2 ^ 28" using small cut(3) by auto
  then obtain p p' where p: "md5_chunks (cel_md5_init context) ?parts = Some p"
    "cel_md5_final p = Some (p', md5_spec (concat ?parts))"
    using md5_parts_law [OF ctx] by blast
  have pr: "cel_md5_print (md5_spec (concat ?parts)) (replicate 33 0) = Some (?sig @ [0])"
    using md5_print_law [of "replicate 33 0" "concat ?parts"] by simp
  let ?u = "?h @ ?sig @ ?m @ ?mid @ [0]"
  have b1: "blit (?h @ sg @ ?m @ mid @ [0]) (length ?h + 40) (?d @ 0 # r) 19 = Some (?h @ sg @ ?m @ ?mid @ [0])"
    and b2: "blit (?h @ sg @ ?m @ ?mid @ [0]) (length ?h) (?sig @ [0]) 32 = Some ?u"
    using url_blits [OF refl url(2) _ url(3), of ?m "?d @ 0 # r" "?sig @ [0]" ?h] cut by simp_all
  obtain sb where sb: "deliver (post_recv_callback strbuff_put) (ex_res_buffer ex) (rq_chunks rq) = Some (sb, True)"
    "sb_wf sb" "content sb = content (ex_res_buffer ex) @ concat (rq_chunks rq)"
    using sink.deliver_all [OF res] by auto
  have put: "(\<lambda>sb b. cel_strbuff_append_from (\<lambda>_. True) sb b (length b) 1) = strbuff_put"
    by (simp add: strbuff_put_def fun_eq_iff)
  let ?ex = "ex\<lparr>ex_sync_url := Some ?u, ex_res_buffer := sb\<rparr>"
  have idc: "cstr (?d @ 0 # r) = ?d" by simp
  note rep = report_printed [OF wf js(2), folded js(1), OF small(2)]
  have nul_js: "no_nul js" unfolding js(1) by (rule render_no_nul)
  note run = sync_eval [where al = plenty, unfolded plenty_calls, OF task(1) rq url(1) report_made [OF wf] rep(1) nul_js idb, unfolded url(4,5) idc, OF b1 p pr b2, unfolded put, OF sb(1) sb_wf_cstr(1) [OF sb(2)]]
  have nul: "\<exists>z. replicate (19 - length ?d) 0 @ [0] = (0 :: u8) # z"
    by (metis append_Cons replicate_append_same)
  then have str: "cstr ?u = ?h @ ?sig @ ?m @ ?d"
  proof -
    have "no_nul (?h @ ?sig @ ?m @ ?d)"
      using plain by (simp add: url_head_def) (simp add: executor_sync_url_def bytes_of_def)
    moreover obtain z where "?u = (?h @ ?sig @ ?m @ ?d) @ 0 # z" using nul by auto
    ultimately show ?thesis by (metis cstr_terminated)
  qed
  have "url_shape node_id app_key ?ex"
    using url cut(3) unfolding url_shape_def by (intro exI [of _ ?sig] exI [of _ ?mid]) simp
  moreover have "cstr (sb_buffer sb) = cstr (content sb)" using sb_wf_cstr [OF sb(2)] by simp
  ultimately show ?thesis
    using run str sb(2,3)
    by (intro exI [of _ ?u] exI [of _ sb] conjI) (simp_all add: sync_code_def split: option.split sum.split)
qed

text \<open>C24: a request posts the report of the executor, whose text is read by the parser as the same document, and rewrites the
  address in place: as a string it is the fixed part, the MD5 of node, task
  id, report and key, and the task id, for every id below \<open>2\<^sup>6\<^sup>3\<close>, and its shape is kept for the next
  request.  The reply that is parsed is everything the response buffer ever got, an earlier reply first;
  the code is 3 for a failed transfer, 4 for a status that is not 200, 5 for a reply that is no JSON, and
  that of the reply otherwise.\<close>

theorem sync_rewrites_url:
  assumes shape: "url_shape node_id app_key ex" and task: "ex_task ex = Some t" "tk_id t < 2 ^ 63"
    and rq: "rq_curl rq" and ctx: "length (md_buf context) = 64"
    and wf: "sb_wf (ex_error_buffer ex)" "sb_wf (ex_data_buffer ex)"
    and js: "js = render (r_double (rq_round rq)) False 0 (report_doc (rq_round rq) ex)" "doubles (report_doc (rq_round rq) ex)"
    and small: "length node_id < 2 ^ 28" "length js < 2 ^ 28" "length app_key < 2 ^ 28"
    and plain: "no_nul node_id" "no_nul app_key"
    and res: "sb_wf (ex_res_buffer ex)" "length (content (ex_res_buffer ex)) + length (concat (rq_chunks rq)) < 2 ^ 30"
  shows "(numbers_back (r_double (rq_round rq)) (report_doc (rq_round rq) ex)
        \<longrightarrow> parsed plenty (r_double (rq_round rq)) js = Some (report_doc (rq_round rq) ex))
    \<and> (\<exists>ex' url. ex_sync_url ex' = Some url \<and> url_shape node_id app_key ex'
     \<and> cstr url = url_head node_id app_key @ md5_hex (node_id @ dec_digits (tk_id t) @ js @ app_key)
          @ bytes_of ''&cmd_id='' @ dec_digits (tk_id t)
     \<and> content (ex_res_buffer ex') = content (ex_res_buffer ex) @ concat (rq_chunks rq)
     \<and> sarah_executor_sync_status plenty context rq node_id app_key ex =
         (if \<not> rq_perform rq then Some (ex', 3) else if rq_code rq \<noteq> 200 then Some (ex', 4)
          else case parsed plenty (r_double (rq_round rq)) (cstr (content (ex_res_buffer ex'))) of None \<Rightarrow> Some (ex', 5)
            | Some j \<Rightarrow> (case reply_check j of None \<Rightarrow> None | Some (Inl code) \<Rightarrow> Some (ex', code)
                        | Some (Inr _) \<Rightarrow> Some (ex', 0))))"
proof -
  obtain url sb where s: "url_shape node_id app_key (ex\<lparr>ex_sync_url := Some url, ex_res_buffer := sb\<rparr>)"
    "cstr url = url_head node_id app_key @ md5_hex (node_id @ dec_digits (tk_id t) @ js @ app_key)
          @ bytes_of ''&cmd_id='' @ dec_digits (tk_id t)"
    "content sb = content (ex_res_buffer ex) @ concat (rq_chunks rq)"
    "sarah_executor_sync_status plenty context rq node_id app_key ex
       = map_option (\<lambda>code. (ex\<lparr>ex_sync_url := Some url, ex_res_buffer := sb\<rparr>, code)) (sync_code rq (content sb))"
    using sync_law [OF assms] by blast
  have reread: "numbers_back (r_double (rq_round rq)) (report_doc (rq_round rq) ex)
      \<Longrightarrow> parsed plenty (r_double (rq_round rq)) js = Some (report_doc (rq_round rq) ex)"
    using report_printed(2) [OF wf js(2), of plenty] small(2) unfolding js(1) by (simp add: plenty_def)
  let ?ex = "ex\<lparr>ex_sync_url := Some url, ex_res_buffer := sb\<rparr>"
  show ?thesis using reread s
    by (intro conjI impI exI [of _ ?ex] exI [of _ url]) (simp_all add: sync_code_def split: option.split sum.split)
qed

text \<open>C14: on every output of a shell command, however \<open>fgets\<close> cuts it and whichever allocations fail, the run ends with the
  result 0 and the data buffer, after what it held, has a beginning of what was read, up to \<open>max_datalen\<close> bytes in all: all of
  it when memory suffices.  What is read is each line up to its first NUL, in pieces of at most 1023 bytes, so an output
  without NUL is kept as it is.  A command that cannot be started gives 1 and changes nothing.\<close>

theorem bash_output_kept:
  assumes "holds_data ex s" "length s \<le> ex_max_datalen ex" "ex_max_datalen ex < 2 ^ 30"
  shows "(\<exists>d t. script_bash_dostring al ex (Some out) = Some (ex\<lparr>ex_data_buffer := d\<rparr>, 0)
       \<and> holds_data (ex\<lparr>ex_data_buffer := d\<rparr>) t \<and> prefix s t \<and> prefix t (take (ex_max_datalen ex) (s @ read_text out))
       \<and> ((\<forall>n. al n) \<longrightarrow> t = take (ex_max_datalen ex) (s @ read_text out)))
     \<and> (no_nul out \<longrightarrow> read_text out = out)
     \<and> script_bash_dostring al ex None = Some (ex, 1)"
  using bash_loop_law [OF assms, of al out] read_text_plain [of out]
  by (auto simp: script_bash_dostring_def simp del: take_append)

text \<open>An executor in use, with the text \<open>hi\<close> in each of its buffers and room for two more bytes.\<close>

definition sample_executor :: executor where
  "sample_executor = \<lparr>ex_task = Some sample_task, ex_dostring = None, ex_dofile = None,
     ex_sync_url = Some (url_head (bytes_of ''n1'') (bytes_of ''k'') @ sign_holder @ bytes_of ''&cmd_id='' @ cmd_id_holder @ [0]),
     ex_sign_offset = length (url_head (bytes_of ''n1'') (bytes_of ''k'')),
     ex_cmid_offset = length (url_head (bytes_of ''n1'') (bytes_of ''k'')) + 40,
     ex_res_buffer = sample_buffer, ex_errno = 0, ex_status = 0, ex_progress = 0, ex_attach = 0, ex_max_datalen = 4,
     ex_error_buffer = sample_buffer, ex_data_buffer = sample_buffer\<rparr>"

lemma bash_output_kept_witness:
  "\<exists>d. script_bash_dostring (\<lambda>_. True) sample_executor (Some [100, 97, 0, 116, 10, 101]) = Some (sample_executor\<lparr>ex_data_buffer := d\<rparr>, 0)
     \<and> content d = [104, 105, 100, 97]"
proof -
  have "holds_data sample_executor [104, 105]" using sample_buffer_wf by (simp add: holds_data_def sample_executor_def)
  moreover have "ex_max_datalen sample_executor = 4" by (simp add: sample_executor_def)
  moreover have "read_text [100, 97, 0, 116, 10, 101] = [100, 97, 101]"
    by (simp add: read_text.simps [of "[]"] read_text.simps [of "[101]"] read_text.simps [of "[100, 97, 0, 116, 10, 101]"] fgets_numeral
      cstr_def)
  ultimately show ?thesis
    using bash_output_kept [of sample_executor "[104, 105]" "\<lambda>_. True" "[100, 97, 0, 116, 10, 101]"]
    by (auto simp: holds_data_def)
qed

text \<open>A first reply is left in the response buffer.\<close>

lemma sample_report:
  defines "j \<equiv> report_doc exact sample_executor"
  shows "doubles j" "length (render id False 0 j) < 2 ^ 28"
proof -
  have sel: "ex_status sample_executor = 0" "ex_errno sample_executor = 0" "ex_progress sample_executor = 0" "ex_attach sample_executor = 0"
    "ex_error_buffer sample_executor = sample_buffer" "ex_data_buffer sample_executor = sample_buffer" "sarah_version exact = 157 / 100"
    by (simp_all add: sample_executor_def sarah_version_def exact_def)
  have d: "double_range 0" "double_range (157 / 100)" by (rule double_range_small; simp)+
  then show "doubles j"
    by (simp add: j_def report_doc_def number_member_def text_member_def doubles_def is_double_def sel)
  have n: "length (number_string id (Fin q)) < 26" if "double_range q" for q
    using that by (intro number_string_length) (simp add: is_double_def)
  have "cstr (content sample_buffer) = [104, 105]" using sample_buffer_wf by (simp add: cstr_def)
  moreover have "length (quoted (Some (bytes_of w))) < 100" if "length w < 16" for w
    using quoted_length [of "bytes_of w"] that by simp
  note this [of "''version''"] this [of "''data''"] this [of "''status''"] this [of "''progress''"] this [of "''errno''"]
    this [of "''attach''"] this [of "''res_error''"] this [of "''res_data''"]
  ultimately show "length (render id False 0 j) < 2 ^ 28"
    using n [of 0] n [of "157 / 100"] quoted_length [of "[104, 105]"]
    by (simp add: j_def report_doc_def number_member_def text_member_def sel d)
qed

lemma sync_rewrites_url_witness:
  "\<exists>ex'. sarah_executor_sync_status plenty fresh_md5 \<lparr>rq_curl = True, rq_fresh = 7,
       rq_chunks = [bytes_of ''ok''], rq_perform = True, rq_code = 500, rq_round = exact\<rparr>
       (bytes_of ''n1'') (bytes_of ''k'') sample_executor = Some (ex', 4)
     \<and> content (ex_res_buffer ex') = [104, 105] @ bytes_of ''ok''"
proof -
  let ?rq = "\<lparr>rq_curl = True, rq_fresh = 7, rq_chunks = [bytes_of ''ok''], rq_perform = True, rq_code = 500, rq_round = exact\<rparr>"
  have 1: "url_shape (bytes_of ''n1'') (bytes_of ''k'') sample_executor"
    unfolding url_shape_def
    by (intro exI [of _ sign_holder] exI [of _ cmd_id_holder]) (simp add: sample_executor_def sign_holder_def cmd_id_holder_def)
  have 2: "ex_task sample_executor = Some sample_task" "tk_id sample_task < 2 ^ 63" "length (md_buf fresh_md5) = 64"
    "ex_res_buffer sample_executor = sample_buffer" "ex_error_buffer sample_executor = sample_buffer" "ex_data_buffer sample_executor = sample_buffer"
    by (simp_all add: sample_executor_def sample_task_def new_task_entry_def fresh_md5_def cel_md5_init_def)
  have 3: "no_nul (bytes_of ''n1'')" "no_nul (bytes_of ''k'')" by (simp_all add: bytes_of_def)
  have 4: "r_double exact = id" by (simp add: exact_def)
  let ?js = "render (r_double (rq_round ?rq)) False 0 (report_doc (rq_round ?rq) sample_executor)"
  have 5: "sb_wf (ex_error_buffer sample_executor)" "sb_wf (ex_data_buffer sample_executor)" "sb_wf (ex_res_buffer sample_executor)"
    "doubles (report_doc (rq_round ?rq) sample_executor)" "length ?js < 2 ^ 28"
    using sample_buffer_wf sample_report unfolding 2 by (simp_all add: 4)
  have 6: "rq_curl ?rq" "length (bytes_of ''n1'') < 2 ^ 28" "length (bytes_of ''k'') < 2 ^ 28"
    "length (content (ex_res_buffer sample_executor)) + length (concat (rq_chunks ?rq)) < 2 ^ 30" "content (ex_res_buffer sample_executor) = [104, 105]"
    using sample_buffer_wf by (simp_all add: 2(4))
  obtain ex' where "content (ex_res_buffer ex') = content (ex_res_buffer sample_executor) @ concat (rq_chunks ?rq)"
    "sarah_executor_sync_status plenty fresh_md5 ?rq (bytes_of ''n1'') (bytes_of ''k'') sample_executor = Some (ex', 4)"
    using sync_rewrites_url [OF 1 2(1,2) 6(1) 2(3) 5(1,2) refl 5(4) 6(2) 5(5) 6(3) 3 5(3) 6(4)] by auto
  then show ?thesis using 6(5) by auto
qed

end
