(* ===== verification/Booter.thy ===== *)
theory Booter
  imports Files
begin

text \<open>
  The booter of \<open>src/main/sarah.c\<close>: its struct, the status and signal numbers of \<open>src/include/sarah.h\<close>, the
  pid file, and \<open>sarah_booter_init\<close> with its probe for a booter that already runs.

  The file calls are those of \<open>Files\<close>; the outcomes of \<open>malloc\<close>, of the directory calls and of \<open>kill\<close> are
  parameters.  The buffer for the pid has 12 bytes, of which 11 are written and read.

  Shown: the pid file gives back the pid; a second booter on the same directory does not start while one
  of its probes finds the first.
\<close>

section \<open>The pid file\<close>

datatype proc_status = READY | RUNNING | STOP | RESTART | EXIT

datatype sarah_signal = SIGNAL_STOP | SIGNAL_CONT | SIGNAL_EXIT_01 | SIGNAL_EXIT_02 | SIGNAL_RESTART
  | SIGNAL_CHECK | SIGNAL_KILL

text \<open>How a round of an application ends: the loop is left, or sleeps for some seconds.\<close>

datatype loop = Leave | Sleep nat

record booter =
  bo_status :: proc_status
  bo_pid :: int
  bo_base_dir :: path
  bo_exe_file :: path
  bo_pid_file :: path

definition sarah_booter_setpid :: "io \<Rightarrow> files \<Rightarrow> booter \<Rightarrow> int \<Rightarrow> (files \<times> booter \<times> nat) option" where
  "sarah_booter_setpid e fs b pid = do {
     buffer \<leftarrow> blit (replicate 12 0) 0 (signed_digits pid @ [0]) (length (signed_digits pid) + 1);
     (fs, n) \<leftarrow> sarah_file_put_buffer e fs (bo_pid_file b) buffer 11 0;
     Some (fs, b\<lparr>bo_pid := pid\<rparr>, if n > - 1 then 0 else 1) }"

definition sarah_booter_getpid :: "io \<Rightarrow> files \<Rightarrow> booter \<Rightarrow> int option" where
  "sarah_booter_getpid e fs b = do {
     (n, buffer) \<leftarrow> sarah_file_get_buffer e fs (bo_pid_file b) (replicate 12 0) 11;
     (if n > - 1 then atoi buffer else Some 0) }"

text \<open>\<open>sarah_booter_init\<close> gets the result of its \<open>malloc\<close>, the outcomes of the file and directory calls, and
  those of the three \<open>kill\<close> calls that look for a booter that still runs; \<open>strdup\<close> is taken to succeed.
  A failure clears the two names.\<close>

definition pid_file_name :: bytes where
  "pid_file_name = bytes_of ''sarah.pid''"

definition sarah_booter_init ::
  "bool \<Rightarrow> (path set \<Rightarrow> path \<Rightarrow> bool) \<Rightarrow> io \<Rightarrow> files \<Rightarrow> (int \<Rightarrow> nat \<Rightarrow> bool) \<Rightarrow> path set \<Rightarrow> path
   \<Rightarrow> (path set \<times> booter \<times> nat) option" where
  "sarah_booter_init al mk e fs kill ds base_dir =
     (let b = \<lparr>bo_status = READY, bo_pid = 0, bo_base_dir = base_dir,
                bo_exe_file = bytes_of ''/usr/local/bin/sarah-booter'', bo_pid_file = []\<rparr>;
          failed = b\<lparr>bo_base_dir := []\<rparr> in
      if \<not> al then Some (ds, failed, 1)
      else do {
        let b = b\<lparr>bo_pid_file := base_dir @ pid_file_name\<rparr>;
        (ds, r) \<leftarrow> sarah_mkdir mk ds base_dir;
        (if r \<noteq> 0 then Some (ds, failed, 2)
         else do {
           pid \<leftarrow> sarah_booter_getpid e fs b;
           (if pid > 0 \<and> (\<exists>c\<in>{0, 1, 2}. kill pid c) then Some (ds, failed, 3)
            else Some (ds, b, 0)) }) })"

lemma setpid_law:
  assumes "io_fine e 11" "- (2 ^ 31) \<le> pid" "pid < 2 ^ 31"
  obtains content where "sarah_booter_setpid e fs b pid = Some (fs(bo_pid_file b \<mapsto> content), b\<lparr>bo_pid := pid\<rparr>, 0)"
    "length content = 11" "atoi (content @ [0]) = Some pid"
proof -
  let ?d = "signed_digits pid"
  have len: "length ?d \<le> 11" using length_signed_digits assms(2,3) by simp
  let ?z = "replicate (11 - length ?d) (0 :: u8)"
  have z: "drop (length ?d + 1) (replicate 12 (0 :: u8)) = ?z" using len by (simp add: drop_replicate_tail)
  have buf: "blit (replicate 12 0) 0 (?d @ [0]) (length ?d + 1) = Some (?d @ 0 # ?z)"
    using len z by (simp add: blit_def)
  have shift: "?z @ [0] = (0 :: u8) # ?z" by (simp add: replicate_append_same)
  then have cut: "take 11 (?d @ 0 # ?z) = ?d @ ?z" using len
    by (metis (no_types, opaque_lifting) append.assoc append_eq_conv_conj length_append length_replicate le_add_diff_inverse)
  have put: "sarah_file_put_buffer e fs (bo_pid_file b) (?d @ 0 # ?z) 11 0 = Some (fs(bo_pid_file b \<mapsto> ?d @ ?z), 11)"
    using put_law [OF assms(1), of "?d @ 0 # ?z" fs "bo_pid_file b"] cut len by simp
  have "atoi ((?d @ ?z) @ [0]) = Some pid" using atoi_signed [OF assms(2,3)] shift by simp
  with buf put len show ?thesis by (intro that [of "?d @ ?z"]) (auto simp: sarah_booter_setpid_def)
qed

lemma getpid_law:
  assumes "io_fine e 11" "fs (bo_pid_file b) = Some content" "length content = 11"
  shows "sarah_booter_getpid e fs b = atoi (content @ [0])"
  using get_law [of e 11 fs "bo_pid_file b" content "replicate 12 0"] assms by (simp add: sarah_booter_getpid_def)

text \<open>The pid written by \<open>sarah_booter_setpid\<close> is the pid \<open>sarah_booter_getpid\<close> reads, for every
  32-bit pid, and the file holds 11 bytes; without a file the pid is 0.\<close>

theorem booter_pid_round_trip:
  assumes "io_fine e 11" "io_fine e' 11" "- (2 ^ 31) \<le> pid" "pid < 2 ^ 31"
  shows "\<exists>fs' b' content. sarah_booter_setpid e fs b pid = Some (fs', b', 0) \<and> bo_pid b' = pid
     \<and> fs' = fs(bo_pid_file b \<mapsto> content) \<and> length content = 11
     \<and> sarah_booter_getpid e' fs' b' = Some pid
     \<and> sarah_booter_getpid e' (fs(bo_pid_file b := None)) b = Some 0"
proof -
  obtain content where c: "sarah_booter_setpid e fs b pid = Some (fs(bo_pid_file b \<mapsto> content), b\<lparr>bo_pid := pid\<rparr>, 0)"
    "length content = 11" "atoi (content @ [0]) = Some pid"
    using setpid_law [OF assms(1,3,4)] .
  then have "sarah_booter_getpid e' (fs(bo_pid_file b \<mapsto> content)) (b\<lparr>bo_pid := pid\<rparr>) = Some pid"
    using getpid_law [OF assms(2)] by simp
  with c show ?thesis by (auto simp: sarah_booter_getpid_def get_none)
qed

lemma booter_pid_round_trip_witness:
  "\<exists>fs' b'. sarah_booter_setpid \<lparr>io_open = True, io_lock = True, io_cut = True, io_count = 11\<rparr> Map.empty
      \<lparr>bo_status = READY, bo_pid = 0, bo_base_dir = [], bo_exe_file = [], bo_pid_file = bytes_of ''p''\<rparr> 4711 = Some (fs', b', 0)
    \<and> sarah_booter_getpid \<lparr>io_open = True, io_lock = True, io_cut = True, io_count = 11\<rparr> fs' b' = Some 4711"
  using booter_pid_round_trip [of "\<lparr>io_open = True, io_lock = True, io_cut = True, io_count = 11\<rparr>"
      "\<lparr>io_open = True, io_lock = True, io_cut = True, io_count = 11\<rparr>" 4711 Map.empty
      "\<lparr>bo_status = READY, bo_pid = 0, bo_base_dir = [], bo_exe_file = [], bo_pid_file = bytes_of ''p''\<rparr>"]
  by (auto simp: io_fine_def)

text \<open>C17: only one booter starts: once a booter has stored its pid, another \<open>sarah_booter_init\<close> on the same
  directory fails with error 3 as long as one of its three probes finds that process, and succeeds when
  none does.\<close>

theorem booter_single_instance:
  assumes "sarah_mkdir mk ds dir = Some (ds', 0)" "sarah_booter_init True mk e fs kill ds dir = Some (ds', b, 0)"
    and "io_fine e 11" "0 < pid" "pid < 2 ^ 31"
  shows "\<exists>fs' b'. sarah_booter_setpid e fs b pid = Some (fs', b', 0)
     \<and> (\<forall>kill'. \<exists>b2. sarah_booter_init True mk e fs' kill' ds dir
          = Some (ds', b2, if \<exists>c\<in>{0, 1, 2}. kill' pid c then 3 else 0))"
proof -
  have name: "bo_pid_file b = dir @ pid_file_name"
    using assms(1,2) by (auto simp: sarah_booter_init_def Let_def split: if_splits bind_splits)
  obtain content where c: "sarah_booter_setpid e fs b pid = Some (fs(bo_pid_file b \<mapsto> content), b\<lparr>bo_pid := pid\<rparr>, 0)"
    "length content = 11" "atoi (content @ [0]) = Some pid"
    using setpid_law [OF assms(3), of pid fs b] assms(4,5) by auto
  then have "sarah_booter_getpid e (fs(dir @ pid_file_name \<mapsto> content)) b2 = Some pid"
    if "bo_pid_file b2 = dir @ pid_file_name" for b2
    using getpid_law [OF assms(3)] that by simp
  with assms(1,4) c name show ?thesis by (auto simp: sarah_booter_init_def)
qed

definition fine_io :: io where
  "fine_io = \<lparr>io_open = True, io_lock = True, io_cut = True, io_count = 2048\<rparr>"

definition sample_booter :: booter where
  "sample_booter = \<lparr>bo_status = READY, bo_pid = 0, bo_base_dir = bytes_of ''/b/'',
     bo_exe_file = bytes_of ''/usr/local/bin/sarah-booter'', bo_pid_file = bytes_of ''/b/sarah.pid''\<rparr>"

lemma booter_single_instance_witness:
  "\<exists>fs' b' b2. sarah_booter_setpid fine_io Map.empty sample_booter 4711 = Some (fs', b', 0)
    \<and> sarah_booter_init True (\<lambda>_ _. True) fine_io fs' (\<lambda>_ c. c = 1) {} (bytes_of ''/b/'') = Some ({bytes_of ''/b''}, b2, 3)"
proof -
  have m: "sarah_mkdir (\<lambda>_ _. True) {} (bytes_of ''/b/'') = Some ({bytes_of ''/b''}, 0)"
    by code_simp
  moreover have "sarah_booter_init True (\<lambda>_ _. True) fine_io Map.empty (\<lambda>_ _. True) {} (bytes_of ''/b/'')
      = Some ({bytes_of ''/b''}, sample_booter, 0)"
    using m by (simp add: sarah_booter_init_def sarah_booter_getpid_def get_none sample_booter_def bytes_of_def pid_file_name_def)
  ultimately have "\<exists>fs' b'. sarah_booter_setpid fine_io Map.empty sample_booter 4711 = Some (fs', b', 0)
     \<and> (\<forall>kill'. \<exists>b2. sarah_booter_init True (\<lambda>_ _. True) fine_io fs' kill' {} (bytes_of ''/b/'')
          = Some ({bytes_of ''/b''}, b2, if \<exists>c\<in>{0, 1, 2}. kill' 4711 c then 3 else 0))"
    by (intro booter_single_instance) (auto simp: io_fine_def fine_io_def)
  then obtain fs' b' where 1: "sarah_booter_setpid fine_io Map.empty sample_booter 4711 = Some (fs', b', 0)"
    and 2: "\<And>kill'. \<exists>b2. sarah_booter_init True (\<lambda>_ _. True) fine_io fs' kill' {} (bytes_of ''/b/'')
          = Some ({bytes_of ''/b''}, b2, if \<exists>c\<in>{0, 1, 2}. kill' 4711 c then 3 else 0)" by blast
  from 2 [of "\<lambda>_ c. c = 1"] 1 show ?thesis by auto
qed

end
