(* ===== verification/TaskLoop.thy ===== *)
theory TaskLoop
  imports Execution Booter JsonTrip
begin

text \<open>
  The executor application of \<open>src/main/app_executor.c\<close>: the pull of a task, the round of its main loop,
  and the child that runs the task and reports.

  A pull is a record of what curl delivers, as for the reporting request, and of how the C library rounds the numbers of a reply.  A round
  gets the booter status, the pull and the result of \<open>fork\<close>; it returns the poll state, the buffers, the
  task that was started, and whether the loop ends or sleeps.  The child gets the interpreter and the
  reporting request as functions on the executor.

  Shown: a task that is started carries the right signature and names a known engine; what a child
  reports, and in which order; how the pace of the polling changes.
\<close>

section \<open>The pull\<close>

record pull =
  pl_curl :: bool
  pl_chunks :: "bytes list"
  pl_perform :: bool
  pl_code :: int
  pl_round :: "rat \<Rightarrow> rat"

text \<open>The address and the buffer of the pull; a code of 1 or 2 when a block is missing.\<close>

definition executor_pull_url :: bytes where
  "executor_pull_url = bytes_of ''http://sarah.grandhelmsman.com/api/node/command/export/pull''"

definition sarah_task_config_init :: "(nat \<Rightarrow> bool) \<Rightarrow> bytes \<Rightarrow> bytes \<Rightarrow> (bytes option \<times> strbuff option \<times> nat) option" where
  "sarah_task_config_init al node_id app_key =
     (let url_len = length executor_pull_url + length (bytes_of ''?node_uid=&app_key='') + length node_id + length app_key;
          text = executor_pull_url @ bytes_of ''?node_uid='' @ node_id @ bytes_of ''&app_key='' @ app_key in
      if \<not> al (url_len + 1) then Some (None, None, 1)
      else do {
        url \<leftarrow> blit (replicate (url_len + 1) 0) 0 (text @ [0]) (length text + 1);
        url \<leftarrow> wr url url_len 0;
        (case new_cel_strbuff_opacity al 256 of
           Inl _ \<Rightarrow> Some (None, None, 2)
         | Inr sb \<Rightarrow> Some (Some url, Some sb, 0)) })"

definition pull_remote_task :: "mallocs \<Rightarrow> pull \<Rightarrow> strbuff \<Rightarrow> (strbuff \<times> int \<times> task option) option" where
  "pull_remote_task al pl sb =
     (if \<not> pl_curl pl then Some (sb, 1, None)
      else do {
        (sb, _) \<leftarrow> cel_strbuff_clear sb;
        (sb, _) \<leftarrow> deliver (post_recv_callback (\<lambda>sb b. cel_strbuff_append_from (malloc (call 0 al)) sb b (length b) 1)) sb (pl_chunks pl);
        (if \<not> pl_perform pl \<or> pl_code pl \<noteq> 200 then Some (sb, 2, None)
         else do {
           reply \<leftarrow> cJSON_Parse (call 1 al) (pl_round pl) (Some (sb_buffer sb));
           (case reply of None \<Rightarrow> Some (sb, 3, None) | Some j \<Rightarrow> do {
              r \<leftarrow> reply_check j;
              (case r of
                 Inl code \<Rightarrow> Some (sb, code, None)
               | Inr _ \<Rightarrow> do {
                   (t, code) \<leftarrow> sarah_task_init_from_json new_task_entry (cJSON_GetObjectItem (Some j) (bytes_of ''data''));
                   (if code \<noteq> 0 then Some (sb, 3, None) else Some (sb, 0, Some t)) }) }) }) })"

section \<open>The round\<close>

record poll =
  po_empty :: nat
  po_duration :: nat

text \<open>\<open>if ( empty_count++ >= max_busy_count )\<close>.\<close>

definition pull_failed :: "poll \<Rightarrow> poll" where
  "pull_failed p =
     (if po_empty p \<ge> 12 then \<lparr>po_empty = 0, po_duration = 3\<rparr> else p\<lparr>po_empty := po_empty p + 1\<rparr>)"

definition executor_round ::
  "mallocs \<Rightarrow> md5 \<Rightarrow> bytes \<Rightarrow> pull \<Rightarrow> int \<Rightarrow> proc_status \<Rightarrow> poll \<Rightarrow> strbuff \<Rightarrow> executor
   \<Rightarrow> (poll \<times> strbuff \<times> executor \<times> task option \<times> loop) option" where
  "executor_round al context node_id pl pid status p sb ex =
     (if status = EXIT then Some (p, sb, ex, None, Leave)
      else if status = STOP then Some (p, sb, ex, None, Sleep 10)
      else do {
        ex \<leftarrow> sarah_executor_clear ex;
        (sb, errno, task) \<leftarrow> pull_remote_task al pl sb;
        (if errno \<noteq> 0 then
           let p = pull_failed p in Some (p, sb, ex, None, Sleep (po_duration p))
         else do {
           t \<leftarrow> task;
           v \<leftarrow> sarah_task_validity context node_id t;
           (if v \<noteq> 0 then Some (p, sb, ex, None, Sleep (po_duration p))
            else do {
              let p = p\<lparr>po_duration := 1\<rparr>;
              let ex = sarah_executor_set_task ex t;
              engine \<leftarrow> tk_engine t;
              (if engine \<notin> set engines then Some (p, sb, ex, None, Sleep (po_duration p))
               else if pid < 0 then Some (p, sb, ex, None, Sleep (po_duration p))
               else Some (p, sb, ex, Some t, Sleep (po_duration p))) }) }) })"

section \<open>The child\<close>

text \<open>The two requests, what the command writes, \<open>None\<close> when it cannot be started, and the interpreters that are not the shell.\<close>

record child =
  ch_start :: request
  ch_finish :: request
  ch_output :: "bytes option"
  ch_script :: "bytes \<Rightarrow> executor \<Rightarrow> (executor \<times> int) option"

definition dostring :: "(nat \<Rightarrow> bool) \<Rightarrow> child \<Rightarrow> bytes \<Rightarrow> executor \<Rightarrow> (executor \<times> int) option" where
  "dostring al ch engine ex =
     (if engine = bytes_of ''bash'' then map_option (\<lambda>(ex, r). (ex, int r)) (script_bash_dostring al ex (ch_output ch))
      else ch_script ch engine ex)"

text \<open>The result: the executor, the executor at each report, the code of the run and that of the last report.\<close>

definition run_child ::
  "mallocs \<Rightarrow> md5 \<Rightarrow> bytes \<Rightarrow> bytes \<Rightarrow> child \<Rightarrow> task \<Rightarrow> executor \<Rightarrow> (executor \<times> executor list \<times> int \<times> int) option" where
  "run_child al context node_id app_key ch t ex = do {
     engine \<leftarrow> tk_engine t;
     (ex, start) \<leftarrow> (if bit (tk_sync_mask t) 1
                   then do {
                     let ex = sarah_executor_set_status ex 1 0;
                     (ex', _) \<leftarrow> sarah_executor_sync_status (call 0 al) context (ch_start ch) node_id app_key ex;
                     Some (ex', [ex]) }
                   else Some (ex, []));
     (ex, errno) \<leftarrow> dostring (malloc (call 1 al)) ch engine ex;
     let (ex, m) = (if errno = 0 then (sarah_executor_set_status ex 2 1, 3)
                    else (sarah_executor_set_status ex (- 1) (ex_progress ex), 0));
     (if bit (tk_sync_mask t) m
      then do {
        (ex', s) \<leftarrow> sarah_executor_sync_status (call 2 al) context (ch_finish ch) node_id app_key ex;
        Some (ex', start @ [ex], errno, s) }
      else Some (ex, start, errno, - 1)) }"

section \<open>Lemmas\<close>

lemma update_short: "cel_md5_update p c (int (length c)) = Some p' \<Longrightarrow> length c < 2 ^ 28"
  by (auto simp: cel_md5_update_def split: if_splits)

lemma chunks_short: "md5_chunks p cs = Some p' \<Longrightarrow> \<forall>c \<in> set cs. length c < 2 ^ 28"
  by (induction cs arbitrary: p) (auto split: bind_splits dest: update_short)

lemma valid_signed:
  assumes "sarah_task_validity context node_id t = Some 0" "length (md_buf context) = 64"
  obtains cmd engine where "tk_cmd_text t = Some cmd" "tk_engine t = Some engine"
    "tk_sign t = Some (md5_hex (signed_text node_id cmd engine (tk_created_at t)))"
proof -
  let ?d = "ten_digits (tk_created_at t)"
  obtain seed cmd engine p p' dg ms sg where r:
    "blit (replicate 11 0) 0 (?d @ [0]) (length ?d + 1) = Some seed" "tk_cmd_text t = Some cmd" "tk_engine t = Some engine"
    "md5_chunks (cel_md5_init context) [node_id, cmd, engine, cstr seed] = Some p" "cel_md5_final p = Some (p', dg)"
    "cel_md5_print dg (replicate 33 0) = Some ms" "tk_sign t = Some sg" "sg = cstr ms"
    using assms(1) unfolding sarah_task_validity_def
    by (auto simp del: md5_chunks.simps split: bind_splits if_splits)
  have "10 \<le> length ?d" by (simp add: ten_digits_def length_pad_left)
  with r(1) have "seed = ?d @ [0]" by (auto simp: blit_iff)
  then have seed: "cstr seed = ?d" by simp
  let ?parts = "[node_id, cmd, engine, ?d]"
  have "\<forall>c \<in> set ?parts. length c < 2 ^ 28" using chunks_short [OF r(4)] seed by simp
  then obtain q q' where "md5_chunks (cel_md5_init context) ?parts = Some q" "cel_md5_final q = Some (q', md5_spec (concat ?parts))"
    using md5_parts_law [OF assms(2)] by blast
  with r(4,5) seed have "dg = md5_spec (concat ?parts)" by (simp del: md5_chunks.simps)
  with r(6) md5_print_law [of "replicate 33 0" "concat ?parts"] have "cstr ms = md5_hex (concat ?parts)" by simp
  with r(7,8) have "tk_sign t = Some (md5_hex (signed_text node_id cmd engine (tk_created_at t)))"
    by (simp add: signed_text_def)
  with r(2,3) show ?thesis by (rule that)
qed

text \<open>C1: a task is started only when the booter lets the executor work, the task came complete out of an
  accepted reply, its signature is the MD5 of its text, and its engine is one of the three known ones; a
  round starts at most one task and none otherwise.\<close>

theorem started_task_is_signed:
  assumes "executor_round al context node_id pl pid status p sb ex = Some (p', sb', ex', Some t, l)"
    and "length (md_buf context) = 64"
  shows "status \<noteq> EXIT \<and> status \<noteq> STOP \<and> 0 \<le> pid \<and> po_duration p' = 1 \<and> l = Sleep 1
    \<and> (\<exists>j. cJSON_Parse (call 1 al) (pl_round pl) (Some (sb_buffer sb')) = Some (Some j) \<and> reply_check j = Some (Inr ())
         \<and> sarah_task_init_from_json new_task_entry (cJSON_GetObjectItem (Some j) (bytes_of ''data'')) = Some (t, 0))
    \<and> (\<exists>text engine. tk_cmd_text t = Some text \<and> tk_engine t = Some engine \<and> engine \<in> set engines
         \<and> tk_sign t = Some (md5_hex (signed_text node_id text engine (tk_created_at t))))"
proof -
  obtain ex1 engine where r: "status \<noteq> EXIT" "status \<noteq> STOP" "pull_remote_task al pl sb = Some (sb', 0, Some t)"
    "sarah_task_validity context node_id t = Some 0" "tk_engine t = Some engine" "engine \<in> set engines" "0 \<le> pid"
    "p' = p\<lparr>po_duration := 1\<rparr>" "l = Sleep 1"
    using assms(1) unfolding executor_round_def
    by (auto simp: Let_def split: if_splits bind_splits prod.splits)
  have "\<exists>j. cJSON_Parse (call 1 al) (pl_round pl) (Some (sb_buffer sb')) = Some (Some j) \<and> reply_check j = Some (Inr ())
     \<and> sarah_task_init_from_json new_task_entry (cJSON_GetObjectItem (Some j) (bytes_of ''data'')) = Some (t, 0)"
    using r(3) unfolding pull_remote_task_def
    by (auto split: if_splits bind_splits prod.splits option.splits sum.splits)
  moreover obtain cmd engine' where "tk_cmd_text t = Some cmd" "tk_engine t = Some engine'"
    "tk_sign t = Some (md5_hex (signed_text node_id cmd engine' (tk_created_at t)))"
    using valid_signed [OF r(4) assms(2)] .
  ultimately show ?thesis using r by auto
qed

text \<open>A reply with a signed task, and the task in it.\<close>

definition signed_task :: task where
  "signed_task = new_task_entry\<lparr>tk_id := 42, tk_engine := Some (bytes_of ''bash''), tk_cmd_text := Some (bytes_of ''date''),
     tk_sign := Some (md5_hex (signed_text (bytes_of ''n1'') (bytes_of ''date'') (bytes_of ''bash'') 0))\<rparr>"

definition text_item :: "string \<Rightarrow> bytes \<Rightarrow> fp json" where
  "text_item k v = Json (Some (bytes_of k)) cJSON_String (Some v) 0 (Fin 0) []"

definition signed_data :: "fp json" where
  "signed_data = Json (Some (bytes_of ''data'')) cJSON_Object None 0 (Fin 0)
     [text_item ''id_str'' (bytes_of ''42''), text_item ''engine'' (bytes_of ''bash''), text_item ''cmd_text'' (bytes_of ''date''),
      text_item ''sign'' (md5_hex (signed_text (bytes_of ''n1'') (bytes_of ''date'') (bytes_of ''bash'') 0))]"

definition signed_reply :: "fp json" where
  "signed_reply = Json None cJSON_Object None 0 (Fin 0) [Json (Some (bytes_of ''errno'')) cJSON_Number None 0 (Fin 0) [], signed_data]"

definition signed_pull :: pull where
  "signed_pull = \<lparr>pl_curl = True, pl_chunks = [render id False 0 signed_reply], pl_perform = True, pl_code = 200, pl_round = id\<rparr>"

lemma signed_reply_read:
  "parsed plenty id (render id False 0 signed_reply) = Some signed_reply" "length (render id False 0 signed_reply) < 2 ^ 30"
proof -
  let ?m = "md5_hex (signed_text (bytes_of ''n1'') (bytes_of ''date'') (bytes_of ''bash'') 0)"
  have z: "\<exists>i. \<bar>i\<bar> < 10 ^ 15 \<and> (Fin 0 :: fp) = Fin (rat_of_int i)" by (rule exI [of _ 0]) simp
  have "numbers_back id signed_reply"
    by (rule integers_back) (use z in \<open>simp_all add: signed_reply_def signed_data_def text_item_def\<close>)
  moreover have "plain signed_reply"
    by (simp add: signed_reply_def signed_data_def text_item_def int_of_double_def saturated_def bytes_of_def)
  ultimately show "parsed plenty id (render id False 0 signed_reply) = Some signed_reply"
    by (intro parsed_render) (simp_all add: plenty_def signed_reply_def signed_data_def text_item_def)
  have "number_string id (Fin 0) = signed_digits 0" using integer_text(1) [of 0 id] by (simp add: number_string_def)
  moreover have "length (concat (map escape (takeWhile (\<lambda>b. b \<noteq> 0) ?m))) \<le> 6 * 32"
    using escaped_length [of "takeWhile (\<lambda>b. b \<noteq> 0) ?m"] length_takeWhile_le [of "\<lambda>b. b \<noteq> 0" ?m] by simp
  ultimately show "length (render id False 0 signed_reply) < 2 ^ 30"
    by (simp add: signed_reply_def signed_data_def text_item_def quoted_def cstr_def escape_def escape_letter_def bytes_of_def
      hex2_def hex_digit_def signed_digits_def dec_digits_rec)
qed

lemma signed_items:
  "cJSON_GetObjectItem (Some signed_data) (bytes_of ''id_str'') = Some (text_item ''id_str'' (bytes_of ''42''))"
  "cJSON_GetObjectItem (Some signed_data) (bytes_of ''engine'') = Some (text_item ''engine'' (bytes_of ''bash''))"
  "cJSON_GetObjectItem (Some signed_data) (bytes_of ''cmd_text'') = Some (text_item ''cmd_text'' (bytes_of ''date''))"
  "cJSON_GetObjectItem (Some signed_data) (bytes_of ''sign'') = Some (text_item ''sign''
     (md5_hex (signed_text (bytes_of ''n1'') (bytes_of ''date'') (bytes_of ''bash'') 0)))"
  "cJSON_GetObjectItem (Some signed_data) (bytes_of ''cmd_argv'') = None"
  "cJSON_GetObjectItem (Some signed_data) (bytes_of ''created_at'') = None"
  "cJSON_GetObjectItem (Some signed_data) (bytes_of ''sync_mask'') = None"
  by (simp_all add: cJSON_GetObjectItem_def signed_data_def text_item_def bytes_of_def to_lower_def)

lemma signed_init: "sarah_task_init_from_json new_task_entry (Some signed_data) = Some (signed_task, 0)"
proof -
  have "strtoll (bytes_of ''42'') = 42"
    by (simp add: strtoll_def c_integer_def bytes_of_def is_space_def is_digit_def decimal_def)
  then show ?thesis
    unfolding sarah_task_init_from_json_def signed_items
    by (simp add: text_item_def dup_value_def new_task_entry_def signed_task_def)
qed

lemma signed_pulled:
  assumes "sb_wf sb"
  obtains sb' where "pull_remote_task plenty signed_pull sb = Some (sb', 0, Some signed_task)"
proof -
  obtain sb1 where sb1: "cel_strbuff_clear sb = Some (sb1, 1)" "sb_wf sb1" "content sb1 = []" using clear_content [OF assms] by blast
  have put: "(\<lambda>sb b. cel_strbuff_append_from (\<lambda>_. True) sb b (length b) 1) = strbuff_put" by (simp add: strbuff_put_def fun_eq_iff)
  obtain sb' where sb: "deliver (post_recv_callback strbuff_put) sb1 [render id False 0 signed_reply] = Some (sb', True)"
    "sb_wf sb'" "content sb' = render id False 0 signed_reply"
    using sink.deliver_all [OF sb1(2), of "[render id False 0 signed_reply]"] signed_reply_read(2) sb1(3) by auto
  have "cstr (sb_buffer sb') = render id False 0 signed_reply" using sb_wf_cstr(2) [OF sb(2)] sb(3) by (simp add: render_no_nul)
  then have p: "cJSON_Parse plenty id (Some (sb_buffer sb')) = Some (Some signed_reply)"
    using parse_block [OF sb_wf_cstr(1) [OF sb(2)]] signed_reply_read(1) by simp
  have "cJSON_GetObjectItem (Some signed_reply) (bytes_of ''data'') = Some signed_data" "reply_check signed_reply = Some (Inr ())"
    by (simp_all add: cJSON_GetObjectItem_def cJSON_HasObjectItem_def reply_check_def signed_reply_def signed_data_def bytes_of_def to_lower_def)
  then have "pull_remote_task plenty signed_pull sb = Some (sb', 0, Some signed_task)"
    using sb1(1) sb(1) p signed_init unfolding pull_remote_task_def plenty_calls put by (simp add: signed_pull_def del: deliver.simps)
  then show ?thesis by (rule that)
qed

lemma started_task_is_signed_witness:
  "\<exists>p sb ex t l. executor_round plenty fresh_md5 (bytes_of ''n1'') signed_pull 99 RUNNING \<lparr>po_empty = 0, po_duration = 3\<rparr>
       sample_buffer sample_executor = Some (p, sb, ex, Some t, l) \<and> l = Sleep 1"
proof -
  have wf: "sb_wf sample_buffer" using sample_buffer_wf by simp
  obtain sb where sb: "pull_remote_task plenty signed_pull sample_buffer = Some (sb, 0, Some signed_task)"
    using signed_pulled [OF wf] .
  obtain c where c: "cel_strbuff_clear sample_buffer = Some (c, 1)" using clear_content [OF wf] by blast
  have ctx: "length (md_buf fresh_md5) = 64" by (simp add: fresh_md5_def cel_md5_init_def)
  have "sarah_task_validity fresh_md5 (bytes_of ''n1'') signed_task = Some 0"
    using validity_law [of fresh_md5 signed_task "bytes_of ''date''" "bytes_of ''bash''" _ "bytes_of ''n1''", OF ctx]
    by (simp add: signed_task_def new_task_entry_def)
  then obtain p ex l where r: "executor_round plenty fresh_md5 (bytes_of ''n1'') signed_pull 99 RUNNING
      \<lparr>po_empty = 0, po_duration = 3\<rparr> sample_buffer sample_executor = Some (p, sb, ex, Some signed_task, l)"
    using sb c
    by (simp add: executor_round_def sarah_executor_clear_def sample_executor_def)
      (simp add: signed_task_def new_task_entry_def engines_def)
  from started_task_is_signed [OF r ctx] r show ?thesis by blast
qed

section \<open>A run of the child\<close>

text \<open>A report whose numbers are within bounds can be printed, in a length that its two texts determine.\<close>

lemma report_fits:
  assumes "\<bar>ex_status ex\<bar> < 2 ^ 31" "\<bar>ex_errno ex\<bar> < 2 ^ 31" "ex_attach ex < 2 ^ 32" "double_range (ex_progress ex)"
    and "double_range (sarah_version R)"
    and "length (content (ex_error_buffer ex)) + length (content (ex_data_buffer ex)) \<le> 2 ^ 25"
  shows "doubles (report_doc R ex)" "length (render (r_double R) False 0 (report_doc R ex)) < 2 ^ 28"
proof -
  have int_range: "double_range (rat_of_int i)" if "\<bar>i\<bar> < 2 ^ 32" for i
  proof (rule double_range_small)
    show "rat_of_int i = 0 \<or> 1 \<le> \<bar>rat_of_int i\<bar>" by (cases "i = 0") (auto simp flip: of_int_abs)
    have "\<bar>rat_of_int i\<bar> < 2 ^ 32" using that by (metis of_int_abs of_int_less_iff of_int_power of_int_numeral)
    then show "\<bar>rat_of_int i\<bar> \<le> 10 ^ 20" by simp
  qed
  have d: "double_range (rat_of_int (ex_status ex))" "double_range (rat_of_int (ex_errno ex))" "double_range (rat_of_nat (ex_attach ex))"
    "double_range 0"
    using int_range [of "ex_status ex"] int_range [of "ex_errno ex"] int_range [of "int (ex_attach ex)"] int_range [of 0] assms(1-3) by simp_all
  then show "doubles (report_doc R ex)"
    using assms(4,5) by (simp add: report_doc_def number_member_def text_member_def doubles_def is_double_def)
  have n: "length (number_string (r_double R) (Fin q)) < 26" if "double_range q" for q
    using that by (intro number_string_length) (simp add: is_double_def)
  have k: "length (quoted (Some (bytes_of w))) < 100" if "length w < 16" for w
    using quoted_length [of "bytes_of w"] that by simp
  note keys = k [of "''version''"] k [of "''data''"] k [of "''status''"] k [of "''progress''"] k [of "''errno''"]
    k [of "''attach''"] k [of "''res_error''"] k [of "''res_data''"]
  have t: "length (quoted (Some (cstr s))) \<le> 6 * length s + 2" for s
    using quoted_length [of "cstr s"] length_takeWhile_le [of "\<lambda>b. b \<noteq> 0" s] by (simp add: cstr_def)
  have "length (render (r_double R) False 0 (report_doc R ex)) < 2000 + 6 * length (content (ex_error_buffer ex))
      + 6 * length (content (ex_data_buffer ex))"
    using n [OF d(1)] n [OF d(2)] n [OF d(3)] n [OF assms(4)] n [OF assms(5)] keys t [of "content (ex_error_buffer ex)"]
      t [of "content (ex_data_buffer ex)"]
    by (simp add: report_doc_def number_member_def text_member_def)
  then show "length (render (r_double R) False 0 (report_doc R ex)) < 2 ^ 28" using assms(6) by simp
qed

text \<open>An executor of the node \<open>node_id\<close> with the task \<open>t\<close>, ready to report.\<close>

definition ready :: "bytes \<Rightarrow> bytes \<Rightarrow> task \<Rightarrow> executor \<Rightarrow> bool" where
  "ready node_id app_key t ex \<longleftrightarrow> url_shape node_id app_key ex \<and> ex_task ex = Some t
     \<and> sb_wf (ex_error_buffer ex) \<and> sb_wf (ex_data_buffer ex) \<and> sb_wf (ex_res_buffer ex)
     \<and> \<bar>ex_errno ex\<bar> < 2 ^ 31 \<and> ex_attach ex < 2 ^ 32
     \<and> length (content (ex_error_buffer ex)) + length (content (ex_data_buffer ex)) \<le> 2 ^ 25"

lemma report_sent:
  assumes "ready node_id app_key t ex" "\<bar>ex_status ex\<bar> < 2 ^ 31" "double_range (ex_progress ex)" "double_range (sarah_version (rq_round rq))"
    and "tk_id t < 2 ^ 63" "rq_curl rq" "length (md_buf context) = 64" "length node_id < 2 ^ 28" "length app_key < 2 ^ 28"
      "no_nul node_id" "no_nul app_key" "length (content (ex_res_buffer ex) @ concat (rq_chunks rq)) < 2 ^ 30"
    and "sync_code rq (content (ex_res_buffer ex) @ concat (rq_chunks rq)) = Some code"
  obtains url sb where "sarah_executor_sync_status plenty context rq node_id app_key ex = Some (ex\<lparr>ex_sync_url := Some url, ex_res_buffer := sb\<rparr>, code)"
    "content sb = content (ex_res_buffer ex) @ concat (rq_chunks rq)" "ready node_id app_key t (ex\<lparr>ex_sync_url := Some url, ex_res_buffer := sb\<rparr>)"
proof -
  have r: "url_shape node_id app_key ex" "ex_task ex = Some t" "sb_wf (ex_error_buffer ex)" "sb_wf (ex_data_buffer ex)"
    "sb_wf (ex_res_buffer ex)" "\<bar>ex_errno ex\<bar> < 2 ^ 31" "ex_attach ex < 2 ^ 32"
    "length (content (ex_error_buffer ex)) + length (content (ex_data_buffer ex)) \<le> 2 ^ 25"
    using assms(1) by (auto simp: ready_def)
  note fits = report_fits [OF assms(2) r(6,7) assms(3,4) r(8)]
  have sum: "length (content (ex_res_buffer ex)) + length (concat (rq_chunks rq)) < 2 ^ 30" using assms(12) by simp
  obtain url sb where s: "url_shape node_id app_key (ex\<lparr>ex_sync_url := Some url, ex_res_buffer := sb\<rparr>)" "sb_wf sb"
    "content sb = content (ex_res_buffer ex) @ concat (rq_chunks rq)"
    "sarah_executor_sync_status plenty context rq node_id app_key ex
      = map_option (\<lambda>code. (ex\<lparr>ex_sync_url := Some url, ex_res_buffer := sb\<rparr>, code)) (sync_code rq (content sb))"
    using sync_law [OF r(1,2) assms(5-7) r(3,4) refl fits(1) assms(8) fits(2) assms(9-11) r(5) sum] by blast
  show ?thesis by (rule that [where url = url and sb = sb]) (use s assms(13) r in \<open>simp_all add: ready_def\<close>)
qed

text \<open>What a report shows.\<close>

definition shows_result :: "executor \<Rightarrow> int \<times> rat \<times> bytes" where
  "shows_result ex = (ex_status ex, ex_progress ex, content (ex_data_buffer ex))"

text \<open>The run in the middle, from its two ways.\<close>

lemma bash_ran:
  assumes "ready node_id app_key t ex" "ex_max_datalen ex < 2 ^ 24" "length (content (ex_data_buffer ex)) \<le> ex_max_datalen ex"
    and "length (content (ex_error_buffer ex)) \<le> 2 ^ 24"
  obtains ex' where "dostring (\<lambda>_. True) ch (bytes_of ''bash'') ex = Some (ex', if ch_output ch = None then 1 else 0)"
    "ready node_id app_key t ex'" "ex_progress ex' = ex_progress ex" "ex_res_buffer ex' = ex_res_buffer ex"
    "content (ex_data_buffer ex') = (case ch_output ch of None \<Rightarrow> content (ex_data_buffer ex)
       | Some out \<Rightarrow> take (ex_max_datalen ex) (content (ex_data_buffer ex) @ read_text out))"
proof (cases "ch_output ch")
  case None
  then show ?thesis using assms(1) by (intro that [of ex]) (simp_all add: dostring_def script_bash_dostring_def)
next
  case (Some out)
  have h: "holds_data ex (content (ex_data_buffer ex))" using assms(1) by (simp add: holds_data_def ready_def)
  have "ex_max_datalen ex < 2 ^ 30" using assms(2) by simp
  then obtain d where d: "bash_loop (\<lambda>_. True) ex out = Some (ex\<lparr>ex_data_buffer := d\<rparr>)"
    "holds_data (ex\<lparr>ex_data_buffer := d\<rparr>) (take (ex_max_datalen ex) (content (ex_data_buffer ex) @ read_text out))"
    using bash_loop_law [OF h assms(3), of "\<lambda>_. True" out] by auto
  then have w: "sb_wf d" "content d = take (ex_max_datalen ex) (content (ex_data_buffer ex) @ read_text out)"
    by (simp_all add: holds_data_def)
  have "length (content d) \<le> ex_max_datalen ex" by (simp add: w(2))
  then have "length (content (ex_error_buffer ex)) + length (content d) \<le> 2 ^ 25" using assms(2,4) by simp
  then have "ready node_id app_key t (ex\<lparr>ex_data_buffer := d\<rparr>)" using assms(1) w(1) by (simp add: ready_def url_shape_def)
  with d(1) w(2) Some show ?thesis
    by (intro that [of "ex\<lparr>ex_data_buffer := d\<rparr>"]) (simp_all add: dostring_def script_bash_dostring_def)
qed

lemma ready_status: "ready node_id app_key t (sarah_executor_set_status ex s p) = ready node_id app_key t ex"
  by (simp add: ready_def sarah_executor_set_status_def url_shape_def)

text \<open>C39: what the child of a shell task does, with enough memory.  The start report, made when its bit of \<open>sync_mask\<close> is set, says
  that the task executes, with no progress; then the command runs; the last report says completed with full progress and
  shows the data buffer with what the command wrote behind it, up to \<open>max_datalen\<close> bytes, or, when the command could not
  be started, the status error and nothing new; it is made when the bit for its kind is set.  The last code is that of the reply
  to the last report, in which the first reply stands in front of the second, and -1 when none was made.\<close>

theorem child_reports:
  assumes "ready node_id app_key t ex" "tk_engine t = Some (bytes_of ''bash'')" "tk_id t < 2 ^ 63" "length (md_buf context) = 64"
    and "ex_max_datalen ex < 2 ^ 24" "length (content (ex_data_buffer ex)) \<le> ex_max_datalen ex"
      "length (content (ex_error_buffer ex)) \<le> 2 ^ 24" "double_range (ex_progress ex)"
    and "length node_id < 2 ^ 28" "length app_key < 2 ^ 28" "no_nul node_id" "no_nul app_key"
    and "rq_curl (ch_start ch)" "rq_curl (ch_finish ch)" "double_range (sarah_version (rq_round (ch_start ch)))"
      "double_range (sarah_version (rq_round (ch_finish ch)))"
    and "replies = content (ex_res_buffer ex) @ (if bit (tk_sync_mask t) 1 then concat (rq_chunks (ch_start ch)) else [])"
      "length (replies @ concat (rq_chunks (ch_finish ch))) < 2 ^ 30"
      "sync_code (ch_start ch) replies = Some first" "sync_code (ch_finish ch) (replies @ concat (rq_chunks (ch_finish ch))) = Some final"
  shows "\<exists>ex' reports s. run_child plenty context node_id app_key ch t ex = Some (ex', reports, if ch_output ch = None then 1 else 0, s)
    \<and> map shows_result reports =
        (if bit (tk_sync_mask t) 1 then [(1, 0, content (ex_data_buffer ex))] else [])
        @ (case ch_output ch of
             None \<Rightarrow> if bit (tk_sync_mask t) 0
                     then [(- 1, if bit (tk_sync_mask t) 1 then 0 else ex_progress ex, content (ex_data_buffer ex))] else []
           | Some out \<Rightarrow> if bit (tk_sync_mask t) 3
                     then [(2, 1, take (ex_max_datalen ex) (content (ex_data_buffer ex) @ read_text out))] else [])
    \<and> s = (if bit (tk_sync_mask t) (if ch_output ch = None then 0 else 3) then final else - 1)
    \<and> ready node_id app_key t ex'"
proof -
  let ?b = "bit (tk_sync_mask t) 1" and ?m = "if ch_output ch = None then 0 else 3"
  let ?e1 = "sarah_executor_set_status ex 1 0"
  have r1: "ready node_id app_key t ?e1" using assms(1) by (simp add: ready_status)
  have pr: "double_range 0" "double_range 1" by (rule double_range_small; simp)+
  obtain a start where a: "(if ?b then do { (ex', _) \<leftarrow> sarah_executor_sync_status plenty context (ch_start ch) node_id app_key ?e1;
        Some (ex', [?e1]) } else Some (ex, [])) = Some (a, start)"
    and ra: "ready node_id app_key t a" "content (ex_res_buffer a) = replies" "ex_data_buffer a = ex_data_buffer ex"
      "ex_error_buffer a = ex_error_buffer ex" "ex_max_datalen a = ex_max_datalen ex" "ex_progress a = (if ?b then 0 else ex_progress ex)"
      "start = (if ?b then [?e1] else [])"
  proof (cases ?b)
    case True
    have small: "length (content (ex_res_buffer ?e1) @ concat (rq_chunks (ch_start ch))) < 2 ^ 30"
      using assms(17,18) True by (simp add: sarah_executor_set_status_def)
    have code: "sync_code (ch_start ch) (content (ex_res_buffer ?e1) @ concat (rq_chunks (ch_start ch))) = Some first"
      using assms(17,19) True by (simp add: sarah_executor_set_status_def)
    have st: "\<bar>ex_status ?e1\<bar> < 2 ^ 31" "double_range (ex_progress ?e1)" using pr by (simp_all add: sarah_executor_set_status_def)
    obtain url sb where "sarah_executor_sync_status plenty context (ch_start ch) node_id app_key ?e1
        = Some (?e1\<lparr>ex_sync_url := Some url, ex_res_buffer := sb\<rparr>, first)"
      "content sb = content (ex_res_buffer ?e1) @ concat (rq_chunks (ch_start ch))"
      "ready node_id app_key t (?e1\<lparr>ex_sync_url := Some url, ex_res_buffer := sb\<rparr>)"
      using report_sent [OF r1 st assms(15,3,13,4,9-12) small code] .
    then show ?thesis using True assms(17)
      by (intro that [of "?e1\<lparr>ex_sync_url := Some url, ex_res_buffer := sb\<rparr>" "[?e1]"]) (simp_all add: sarah_executor_set_status_def)
  next
    case False
    then show ?thesis using assms(1,17) by (intro that [of ex "[]"]) simp_all
  qed
  have b: "ex_max_datalen a < 2 ^ 24" "length (content (ex_data_buffer a)) \<le> ex_max_datalen a" "length (content (ex_error_buffer a)) \<le> 2 ^ 24"
    using assms(5-7) ra by simp_all
  obtain c where c: "dostring (\<lambda>_. True) ch (bytes_of ''bash'') a = Some (c, if ch_output ch = None then 1 else 0)"
    "ready node_id app_key t c" "ex_progress c = ex_progress a" "ex_res_buffer c = ex_res_buffer a"
    "content (ex_data_buffer c) = (case ch_output ch of None \<Rightarrow> content (ex_data_buffer a)
       | Some out \<Rightarrow> take (ex_max_datalen a) (content (ex_data_buffer a) @ read_text out))"
    using bash_ran [OF ra(1) b] .
  let ?d = "if ch_output ch = None then sarah_executor_set_status c (- 1) (ex_progress c) else sarah_executor_set_status c 2 1"
  have rd: "ready node_id app_key t ?d" "\<bar>ex_status ?d\<bar> < 2 ^ 31" "double_range (ex_progress ?d)"
    using c(2,3) ra(6) assms(8) pr by (simp_all add: ready_status) (simp_all add: sarah_executor_set_status_def)
  have rb: "content (ex_res_buffer ?d) = replies" using c(4) ra(2) by (simp add: sarah_executor_set_status_def)
  obtain url sb where e: "sarah_executor_sync_status plenty context (ch_finish ch) node_id app_key ?d
      = Some (?d\<lparr>ex_sync_url := Some url, ex_res_buffer := sb\<rparr>, final)"
    "ready node_id app_key t (?d\<lparr>ex_sync_url := Some url, ex_res_buffer := sb\<rparr>)"
    using report_sent [OF rd assms(16,3,14,4,9-12), unfolded rb, OF assms(18,20)] by blast
  have run: "run_child plenty context node_id app_key ch t ex =
      (if bit (tk_sync_mask t) ?m
       then Some (?d\<lparr>ex_sync_url := Some url, ex_res_buffer := sb\<rparr>, start @ [?d], if ch_output ch = None then 1 else 0, final)
       else Some (?d, start, if ch_output ch = None then 1 else 0, - 1))"
    unfolding run_child_def assms(2) plenty_calls Let_def bind.bind_lunit a prod.case c(1)
    using e(1) by (cases "ch_output ch") simp_all
  have shown: "shows_result ?e1 = (1, 0, content (ex_data_buffer ex))"
    "shows_result ?d = (case ch_output ch of None \<Rightarrow> (- 1, if ?b then 0 else ex_progress ex, content (ex_data_buffer ex))
       | Some out \<Rightarrow> (2, 1, take (ex_max_datalen ex) (content (ex_data_buffer ex) @ read_text out)))"
    using c(3,5) ra(3,5,6) by (simp_all add: shows_result_def sarah_executor_set_status_def split: option.split)
  show ?thesis
    using e(2) rd(1) shown ra(7) unfolding run by (cases "ch_output ch") auto
qed

text \<open>A task that reports its start and its end, and requests that reach nobody.\<close>

definition reporting_task :: task where
  "reporting_task = sample_task\<lparr>tk_sync_mask := 10, tk_engine := Some (bytes_of ''bash'')\<rparr>"

definition no_answer :: request where
  "no_answer = \<lparr>rq_curl = True, rq_fresh = 7, rq_chunks = [], rq_perform = False, rq_code = 0, rq_round = exact\<rparr>"

definition date_child :: child where
  "date_child = \<lparr>ch_start = no_answer, ch_finish = no_answer, ch_output = Some (bytes_of ''date''), ch_script = (\<lambda>_ _. None)\<rparr>"

lemma child_reports_witness:
  "\<exists>ex' reports s. run_child plenty fresh_md5 (bytes_of ''n1'') (bytes_of ''k'') date_child reporting_task
       (sample_executor\<lparr>ex_task := Some reporting_task\<rparr>) = Some (ex', reports, 0, s)
     \<and> map shows_result reports = [(1, 0, [104, 105]), (2, 1, [104, 105, 100, 97])] \<and> s = 3"
proof -
  let ?ex = "sample_executor\<lparr>ex_task := Some reporting_task\<rparr>"
  have sel: "ex_error_buffer ?ex = sample_buffer" "ex_data_buffer ?ex = sample_buffer" "ex_res_buffer ?ex = sample_buffer"
    "ex_max_datalen ?ex = 4" "ex_progress ?ex = 0" "content sample_buffer = [104, 105]" "sb_wf sample_buffer"
    using sample_buffer_wf by (simp_all add: sample_executor_def)
  have "url_shape (bytes_of ''n1'') (bytes_of ''k'') ?ex"
    unfolding url_shape_def
    by (intro exI [of _ sign_holder] exI [of _ cmd_id_holder]) (simp add: sample_executor_def sign_holder_def cmd_id_holder_def)
  then have ready: "ready (bytes_of ''n1'') (bytes_of ''k'') reporting_task ?ex"
    using sel unfolding ready_def by (simp add: sample_executor_def)
  have t: "tk_engine reporting_task = Some (bytes_of ''bash'')" "tk_id reporting_task < 2 ^ 63" "tk_sync_mask reporting_task = 10"
    by (simp_all add: reporting_task_def sample_task_def new_task_entry_def)
  have v: "double_range (sarah_version exact)" "double_range 0"
    unfolding sarah_version_def exact_def by (rule double_range_small; simp)+
  have ch: "ch_start date_child = no_answer" "ch_finish date_child = no_answer" "ch_output date_child = Some (bytes_of ''date'')"
    "rq_curl no_answer" "rq_chunks no_answer = []" "rq_round no_answer = exact" "sync_code no_answer rs = Some 3" for rs
    by (simp_all add: date_child_def no_answer_def sync_code_def)
  have mask: "bit (10 :: nat) 1" "bit (10 :: nat) 3" by (simp_all add: bit_iff_odd)
  have out: "read_text [100, 97, 116, 101] = [100, 97, 116, 101]" by (rule read_text_plain) simp
  have ctx: "length (md_buf fresh_md5) = 64" by (simp add: fresh_md5_def cel_md5_init_def)
  have nn: "no_nul (bytes_of ''n1'')" "no_nul (bytes_of ''k'')" "length (bytes_of ''n1'') < 2 ^ 28" "length (bytes_of ''k'') < 2 ^ 28"
    by (simp_all add: bytes_of_def)
  have small: "ex_max_datalen ?ex < 2 ^ 24" "length (content (ex_data_buffer ?ex)) \<le> ex_max_datalen ?ex"
    "length (content (ex_error_buffer ?ex)) \<le> 2 ^ 24" "double_range (ex_progress ?ex)"
    unfolding sel by (simp_all add: v)
  have "\<exists>ex' reports s. run_child plenty fresh_md5 (bytes_of ''n1'') (bytes_of ''k'') date_child reporting_task ?ex
      = Some (ex', reports, if ch_output date_child = None then 1 else 0, s)
    \<and> map shows_result reports = (if bit (tk_sync_mask reporting_task) 1 then [(1, 0, content (ex_data_buffer ?ex))] else [])
        @ (case ch_output date_child of
             None \<Rightarrow> if bit (tk_sync_mask reporting_task) 0
                     then [(- 1, if bit (tk_sync_mask reporting_task) 1 then 0 else ex_progress ?ex, content (ex_data_buffer ?ex))] else []
           | Some out \<Rightarrow> if bit (tk_sync_mask reporting_task) 3
                     then [(2, 1, take (ex_max_datalen ?ex) (content (ex_data_buffer ?ex) @ read_text out))] else [])
    \<and> s = (if bit (tk_sync_mask reporting_task) (if ch_output date_child = None then 0 else 3) then 3 else - 1)
    \<and> ready (bytes_of ''n1'') (bytes_of ''k'') reporting_task ex'"
    by (rule child_reports [OF ready t(1,2) ctx small nn(3,4,1,2), where replies = "[104, 105]" and first = 3])
      (simp_all add: ch sel v)
  then show ?thesis using mask unfolding ch(3) t(3) sel by (auto simp: out bytes_of_def)
qed

end
