(* ===== verification/Supervisor.thy ===== *)
theory Supervisor
  imports Booter
begin

text \<open>
  The supervision loop of \<open>main\<close> in \<open>src/main/sarah.c\<close>.

  The state is the part of the program and of the kernel the loop works on: the booter status, the
  pids in the application table, the children that run, the children that ended and were not waited
  for, the next pid, whether the next calls of \<open>fork\<close> succeed, and the log of the signals sent and
  the processes waited for.  A failed \<open>fork\<close> leaves the pid \<open>- 1\<close> in the table, which \<open>waitpid\<close> takes
  for any child and \<open>kill\<close> for every process.  The step relation interleaves the rounds of the loop
  with the arrival of signals and the end of children; a round is one step, so that a signal or the end of
  a child falls between two rounds and not into one.

  Shown: every running child belongs to exactly one entry of the table in every reachable state; a
  round reboots the first and the third application and no other; the second and the fourth are never
  rebooted; before the first CONT signal nothing is; what a stop sends.
\<close>

section \<open>Processes\<close>

definition internal_apps :: "bytes list" where
  "internal_apps = map bytes_of [''sarah-smartdisk'', ''sarah-collector'', ''sarah-executor'', ''sarah-updater'']"

datatype event = Kill int sarah_signal | Wait int

record sup =
  su_status :: proc_status
  su_pids :: "int list"
  su_running :: "int set"
  su_dead :: "int list"
  su_next :: int
  su_fork :: "bool list"
  su_log :: "event list"
  su_over :: bool

text \<open>\<open>fork\<close> gives each child a pid no child had before.  A kernel gives a pid again once its process was
  waited for.  The table can then name one process twice: \<open>waitpid(-1)\<close>, which follows a failed \<open>fork\<close>, may
  take the end of a child whose pid stays in another entry.  That case is not part of this model.\<close>

definition sup_fork :: "sup \<Rightarrow> sup \<times> int" where
  "sup_fork s =
     (let s' = s\<lparr>su_fork := tl (su_fork s)\<rparr> in
      if su_fork s \<noteq> [] \<and> \<not> hd (su_fork s) then (s', - 1)
      else (s'\<lparr>su_running := insert (su_next s) (su_running s), su_next := su_next s + 1\<rparr>, su_next s))"

text \<open>\<open>waitpid(pid, NULL, WNOHANG) > 0\<close>.\<close>

definition waitpid_nohang :: "sup \<Rightarrow> int \<Rightarrow> sup \<times> bool" where
  "waitpid_nohang s p =
     (if p = - 1 then (case su_dead s of [] \<Rightarrow> (s, False) | d # ds \<Rightarrow> (s\<lparr>su_dead := ds\<rparr>, True))
      else if p \<in> set (su_dead s) then (s\<lparr>su_dead := remove1 p (su_dead s)\<rparr>, True)
      else (s, False))"

section \<open>The loop\<close>

fun signal_handler :: "proc_status \<Rightarrow> sarah_signal \<Rightarrow> proc_status" where
  "signal_handler st SIGNAL_STOP = STOP"
| "signal_handler st SIGNAL_CONT = RUNNING"
| "signal_handler st SIGNAL_EXIT_01 = EXIT"
| "signal_handler st SIGNAL_EXIT_02 = EXIT"
| "signal_handler st SIGNAL_RESTART = RESTART"
| "signal_handler st SIGNAL_CHECK = st"
| "signal_handler st SIGNAL_KILL = st"

definition boot_app :: "sup \<Rightarrow> nat \<Rightarrow> sup" where
  "boot_app s i = (case sup_fork s of (s, p) \<Rightarrow> s\<lparr>su_pids := (su_pids s)[i := p]\<rparr>)"

text \<open>The loop that starts the applications, \<open>n\<close> of them from index \<open>i\<close>.\<close>

fun start_apps :: "sup \<Rightarrow> nat \<Rightarrow> nat \<Rightarrow> sup" where
  "start_apps s i 0 = s"
| "start_apps s i (Suc n) = start_apps (boot_app s i) (i + 1) n"

definition check_app :: "sup \<Rightarrow> nat \<Rightarrow> sup" where
  "check_app s i =
     (case waitpid_nohang s (su_pids s ! i) of (s, ended) \<Rightarrow> if ended then boot_app s i else s)"

text \<open>The reboot loop increments the index in its body and in its header; \<open>n\<close> is the index of the entry
  without a name that ends the table, behind which it must not look.\<close>

function reboot_loop :: "nat \<Rightarrow> sup \<Rightarrow> nat \<Rightarrow> sup option" where
  "reboot_loop n s i =
     (if i = n then Some s else if n < i then None
      else reboot_loop n (check_app s i) (i + 2))"
  by auto
termination by (relation "measure (\<lambda>(n, s, i). n - i)") auto

declare reboot_loop.simps [simp del]

text \<open>Stopping one application: three tries of the exit signal, then the kill signal.\<close>

fun stop_app :: "(int \<Rightarrow> nat \<Rightarrow> bool) \<Rightarrow> int \<Rightarrow> nat \<Rightarrow> nat \<Rightarrow> event list" where
  "stop_app kill p c 0 = [Kill p SIGNAL_KILL]"
| "stop_app kill p c (Suc n) = Kill p SIGNAL_EXIT_02 # (if kill p c then [] else stop_app kill p (c + 1) n)"

definition stop_all :: "(int \<Rightarrow> nat \<Rightarrow> bool) \<Rightarrow> sup \<Rightarrow> sup" where
  "stop_all kill s =
     s\<lparr>su_log := su_log s @ concat (map (\<lambda>p. stop_app kill p 0 3) (su_pids s)) @ map Wait (su_pids s), su_over := True\<rparr>"

definition monitor_round :: "(int \<Rightarrow> nat \<Rightarrow> bool) \<Rightarrow> sup \<Rightarrow> sup option" where
  "monitor_round kill s =
     (if su_status s = RESTART \<or> su_status s = EXIT then Some (stop_all kill s)
      else if su_status s = RUNNING then reboot_loop (length internal_apps) s 0
      else Some s)"

inductive sup_step :: "(int \<Rightarrow> nat \<Rightarrow> bool) \<Rightarrow> sup \<Rightarrow> sup \<Rightarrow> bool" for kill where
  signalled: "sup_step kill s (s\<lparr>su_status := signal_handler (su_status s) sig\<rparr>)"
| ended: "p \<in> su_running s \<Longrightarrow> sup_step kill s (s\<lparr>su_running := su_running s - {p}, su_dead := su_dead s @ [p]\<rparr>)"
| round: "\<not> su_over s \<Longrightarrow> monitor_round kill s = Some s' \<Longrightarrow> sup_step kill s s'"

inductive sup_reach :: "(int \<Rightarrow> nat \<Rightarrow> bool) \<Rightarrow> sup \<Rightarrow> sup \<Rightarrow> bool" for kill where
  refl: "sup_reach kill s s"
| step: "sup_reach kill s s' \<Longrightarrow> sup_step kill s' s'' \<Longrightarrow> sup_reach kill s s''"

definition sup_init :: "bool list \<Rightarrow> sup" where
  "sup_init forks = start_apps \<lparr>su_status = READY, su_pids = replicate 4 0, su_running = {}, su_dead = [],
     su_next = 1, su_fork = forks, su_log = [], su_over = False\<rparr> 0 (length internal_apps)"

section \<open>The invariant\<close>

text \<open>The pids below 1 are the 0 of an application that was not started and the \<open>- 1\<close> of a failed fork.\<close>

definition sup_inv :: "sup \<Rightarrow> bool" where
  "sup_inv s \<longleftrightarrow> length (su_pids s) = 4 \<and> 1 \<le> su_next s
     \<and> su_running s \<union> set (su_dead s) \<subseteq> {1..<su_next s} \<and> su_running s \<inter> set (su_dead s) = {} \<and> distinct (su_dead s)
     \<and> su_running s \<subseteq> set (su_pids s) \<and> (\<forall>p \<in> set (su_pids s). p < su_next s)
     \<and> (\<forall>i<4. \<forall>j<4. su_pids s ! i = su_pids s ! j \<and> i \<noteq> j \<longrightarrow> su_pids s ! i < 1)"

lemma internal_apps_length [simp]: "length internal_apps = 4"
  by (simp add: internal_apps_def)

text \<open>What a call of \<open>check_app\<close> changes: one entry, to a fresh pid or \<open>- 1\<close>.\<close>

definition sup_ext :: "nat set \<Rightarrow> sup \<Rightarrow> sup \<Rightarrow> bool" where
  "sup_ext I s s' \<longleftrightarrow> su_next s \<le> su_next s' \<and> su_running s \<subseteq> su_running s' \<and> su_running s' \<subseteq> su_running s \<union> {su_next s..}
     \<and> (\<forall>i. i \<notin> I \<longrightarrow> su_pids s' ! i = su_pids s ! i) \<and> length (su_pids s') = length (su_pids s)
     \<and> su_over s' = su_over s \<and> su_log s' = su_log s \<and> su_status s' = su_status s"

lemma sup_ext_trans: "sup_ext I s s' \<Longrightarrow> sup_ext J s' s'' \<Longrightarrow> sup_ext (I \<union> J) s s''"
  unfolding sup_ext_def by (auto; force)

lemma boot_app_inv:
  assumes inv: "sup_inv s" and i: "i < 4" and idle: "su_pids s ! i \<notin> su_running s"
  shows "sup_inv (boot_app s i) \<and> sup_ext {i} s (boot_app s i)
    \<and> (su_fork s = [] \<or> hd (su_fork s) \<longrightarrow> su_pids (boot_app s i) ! i \<in> su_running (boot_app s i))"
proof -
  have keep: "su_running s \<subseteq> set ((su_pids s)[i := p])" for p
  proof
    fix x assume "x \<in> su_running s"
    then obtain j where "j < length (su_pids s)" "su_pids s ! j = x" "j \<noteq> i"
      using inv idle unfolding sup_inv_def by (metis in_set_conv_nth subsetD)
    then show "x \<in> set ((su_pids s)[i := p])"
      by (metis length_list_update nth_list_update_neq nth_mem)
  qed
  have len: "length (su_pids s) = 4" using inv by (simp add: sup_inv_def)
  have lt: "\<forall>x \<in> set ((su_pids s)[i := p]). x < n" if "p < n" "su_next s \<le> n" for p n
    using inv that set_update_subset_insert [of "su_pids s" i p] unfolding sup_inv_def by fastforce
  have lt': "su_pids s ! j < su_next s" if "j < 4" for j
    using inv that unfolding sup_inv_def by (metis nth_mem)
  show ?thesis
  proof (cases "su_fork s \<noteq> [] \<and> \<not> hd (su_fork s)")
    case True
    with inv keep [of "- 1"] lt [of "- 1" "su_next s"] i len lt' show ?thesis
      by (auto simp: boot_app_def sup_fork_def Let_def sup_inv_def sup_ext_def nth_list_update)
  next
    case False
    have "\<not> (su_fork s \<noteq> [] \<and> \<not> hd (su_fork s))" by (rule False)
    moreover have "su_next s \<in> set ((su_pids s)[i := su_next s])"
      using i len by (simp add: set_update_memI)
    moreover have "i \<noteq> j \<Longrightarrow> j < 4 \<Longrightarrow> su_pids s ! j \<noteq> su_next s" for j using lt' [of j] by auto
    moreover note inv keep [of "su_next s"] lt [of "su_next s" "su_next s + 1"] i len
    ultimately show ?thesis
      by (auto simp: boot_app_def sup_fork_def Let_def sup_inv_def sup_ext_def nth_list_update)
  qed
qed

lemma waitpid_inv:
  assumes "sup_inv s" "waitpid_nohang s p = (s', b)"
  shows "sup_inv s' \<and> sup_ext {} s s' \<and> su_pids s' = su_pids s \<and> su_running s' = su_running s
    \<and> su_fork s' = su_fork s \<and> (b \<longrightarrow> p = - 1 \<or> p \<in> set (su_dead s))
    \<and> (p \<in> set (su_dead s) \<and> p \<noteq> - 1 \<longrightarrow> b) \<and> set (su_dead s) - {p} \<subseteq> set (su_dead s') \<union> (if p = - 1 then UNIV else {})"
  using assms
  by (auto simp: waitpid_nohang_def sup_inv_def sup_ext_def split: if_splits list.splits)

lemma check_app_inv:
  assumes inv: "sup_inv s" and i: "i < 4"
  shows "sup_inv (check_app s i) \<and> sup_ext {i} s (check_app s i)
    \<and> (su_pids s ! i \<in> set (su_dead s) \<and> (\<forall>b \<in> set (su_fork s). b)
        \<longrightarrow> su_pids (check_app s i) ! i \<in> su_running (check_app s i))"
proof -
  obtain s1 b where w: "waitpid_nohang s (su_pids s ! i) = (s1, b)" by fastforce
  note law = waitpid_inv [OF inv w]
  have pos: "1 \<le> p" if "p \<in> set (su_dead s)" for p using inv that by (auto simp: sup_inv_def)
  show ?thesis
  proof (cases b)
    case False
    then show ?thesis using law w pos [of "su_pids s ! i"]
      by (auto simp: check_app_def sup_ext_def)
  next
    case True
    then have "su_pids s1 ! i \<notin> su_running s1" using law inv by (auto simp: sup_inv_def)
    with boot_app_inv [of s1 i] law i
    have "sup_inv (boot_app s1 i)" "sup_ext {i} s1 (boot_app s1 i)"
      "su_fork s1 = [] \<or> hd (su_fork s1) \<longrightarrow> su_pids (boot_app s1 i) ! i \<in> su_running (boot_app s1 i)" by auto
    moreover from this(2) law have "sup_ext {i} s (boot_app s1 i)" using sup_ext_trans [of "{}" s s1 "{i}"] by auto
    moreover have "check_app s i = boot_app s1 i" using True w by (simp add: check_app_def)
    moreover have "su_fork s1 = su_fork s" using law by simp
    ultimately show ?thesis by (metis list.set_sel(1))
  qed
qed

lemma boot_app_fork: "set (su_fork (boot_app s i)) \<subseteq> set (su_fork s)"
  by (cases "su_fork s") (auto simp: boot_app_def sup_fork_def Let_def)

lemma check_app_fork: "sup_inv s \<Longrightarrow> set (su_fork (check_app s i)) \<subseteq> set (su_fork s)"
proof -
  assume inv: "sup_inv s"
  obtain s1 b where w: "waitpid_nohang s (su_pids s ! i) = (s1, b)" by fastforce
  have "su_fork s1 = su_fork s" using waitpid_inv [OF inv w] by simp
  with boot_app_fork [of s1 i] w show ?thesis by (simp add: check_app_def)
qed

lemma check_app_dead:
  "sup_inv s \<Longrightarrow> i < 4 \<Longrightarrow> j < 4 \<Longrightarrow> i \<noteq> j \<Longrightarrow> su_pids s ! i \<noteq> - 1 \<Longrightarrow> su_pids s ! j \<in> set (su_dead s) \<Longrightarrow>
   su_pids (check_app s i) ! j \<in> set (su_dead (check_app s i))"
proof -
  assume a: "sup_inv s" "i < 4" "j < 4" "i \<noteq> j" "su_pids s ! i \<noteq> - 1" "su_pids s ! j \<in> set (su_dead s)"
  then have "1 \<le> su_pids s ! j" by (auto simp: sup_inv_def)
  moreover from a have "su_pids s ! i = su_pids s ! j \<longrightarrow> su_pids s ! i < 1" unfolding sup_inv_def by blast
  ultimately have "su_pids s ! j \<noteq> su_pids s ! i" by auto
  with a show ?thesis
    by (auto simp: check_app_def waitpid_nohang_def boot_app_def sup_fork_def Let_def split: prod.splits)
qed

lemma reboot_two: "reboot_loop 4 s 0 = Some (check_app (check_app s 0) 2)"
  by (simp add: reboot_loop.simps numeral_2_eq_2)

lemma round_inv:
  assumes "sup_inv s" "monitor_round kill s = Some s'"
  shows "sup_inv s'" "su_next s \<le> su_next s'" "su_running s' \<subseteq> su_running s \<union> {su_next s..}"
    "su_pids s' ! 1 = su_pids s ! 1" "su_pids s' ! 3 = su_pids s ! 3" "su_status s' = su_status s"
proof -
  have "sup_inv s' \<and> (s' = stop_all kill s \<or> sup_ext {0, 2} s s')"
  proof (cases "su_status s = RUNNING")
    case True
    then have s': "s' = check_app (check_app s 0) 2" using assms(2) by (simp add: monitor_round_def reboot_two)
    have 1: "sup_inv (check_app s 0)" "sup_ext {0} s (check_app s 0)" using check_app_inv [OF assms(1), of 0] by auto
    then show ?thesis
      using check_app_inv [OF 1(1), of 2] sup_ext_trans [OF 1(2), of "{2}"] s' by (simp add: insert_commute)
  next
    case False
    then show ?thesis using assms
      by (auto simp: monitor_round_def stop_all_def sup_inv_def sup_ext_def split: if_splits)
  qed
  then show "sup_inv s'" "su_next s \<le> su_next s'" "su_running s' \<subseteq> su_running s \<union> {su_next s..}"
    "su_pids s' ! 1 = su_pids s ! 1" "su_pids s' ! 3 = su_pids s ! 3" "su_status s' = su_status s"
    by (auto simp: stop_all_def sup_ext_def)
qed

text \<open>What every step keeps, for the two applications the loop skips.\<close>

definition skipped_kept :: "sup \<Rightarrow> sup \<Rightarrow> bool" where
  "skipped_kept s s' \<longleftrightarrow> sup_inv s' \<and> su_next s \<le> su_next s' \<and> su_running s' \<subseteq> su_running s \<union> {su_next s..}
     \<and> su_pids s' ! 1 = su_pids s ! 1 \<and> su_pids s' ! 3 = su_pids s ! 3"

lemma step_keeps: "sup_inv s \<Longrightarrow> sup_step kill s s' \<Longrightarrow> skipped_kept s s'"
proof (erule sup_step.cases, goal_cases)
  case 1
  then show ?case by (auto simp: skipped_kept_def sup_inv_def)
next
  case (2 p s)
  then show ?case by (auto simp: skipped_kept_def sup_inv_def)
next
  case (3 s s')
  then show ?case using round_inv [of s kill s'] by (auto simp: skipped_kept_def)
qed

lemma reach_keeps: "sup_reach kill s s' \<Longrightarrow> sup_inv s \<Longrightarrow> skipped_kept s s'"
proof (induction rule: sup_reach.induct)
  case (refl s)
  then show ?case by (auto simp: skipped_kept_def)
next
  case (step s s' s'')
  then have "skipped_kept s s'" by simp
  moreover from this step(2) have "skipped_kept s' s''" by (intro step_keeps) (auto simp: skipped_kept_def)
  ultimately show ?case by (auto simp: skipped_kept_def)
qed

lemma start_apps_inv: "sup_inv s \<Longrightarrow> i + n = 4 \<Longrightarrow> \<forall>j. i \<le> j \<and> j < 4 \<longrightarrow> su_pids s ! j = 0 \<Longrightarrow> sup_inv (start_apps s i n)"
proof (induction n arbitrary: s i)
  case 0
  then show ?case by simp
next
  case (Suc n)
  then have "su_pids s ! i = 0" by simp
  then have "su_pids s ! i \<notin> su_running s" using Suc.prems(1) by (auto simp: sup_inv_def)
  with boot_app_inv [of s i] Suc.prems
  have "sup_inv (boot_app s i)" "sup_ext {i} s (boot_app s i)" by auto
  with Suc show ?case by (auto simp: sup_ext_def)
qed

lemma sup_init_inv: "sup_inv (sup_init forks)"
  unfolding sup_init_def
  by (intro start_apps_inv) (auto simp: sup_inv_def nth_Cons' numeral_eq_Suc)

section \<open>Properties\<close>

lemma stop_app_sends:
  "Kill p SIGNAL_EXIT_02 \<in> set (stop_app kill p 0 3)"
  "\<forall>c<3. \<not> kill p c \<Longrightarrow> Kill p SIGNAL_KILL \<in> set (stop_app kill p 0 3)"
  by (simp_all add: numeral_3_eq_3)

lemma stop_all_sends:
  "p \<in> set (su_pids s) \<Longrightarrow> su_over (stop_all kill s) \<and> Kill p SIGNAL_EXIT_02 \<in> set (su_log (stop_all kill s))
     \<and> Wait p \<in> set (su_log (stop_all kill s))
     \<and> ((\<forall>c<3. \<not> kill p c) \<longrightarrow> Kill p SIGNAL_KILL \<in> set (su_log (stop_all kill s)))"
  using stop_app_sends(1) [of p kill] stop_app_sends(2) [of kill p] by (auto simp: stop_all_def)

lemma stop_all_over: "su_over (stop_all kill s)"
  by (simp add: stop_all_def)

text \<open>C12: in every state reachable from the start, whatever signals arrive, children end and forks fail,
  each child that runs is the process of exactly one application of the table, no pid is both running and
  ended, no child is waited for twice, and the loop never looks behind the table.  \<open>fork\<close> gives a pid that
  was not used before (see \<open>sup_fork\<close>).\<close>

theorem children_in_table:
  assumes "sup_reach kill (sup_init forks) s"
  shows "(\<forall>p \<in> su_running s. \<exists>!i. i < 4 \<and> su_pids s ! i = p)
    \<and> su_running s \<inter> set (su_dead s) = {} \<and> distinct (su_dead s) \<and> (\<exists>s'. monitor_round kill s = Some s')"
proof -
  have inv: "sup_inv s" using reach_keeps [OF assms sup_init_inv] by (simp add: skipped_kept_def)
  have "\<exists>!i. i < 4 \<and> su_pids s ! i = p" if p: "p \<in> su_running s" for p
  proof -
    have "p \<in> set (su_pids s)" "1 \<le> p" "length (su_pids s) = 4" using inv p by (auto simp: sup_inv_def)
    then obtain i where i: "i < 4" "su_pids s ! i = p" by (metis in_set_conv_nth)
    moreover have "j = i" if "j < 4" "su_pids s ! j = p" for j
      using inv i that \<open>1 \<le> p\<close> unfolding sup_inv_def by force
    ultimately show ?thesis by blast
  qed
  then have "\<forall>p \<in> su_running s. \<exists>!i. i < 4 \<and> su_pids s ! i = p" by blast
  moreover have "\<exists>s'. monitor_round kill s = Some s'" by (auto simp: monitor_round_def reboot_two)
  ultimately show ?thesis using inv by (simp add: sup_inv_def)
qed

lemma children_in_table_witness:
  "(\<exists>i. i < 4 \<and> su_pids (sup_init [True, False]) ! i = 1) \<and> 1 \<notin> set (su_dead (sup_init [True, False]))
   \<and> (\<exists>s'. monitor_round (\<lambda>_ _. True) (sup_init [True, False]) = Some s')"
proof -
  have "1 \<in> su_running (sup_init [True, False])" by code_simp
  with children_in_table [OF sup_reach.refl, of "[True, False]" "\<lambda>_ _. True"] show ?thesis by blast
qed

text \<open>C25: the collector and the updater, the second and the fourth application, keep the process they got
  at the start for ever: once that process has ended, the application never runs again.\<close>

theorem skipped_apps_stay_down:
  assumes "sup_reach kill (sup_init forks) s" "sup_reach kill s s'" "i = 1 \<or> i = 3"
  shows "su_pids s' ! i = su_pids s ! i \<and> (su_pids s ! i \<notin> su_running s \<longrightarrow> su_pids s' ! i \<notin> su_running s')"
proof -
  have inv: "sup_inv s" using reach_keeps [OF assms(1) sup_init_inv] by (simp add: skipped_kept_def)
  then have "su_pids s ! i < su_next s" using assms(3) by (auto simp: sup_inv_def)
  with reach_keeps [OF assms(2) inv] assms(3) show ?thesis by (auto simp: skipped_kept_def)
qed

text \<open>The collector ends right after the start.\<close>

lemma skipped_apps_stay_down_witness:
  "\<exists>s s'. sup_reach (\<lambda>_ _. True) (sup_init []) s \<and> su_pids s ! 1 = 2 \<and> 2 \<notin> su_running s \<and> su_status s = RUNNING
     \<and> monitor_round (\<lambda>_ _. True) s = Some s' \<and> su_pids s' ! 1 = 2 \<and> 2 \<notin> su_running s'"
proof -
  let ?t = "sup_init []"
  let ?d = "?t\<lparr>su_running := su_running ?t - {2}, su_dead := su_dead ?t @ [2]\<rparr>"
  let ?s = "?d\<lparr>su_status := signal_handler (su_status ?d) SIGNAL_CONT\<rparr>"
  have p: "2 \<in> su_running ?t" "su_pids ?t ! 1 = 2" "\<not> su_over ?t" by code_simp+
  have r: "sup_reach (\<lambda>_ _. True) ?t ?s"
    by (intro sup_reach.step [OF sup_reach.step [OF sup_reach.refl sup_step.ended [OF p(1)]]] sup_step.signalled)
  have st: "su_pids ?s = su_pids ?t" "su_running ?s = su_running ?t - {2}" "su_status ?s = RUNNING" "su_over ?s = su_over ?t"
    by simp_all
  then obtain s' where m: "monitor_round (\<lambda>_ _. True) ?s = Some s'" by (auto simp: monitor_round_def reboot_two)
  have "sup_step (\<lambda>_ _. True) ?s s'" using sup_step.round [OF _ m] p(3) st(4) by blast
  then have r': "sup_reach (\<lambda>_ _. True) ?s s'" by (rule sup_reach.step [OF sup_reach.refl])
  have d: "su_pids ?s ! 1 = 2" "2 \<notin> su_running ?s" using p(2) unfolding st by simp_all
  have "su_pids s' ! 1 = su_pids ?s ! 1 \<and> (su_pids ?s ! 1 \<notin> su_running ?s \<longrightarrow> su_pids s' ! 1 \<notin> su_running s')"
    using skipped_apps_stay_down [OF r r', of 1] by blast
  then have "su_pids s' ! 1 = 2 \<and> 2 \<notin> su_running s'" unfolding d(1) using d(2) by metis
  with r d st(3) m show ?thesis by blast
qed

text \<open>C6: what one round does.  Running: an application of the other two whose process ended runs again
  when forks succeed, the smart disk and the executor; ready or stopped: nothing, so that a booter that got
  no CONT signal reboots nothing; exit and restart: the loop ends after it sent every pid of the table, the
  \<open>- 1\<close> of a failed fork included, the exit signal up to three times and then the kill signal, and
  waited for each.\<close>

theorem supervisor_round:
  assumes "sup_reach kill (sup_init forks) s" "monitor_round kill s = Some s'"
  shows "(su_status s = RUNNING \<and> (\<forall>b \<in> set (su_fork s). b) \<and> su_pids s ! 0 \<noteq> - 1 \<longrightarrow>
        (su_pids s ! 0 \<in> set (su_dead s) \<longrightarrow> su_pids s' ! 0 \<in> su_running s')
      \<and> (su_pids s ! 2 \<in> set (su_dead s) \<longrightarrow> su_pids s' ! 2 \<in> su_running s'))
    \<and> (su_status s = READY \<or> su_status s = STOP \<longrightarrow> s' = s)
    \<and> (su_status s = EXIT \<or> su_status s = RESTART \<longrightarrow> su_over s'
        \<and> (\<forall>p \<in> set (su_pids s). Kill p SIGNAL_EXIT_02 \<in> set (su_log s') \<and> Wait p \<in> set (su_log s')
            \<and> ((\<forall>c<3. \<not> kill p c) \<longrightarrow> Kill p SIGNAL_KILL \<in> set (su_log s'))))"
proof -
  have inv: "sup_inv s" using reach_keeps [OF assms(1) sup_init_inv] by (simp add: skipped_kept_def)
  let ?s1 = "check_app s 0"
  have 1: "sup_inv ?s1" "su_pids s ! 0 \<in> set (su_dead s) \<and> (\<forall>b \<in> set (su_fork s). b) \<longrightarrow> su_pids ?s1 ! 0 \<in> su_running ?s1"
    using check_app_inv [OF inv, of 0] by auto
  have 2: "sup_ext {2} ?s1 (check_app ?s1 2)"
    "su_pids ?s1 ! 2 \<in> set (su_dead ?s1) \<and> (\<forall>b \<in> set (su_fork ?s1). b) \<longrightarrow> su_pids (check_app ?s1 2) ! 2 \<in> su_running (check_app ?s1 2)"
    using check_app_inv [OF 1(1), of 2] by auto
  have 3: "set (su_fork ?s1) \<subseteq> set (su_fork s)" by (rule check_app_fork [OF inv])
  have 4: "su_pids s ! 0 \<noteq> - 1 \<Longrightarrow> su_pids s ! 2 \<in> set (su_dead s) \<Longrightarrow> su_pids ?s1 ! 2 \<in> set (su_dead ?s1)"
    by (intro check_app_dead [OF inv]) auto
  have 5: "su_pids (check_app ?s1 2) ! 0 = su_pids ?s1 ! 0" "su_running ?s1 \<subseteq> su_running (check_app ?s1 2)"
    using 2(1) by (auto simp: sup_ext_def)
  have A: "(su_pids s ! 0 \<in> set (su_dead s) \<longrightarrow> su_pids s' ! 0 \<in> su_running s')
      \<and> (su_pids s ! 2 \<in> set (su_dead s) \<longrightarrow> su_pids s' ! 2 \<in> su_running s')"
    if "su_status s = RUNNING \<and> (\<forall>b \<in> set (su_fork s). b) \<and> su_pids s ! 0 \<noteq> - 1"
  proof -
    have "s' = check_app ?s1 2" using assms(2) that by (simp add: monitor_round_def reboot_two)
    with that 1(2) 2(2) 3 4 5 show ?thesis by auto
  qed
  have B: "s' = s" if "su_status s = READY \<or> su_status s = STOP"
    using assms(2) that by (auto simp: monitor_round_def)
  have C: "su_over s' \<and> (\<forall>p \<in> set (su_pids s). Kill p SIGNAL_EXIT_02 \<in> set (su_log s') \<and> Wait p \<in> set (su_log s')
            \<and> ((\<forall>c<3. \<not> kill p c) \<longrightarrow> Kill p SIGNAL_KILL \<in> set (su_log s')))"
    if "su_status s = EXIT \<or> su_status s = RESTART"
  proof -
    have "s' = stop_all kill s" using assms(2) that by (auto simp: monitor_round_def)
    with stop_all_sends [of _ s kill] stop_all_over [of kill s] show ?thesis by blast
  qed
  from A B C show ?thesis by (intro conjI impI) blast+
qed

text \<open>The first fork fails; then the booter gets the exit signal.\<close>

lemma supervisor_round_witness:
  "\<exists>s s'. sup_reach (\<lambda>_ _. True) (sup_init [False]) s \<and> monitor_round (\<lambda>_ _. True) s = Some s'
     \<and> Kill (- 1) SIGNAL_EXIT_02 \<in> set (su_log s')"
proof -
  let ?s = "(sup_init [False])\<lparr>su_status := signal_handler (su_status (sup_init [False])) SIGNAL_EXIT_01\<rparr>"
  have r: "sup_reach (\<lambda>_ _. True) (sup_init [False]) ?s" by (intro sup_reach.step [OF sup_reach.refl] sup_step.signalled)
  have "su_pids (sup_init [False]) ! 0 = - 1" "length (su_pids (sup_init [False])) = 4" by code_simp+
  then have m: "- 1 \<in> set (su_pids ?s)" by (metis nth_mem sup.simps(12) zero_less_numeral sup.update_convs(1) sup.select_convs(2) sup.surjective)
  have 1: "monitor_round (\<lambda>_ _. True) ?s = Some (stop_all (\<lambda>_ _. True) ?s)" by (simp add: monitor_round_def)
  from m supervisor_round [OF r 1] have "Kill (- 1) SIGNAL_EXIT_02 \<in> set (su_log (stop_all (\<lambda>_ _. True) ?s))" by auto
  with r 1 show ?thesis by blast
qed

end
