(* ===== verification/Version.thy ===== *)
theory Version
  imports Booter JsonParse CelStrbuff
begin

text \<open>
  The struct of the updater in \<open>src/main/app_updater.c\<close>, its making and release, and the file that keeps the
  version that was installed last.

  A block made by \<open>malloc\<close> holds a string, which is its value here once it was written with its NUL; \<open>curl_slist_append\<close>
  is taken to succeed.  The numbers of C are those of \<open>Floats\<close>, \<open>atof\<close> reads the decimal, hexadecimal and
  named forms.

  Shown: the code of each step of the making that can fail, after which nothing is held; a version below 10 with two decimals
  that was recorded is read again as the same number.
\<close>

section \<open>The updater\<close>

record updater =
  ue_api_url :: "bytes option"
  ue_version_headers :: "bytes list"
  ue_download_url :: "bytes option"
  ue_download_headers :: "bytes list"
  ue_interval :: nat
  ue_strbuff :: "strbuff option"
  ue_sdk_dir :: "path option"
  ue_LSB_file :: "path option"
  ue_ver_file :: "path option"
  ue_version :: fp

definition updater_version_url :: bytes where
  "updater_version_url = bytes_of ''http://sarah.grandhelmsman.com/sdk/linux/download/version''"

definition updater_download_url :: bytes where
  "updater_download_url = bytes_of ''http://sarah.grandhelmsman.com/sdk/linux/download/bin''"

definition new_updater :: updater where
  "new_updater = \<lparr>ue_api_url = None, ue_version_headers = [], ue_download_url = None, ue_download_headers = [],
     ue_interval = 120, ue_strbuff = None, ue_sdk_dir = None, ue_LSB_file = None, ue_ver_file = None, ue_version = Fin 0\<rparr>"

definition sarah_updater_destroy :: "updater \<Rightarrow> updater" where
  "sarah_updater_destroy ue = ue\<lparr>ue_api_url := None, ue_version_headers := [], ue_download_url := None,
     ue_download_headers := [], ue_strbuff := None, ue_sdk_dir := None, ue_LSB_file := None, ue_ver_file := None\<rparr>"

text \<open>Through a null pointer the buffer cannot be cleared.\<close>

definition sarah_updater_clear :: "updater \<Rightarrow> updater option" where
  "sarah_updater_clear ue = do {
     sb \<leftarrow> ue_strbuff ue;
     (sb, _) \<leftarrow> cel_strbuff_clear sb;
     Some (ue\<lparr>ue_strbuff := Some sb\<rparr>) }"

section \<open>The version file\<close>

definition hex_fraction :: "(rat \<Rightarrow> rat) \<Rightarrow> bool \<Rightarrow> bytes \<Rightarrow> fp" where
  "hex_fraction r neg s =
     (let hex = (\<lambda>c. hex_value c \<noteq> None);
          ds = takeWhile hex s; t = dropWhile hex s;
          (fs, t) = (case t of c # u \<Rightarrow> if c = 46 then (takeWhile hex u, dropWhile hex u) else ([], t) | [] \<Rightarrow> ([], t));
          e = (case t of c # u \<Rightarrow> if c = 112 \<or> c = 80 then fst (exponent_of (101 # u)) else 0 | [] \<Rightarrow> 0) - 4 * int (length fs);
          m = rat_of_nat (foldl (\<lambda>a c. 16 * a + the (hex_value c)) 0 (ds @ fs))
      in to_double r neg (if e \<ge> 0 then m * 2 ^ nat e else m / 2 ^ nat (- e)))"

definition atof :: "(rat \<Rightarrow> rat) \<Rightarrow> bytes \<Rightarrow> fp" where
  "atof r s =
     (let t = dropWhile is_space s; (neg, u) = sign_of t; l = map to_lower u;
          body = (case drop 2 l of c # v \<Rightarrow> if c = 46 then take 1 v else [c] | [] \<Rightarrow> [])
      in if take 3 l = bytes_of ''inf'' then (if neg then MinusInf else Inf)
         else if take 3 l = bytes_of ''nan'' then NaN
         else if take 2 l = bytes_of ''0x'' \<and> (\<exists>c \<in> set body. hex_value c \<noteq> None) then hex_fraction r neg (drop 2 u)
         else fst (strtod r t))"

text \<open>The text of the number goes to five bytes, of which four are written.\<close>

definition sarah_updater_set_version :: "io \<Rightarrow> files \<Rightarrow> updater \<Rightarrow> fp \<Rightarrow> (files \<times> updater \<times> nat) option" where
  "sarah_updater_set_version e fs ue version = do {
     let ue = ue\<lparr>ue_version := version\<rparr>;
     buffer \<leftarrow> blit (replicate 5 0) 0 (print_f2 version @ [0]) (length (print_f2 version) + 1);
     ver_file \<leftarrow> ue_ver_file ue;
     (fs, n) \<leftarrow> sarah_file_put_buffer e fs ver_file buffer 4 0;
     Some (fs, ue, if n > - 1 then 0 else 1) }"

text \<open>The number that is stored, if the file was read, and the code.\<close>

definition sarah_updater_get_version :: "rounding \<Rightarrow> io \<Rightarrow> files \<Rightarrow> updater \<Rightarrow> (fp option \<times> nat) option" where
  "sarah_updater_get_version R e fs ue = do {
     ver_file \<leftarrow> ue_ver_file ue;
     (n, buffer) \<leftarrow> sarah_file_get_buffer e fs ver_file (replicate 5 0) 4;
     Some (if n > - 1 then (Some (float_of (r_float R) (atof (r_double R) (cstr buffer))), 0) else (None, 1)) }"

section \<open>The making\<close>

text \<open>\<open>malloc\<close> of \<open>n + 1\<close> bytes and \<open>sprintf\<close> into them: the string, or null.\<close>

definition malloc_text :: "(nat \<Rightarrow> bool) \<Rightarrow> nat \<Rightarrow> bytes \<Rightarrow> bytes option option" where
  "malloc_text al n s =
     (if \<not> al (n + 1) then Some None
      else do { block \<leftarrow> blit (replicate (n + 1) 0) 0 (s @ [0]) (length s + 1); Some (Some (cstr block)) })"

definition request_url :: "bytes \<Rightarrow> bytes \<Rightarrow> bytes \<Rightarrow> bytes" where
  "request_url base node_id app_key = base @ bytes_of ''?node_uid='' @ node_id @ bytes_of ''&app_key='' @ app_key"

definition url_size :: "bytes \<Rightarrow> bytes \<Rightarrow> bytes \<Rightarrow> nat" where
  "url_size base node_id app_key = length base + length (bytes_of ''?node_uid=&app_key='') + length node_id + length app_key"

text \<open>\<open>snprintf\<close> into 256 bytes, with the version of the client.\<close>

definition updater_headers :: "rounding \<Rightarrow> string \<Rightarrow> bytes list" where
  "updater_headers R agent = map (take 255) [bytes_of ''Content-Type: application/json'',
     bytes_of ''User-Agent: '' @ bytes_of agent @ bytes_of '' updater/1.0 sarahos/'' @ print_f2 (Fin (sarah_version R))]"

text \<open>The part from the directory on.\<close>

definition updater_files ::
  "(nat \<Rightarrow> bool) \<Rightarrow> (path set \<Rightarrow> path \<Rightarrow> bool) \<Rightarrow> rounding \<Rightarrow> io \<Rightarrow> files \<Rightarrow> path set \<Rightarrow> path \<Rightarrow> updater
   \<Rightarrow> (path set \<times> updater \<times> nat) option" where
  "updater_files al mk R e fs ds base_dir ue = do {
     dir \<leftarrow> malloc_text al (length base_dir + length (bytes_of ''SDK'') + 1) (base_dir @ bytes_of ''SDK'' @ bytes_of ''/'');
     (case dir of None \<Rightarrow> Some (ds, sarah_updater_destroy ue, 4) | Some sdk_dir \<Rightarrow> do {
        let ue = ue\<lparr>ue_sdk_dir := Some sdk_dir\<rparr>;
        (ds, r) \<leftarrow> sarah_mkdir mk ds sdk_dir;
        (if r \<noteq> 0 then Some (ds, sarah_updater_destroy ue, 5)
         else do {
           file \<leftarrow> malloc_text al (length sdk_dir + length (bytes_of ''sarah-booter'')) (sdk_dir @ bytes_of ''sarah-booter'');
           (case file of None \<Rightarrow> Some (ds, sarah_updater_destroy ue, 6) | Some LSB_file \<Rightarrow> do {
              let ue = ue\<lparr>ue_LSB_file := Some LSB_file\<rparr>;
              file \<leftarrow> malloc_text al (length sdk_dir + length (bytes_of ''version'')) (sdk_dir @ bytes_of ''version'');
              (case file of None \<Rightarrow> Some (ds, sarah_updater_destroy ue, 7) | Some ver_file \<Rightarrow> do {
                 let ue = ue\<lparr>ue_ver_file := Some ver_file\<rparr>;
                 (v, _) \<leftarrow> sarah_updater_get_version R e fs ue;
                 Some (ds, (case v of None \<Rightarrow> ue | Some v \<Rightarrow> ue\<lparr>ue_version := v\<rparr>), 0) }) }) }) }) }"

definition sarah_updater_init ::
  "(nat \<Rightarrow> bool) \<Rightarrow> (path set \<Rightarrow> path \<Rightarrow> bool) \<Rightarrow> rounding \<Rightarrow> io \<Rightarrow> files \<Rightarrow> path set \<Rightarrow> bytes \<Rightarrow> bytes \<Rightarrow> path
   \<Rightarrow> (path set \<times> updater \<times> nat) option" where
  "sarah_updater_init al mk R e fs ds node_id app_key base_dir = do {
     let ue = new_updater;
     url \<leftarrow> malloc_text al (url_size updater_version_url node_id app_key) (request_url updater_version_url node_id app_key);
     (case url of None \<Rightarrow> Some (ds, sarah_updater_destroy ue, 1) | Some url \<Rightarrow> do {
        let ue = ue\<lparr>ue_api_url := Some url\<rparr>;
        url \<leftarrow> malloc_text al (url_size updater_download_url node_id app_key) (request_url updater_download_url node_id app_key);
        (case url of None \<Rightarrow> Some (ds, sarah_updater_destroy ue, 2) | Some url \<Rightarrow>
           let ue = ue\<lparr>ue_download_url := Some url, ue_version_headers := updater_headers R ''version-check'',
                       ue_download_headers := updater_headers R ''version-download''\<rparr>
           in case new_cel_strbuff_opacity al 128 of
                Inl _ \<Rightarrow> Some (ds, sarah_updater_destroy ue, 3)
              | Inr sb \<Rightarrow> updater_files al mk R e fs ds base_dir (ue\<lparr>ue_strbuff := Some sb\<rparr>)) }) }"

section \<open>Lemmas\<close>

lemma malloc_text_law: "length s = n \<Longrightarrow> no_nul s \<Longrightarrow> malloc_text al n s = Some (if al (n + 1) then Some s else None)"
  by (simp add: malloc_text_def blit_def)

lemma url_size_law: "length (request_url base node_id app_key) = url_size base node_id app_key"
  by (simp add: request_url_def url_size_def)

text \<open>The text of a recorded version is that of its digits.\<close>

lemma digit_facts:
  "is_digit c \<Longrightarrow> c \<noteq> 45 \<and> c \<noteq> 43 \<and> \<not> is_space c \<and> to_lower c = c \<and> c \<noteq> 105 \<and> c \<noteq> 110"
  by (auto simp: is_digit_def is_space_def to_lower_def word_le_nat_alt)

lemma atof_digits:
  assumes "n < 1000"
  shows "atof r (dec_digits (n div 100) @ 46 # pad_left 48 2 (dec_digits (n mod 100))) = to_double r False (rat_of_nat n / 100)"
proof -
  let ?s = "dec_digits (n div 100) @ 46 # pad_left 48 2 (dec_digits (n mod 100))"
  obtain c where d: "dec_digits (n div 100) = [c]" using assms dec_digits_rec [of "n div 100"] by (auto split: if_splits)
  have "is_digit c" using dec_digits_read [of "n div 100"] d by simp
  note digit = digit_facts [OF this]
  have "dropWhile is_space ?s = ?s" "sign_of ?s = (False, ?s)" using digit by (simp_all add: d sign_of_def)
  moreover have "take 3 (map to_lower ?s) \<noteq> bytes_of ''inf''" "take 3 (map to_lower ?s) \<noteq> bytes_of ''nan''"
    using digit by (simp_all add: d bytes_of_def)
  moreover have "take 2 (map to_lower ?s) \<noteq> bytes_of ''0x''" by (simp add: d bytes_of_def to_lower_def)
  ultimately show ?thesis using print_f2_read(1) [OF assms, of r] by (simp add: atof_def Let_def)
qed

lemma get_version_defined:
  assumes "ue_ver_file ue = Some f"
  obtains v c where "sarah_updater_get_version R e fs ue = Some (v, c)" "c = (if v = None then 1 else 0)"
proof -
  have "\<exists>n b. sarah_file_get_buffer e fs f (replicate 5 0) 4 = Some (n, b)"
    by (auto simp: sarah_file_get_buffer_def blit_def Let_def split: option.splits)
  then obtain n b where "sarah_file_get_buffer e fs f (replicate 5 0) 4 = Some (n, b)" by blast
  then show ?thesis using assms
    by (intro that [of "if n > - 1 then Some (float_of (r_float R) (atof (r_double R) (cstr b))) else None"])
      (auto simp: sarah_updater_get_version_def)
qed

lemma files_made:
  assumes nul: "no_nul base_dir" and mkdir: "sarah_mkdir mk ds (base_dir @ bytes_of ''SDK/'') = Some (ds', r)"
  defines "b \<equiv> length base_dir"
  shows "\<exists>ds2 ue' code. updater_files al mk R e fs ds base_dir ue = Some (ds2, ue', code)
    \<and> code = (if \<not> al (b + 5) then 4 else if r \<noteq> 0 then 5 else if \<not> al (b + 17) then 6 else if \<not> al (b + 12) then 7 else 0)
    \<and> (if code \<noteq> 0 then sarah_updater_destroy ue' = ue'
       else ds2 = ds' \<and> ue_api_url ue' = ue_api_url ue \<and> ue_download_url ue' = ue_download_url ue \<and> ue_strbuff ue' = ue_strbuff ue
         \<and> ue_LSB_file ue' = Some (base_dir @ bytes_of ''SDK/sarah-booter'') \<and> ue_ver_file ue' = Some (base_dir @ bytes_of ''SDK/version''))"
proof -
  let ?sdk = "base_dir @ bytes_of ''SDK/''"
  let ?u = "ue\<lparr>ue_sdk_dir := Some ?sdk, ue_LSB_file := Some (base_dir @ bytes_of ''SDK/sarah-booter''), ue_ver_file := Some (base_dir @ bytes_of ''SDK/version'')\<rparr>"
  have lits: "bytes_of ''SDK'' @ bytes_of ''/'' = bytes_of ''SDK/''" "bytes_of ''SDK/'' @ bytes_of ''sarah-booter'' = bytes_of ''SDK/sarah-booter''"
    "bytes_of ''SDK/'' @ bytes_of ''version'' = bytes_of ''SDK/version''" "no_nul (bytes_of ''SDK/'')"
    "no_nul (bytes_of ''SDK/sarah-booter'')" "no_nul (bytes_of ''SDK/version'')" by (simp_all add: bytes_of_def)
  obtain v c where v: "sarah_updater_get_version R e fs ?u = Some (v, c)" by (rule get_version_defined [of ?u]) simp
  have fail: "sarah_updater_destroy (sarah_updater_destroy ue) = sarah_updater_destroy ue" for ue by (simp add: sarah_updater_destroy_def)
  have "updater_files al mk R e fs ds base_dir ue =
    (if \<not> al (b + 5) then Some (ds, sarah_updater_destroy ue, 4)
     else if r \<noteq> 0 then Some (ds', sarah_updater_destroy (ue\<lparr>ue_sdk_dir := Some ?sdk\<rparr>), 5)
     else if \<not> al (b + 17) then Some (ds', sarah_updater_destroy (ue\<lparr>ue_sdk_dir := Some ?sdk\<rparr>), 6)
     else if \<not> al (b + 12) then Some (ds', sarah_updater_destroy (ue\<lparr>ue_sdk_dir := Some ?sdk, ue_LSB_file := Some (base_dir @ bytes_of ''SDK/sarah-booter'')\<rparr>), 7)
     else Some (ds', (case v of None \<Rightarrow> ?u | Some v \<Rightarrow> ?u\<lparr>ue_version := v\<rparr>), 0))"
    using mkdir v nul lits unfolding updater_files_def b_def by (simp add: malloc_text_law Let_def eval_nat_numeral)
  then show ?thesis by (cases v) (auto simp: fail)
qed

section \<open>Properties\<close>

text \<open>The updater is made without undefined behaviour, whatever \<open>malloc\<close> does.  The code names the first step that failed, and then nothing is
  held; otherwise the addresses carry node and key, the files lie in the directory \<open>SDK\<close> and the buffer is empty.\<close>

theorem updater_made:
  assumes nul: "no_nul node_id" "no_nul app_key" "no_nul base_dir"
    and mkdir: "sarah_mkdir mk ds (base_dir @ bytes_of ''SDK/'') = Some (ds', r)"
  defines "b \<equiv> length base_dir"
  shows "\<exists>ds2 ue code. sarah_updater_init al mk R e fs ds node_id app_key base_dir = Some (ds2, ue, code)
    \<and> code = (if \<not> al (url_size updater_version_url node_id app_key + 1) then 1
        else if \<not> al (url_size updater_download_url node_id app_key + 1) then 2
        else if \<not> (al 16 \<and> al 128) then 3 else if \<not> al (b + 5) then 4 else if r \<noteq> 0 then 5
        else if \<not> al (b + 17) then 6 else if \<not> al (b + 12) then 7 else 0)
    \<and> (if code \<noteq> 0 then sarah_updater_destroy ue = ue
       else ds2 = ds' \<and> ue_api_url ue = Some (request_url updater_version_url node_id app_key)
         \<and> ue_download_url ue = Some (request_url updater_download_url node_id app_key)
         \<and> (\<exists>sb. ue_strbuff ue = Some sb \<and> sb_wf sb \<and> content sb = [])
         \<and> ue_LSB_file ue = Some (base_dir @ bytes_of ''SDK/sarah-booter'') \<and> ue_ver_file ue = Some (base_dir @ bytes_of ''SDK/version''))"
proof -
  let ?V = updater_version_url and ?D = updater_download_url
  have u: "no_nul (request_url b node_id app_key)" if "b \<in> {?V, ?D}" for b
  proof -
    have "no_nul b" using that by (auto simp: updater_version_url_def updater_download_url_def bytes_of_def)
    then show ?thesis using nul by (simp add: request_url_def) (simp add: bytes_of_def)
  qed
  have fail: "sarah_updater_destroy (sarah_updater_destroy ue) = sarah_updater_destroy ue" for ue by (simp add: sarah_updater_destroy_def)
  note eval = sarah_updater_init_def malloc_text_law [OF url_size_law u [of ?V, simplified]] malloc_text_law [OF url_size_law u [of ?D, simplified]]
  show ?thesis
  proof (cases "al (url_size ?V node_id app_key + 1) \<and> al (url_size ?D node_id app_key + 1) \<and> al 16 \<and> al 128")
    case False
    then consider "\<not> al (url_size ?V node_id app_key + 1)" | "al (url_size ?V node_id app_key + 1)" "\<not> al (url_size ?D node_id app_key + 1)"
      | "al (url_size ?V node_id app_key + 1)" "al (url_size ?D node_id app_key + 1)" "\<not> (al 16 \<and> al 128)"
      by argo
    moreover have "\<not> (al 16 \<and> al 128) \<Longrightarrow> new_cel_strbuff_opacity al 128 = Inl ()"
      by (auto simp: new_cel_strbuff_opacity_def create_buffer_def)
    ultimately show ?thesis by cases (simp_all add: eval fail)
  next
    case True
    then obtain sb where sb: "new_cel_strbuff_opacity al 128 = Inr sb" "sb_wf sb" "content sb = []"
      using new_opacity_wf [of 128 al] by auto
    let ?u = "new_updater\<lparr>ue_api_url := Some (request_url ?V node_id app_key), ue_download_url := Some (request_url ?D node_id app_key),
        ue_version_headers := updater_headers R ''version-check'', ue_download_headers := updater_headers R ''version-download'',
        ue_strbuff := Some sb\<rparr>"
    have "sarah_updater_init al mk R e fs ds node_id app_key base_dir = updater_files al mk R e fs ds base_dir ?u"
      using True sb by (simp add: eval)
    then show ?thesis using files_made [OF nul(3) mkdir, of al R e fs ?u] True sb unfolding b_def [symmetric] by auto
  qed
qed

lemma updater_made_witness:
  "\<exists>ds ue. sarah_updater_init (\<lambda>n. n \<noteq> 12 + 3) (\<lambda>_ _. True) \<lparr>r_float = id, r_double = id, r_long = id\<rparr> fine_io Map.empty {}
     (bytes_of ''n1'') (bytes_of ''k'') (bytes_of ''/b/'') = Some (ds, ue, 7) \<and> ue_api_url ue = None"
proof -
  have m: "sarah_mkdir (\<lambda>_ _. True) {} (bytes_of ''/b/'' @ bytes_of ''SDK/'') = Some ({bytes_of ''/b'', bytes_of ''/b/SDK''}, 0)"
    by code_simp
  have n: "no_nul (bytes_of ''n1'')" "no_nul (bytes_of ''k'')" "no_nul (bytes_of ''/b/'')" by (simp_all add: bytes_of_def)
  have s: "url_size updater_version_url (bytes_of ''n1'') (bytes_of ''k'') = 79" "url_size updater_download_url (bytes_of ''n1'') (bytes_of ''k'') = 75"
    by (simp_all add: url_size_def updater_version_url_def updater_download_url_def bytes_of_def)
  from updater_made [OF n m, of "\<lambda>n. n \<noteq> 12 + 3" "\<lparr>r_float = id, r_double = id, r_long = id\<rparr>" fine_io Map.empty]
  show ?thesis by (auto simp: s sarah_updater_destroy_def dest: arg_cong [where f = ue_api_url])
qed

text \<open>The rounding of small numbers moves them by less than a thousandth.\<close>

definition accurate :: "rounding \<Rightarrow> bool" where
  "accurate R \<longleftrightarrow> (\<forall>q. 0 \<le> q \<and> q \<le> 11 \<longrightarrow> 0 \<le> r_double R q \<and> \<bar>r_double R q - q\<bar> \<le> 1 / 1000
     \<and> 0 \<le> r_float R q \<and> \<bar>r_float R q - q\<bar> \<le> 1 / 1000)"

text \<open>The \<open>float\<close> that stands for \<open>n\<close> hundredths.\<close>

definition hundredths :: "rounding \<Rightarrow> nat \<Rightarrow> fp" where
  "hundredths R n = float_of (r_float R) (to_double (r_double R) False (rat_of_nat n / 100))"

lemma hundredths_near:
  assumes "accurate R" "n < 1000"
  obtains q where "hundredths R n = Fin q" "0 \<le> q" "\<bar>q - rat_of_nat n / 100\<bar> < 1 / 200"
proof -
  let ?q = "rat_of_nat n / 100" and ?d = "r_double R (rat_of_nat n / 100)"
  have q: "0 \<le> ?q" "?q \<le> 10" using assms(2) by simp_all
  then have d: "0 \<le> ?d" "\<bar>?d - ?q\<bar> \<le> 1 / 1000" using assms(1) by (auto simp: accurate_def)
  then have "?d \<le> 11" using q by linarith
  then have f: "0 \<le> r_float R ?d" "\<bar>r_float R ?d - ?d\<bar> \<le> 1 / 1000" using assms(1) d(1) by (auto simp: accurate_def)
  have "0 \<le> r_float R 0" "\<bar>r_float R 0\<bar> \<le> 1 / 1000" using assms(1) by (auto simp: accurate_def dest: spec [of _ 0])
  moreover have "(11 :: rat) < 2 ^ 128" "(11 :: rat) < 2 ^ 1024" by simp_all
  ultimately have "hundredths R n = Fin (r_float R ?d)" using \<open>?d \<le> 11\<close> d f
    by (auto simp: hundredths_def to_double_def float_of_def Let_def)
  then show ?thesis by (rule that) (use d f in linarith)+
qed

text \<open>A version below 10 with two decimals is recorded and read again, after any restart, as the same number.  For a version of 10 or more the
  buffer of five bytes is too small.\<close>

theorem version_file_kept:
  assumes "accurate R" "n < 1000" "io_fine e 4" "io_fine e' 4" "ue_ver_file ue = Some f" "ue_ver_file ue' = Some f"
  shows "(\<exists>fs'. sarah_updater_set_version e fs ue (hundredths R n) = Some (fs', ue\<lparr>ue_version := hundredths R n\<rparr>, 0)
      \<and> sarah_updater_get_version R e' fs' ue' = Some (Some (hundredths R n), 0))
    \<and> (10 \<le> q \<longrightarrow> sarah_updater_set_version e fs ue (Fin q) = None)"
proof
  let ?s = "dec_digits (n div 100) @ 46 # pad_left 48 2 (dec_digits (n mod 100))"
  obtain q where q: "hundredths R n = Fin q" "0 \<le> q" "\<bar>q - rat_of_nat n / 100\<bar> < 1 / 200" by (rule hundredths_near [OF assms(1,2)])
  have s: "print_f2 (hundredths R n) = ?s" using print_f2_near [OF q(3,2)] q(1) by simp
  note len = print_f2_read(2) [OF assms(2)]
  have b: "blit (replicate 5 0) 0 (?s @ [0]) (length ?s + 1) = Some (?s @ [0])" using len by (simp add: blit_def)
  have t: "take 4 (?s @ [0]) = ?s" by (metis append_eq_conv_conj len)
  have put: "sarah_file_put_buffer e fs f (?s @ [0]) 4 0 = Some (fs(f \<mapsto> ?s), 4)"
    using put_law [OF assms(3), of "?s @ [0]"] len t by simp
  have get: "sarah_file_get_buffer e' (fs(f \<mapsto> ?s)) f (replicate 5 0) 4 = Some (4, ?s @ [0])"
    using get_law [OF assms(4), of "fs(f \<mapsto> ?s)" f ?s "replicate 5 0"] len by (simp add: drop_replicate_tail)
  have "no_nul ?s" using dec_digits_no_nul by (simp add: pad_left_def) (simp add: no_nul_def)
  then have "cstr (?s @ [0]) = ?s" by (rule cstr_terminated)
  then have "sarah_updater_get_version R e' (fs(f \<mapsto> ?s)) ue' = Some (Some (hundredths R n), 0)"
    using get assms(6) atof_digits [OF assms(2)] by (simp add: sarah_updater_get_version_def hundredths_def)
  moreover have "sarah_updater_set_version e fs ue (hundredths R n) = Some (fs(f \<mapsto> ?s), ue\<lparr>ue_version := hundredths R n\<rparr>, 0)"
    using b put assms(5) by (simp add: sarah_updater_set_version_def s)
  ultimately show "\<exists>fs'. sarah_updater_set_version e fs ue (hundredths R n) = Some (fs', ue\<lparr>ue_version := hundredths R n\<rparr>, 0)
      \<and> sarah_updater_get_version R e' fs' ue' = Some (Some (hundredths R n), 0)" by blast
  show "10 \<le> q \<longrightarrow> sarah_updater_set_version e fs ue (Fin q) = None" for q
  proof
    assume "10 \<le> q"
    let ?n = "round_even (100 * q)"
    have "1000 \<le> nat \<lfloor>100 * q\<rfloor>" using \<open>10 \<le> q\<close> by (simp add: le_nat_iff le_floor_iff)
    then have "10 \<le> ?n div 100" by (auto simp: round_even_def Let_def)
    then have "2 \<le> length (dec_digits (?n div 100))"
      using dec_digits_read [of "?n div 100 div 10"] by (subst dec_digits_rec) (auto simp: Suc_le_eq)
    then have "5 \<le> length (print_f2 (Fin q))" using \<open>10 \<le> q\<close> by (simp add: print_f2_def length_pad_left Let_def)
    then show "sarah_updater_set_version e fs ue (Fin q) = None" by (simp add: sarah_updater_set_version_def blit_def)
  qed
qed

lemma version_file_kept_witness:
  "let R = \<lparr>r_float = id, r_double = id, r_long = id\<rparr>; ue = new_updater\<lparr>ue_ver_file := Some (bytes_of ''/v'')\<rparr>
   in (\<exists>fs ue'. sarah_updater_set_version fine_io Map.empty ue (Fin (158 / 100)) = Some (fs, ue', 0)
        \<and> sarah_updater_get_version R fine_io fs ue = Some (Some (Fin (158 / 100)), 0))
     \<and> sarah_updater_set_version fine_io Map.empty ue (Fin 10) = None"
proof -
  let ?R = "\<lparr>r_float = id, r_double = id, r_long = id\<rparr>" and ?ue = "new_updater\<lparr>ue_ver_file := Some (bytes_of ''/v'')\<rparr>"
  have "hundredths ?R 158 = Fin (158 / 100)" by (simp add: hundredths_def to_double_def float_of_def Let_def)
  moreover have "accurate ?R" "io_fine fine_io 4" by (simp_all add: accurate_def io_fine_def fine_io_def)
  ultimately show ?thesis
    using version_file_kept [of ?R 158 fine_io fine_io ?ue "bytes_of ''/v''" ?ue Map.empty 10] by (auto simp: Let_def)
qed

end
