(* ===== verification/Updater.thy ===== *)
theory Updater
  imports Version CelMd5 JsonTrip
begin

text \<open>
  The updater application of \<open>src/main/app_updater.c\<close>: the download with its running MD5, the copy of the
  package over the booter, and the round of the main loop with its memory of a finished download.

  The files are those of the file system, with what an open package file gets as its contents.  Records hold what curl
  delivers and how the system calls end; what \<open>fwrite\<close> accepts of a chunk is part of the delivery.

  Shown: the signature of a download is that of what curl delivered; the copy is padded to a multiple of
  1024 bytes with stale bytes; within a round an update is installed only when newer and verified, and
  versions only grow; a package whose verification failed is installed in the next round.
\<close>

section \<open>The download\<close>

record package =
  pk_fd :: bytes
  pk_md5 :: md5
  pk_digest :: bytes
  pk_sign :: bytes

definition sarah_updater_package_start :: package where
  "sarah_updater_package_start = \<lparr>pk_fd = [], pk_md5 = fresh_md5, pk_digest = replicate 16 0, pk_sign = replicate 33 0\<rparr>"

text \<open>A chunk comes with the number of bytes \<open>fwrite\<close> accepts of it, which the code does not look at.\<close>

definition sarah_updater_package_update :: "package \<Rightarrow> bytes \<times> nat \<Rightarrow> package option" where
  "sarah_updater_package_update pk c = (case c of (buffer, accepted) \<Rightarrow> do {
     let pk = pk\<lparr>pk_fd := pk_fd pk @ take accepted buffer\<rparr>;
     pms \<leftarrow> cel_md5_update (pk_md5 pk) buffer (to_int32 (wrap32 (length buffer)));
     Some (pk\<lparr>pk_md5 := pms\<rparr>) })"

fun package_updates :: "package \<Rightarrow> (bytes \<times> nat) list \<Rightarrow> package option" where
  "package_updates pk [] = Some pk"
| "package_updates pk (c # cs) = do { pk \<leftarrow> sarah_updater_package_update pk c; package_updates pk cs }"

definition sarah_updater_package_end :: "package \<Rightarrow> package option" where
  "sarah_updater_package_end pk = do {
     (pms, digest) \<leftarrow> cel_md5_final (pk_md5 pk);
     sign \<leftarrow> cel_md5_print digest (pk_sign pk);
     Some (pk\<lparr>pk_md5 := pms, pk_digest := digest, pk_sign := sign\<rparr>) }"

record download =
  dl_open :: bool
  dl_lock :: bool
  dl_curl :: bool
  dl_chunks :: "(bytes \<times> nat) list"
  dl_perform :: bool
  dl_code :: int

text \<open>The result is the content of the package file, the package entry and the code.\<close>

definition download_package :: "download \<Rightarrow> bytes option \<Rightarrow> (bytes option \<times> package \<times> nat) option" where
  "download_package dl lsb =
     (let pk = sarah_updater_package_start in
      if \<not> dl_open dl then Some (lsb, pk, 1)
      else if \<not> dl_lock dl \<or> \<not> dl_curl dl then do {
        pk \<leftarrow> sarah_updater_package_end pk;
        Some (Some (pk_fd pk), pk, 2) }
      else do {
        pk \<leftarrow> package_updates pk (dl_chunks dl);
        pk \<leftarrow> sarah_updater_package_end pk;
        Some (Some (pk_fd pk), pk, if dl_perform dl \<and> dl_code dl = 200 then 0 else 3) })"

section \<open>The installation\<close>

record install =
  is_open_src :: bool
  is_lock_src :: bool
  is_remove :: bool
  is_open_dst :: bool
  is_lock_dst :: bool
  is_read :: "nat \<Rightarrow> bool"
  is_write :: "nat \<Rightarrow> int"

text \<open>The copy loop: every read fills the start of the buffer of 1024 bytes, every write gets the whole
  buffer; \<open>is_write k\<close> is what the write \<open>k\<close> returns.\<close>

function copy_loop :: "install \<Rightarrow> nat \<Rightarrow> bytes \<Rightarrow> bytes \<Rightarrow> bytes \<Rightarrow> bytes \<times> nat" where
  "copy_loop e k src buffer out =
     (if \<not> is_read e k then (out, 6)
      else if src = [] then (out, 0)
      else
        let n = min 1024 (length src);
            buffer = take n src @ drop n buffer;
            w = is_write e k
        in if w < 0 then (out, 7) else if w = 0 then (out, 0)
           else copy_loop e (k + 1) (drop n src) buffer (out @ take (nat w) buffer))"
  by auto
termination by (relation "measure (\<lambda>(e, k, src, _). length src)") auto

declare copy_loop.simps [simp del]

definition install_package :: "install \<Rightarrow> bytes option \<Rightarrow> bytes option \<Rightarrow> bytes option \<times> nat" where
  "install_package e lsb bin =
     (case lsb of None \<Rightarrow> (bin, 1) | Some src \<Rightarrow>
        if \<not> is_open_src e then (bin, 1)
        else if \<not> is_lock_src e then (bin, 2)
        else if bin \<noteq> None \<and> \<not> is_remove e then (bin, 3)
        else if \<not> is_open_dst e then (None, 4)
        else if \<not> is_lock_dst e then (Some [], 5)
        else case copy_loop e 0 src (replicate 1024 0) [] of (out, errno) \<Rightarrow> (Some out, errno))"

section \<open>The round\<close>

text \<open>\<open>strncmp(a, b, n) == 0\<close>.\<close>

definition strncmp_eq :: "bytes \<Rightarrow> bytes \<Rightarrow> nat \<Rightarrow> bool" where
  "strncmp_eq a b n \<longleftrightarrow> take n (cstr a @ [0]) = take n (cstr b @ [0])"

text \<open>What the server offers: the version as a \<open>float\<close>, and the signature, which goes to a field of 33 bytes without a check of
  its length; or the code of the failure.\<close>

definition offered_version :: "rounding \<Rightarrow> fp json \<Rightarrow> (int + fp \<times> bytes) option" where
  "offered_version R j = do {
     r \<leftarrow> reply_check j;
     (case r of Inl code \<Rightarrow> Some (Inl code) | Inr _ \<Rightarrow>
        let data = cJSON_GetObjectItem (Some j) (bytes_of ''data'') in
        case cJSON_GetObjectItem data (bytes_of ''version'') of None \<Rightarrow> Some (Inl 5) | Some v \<Rightarrow>
          if js_type v \<noteq> cJSON_Number then Some (Inl 5)
          else case cJSON_GetObjectItem data (bytes_of ''md5_sign'') of None \<Rightarrow> Some (Inl 6) | Some c \<Rightarrow>
            if js_type c \<noteq> cJSON_String then Some (Inl 6)
            else do {
              s \<leftarrow> js_string c;
              sign \<leftarrow> blit (replicate 33 0) 0 (s @ [0]) (length s + 1);
              Some (Inr (float_of (r_float R) (js_num v), sign)) }) }"

record round_env =
  re_status :: proc_status
  re_curl :: bool
  re_chunks :: "bytes list"
  re_perform :: bool
  re_code :: int
  re_download :: download
  re_install :: install
  re_io :: io
  re_kill :: "nat \<Rightarrow> bool"

definition latest_version :: "mallocs \<Rightarrow> rounding \<Rightarrow> round_env \<Rightarrow> updater \<Rightarrow> (updater \<times> (int + fp \<times> bytes)) option" where
  "latest_version al R e ue =
     (if \<not> re_curl e then Some (ue, Inl 1)
      else do {
        ue \<leftarrow> sarah_updater_clear ue;
        sb \<leftarrow> ue_strbuff ue;
        (sb, _) \<leftarrow> deliver (post_recv_callback (\<lambda>sb b. cel_strbuff_append_from (malloc (call 0 al)) sb b (length b) 1)) sb (re_chunks e);
        let ue = ue\<lparr>ue_strbuff := Some sb\<rparr>;
        (if \<not> re_perform e \<or> re_code e \<noteq> 200 then Some (ue, Inl 2)
         else do {
           reply \<leftarrow> cJSON_Parse (call 1 al) (r_double R) (Some (sb_buffer sb));
           (case reply of None \<Rightarrow> Some (ue, Inl 3) | Some j \<Rightarrow> do {
              r \<leftarrow> offered_version R j;
              Some (ue, r) }) }) })"

text \<open>The variables of the loop, and the files.\<close>

record updater_state =
  us_updater :: updater
  us_c_version :: fp
  us_download_status :: nat
  us_files :: files
  us_signals :: nat

text \<open>The restart signal is tried five times.\<close>

definition restart_signal :: "(nat \<Rightarrow> bool) \<Rightarrow> nat" where
  "restart_signal kill = (if \<exists>c\<in>{0, 1, 2, 3, 4}. kill c then 1 else 0)"

text \<open>The result of recording the version is not looked at.\<close>

definition install_step :: "round_env \<Rightarrow> path \<Rightarrow> fp \<Rightarrow> updater_state \<Rightarrow> updater_state option" where
  "install_step e exe v s = do {
     LSB_file \<leftarrow> ue_LSB_file (us_updater s);
     let (bin, errno) = install_package (re_install e) (us_files s LSB_file) (us_files s exe);
     let fs = (us_files s)(exe := bin);
     (if errno \<noteq> 0 then Some (s\<lparr>us_files := fs\<rparr>)
      else do {
        (fs, ue, _) \<leftarrow> sarah_updater_set_version (re_io e) fs (us_updater s) v;
        Some (s\<lparr>us_files := fs, us_updater := ue, us_c_version := v, us_download_status := 0,
                us_signals := us_signals s + restart_signal (re_kill e)\<rparr>) }) }"

text \<open>One round; the flag says that the loop ends.  A reply whose code comes out as 0 leaves the version 0
  and a signature that was never written.\<close>

definition updater_round ::
  "mallocs \<Rightarrow> rounding \<Rightarrow> round_env \<Rightarrow> path \<Rightarrow> updater_state \<Rightarrow> (updater_state \<times> bool) option" where
  "updater_round al R e exe s =
     (if re_status e = EXIT then Some (s, True)
      else if re_status e = STOP then Some (s, False)
      else do {
        (ue, r) \<leftarrow> latest_version al R e (us_updater s);
        let s = s\<lparr>us_updater := ue\<rparr>;
        (case r of
           Inl code \<Rightarrow>
             (if code \<noteq> 0 \<or> fp_le (Fin 0) (us_c_version s) \<or> fp_le (Fin 0) (ue_version ue) then Some (s, False) else None)
         | Inr (v, sign) \<Rightarrow>
             if fp_le v (us_c_version s) \<or> fp_le v (ue_version ue) then Some (s, False)
             else if us_download_status s = 1 then map_option (\<lambda>s. (s, False)) (install_step e exe v s)
             else do {
               LSB_file \<leftarrow> ue_LSB_file ue;
               (lsb, pk, errno) \<leftarrow> download_package (re_download e) (us_files s LSB_file);
               let s = s\<lparr>us_files := (us_files s)(LSB_file := lsb)\<rparr>;
               (if errno \<noteq> 0 then Some (s, False)
                else
                  let s = s\<lparr>us_download_status := 1\<rparr> in
                  if \<not> strncmp_eq sign (pk_sign pk) 32 then Some (s, False)
                  else map_option (\<lambda>s. (s, False)) (install_step e exe v s)) }) })"

section \<open>Lemmas\<close>

lemma updates_law:
  "md_rep (pk_md5 pk) m \<Longrightarrow> \<forall>(b, n) \<in> set cs. length b < 2 ^ 28 \<Longrightarrow>
   \<exists>p. package_updates pk cs = Some (pk\<lparr>pk_fd := pk_fd pk @ concat (map (\<lambda>(b, n). take n b) cs), pk_md5 := p\<rparr>)
     \<and> md_rep p (m @ concat (map fst cs))"
proof (induction cs arbitrary: pk m)
  case Nil
  then show ?case by (intro exI [of _ "pk_md5 pk"]) simp
next
  case (Cons c cs)
  obtain b n where c: "c = (b, n)" by fastforce
  with Cons.prems(2) have b: "length b < 2 ^ 28" by simp
  obtain p1 where p1: "cel_md5_update (pk_md5 pk) b (int (length b)) = Some p1" "md_rep p1 (m @ b)"
    using md.upd_law [OF Cons.prems(1) b] by blast
  have "to_int32 (wrap32 (length b)) = int (length b)" using b by simp
  with p1(1) c have s: "sarah_updater_package_update pk c = Some (pk\<lparr>pk_fd := pk_fd pk @ take n b, pk_md5 := p1\<rparr>)"
    by (simp add: sarah_updater_package_update_def)
  have "md_rep (pk_md5 (pk\<lparr>pk_fd := pk_fd pk @ take n b, pk_md5 := p1\<rparr>)) (m @ b)" using p1(2) by simp
  from Cons.IH [OF this] Cons.prems(2) obtain p where
    "package_updates (pk\<lparr>pk_fd := pk_fd pk @ take n b, pk_md5 := p1\<rparr>) cs
      = Some (pk\<lparr>pk_fd := (pk_fd pk @ take n b) @ concat (map (\<lambda>(b, n). take n b) cs), pk_md5 := p\<rparr>)"
    "md_rep p ((m @ b) @ concat (map fst cs))" by auto
  with s c show ?case by (intro exI [of _ p]) simp
qed

lemma end_law:
  assumes "md_rep (pk_md5 pk) m" "pk_sign pk = replicate 33 0"
  obtains pk' where "sarah_updater_package_end pk = Some pk'" "pk_fd pk' = pk_fd pk" "cstr (pk_sign pk') = md5_hex m"
proof -
  obtain p d where f: "cel_md5_final (pk_md5 pk) = Some (p, d)" "d = md5_spec m"
    using md.fin_law [OF assms(1)] by (auto split: bind_splits)
  have "cel_md5_print d (pk_sign pk) = Some (md5_hex m @ [0])"
    using md5_print_law [of "replicate 33 0" m] by (simp add: f(2) assms(2))
  with f(1) have e: "sarah_updater_package_end pk = Some (pk\<lparr>pk_md5 := p, pk_digest := d, pk_sign := md5_hex m @ [0]\<rparr>)"
    by (simp add: sarah_updater_package_end_def)
  show ?thesis by (rule that [OF e]) simp_all
qed

lemma download_law:
  assumes "dl_open dl" "dl_lock dl" "dl_curl dl" "\<forall>(b, n) \<in> set (dl_chunks dl). length b < 2 ^ 28"
  obtains pk where "download_package dl lsb = Some (Some (concat (map (\<lambda>(b, n). take n b) (dl_chunks dl))), pk,
      if dl_perform dl \<and> dl_code dl = 200 then 0 else 3)"
    "cstr (pk_sign pk) = md5_hex (concat (map fst (dl_chunks dl)))"
proof -
  have "md_rep (pk_md5 sarah_updater_package_start) []"
    using md.start_law by (simp add: sarah_updater_package_start_def)
  from updates_law [OF this assms(4)] obtain p where p:
    "package_updates sarah_updater_package_start (dl_chunks dl) = Some (sarah_updater_package_start
       \<lparr>pk_fd := pk_fd sarah_updater_package_start @ concat (map (\<lambda>(b, n). take n b) (dl_chunks dl)), pk_md5 := p\<rparr>)"
    "md_rep p (concat (map fst (dl_chunks dl)))" by auto
  let ?pk = "sarah_updater_package_start
       \<lparr>pk_fd := pk_fd sarah_updater_package_start @ concat (map (\<lambda>(b, n). take n b) (dl_chunks dl)), pk_md5 := p\<rparr>"
  have "md_rep (pk_md5 ?pk) (concat (map fst (dl_chunks dl)))" "pk_sign ?pk = replicate 33 0"
    using p(2) by (simp_all add: sarah_updater_package_start_def)
  from end_law [OF this] obtain pk' where e: "sarah_updater_package_end ?pk = Some pk'" "pk_fd pk' = pk_fd ?pk"
    "cstr (pk_sign pk') = md5_hex (concat (map fst (dl_chunks dl)))" .
  have "pk_fd ?pk = concat (map (\<lambda>(b, n). take n b) (dl_chunks dl))" by (simp add: sarah_updater_package_start_def)
  with e p(1) assms(1-3) have "download_package dl lsb = Some (Some (concat (map (\<lambda>(b, n). take n b) (dl_chunks dl))), pk',
      if dl_perform dl \<and> dl_code dl = 200 then 0 else 3)"
    by (simp add: download_package_def)
  then show ?thesis using e(3) by (rule that)
qed

definition copies_fully :: "install \<Rightarrow> bool" where
  "copies_fully e \<longleftrightarrow> (\<forall>k. is_read e k \<and> is_write e k = 1024)"

lemma copy_loop_law:
  assumes "copies_fully e"
  shows "length buffer = 1024 \<Longrightarrow>
    \<exists>out'. copy_loop e k src buffer out = (out @ out', 0) \<and> take (length src) out' = src
      \<and> length out' = 1024 * ((length src + 1023) div 1024)
      \<and> (length src \<le> 1024 \<and> src \<noteq> [] \<longrightarrow> out' = src @ drop (length src) buffer)"
proof (induction src arbitrary: k buffer out rule: length_induct)
  case (1 src)
  have rw: "is_read e k" "is_write e k = 1024" using assms by (auto simp: copies_fully_def)
  show ?case
  proof (cases "src = []")
    case True
    with rw show ?thesis by (simp add: copy_loop.simps)
  next
    case False
    let ?n = "min 1024 (length src)"
    let ?b = "take ?n src @ drop ?n buffer"
    have lb: "length ?b = 1024" using 1(2) by simp
    have "length (drop ?n src) < length src" using False by simp
    with 1(1) lb obtain o' where o': "copy_loop e (k + 1) (drop ?n src) ?b (out @ ?b) = ((out @ ?b) @ o', 0)"
      "take (length (drop ?n src)) o' = drop ?n src" "length o' = 1024 * ((length (drop ?n src) + 1023) div 1024)"
      by meson
    have run: "copy_loop e k src buffer out = (out @ (?b @ o'), 0)"
      using rw False o'(1) lb by (subst copy_loop.simps) (simp add: Let_def)
    show ?thesis
    proof (cases "length src \<le> 1024")
      case True
      then have "?b = src @ drop (length src) buffer" "o' = []" using o'(3) by (auto simp: min_absorb2)
      moreover have "(length src + 1023) div 1024 = 1" using True False by (cases src) auto
      ultimately show ?thesis using run 1(2) True by (intro exI [of _ "?b @ o'"]) simp
    next
      case False
      then have b: "?b = take 1024 src" using 1(2) by simp
      have "take (length src) (?b @ o') = take 1024 src @ take (length src - 1024) o'" using b False by simp
      also have "... = src" using o'(2) False by simp
      finally have "take (length src) (?b @ o') = src" .
      moreover have "length (?b @ o') = 1024 * ((length src + 1023) div 1024)"
      proof -
        have "(length src + 1023) div 1024 = Suc ((length src - 1024 + 1023) div 1024)" using False by auto
        with o'(3) lb False show ?thesis by simp
      qed
      ultimately show ?thesis using run False by (intro exI [of _ "?b @ o'"]) simp
    qed
  qed
qed

section \<open>Properties\<close>

text \<open>C28: the signature of a package is the MD5 of what curl delivered, in any chunks; the package file holds
  what \<open>fwrite\<close> accepted of it, so that the two agree when it accepted everything.  The code is 0 exactly
  for a complete transfer with status 200.\<close>

theorem package_signature:
  assumes "dl_open dl" "dl_lock dl" "dl_curl dl" "\<forall>(b, n) \<in> set (dl_chunks dl). length b < 2 ^ 28"
  shows "\<exists>file pk code. download_package dl lsb = Some (Some file, pk, code)
     \<and> cstr (pk_sign pk) = md5_hex (concat (map fst (dl_chunks dl)))
     \<and> file = concat (map (\<lambda>(b, n). take n b) (dl_chunks dl))
     \<and> ((\<forall>(b, n) \<in> set (dl_chunks dl). length b \<le> n) \<longrightarrow> file = concat (map fst (dl_chunks dl)))
     \<and> (code = 0 \<longleftrightarrow> dl_perform dl \<and> dl_code dl = 200)"
proof -
  obtain pk where pk: "download_package dl lsb = Some (Some (concat (map (\<lambda>(b, n). take n b) (dl_chunks dl))), pk,
      if dl_perform dl \<and> dl_code dl = 200 then 0 else 3)"
    "cstr (pk_sign pk) = md5_hex (concat (map fst (dl_chunks dl)))"
    using download_law [OF assms] .
  have all: "concat (map (\<lambda>(b, n). take n b) cs) = concat (map fst cs)"
    if "\<forall>(b, n) \<in> set cs. length b \<le> n" for cs :: "(bytes \<times> nat) list"
    using that by (induction cs) auto
  show ?thesis
    by (rule exI, rule exI, rule exI, rule conjI [OF pk(1)], rule conjI [OF pk(2)]) (simp add: all)
qed

definition sample_download :: download where
  "sample_download = \<lparr>dl_open = True, dl_lock = True, dl_curl = True, dl_chunks = [([1, 2], 2), ([3], 0)],
     dl_perform = True, dl_code = 200\<rparr>"

lemma package_signature_witness:
  "\<exists>pk. download_package sample_download None = Some (Some [1, 2], pk, 0) \<and> cstr (pk_sign pk) = md5_hex [1, 2, 3]"
  using package_signature [of sample_download None] by (auto simp: sample_download_def)

text \<open>An installation that meets no error puts the package, padded to a multiple of 1024 bytes, in the
  place of the booter: the two agree exactly when the length of the package is such a multiple, and a
  package of less than 1024 bytes is padded with zeros.  Each step that fails has its code, and from the
  fourth on the old booter is gone.\<close>

theorem install_pads:
  shows "(is_open_src e \<and> is_lock_src e \<and> (bin = None \<or> is_remove e) \<and> is_open_dst e \<and> is_lock_dst e \<and> copies_fully e \<longrightarrow>
      (\<exists>out. install_package e (Some src) bin = (Some out, 0) \<and> take (length src) out = src
        \<and> length out = 1024 * ((length src + 1023) div 1024) \<and> (out = src \<longleftrightarrow> 1024 dvd length src)
        \<and> (length src < 1024 \<and> src \<noteq> [] \<longrightarrow> out = src @ replicate (1024 - length src) 0)))
    \<and> install_package e None bin = (bin, 1)
    \<and> (is_open_src e \<and> \<not> is_lock_src e \<longrightarrow> install_package e (Some src) bin = (bin, 2))
    \<and> (is_open_src e \<and> is_lock_src e \<and> bin \<noteq> None \<and> \<not> is_remove e \<longrightarrow> install_package e (Some src) bin = (bin, 3))
    \<and> (is_open_src e \<and> is_lock_src e \<and> is_remove e \<and> \<not> is_open_dst e \<longrightarrow> install_package e (Some src) bin = (None, 4))"
proof (intro conjI impI, goal_cases)
  case 1
  then have "copies_fully e" by simp
  then obtain out where out: "copy_loop e 0 src (replicate 1024 0) [] = (out, 0)" "take (length src) out = src"
    "length out = 1024 * ((length src + 1023) div 1024)"
    "length src \<le> 1024 \<and> src \<noteq> [] \<longrightarrow> out = src @ drop (length src) (replicate 1024 0)"
    using copy_loop_law [of e "replicate 1024 0" 0 src "[]"] by auto
  have "length src \<le> length out" using out(3) by linarith
  then have "out = src \<longleftrightarrow> length out = length src" using out(2) by (metis take_all order_refl)
  also have "\<dots> \<longleftrightarrow> 1024 dvd length src"
  proof
    show "1024 dvd length src" if "length out = length src" using that out(3) by (metis dvd_triv_left)
    show "length out = length src" if "1024 dvd length src" using that out(3) by (auto elim!: dvdE)
  qed
  finally have "out = src \<longleftrightarrow> 1024 dvd length src" .
  moreover have "install_package e (Some src) bin = (Some out, 0)"
    using 1 out(1) by (auto simp: install_package_def)
  ultimately show ?case using out by (auto simp: drop_replicate_tail)
qed (auto simp: install_package_def)

definition fine_install :: install where
  "fine_install = \<lparr>is_open_src = True, is_lock_src = True, is_remove = True, is_open_dst = True, is_lock_dst = True,
     is_read = (\<lambda>_. True), is_write = (\<lambda>_. 1024)\<rparr>"

lemma install_pads_witness:
  "install_package fine_install (Some [7, 8]) (Some [1]) = (Some ([7, 8] @ replicate 1022 0), 0)"
proof -
  have "copies_fully fine_install" by (simp add: copies_fully_def fine_install_def)
  then obtain out where "install_package fine_install (Some [7, 8]) (Some [1]) = (Some out, 0)"
    "out = [7, 8] @ replicate 1022 0"
    using install_pads [of fine_install "Some [1]" "[7, 8]"]
    by (auto simp: fine_install_def simp del: replicate_numeral)
  then show ?thesis by simp
qed

lemma parse_plain:
  assumes "cJSON_Parse al r (Some block) = Some (Some j)"
  shows "plain j"
proof -
  have "0 \<in> set block" using assms by (auto simp: cJSON_Parse_def cJSON_ParseWithOpts_def strlen_def split: if_splits)
  then show ?thesis using assms parse_block parsed_nested by fastforce
qed

lemma item_plain: "plain j \<Longrightarrow> cJSON_GetObjectItem (Some j) k = Some c \<Longrightarrow> plain c"
  using find_item_law by (cases j) (fastforce simp: cJSON_GetObjectItem_def)

text \<open>No text is read as the version NaN.\<close>

lemma offered_number:
  assumes "plain j" "offered_version R j = Some (Inr (v, sign))"
  shows "v \<noteq> NaN"
proof -
  let ?data = "cJSON_GetObjectItem (Some j) (bytes_of ''data'')"
  obtain d where d: "cJSON_GetObjectItem ?data (bytes_of ''version'') = Some d" "js_type d = cJSON_Number" "v = float_of (r_float R) (js_num d)"
    using assms(2) by (auto simp: offered_version_def Let_def split: bind_splits sum.splits option.splits if_splits)
  then obtain c where "?data = Some c" by (cases ?data) (auto simp: cJSON_GetObjectItem_def)
  then have "plain d" using item_plain [OF item_plain [OF assms(1)]] d(1) by metis
  then have "js_num d \<noteq> NaN" using d(2) by (cases d) (auto simp: int_of_double_def)
  then show ?thesis using d(3) by simp
qed

lemma latest_law:
  assumes "latest_version al R e ue = Some (ue', r)"
  obtains sb where "ue' = ue\<lparr>ue_strbuff := sb\<rparr>"
    "isl r \<or> (\<exists>block j. sb = Some block \<and> cJSON_Parse (call 1 al) (r_double R) (Some (sb_buffer block)) = Some (Some j) \<and> offered_version R j = Some r)"
proof (cases "re_curl e")
  case False
  then show ?thesis using assms that [of "ue_strbuff ue"] by (auto simp: latest_version_def)
next
  case True
  then show ?thesis using assms that
    by (auto simp: latest_version_def sarah_updater_clear_def Let_def split: bind_splits prod.splits if_splits option.splits)
qed

lemma install_step_law:
  assumes "install_step e exe v s = Some s'" "ue_LSB_file (us_updater s) = Some lsb" "ue_ver_file (us_updater s) \<noteq> Some exe"
  shows "us_files s' exe = fst (install_package (re_install e) (us_files s lsb) (us_files s exe))
    \<and> (us_c_version s' = us_c_version s \<or> us_c_version s' = v)"
proof -
  obtain bin errno where i: "install_package (re_install e) (us_files s lsb) (us_files s exe) = (bin, errno)" by fastforce
  have w: "fs' exe = fs exe" if "sarah_updater_set_version io fs ue v = Some (fs', x)" "ue_ver_file ue \<noteq> Some exe" for io fs ue fs' x
    using that by (auto simp: sarah_updater_set_version_def sarah_file_put_buffer_def Let_def split: bind_splits if_splits)
  show ?thesis
  proof (cases "errno = 0")
    case True
    then show ?thesis using assms i by (auto simp: install_step_def Let_def dest: w split: bind_splits)
  next
    case False
    then show ?thesis using assms i by (auto simp: install_step_def Let_def split: bind_splits)
  qed
qed

section \<open>Properties of the round\<close>

text \<open>C2: in a round that begins without a finished download, the booter file changes or a restart is
  signalled only when the reply to this round offers a version newer than both the running and the recorded one and
  the MD5 of the bytes just delivered agrees with its signature.  No round makes the version smaller.\<close>

theorem update_verified_in_round:
  assumes round: "updater_round al R e exe s = Some (s', b)"
    and files: "ue_LSB_file (us_updater s) = Some lsb" "exe \<noteq> lsb" "ue_ver_file (us_updater s) \<noteq> Some exe"
    and "us_c_version s \<noteq> NaN"
  shows "fp_le (us_c_version s) (us_c_version s')
    \<and> (us_download_status s \<noteq> 1 \<and> (us_files s' exe \<noteq> us_files s exe \<or> us_signals s' \<noteq> us_signals s) \<longrightarrow>
        (\<exists>sb j v sign file pk. ue_strbuff (us_updater s') = Some sb \<and> cJSON_Parse (call 1 al) (r_double R) (Some (sb_buffer sb)) = Some (Some j)
          \<and> offered_version R j = Some (Inr (v, sign)) \<and> \<not> fp_le v (us_c_version s) \<and> \<not> fp_le v (ue_version (us_updater s))
          \<and> download_package (re_download e) (us_files s lsb) = Some (file, pk, 0) \<and> strncmp_eq sign (pk_sign pk) 32
          \<and> us_files s' exe = fst (install_package (re_install e) file (us_files s exe))))"
proof (cases "re_status e = EXIT \<or> re_status e = STOP")
  case True
  then show ?thesis using round fp_le_refl [OF assms(5)] by (auto simp: updater_round_def)
next
  case run: False
  obtain ue r where ue: "latest_version al R e (us_updater s) = Some (ue, r)"
    using round run by (auto simp: updater_round_def split: bind_splits)
  obtain sb where sb: "ue = (us_updater s)\<lparr>ue_strbuff := sb\<rparr>"
    "isl r \<or> (\<exists>block j. sb = Some block \<and> cJSON_Parse (call 1 al) (r_double R) (Some (sb_buffer block)) = Some (Some j) \<and> offered_version R j = Some r)"
    by (rule latest_law [OF ue])
  show ?thesis
  proof (cases r)
    case (Inl code)
    then show ?thesis using round run ue fp_le_refl [OF assms(5)] by (auto simp: updater_round_def split: if_splits)
  next
    case (Inr x)
    obtain v sign where x: "x = (v, sign)" by fastforce
    obtain block j where j: "sb = Some block" "cJSON_Parse (call 1 al) (r_double R) (Some (sb_buffer block)) = Some (Some j)"
      "offered_version R j = Some (Inr (v, sign))" using sb(2) Inr x by auto
    have v: "v \<noteq> NaN" by (rule offered_number [OF parse_plain [OF j(2)] j(3)])
    let ?c = "us_c_version s" and ?u = "ue_version (us_updater s)"
    show ?thesis
    proof (cases "fp_le v ?c \<or> fp_le v ?u")
      case True
      then show ?thesis using round run ue Inr x sb(1) fp_le_refl [OF assms(5)] by (auto simp: updater_round_def)
    next
      case new: False
      then have up: "fp_le ?c v" using fp_le_total [OF v assms(5)] by blast
      note step = install_step_law [of e exe v]
      show ?thesis
      proof (cases "us_download_status s = 1")
        case True
        then have "install_step e exe v (s\<lparr>us_updater := ue\<rparr>) = Some s'"
          using round run ue Inr x sb(1) new by (auto simp: updater_round_def)
        then show ?thesis using step [of _ s' lsb] files sb(1) up fp_le_refl [OF assms(5)] True by fastforce
      next
        case False
        obtain got pk errno where d: "download_package (re_download e) (us_files s lsb) = Some (got, pk, errno)"
          using round run ue Inr x sb(1) new False files(1) by (auto simp: updater_round_def split: bind_splits)
        let ?s = "s\<lparr>us_updater := ue, us_files := (us_files s)(lsb := got), us_download_status := 1\<rparr>"
        show ?thesis
        proof (cases "errno = 0 \<and> strncmp_eq sign (pk_sign pk) 32")
          case True
          then have i: "install_step e exe v ?s = Some s'"
            using round run ue Inr x sb(1) new False files(1) d by (auto simp: updater_round_def Let_def)
          have "ue_strbuff (us_updater s') = Some block"
            using i j(1) sb(1) by (auto simp: install_step_def sarah_updater_set_version_def Let_def split: bind_splits if_splits prod.splits)
          then show ?thesis using step [OF i] files sb(1) up fp_le_refl [OF assms(5)] j new d True by fastforce
        next
          case no: False
          then show ?thesis using round run ue Inr x sb(1) new False files d fp_le_refl [OF assms(5)]
            by (auto simp: updater_round_def Let_def split: if_splits)
        qed
      qed
    qed
  qed
qed

text \<open>C15: after a round whose verification failed, the finished download is remembered: the next round that
  learns of a newer version installs the file of the failed download, without a download and without
  looking at any signature.\<close>

theorem unverified_installed_next:
  assumes "re_status e = RUNNING" "us_download_status s \<noteq> 1" "ue_LSB_file (us_updater s) = Some lsb" "exe \<noteq> lsb"
    "ue_ver_file (us_updater s) \<noteq> Some exe"
    "latest_version al R e (us_updater s) = Some (ue, Inr (v, sign))" "\<not> fp_le v (us_c_version s)" "\<not> fp_le v (ue_version (us_updater s))"
    "download_package (re_download e) (us_files s lsb) = Some (got, pk, 0)" "\<not> strncmp_eq sign (pk_sign pk) 32"
    "re_status e' = RUNNING" "latest_version al' R e' ue = Some (ue', Inr (v', sign'))"
    "\<not> fp_le v' (us_c_version s)" "\<not> fp_le v' (ue_version (us_updater s))"
  shows "\<exists>s1. updater_round al R e exe s = Some (s1, False) \<and> us_files s1 exe = us_files s exe \<and> us_files s1 lsb = got
    \<and> updater_round al' R e' exe s1 = map_option (\<lambda>s. (s, False)) (install_step e' exe v' (s1\<lparr>us_updater := ue'\<rparr>))
    \<and> (case install_step e' exe v' (s1\<lparr>us_updater := ue'\<rparr>) of None \<Rightarrow> True
       | Some s2 \<Rightarrow> us_files s2 exe = fst (install_package (re_install e') got (us_files s exe)))"
proof (intro exI conjI)
  obtain sb where sb: "ue = (us_updater s)\<lparr>ue_strbuff := sb\<rparr>" by (rule latest_law [OF assms(6)])
  obtain sb' where sb': "ue' = ue\<lparr>ue_strbuff := sb'\<rparr>" by (rule latest_law [OF assms(12)])
  let ?s = "s\<lparr>us_updater := ue, us_files := (us_files s)(lsb := got), us_download_status := 1\<rparr>"
  show "updater_round al R e exe s = Some (?s, False)"
    using assms by (simp add: updater_round_def Let_def sb)
  show "updater_round al' R e' exe ?s = map_option (\<lambda>s. (s, False)) (install_step e' exe v' (?s\<lparr>us_updater := ue'\<rparr>))"
    using assms by (simp add: updater_round_def Let_def sb sb')
  show "us_files ?s exe = us_files s exe" "us_files ?s lsb = got" using assms(4) by simp_all
  show "case install_step e' exe v' (?s\<lparr>us_updater := ue'\<rparr>) of None \<Rightarrow> True
       | Some s2 \<Rightarrow> us_files s2 exe = fst (install_package (re_install e') got (us_files s exe))"
    using install_step_law [of e' exe v' "?s\<lparr>us_updater := ue'\<rparr>" _ lsb] assms(3,4,5) by (auto simp: sb sb' split: option.splits)
qed

section \<open>An updater that runs\<close>

definition sample_ue :: updater where
  "sample_ue = new_updater\<lparr>ue_strbuff := Some sample_buffer, ue_LSB_file := Some (bytes_of ''/p''), ue_ver_file := Some (bytes_of ''/v'')\<rparr>"

definition sample_updater :: updater_state where
  "sample_updater = \<lparr>us_updater = sample_ue, us_c_version = Fin (157 / 100), us_download_status = 0,
     us_files = Map.empty(bytes_of ''/x'' \<mapsto> [0]), us_signals = 0\<rparr>"

definition version_reply :: "bytes \<Rightarrow> fp json" where
  "version_reply sign = Json None cJSON_Object None 0 (Fin 0) [Json (Some (bytes_of ''errno'')) cJSON_Number None 0 (Fin 0) [],
     Json (Some (bytes_of ''data'')) cJSON_Object None 0 (Fin 0)
       [Json (Some (bytes_of ''version'')) cJSON_Number None 2 (Fin 2) [],
        Json (Some (bytes_of ''md5_sign'')) cJSON_String (Some sign) 0 (Fin 0) []]]"

definition sample_env :: "bytes \<Rightarrow> round_env" where
  "sample_env sign = \<lparr>re_status = RUNNING, re_curl = True, re_chunks = [render id False 0 (version_reply sign)], re_perform = True,
     re_code = 200, re_download = sample_download, re_install = fine_install, re_io = fine_io, re_kill = (\<lambda>_. True)\<rparr>"

lemma version_reply_read:
  assumes "no_nul sign" "length sign \<le> 32"
  shows "parsed plenty id (render id False 0 (version_reply sign)) = Some (version_reply sign)"
    "length (render id False 0 (version_reply sign)) < 2 ^ 29"
    "offered_version exact (version_reply sign) = Some (Inr (Fin 2, sign @ 0 # replicate (32 - length sign) 0))"
proof -
  have z: "\<exists>i. \<bar>i\<bar> < 10 ^ 15 \<and> (Fin 0 :: fp) = Fin (rat_of_int i)" by (rule exI [of _ 0]) simp
  have t: "\<exists>i. \<bar>i\<bar> < 10 ^ 15 \<and> (Fin 2 :: fp) = Fin (rat_of_int i)" by (rule exI [of _ 2]) simp
  have "numbers_back id (version_reply sign)"
    by (rule integers_back) (use z t in \<open>simp_all add: version_reply_def\<close>)
  moreover have "plain (version_reply sign)"
    using assms(1) by (simp add: version_reply_def int_of_double_def saturated_def bytes_of_def)
  ultimately show "parsed plenty id (render id False 0 (version_reply sign)) = Some (version_reply sign)"
    by (intro parsed_render) (simp_all add: plenty_def version_reply_def)
  have n: "number_string id (Fin 0) = signed_digits 0" "number_string id (Fin 2) = signed_digits 2"
    using integer_text(1) [of 0 id] integer_text(1) [of 2 id] by (simp_all add: number_string_def)
  have "length (quoted (Some sign)) \<le> 194" using escaped_length [of sign] assms by (simp add: quoted_def)
  then show "length (render id False 0 (version_reply sign)) < 2 ^ 29"
    using n by (simp add: version_reply_def) (simp add: quoted_def cstr_def escape_def escape_letter_def bytes_of_def
      signed_digits_def dec_digits_rec)
  have "drop (length sign + 1) (replicate 33 (0 :: u8)) = replicate (32 - length sign) 0"
    using assms(2) by (simp add: drop_replicate_tail)
  then have "blit (replicate 33 0) 0 (sign @ [0]) (length sign + 1) = Some (sign @ 0 # replicate (32 - length sign) 0)"
    using assms(2) by (simp add: blit_def)
  then show "offered_version exact (version_reply sign) = Some (Inr (Fin 2, sign @ 0 # replicate (32 - length sign) 0))"
    by (simp add: offered_version_def version_reply_def reply_check_def cJSON_GetObjectItem_def cJSON_HasObjectItem_def
        bytes_of_def to_lower_def float_of_def exact_def)
qed

lemma sample_version:
  assumes "no_nul sign" "length sign \<le> 32" "ue_strbuff ue = Some sb" "sb_wf sb"
  obtains sb' where "latest_version plenty exact (sample_env sign) ue
      = Some (ue\<lparr>ue_strbuff := Some sb'\<rparr>, Inr (Fin 2, sign @ 0 # replicate (32 - length sign) 0))" "sb_wf sb'"
proof -
  let ?t = "render id False 0 (version_reply sign)"
  obtain sb1 where sb1: "cel_strbuff_clear sb = Some (sb1, 1)" "sb_wf sb1" "content sb1 = []" using clear_content [OF assms(4)] by blast
  have put: "(\<lambda>sb b. cel_strbuff_append_from (\<lambda>_. True) sb b (length b) 1) = strbuff_put" by (simp add: strbuff_put_def fun_eq_iff)
  obtain sb' where sb: "deliver (post_recv_callback strbuff_put) sb1 [?t] = Some (sb', True)" "sb_wf sb'" "content sb' = ?t"
    using sink.deliver_all [OF sb1(2), of "[?t]"] version_reply_read(2) [OF assms(1,2)] sb1(3) by auto
  have "cstr (sb_buffer sb') = ?t" using sb_wf_cstr(2) [OF sb(2)] sb(3) by (simp add: render_no_nul)
  then have p: "cJSON_Parse plenty id (Some (sb_buffer sb')) = Some (Some (version_reply sign))"
    using parse_block [OF sb_wf_cstr(1) [OF sb(2)]] version_reply_read(1) [OF assms(1,2)] by simp
  have "r_double exact = id" by (simp add: exact_def)
  then have "latest_version plenty exact (sample_env sign) ue
      = Some (ue\<lparr>ue_strbuff := Some sb'\<rparr>, Inr (Fin 2, sign @ 0 # replicate (32 - length sign) 0))"
    using sb1(1) sb(1) p version_reply_read(3) [OF assms(1,2)] assms(3) unfolding latest_version_def plenty_calls put
    by (simp add: sample_env_def sarah_updater_clear_def del: deliver.simps)
  then show ?thesis by (rule that) (rule sb(2))
qed

lemma strncmp_cstr:
  assumes "cstr b = a" "no_nul a"
  shows "strncmp_eq (a @ 0 # r) b 32"
  using assms by (simp add: strncmp_eq_def)

lemma sample_install:
  "install_package fine_install (Some [1, 2]) (Some [0]) = (Some ([1, 2] @ replicate 1022 0), 0)"
proof -
  have ok: "copies_fully fine_install" by (simp add: copies_fully_def fine_install_def)
  show ?thesis
    using copy_loop_law [OF ok, of "replicate 1024 0" 0 "[1, 2]" "[]"]
    by (auto simp: install_package_def fine_install_def drop_replicate_tail simp del: replicate_numeral)
qed

lemma sample_record:
  "\<exists>fs ue. sarah_updater_set_version fine_io fs0 (sample_ue\<lparr>ue_strbuff := sb\<rparr>) (Fin 2) = Some (fs, ue, 0)
     \<and> fs = fs0(bytes_of ''/v'' \<mapsto> [50, 46, 48, 48])"
proof -
  have p: "print_f2 (Fin 2) = [50, 46, 48, 48]"
    using print_f2_near [of 2 200] by (simp add: pad_left_def dec_digits_rec)
  have "blit (replicate 5 0) 0 (print_f2 (Fin 2) @ [0]) (length (print_f2 (Fin 2)) + 1) = Some [50, 46, 48, 48, 0 :: u8]"
    by (simp add: p blit_def)
  moreover have "sarah_file_put_buffer fine_io fs0 (bytes_of ''/v'') [50, 46, 48, 48, 0] 4 0 = Some (fs0(bytes_of ''/v'' \<mapsto> [50, 46, 48, 48]), 4)"
    using put_law [of fine_io 4 "[50, 46, 48, 48, 0]"] by (simp add: io_fine_def fine_io_def)
  ultimately show ?thesis unfolding sarah_updater_set_version_def by (simp add: sample_ue_def)
qed

lemma sample_names: "bytes_of ''/x'' \<noteq> bytes_of ''/p''" "bytes_of ''/v'' \<noteq> bytes_of ''/x''" "bytes_of ''/v'' \<noteq> bytes_of ''/p''"
  by (simp_all add: bytes_of_def)

lemma sample_newer: "\<not> fp_le (Fin 2) (Fin (157 / 100))" "\<not> fp_le (Fin 2) (Fin 0)"
  by (simp_all add: fp_le_def fp_rat_def)

lemma sample_pk:
  obtains pk where "cstr (pk_sign pk) = md5_hex [1, 2, 3]" "download_package sample_download None = Some (Some [1, 2], pk, 0)"
  using download_law [of sample_download None] by (auto simp: sample_download_def)

lemma update_verified_in_round_witness:
  "\<exists>s'. updater_round plenty exact (sample_env (md5_hex [1, 2, 3])) (bytes_of ''/x'') sample_updater = Some (s', False)
     \<and> us_c_version s' = Fin 2 \<and> us_files s' (bytes_of ''/x'') = Some ([1, 2] @ replicate 1022 0)"
proof -
  let ?sg = "md5_hex [1, 2, 3]" and ?x = "bytes_of ''/x''" and ?p = "bytes_of ''/p''"
  obtain pk where pk: "cstr (pk_sign pk) = ?sg" "download_package sample_download None = Some (Some [1, 2], pk, 0)" by (rule sample_pk)
  have wf: "sb_wf sample_buffer" using sample_buffer_wf by simp
  have ue: "ue_strbuff sample_ue = Some sample_buffer" "ue_LSB_file sample_ue = Some ?p" "ue_ver_file sample_ue = Some (bytes_of ''/v'')" "ue_version sample_ue = Fin 0"
    by (simp_all add: sample_ue_def new_updater_def)
  obtain sb' where v: "latest_version plenty exact (sample_env ?sg) sample_ue
      = Some (sample_ue\<lparr>ue_strbuff := Some sb'\<rparr>, Inr (Fin 2, ?sg @ 0 # replicate (32 - length ?sg) 0))"
    by (rule sample_version [of ?sg sample_ue sample_buffer]) (use ue wf in simp_all)
  have eq: "strncmp_eq (?sg @ 0 # replicate (32 - length ?sg) 0) (pk_sign pk) 32" by (rule strncmp_cstr [OF pk(1) md5_hex_no_nul])
  let ?fs = "Map.empty(?x \<mapsto> [0], ?p \<mapsto> [1, 2], ?x \<mapsto> [1, 2] @ replicate 1022 0)"
  obtain fs ue' where recd: "sarah_updater_set_version fine_io ?fs (sample_ue\<lparr>ue_strbuff := Some sb'\<rparr>) (Fin 2) = Some (fs, ue', 0)"
    "fs = ?fs(bytes_of ''/v'' \<mapsto> [50, 46, 48, 48])" using sample_record by blast
  have x: "fs ?x = Some ([1, 2] @ replicate 1022 0)" using sample_names by (simp add: recd(2) del: replicate_numeral)
  let ?before = "sample_updater\<lparr>us_updater := sample_ue\<lparr>ue_strbuff := Some sb'\<rparr>, us_files := Map.empty(?x \<mapsto> [0], ?p \<mapsto> [1, 2]), us_download_status := 1\<rparr>"
  let ?s = "?before\<lparr>us_files := fs, us_updater := ue', us_c_version := Fin 2, us_download_status := 0, us_signals := 1\<rparr>"
  have env: "re_status (sample_env ?sg) = RUNNING" "re_download (sample_env ?sg) = sample_download" "re_install (sample_env ?sg) = fine_install"
    "re_io (sample_env ?sg) = fine_io" "restart_signal (re_kill (sample_env ?sg)) = 1"
    and st: "us_updater sample_updater = sample_ue" "us_c_version sample_updater = Fin (157 / 100)" "us_download_status sample_updater = 0"
      "us_files sample_updater = Map.empty(?x \<mapsto> [0])" "us_signals sample_updater = 0"
    by (auto simp: sample_env_def sample_updater_def restart_signal_def)
  have i: "install_step (sample_env ?sg) ?x (Fin 2) ?before = Some ?s"
    using sample_install recd(1) sample_names unfolding install_step_def
    by (simp add: env ue st Let_def del: replicate_numeral)
  have r: "updater_round plenty exact (sample_env ?sg) ?x sample_updater = Some (?s, False)"
    using v pk(2) eq i sample_newer sample_names unfolding updater_round_def
    by (simp add: env ue st Let_def del: replicate_numeral)
  have "fp_le (us_c_version sample_updater) (us_c_version ?s)"
    using update_verified_in_round [OF r, of ?p] sample_names by (simp add: ue st)
  then show ?thesis using r x by (intro exI [of _ ?s]) (simp del: replicate_numeral)
qed

lemma unverified_installed_next_witness:
  "\<exists>s1 s2. updater_round plenty exact (sample_env []) (bytes_of ''/x'') sample_updater = Some (s1, False)
     \<and> updater_round plenty exact (sample_env []) (bytes_of ''/x'') s1 = Some (s2, False)
     \<and> us_files s2 (bytes_of ''/x'') = Some ([1, 2] @ replicate 1022 0)"
proof -
  let ?x = "bytes_of ''/x''" and ?p = "bytes_of ''/p''" and ?e = "sample_env []"
  obtain pk where pk: "cstr (pk_sign pk) = md5_hex [1, 2, 3]" "download_package sample_download None = Some (Some [1, 2], pk, 0)" by (rule sample_pk)
  have h: "length (cstr (pk_sign pk)) = 32" "0 \<notin> set (cstr (pk_sign pk))" using pk(1) no_nul_cstr [of "pk_sign pk"] by (simp_all add: no_nul_def)
  then have n: "\<not> strncmp_eq (0 # replicate 32 0) (pk_sign pk) 32" by (cases "cstr (pk_sign pk)") (auto simp: strncmp_eq_def cstr_terminated [of "[]", simplified])
  have wf: "sb_wf sample_buffer" using sample_buffer_wf by simp
  have ue: "ue_strbuff sample_ue = Some sample_buffer" "ue_LSB_file sample_ue = Some ?p" "ue_ver_file sample_ue = Some (bytes_of ''/v'')" "ue_version sample_ue = Fin 0"
    by (simp_all add: sample_ue_def new_updater_def)
  have env: "re_status ?e = RUNNING" "re_download ?e = sample_download" "re_install ?e = fine_install" "re_io ?e = fine_io"
    and st: "us_updater sample_updater = sample_ue" "us_c_version sample_updater = Fin (157 / 100)" "us_download_status sample_updater = 0"
      "us_files sample_updater = Map.empty(?x \<mapsto> [0])"
    by (simp_all add: sample_env_def sample_updater_def)
  obtain sb1 where v1: "latest_version plenty exact ?e sample_ue = Some (sample_ue\<lparr>ue_strbuff := Some sb1\<rparr>, Inr (Fin 2, 0 # replicate 32 0))" "sb_wf sb1"
    by (rule sample_version [of "[]" sample_ue sample_buffer]) (use ue wf in simp_all)
  obtain sb2 where v2: "latest_version plenty exact ?e (sample_ue\<lparr>ue_strbuff := Some sb1\<rparr>)
      = Some (sample_ue\<lparr>ue_strbuff := Some sb2\<rparr>, Inr (Fin 2, 0 # replicate 32 0))"
    by (rule sample_version [of "[]" "sample_ue\<lparr>ue_strbuff := Some sb1\<rparr>" sb1]) (use v1(2) in simp_all)
  obtain s1 where s1: "updater_round plenty exact ?e ?x sample_updater = Some (s1, False)"
    "us_files s1 ?x = Some [0]" "us_files s1 ?p = Some [1, 2]"
    "updater_round plenty exact ?e ?x s1 = map_option (\<lambda>s. (s, False)) (install_step ?e ?x (Fin 2) (s1\<lparr>us_updater := sample_ue\<lparr>ue_strbuff := Some sb2\<rparr>\<rparr>))"
    using unverified_installed_next [where e = ?e and s = sample_updater and lsb = ?p and exe = ?x and al = plenty and R = exact
        and v = "Fin 2" and sign = "0 # replicate 32 0" and got = "Some [1, 2]" and pk = pk and e' = ?e and al' = plenty
        and v' = "Fin 2" and sign' = "0 # replicate 32 0"]
      n pk(2) v1(1) v2 sample_newer sample_names by (auto simp: env ue st)
  let ?fs = "(us_files s1)(?x \<mapsto> [1, 2] @ replicate 1022 0)"
  obtain fs ue' where recd: "sarah_updater_set_version fine_io ?fs (sample_ue\<lparr>ue_strbuff := Some sb2\<rparr>) (Fin 2) = Some (fs, ue', 0)"
    "fs = ?fs(bytes_of ''/v'' \<mapsto> [50, 46, 48, 48])" using sample_record by blast
  have x: "fs ?x = Some ([1, 2] @ replicate 1022 0)" using sample_names by (simp add: recd(2) del: replicate_numeral)
  obtain s2 where "install_step ?e ?x (Fin 2) (s1\<lparr>us_updater := sample_ue\<lparr>ue_strbuff := Some sb2\<rparr>\<rparr>) = Some s2" "us_files s2 = fs"
    using sample_install recd(1) s1(2,3) unfolding install_step_def
    by (simp add: env ue Let_def del: replicate_numeral)
  then show ?thesis using s1(1,4) x by (simp del: replicate_numeral)
qed

end
