(* ===== verification/Stats.thy ===== *)
theory Stats
  imports Scan CelText Floats
begin

text \<open>
  What the collector samples: processor times, load and list (\<open>src/main/cpu.c\<close>), memory (\<open>ram.c\<close>), processes
  (\<open>process.c\<close>), network counters and bandwidth (\<open>network.c\<close>).

  The content of a file of \<open>/proc\<close> or the output of a command is an input, null when it cannot be opened.  A
  \<open>cel_link_t\<close> of entries is the list of its entries, as \<open>CelLink\<close> justifies; the allocation of its nodes is
  taken to succeed.  Character arrays are the strings in them.  \<open>al\<close> says which block sizes \<open>malloc\<close> gives: the
  constructors return null, which only the list of processors checks for; the others write through it at once.  Rounding to \<open>float\<close>, \<open>double\<close> and \<open>long double\<close> is a
  record of functions; quotients are finite, infinite or NaN.

  Shown: what the kernel prints of the counters is read back, and a line too long for the buffer becomes two
  entries; the load is a percentage as long as the 32-bit sums do not wrap, and not positive when the total
  wraps; the process list leaves out the listing itself; a transfer rate is right even over a wrap of the counter.
\<close>

section \<open>Processor times\<close>

record cpu_time =
  ct_user :: nat
  ct_nice :: nat
  ct_system :: nat
  ct_idle :: nat
  ct_name :: bytes

text \<open>A quotient of \<open>long double\<close>; \<open>None\<close> is a division by zero, whose result, an infinity or NaN, is no number.\<close>

definition quotient :: "rounding \<Rightarrow> rat \<Rightarrow> rat \<Rightarrow> rat option" where
  "quotient R x y = (if y = 0 then None else Some (r_long R (x / y)))"

definition sarah_cal_cpu_occupy :: "rounding \<Rightarrow> cpu_time \<Rightarrow> cpu_time \<Rightarrow> rat option" where
  "sarah_cal_cpu_occupy R s1 s2 =
     (let s1_cost = rat_of_nat (wrap32 (ct_user s1 + ct_nice s1 + ct_system s1 + ct_idle s1));
          s2_cost = rat_of_nat (wrap32 (ct_user s2 + ct_nice s2 + ct_system s2 + ct_idle s2))
      in if s2_cost - s1_cost = 0 then Some 0
         else
           let u1_cost = rat_of_nat (wrap32 (ct_user s1 + ct_nice s1 + ct_system s1));
               u2_cost = rat_of_nat (wrap32 (ct_user s2 + ct_nice s2 + ct_system s2))
           in do { q \<leftarrow> quotient R (u2_cost - u1_cost) (s2_cost - s1_cost); Some (r_float R (r_long R (q * 100))) })"

definition sarah_get_cpu_time :: "bytes option \<Rightarrow> cpu_time \<Rightarrow> (cpu_time \<times> int) option" where
  "sarah_get_cpu_time fd s =
     (case fd of None \<Rightarrow> Some (s, 1) | Some data \<Rightarrow>
        if data = [] then Some (s, 2)
        else do {
          fs \<leftarrow> sscanf [Str 15, White, Uint, White, Uint, White, Uint, White, Uint] (cstr (fst (fgets 255 data)));
          Some (store [\<lambda>s f. s\<lparr>ct_name := f_txt f\<rparr>, \<lambda>s f. s\<lparr>ct_user := f_num f\<rparr>, \<lambda>s f. s\<lparr>ct_nice := f_num f\<rparr>,
                       \<lambda>s f. s\<lparr>ct_system := f_num f\<rparr>, \<lambda>s f. s\<lparr>ct_idle := f_num f\<rparr>] fs s, 0) })"

record cpu_stat =
  cs_round_1 :: cpu_time
  cs_round_2 :: cpu_time
  cs_load_avg :: rat

definition sarah_cal_cpu_stat :: "rounding \<Rightarrow> cpu_time \<Rightarrow> cpu_time \<Rightarrow> cpu_stat option" where
  "sarah_cal_cpu_stat R t1 t2 =
     map_option (\<lambda>load. \<lparr>cs_round_1 = t1, cs_round_2 = t2, cs_load_avg = load\<rparr>) (sarah_cal_cpu_occupy R t1 t2)"

record cpu_loadavg =
  la_1m :: rat
  la_5m :: rat
  la_15m :: rat

definition sarah_get_cpu_loadavg :: "rounding \<Rightarrow> bytes option \<Rightarrow> cpu_loadavg \<Rightarrow> (cpu_loadavg \<times> int) option" where
  "sarah_get_cpu_loadavg R fd la =
     (case fd of None \<Rightarrow> Some (la, 1) | Some data \<Rightarrow>
        if data = [] then Some (la, 2)
        else do {
          fs \<leftarrow> sscanf [Flt, White, Flt, White, Flt] (cstr (fst (fgets 255 data)));
          Some (store [\<lambda>s f. s\<lparr>la_1m := r_float R (f_flt f)\<rparr>, \<lambda>s f. s\<lparr>la_5m := r_float R (f_flt f)\<rparr>,
                       \<lambda>s f. s\<lparr>la_15m := r_float R (f_flt f)\<rparr>] fs la, 0) })"

section \<open>The list of processors\<close>

record cpu_info =
  ci_model :: nat
  ci_mhz :: rat
  ci_cache_size :: nat
  ci_physical_id :: nat
  ci_core_id :: nat
  ci_cores :: nat
  ci_vendor_id :: bytes
  ci_model_name :: bytes

definition new_cpu_info_entry :: "(nat \<Rightarrow> bool) \<Rightarrow> cpu_info option" where
  "new_cpu_info_entry al =
     (if al 140 then Some \<lparr>ci_model = 0, ci_mhz = 0, ci_cache_size = 0, ci_physical_id = 0, ci_core_id = 0, ci_cores = 0,
        ci_vendor_id = [], ci_model_name = []\<rparr> else None)"

text \<open>The string of a field after \<open>cel_right_trim\<close>.\<close>

definition right_trimmed :: "bytes \<Rightarrow> bytes option" where
  "right_trimmed w = do { buf \<leftarrow> cel_right_trim (w @ [0]); Some (cstr buf) }"

definition left_trimmed :: "bytes \<Rightarrow> bytes option" where
  "left_trimmed w = do { buf \<leftarrow> cel_left_trim (w @ [0]); Some (cstr buf) }"

definition strcasecmp :: "bytes \<Rightarrow> string \<Rightarrow> bool" where
  "strcasecmp s t \<longleftrightarrow> map to_lower s = map to_lower (bytes_of t)"

definition atof :: "bytes \<Rightarrow> rat option" where
  "atof s = (case scan_float (dropWhile is_space s) of
     Inl _ \<Rightarrow> None | Inr None \<Rightarrow> Some 0 | Inr (Some (v, _)) \<Rightarrow> Some v)"

definition atou :: "bytes \<Rightarrow> nat option" where
  "atou s = map_option to_uint32 (atoi (s @ [0]))"

text \<open>One attribute of the processor \<open>info\<close>.\<close>

definition cpu_attribute :: "rounding \<Rightarrow> bytes \<Rightarrow> bytes \<Rightarrow> cpu_info \<Rightarrow> cpu_info option" where
  "cpu_attribute R key value info =
     (if strcasecmp key ''vendor_id'' then (if length value < 32 then Some (info\<lparr>ci_vendor_id := value\<rparr>) else None)
      else if strcasecmp key ''model'' then map_option (\<lambda>n. info\<lparr>ci_model := n\<rparr>) (atou value)
      else if strcasecmp key ''model name'' then Some (info\<lparr>ci_model_name := take 83 value\<rparr>)
      else if strcasecmp key ''cpu MHz'' then map_option (\<lambda>v. info\<lparr>ci_mhz := r_float R (r_double R v)\<rparr>) (atof value)
      else if strcasecmp key ''cache size'' then map_option (\<lambda>n. info\<lparr>ci_cache_size := n\<rparr>) (atou value)
      else if strcasecmp key ''physical id'' then map_option (\<lambda>n. info\<lparr>ci_physical_id := n\<rparr>) (atou value)
      else if strcasecmp key ''core id'' then map_option (\<lambda>n. info\<lparr>ci_core_id := n\<rparr>) (atou value)
      else if strcasecmp key ''cpu cores'' then map_option (\<lambda>n. info\<lparr>ci_cores := n\<rparr>) (atou value)
      else Some info)"

text \<open>The state of the loop: the list, which gets a null entry when \<open>malloc\<close> fails, and \<open>info\<close>, which is null or the
  last entry.\<close>

definition cpu_line ::
  "(nat \<Rightarrow> bool) \<Rightarrow> rounding \<Rightarrow> cpu_info option list \<times> cpu_info option \<Rightarrow> bytes \<Rightarrow> (cpu_info option list \<times> cpu_info option) option" where
  "cpu_line al R st buff = (case st of (list, info) \<Rightarrow> do {
     fs \<leftarrow> sscanf [Until 31 58, Lit 58, SkipRun 32, Until 1023 10] buff;
     let (key, value) = store [\<lambda>s f. (f_txt f, snd s), \<lambda>s f. (fst s, f_txt f)] fs ([], []);
     key \<leftarrow> right_trimmed key;
     value \<leftarrow> right_trimmed value;
     (if strcasecmp key ''processor'' then
        (let info = new_cpu_info_entry al in Some (list @ [info], info))
      else (case info of
          None \<Rightarrow> Some (list, None)
        | Some i \<Rightarrow>
            if strcasecmp key ''power management'' then Some (list, None)
            else do {
              i \<leftarrow> cpu_attribute R key value i;
              Some (butlast list @ [Some i], Some i) })) })"

definition sarah_get_cpu_info :: "(nat \<Rightarrow> bool) \<Rightarrow> rounding \<Rightarrow> bytes option \<Rightarrow> cpu_info option list \<Rightarrow> (cpu_info option list \<times> int) option" where
  "sarah_get_cpu_info al R fd list =
     (case fd of None \<Rightarrow> Some (list, 1) | Some data \<Rightarrow> do {
        (list, _) \<leftarrow> each_line 1023 (cpu_line al R) data (list, None);
        Some (list, 0) })"

section \<open>Memory\<close>

record ram_stat =
  rm_total :: nat
  rm_free :: nat
  rm_available :: nat

text \<open>One of the three reads: null at the end of the file, else the argument filled in and the rest.\<close>

definition ram_field :: "(ram_stat \<Rightarrow> field \<Rightarrow> ram_stat) \<Rightarrow> bytes \<Rightarrow> ram_stat \<Rightarrow> ram_stat option" where
  "ram_field arg s m = do {
     fs \<leftarrow> sscanf [SkipStr, White, Long] (cstr (fst (fgets 255 s)));
     Some (store [arg] fs m) }"

definition sarah_get_ram_stat :: "bytes option \<Rightarrow> ram_stat \<Rightarrow> (ram_stat \<times> int) option" where
  "sarah_get_ram_stat fd m =
     (case fd of None \<Rightarrow> Some (m, 1) | Some data \<Rightarrow>
        if data = [] then Some (m, 2) else do {
        m \<leftarrow> ram_field (\<lambda>m f. m\<lparr>rm_total := f_num f\<rparr>) data m;
        let data = snd (fgets 255 data);
        (if data = [] then Some (m, 2) else do {
        m \<leftarrow> ram_field (\<lambda>m f. m\<lparr>rm_free := f_num f\<rparr>) data m;
        let data = snd (fgets 255 data);
        (if data = [] then Some (m, 2) else do {
        m \<leftarrow> ram_field (\<lambda>m f. m\<lparr>rm_available := f_num f\<rparr>) data m;
        Some (m, 0) }) }) })"

section \<open>Processes\<close>

record process =
  ps_pid :: nat
  ps_cpu_percent :: rat
  ps_mem_percent :: rat
  ps_vir_mem :: nat
  ps_rss_mem :: nat
  ps_tty :: bytes
  ps_status :: bytes
  ps_start :: bytes
  ps_time :: bytes
  ps_user :: bytes
  ps_command :: bytes

definition new_process_entry :: "(nat \<Rightarrow> bool) \<Rightarrow> process option" where
  "new_process_entry al =
     (if al 372 then Some \<lparr>ps_pid = 0, ps_cpu_percent = 0, ps_mem_percent = 0, ps_vir_mem = 0, ps_rss_mem = 0,
        ps_tty = [], ps_status = [], ps_start = [], ps_time = [], ps_user = [], ps_command = []\<rparr> else None)"

definition process_format :: "directive list" where
  "process_format = [Str 31, White, Uint, White, Flt, White, Flt, White, Uint, White, Uint, White, Str 15, White, Str 15,
     White, Str 15, White, Str 15, White, Until 255 10]"

definition process_fields :: "rounding \<Rightarrow> field list \<Rightarrow> process \<Rightarrow> process" where
  "process_fields R = store
     [\<lambda>s f. s\<lparr>ps_user := f_txt f\<rparr>, \<lambda>s f. s\<lparr>ps_pid := f_num f\<rparr>,
      \<lambda>s f. s\<lparr>ps_cpu_percent := r_float R (f_flt f)\<rparr>, \<lambda>s f. s\<lparr>ps_mem_percent := r_float R (f_flt f)\<rparr>,
      \<lambda>s f. s\<lparr>ps_vir_mem := f_num f\<rparr>, \<lambda>s f. s\<lparr>ps_rss_mem := f_num f\<rparr>, \<lambda>s f. s\<lparr>ps_tty := f_txt f\<rparr>,
      \<lambda>s f. s\<lparr>ps_status := f_txt f\<rparr>, \<lambda>s f. s\<lparr>ps_start := f_txt f\<rparr>, \<lambda>s f. s\<lparr>ps_time := f_txt f\<rparr>,
      \<lambda>s f. s\<lparr>ps_command := f_txt f\<rparr>]"

definition process_line :: "(nat \<Rightarrow> bool) \<Rightarrow> rounding \<Rightarrow> process list \<Rightarrow> bytes \<Rightarrow> process list option" where
  "process_line al R list buff = do {
     ps \<leftarrow> new_process_entry al;
     fs \<leftarrow> sscanf process_format buff;
     let ps = process_fields R fs ps;
     Some (if ps_command ps = bytes_of ''ps -aux'' then list
           else if ps_command ps = bytes_of ''sh -c ps -aux'' then list
           else list @ [ps]) }"

definition sarah_get_process_list :: "(nat \<Rightarrow> bool) \<Rightarrow> rounding \<Rightarrow> bytes option \<Rightarrow> process list \<Rightarrow> (process list \<times> int) option" where
  "sarah_get_process_list al R fd list =
     (case fd of None \<Rightarrow> Some (list, 1) | Some data \<Rightarrow>
        if data = [] then Some (list, 2)
        else do {
          list \<leftarrow> each_line 1023 (process_line al R) (snd (fgets 1023 data)) list;
          Some (list, 0) })"

section \<open>Network counters\<close>

record net_stat =
  nt_receive :: nat
  nt_r_packets :: nat
  nt_transmit :: nat
  nt_t_packets :: nat
  nt_hd_addr :: bytes
  nt_device :: bytes

definition new_net_stat_entry :: "(nat \<Rightarrow> bool) \<Rightarrow> net_stat option" where
  "new_net_stat_entry al =
     (if al 88 then Some \<lparr>nt_receive = 0, nt_r_packets = 0, nt_transmit = 0, nt_t_packets = 0,
        nt_hd_addr = replicate 6 0, nt_device = []\<rparr> else None)"

text \<open>The network devices of the kernel: whether \<open>socket\<close> succeeds, and the hardware address that \<open>ioctl\<close> gives
  for a device.  The name is copied into the 16 bytes of \<open>ifr_name\<close>.\<close>

record nics =
  nc_socket :: bool
  nc_addr :: "bytes \<Rightarrow> bytes option"

definition sarah_get_hardware_addr :: "nics \<Rightarrow> bytes \<Rightarrow> bytes \<Rightarrow> (bytes \<times> int) option" where
  "sarah_get_hardware_addr nc mac device =
     (if \<not> nc_socket nc then Some (mac, 1)
      else if length device \<ge> 16 then None
      else case nc_addr nc device of
        None \<Rightarrow> Some (mac, 0)
      | Some sa_data \<Rightarrow> do { mac \<leftarrow> blit mac 0 sa_data 6; Some (mac, 0) })"

definition net_format :: "directive list" where
  "net_format = [Until 47 58, Lit 58, Long, White, Long, White, Long, White, Long, White, Long, White, Long, White, Long,
     White, Long, White, Long, White, Long]"

definition net_line :: "(nat \<Rightarrow> bool) \<Rightarrow> nics \<Rightarrow> net_stat list \<Rightarrow> bytes \<Rightarrow> net_stat list option" where
  "net_line al nc list buff = do {
     n \<leftarrow> new_net_stat_entry al;
     fs \<leftarrow> sscanf net_format buff;
     let n = store ([\<lambda>s f. s\<lparr>nt_device := f_txt f\<rparr>, \<lambda>s f. s\<lparr>nt_receive := f_num f\<rparr>, \<lambda>s f. s\<lparr>nt_r_packets := f_num f\<rparr>]
       @ replicate 6 (\<lambda>s f. s) @ [\<lambda>s f. s\<lparr>nt_transmit := f_num f\<rparr>, \<lambda>s f. s\<lparr>nt_t_packets := f_num f\<rparr>]) fs n;
     device \<leftarrow> left_trimmed (nt_device n);
     (mac, _) \<leftarrow> sarah_get_hardware_addr nc (nt_hd_addr n) device;
     Some (list @ [n\<lparr>nt_device := device, nt_hd_addr := mac\<rparr>]) }"

definition sarah_get_net_stat :: "(nat \<Rightarrow> bool) \<Rightarrow> nics \<Rightarrow> bytes option \<Rightarrow> net_stat list \<Rightarrow> (net_stat list \<times> int) option" where
  "sarah_get_net_stat al nc fd list =
     (case fd of None \<Rightarrow> Some (list, 1) | Some data \<Rightarrow>
        if data = [] then Some (list, 2)
        else let data = snd (fgets 255 data) in
        if data = [] then Some (list, 2)
        else do {
          list \<leftarrow> each_line 255 (net_line al nc) (snd (fgets 255 data)) list;
          Some (list, 0) })"

text \<open>The argument is an array of six bytes.\<close>

definition sarah_hardware_addr_print :: "bytes \<Rightarrow> bytes" where
  "sarah_hardware_addr_print mac = tl (concat (map (\<lambda>b. 58 # hex2 b) (take 6 mac)))"

section \<open>Bandwidth\<close>

record bandwidth =
  bd_round_1 :: net_stat
  bd_round_2 :: net_stat
  bd_incoming :: fp
  bd_outgoing :: fp

definition new_bandwidth_stat_entry :: "(nat \<Rightarrow> bool) \<Rightarrow> bool" where
  "new_bandwidth_stat_entry al = al 184"

text \<open>The difference of two \<open>unsigned long\<close> divided by a \<open>double\<close>, as a \<open>float\<close>.\<close>

definition diff64 :: "nat \<Rightarrow> nat \<Rightarrow> nat" where
  "diff64 b a = nat ((int b - int a) mod 2 ^ 64)"

definition rate :: "rounding \<Rightarrow> nat \<Rightarrow> rat \<Rightarrow> fp" where
  "rate R n secs = (if secs = 0 then (if n = 0 then NaN else Inf)
     else Fin (r_float R (r_double R (r_double R (rat_of_nat n) / secs))))"

text \<open>The seconds between two readings of the clock, given as seconds and microseconds.\<close>

definition seconds_between :: "rounding \<Rightarrow> int \<times> int \<Rightarrow> int \<times> int \<Rightarrow> rat" where
  "seconds_between R s e = r_double R (r_double R (rat_of_int (fst e - fst s))
     + r_double R (r_double R (rat_of_int (snd e - snd s)) * r_double R (1 / 1000000)))"

fun bandwidth_loop :: "(nat \<Rightarrow> bool) \<Rightarrow> (net_stat \<Rightarrow> net_stat \<Rightarrow> fp \<times> fp) \<Rightarrow> bandwidth list \<Rightarrow> net_stat list \<Rightarrow> net_stat list
   \<Rightarrow> bandwidth list option" where
  "bandwidth_loop al rates list (n1 # l1) (n2 # l2) =
     (if \<not> new_bandwidth_stat_entry al then None
      else bandwidth_loop al rates (list @ [\<lparr>bd_round_1 = n1, bd_round_2 = n2,
             bd_incoming = fst (rates n1 n2), bd_outgoing = snd (rates n1 n2)\<rparr>]) l1 l2)"
| "bandwidth_loop al rates list l1 l2 = Some list"

text \<open>The outgoing rate is computed from \<open>n2->transmit - n2->transmit\<close>.  \<open>fd1\<close> and \<open>fd2\<close> are the readings before
  and after the pause, with their times.\<close>

definition sarah_get_bandwidth_stat_for :: "(nat \<Rightarrow> bool) \<Rightarrow> rounding \<Rightarrow> nics \<Rightarrow> int \<times> int \<Rightarrow> bytes option \<Rightarrow> bytes option
   \<Rightarrow> int \<times> int \<Rightarrow> bandwidth list \<Rightarrow> (bandwidth list \<times> int) option" where
  "sarah_get_bandwidth_stat_for al R nc tv_s fd1 fd2 tv_e list = do {
     (l1, _) \<leftarrow> sarah_get_net_stat al nc fd1 [];
     (l2, _) \<leftarrow> sarah_get_net_stat al nc fd2 [];
     let tv_sec = seconds_between R tv_s tv_e;
     list \<leftarrow> bandwidth_loop al (\<lambda>n1 n2. (rate R (diff64 (nt_receive n2) (nt_receive n1)) tv_sec,
               rate R (diff64 (nt_transmit n2) (nt_transmit n2)) tv_sec)) list l1 l2;
     Some (list, 0) }"

section \<open>The load\<close>

definition busy :: "cpu_time \<Rightarrow> nat" where
  "busy s = ct_user s + ct_nice s + ct_system s"

definition total :: "cpu_time \<Rightarrow> nat" where
  "total s = busy s + ct_idle s"

lemma occupy_eq:
  "sarah_cal_cpu_occupy R s1 s2 =
     (let d = rat_of_nat (wrap32 (total s2)) - rat_of_nat (wrap32 (total s1)) in
      if d = 0 then Some 0
      else Some (r_float R (r_long R (r_long R ((rat_of_nat (wrap32 (busy s2)) - rat_of_nat (wrap32 (busy s1))) / d) * 100))))"
  by (simp add: sarah_cal_cpu_occupy_def quotient_def busy_def total_def Let_def)

lemma cpu_stat_made: "\<exists>st. sarah_cal_cpu_stat R t1 t2 = Some st"
  by (simp add: sarah_cal_cpu_stat_def occupy_eq Let_def)

lemma sound_percent:
  assumes "sound R" "0 \<le> x" "x \<le> 1"
  shows "0 \<le> r_float R (r_long R (r_long R x * 100)) \<and> r_float R (r_long R (r_long R x * 100)) \<le> 100"
proof -
  have S: "sound_round (r_long R)" "sound_round (r_float R)" using assms(1) by (auto simp: sound_def)
  have "0 \<le> r_long R x \<and> r_long R x \<le> 1"
    using sound_round_between [OF S(1), of 0 1 x] assms by simp
  then have "0 \<le> r_long R (r_long R x * 100) \<and> r_long R (r_long R x * 100) \<le> 100"
    using sound_round_between [OF S(1), of 0 100 "r_long R x * 100"] by simp
  then show ?thesis
    using sound_round_between [OF S(2), of 0 100 "r_long R (r_long R x * 100)"] by simp
qed

lemma sound_negative:
  assumes "sound R" "x \<le> 0"
  shows "r_float R (r_long R (r_long R x * 100)) \<le> 0"
proof -
  have S: "mono (r_long R)" "r_long R 0 = 0" "mono (r_float R)" "r_float R 0 = 0"
    using assms(1) by (auto simp: sound_def sound_round_def dest: spec [of _ 0])
  then have "r_long R x \<le> 0" using assms(2) by (metis monoD)
  then have "r_long R (r_long R x * 100) \<le> 0" using S by (metis monoD mult_nonpos_nonneg zero_le_numeral)
  then show ?thesis using S by (metis monoD)
qed

text \<open>C30: the load of the processor is a number for any two readings: nothing is divided by zero, and when the 32-bit sums of the
  two readings agree the load is 0.  When neither the busy nor the idle time goes back between the readings and the
  sums stay below \<open>2 ^ 32\<close>, the load is a percentage, and the exact one when nothing is rounded; when only the
  second sum wraps, it is not positive, however busy the processor was.\<close>

theorem cpu_load:
  assumes "sound R"
  shows "\<exists>load. sarah_cal_cpu_occupy R s1 s2 = Some load
    \<and> sarah_cal_cpu_stat R s1 s2 = Some \<lparr>cs_round_1 = s1, cs_round_2 = s2, cs_load_avg = load\<rparr>
    \<and> (total s2 mod 2 ^ 32 = total s1 mod 2 ^ 32 \<longrightarrow> load = 0)
    \<and> (busy s1 \<le> busy s2 \<and> ct_idle s1 \<le> ct_idle s2 \<and> busy s2 < 2 ^ 32 \<and> total s1 < 2 ^ 32 \<longrightarrow>
        (if total s2 < 2 ^ 32
         then 0 \<le> load \<and> load \<le> 100
            \<and> (total s1 < total s2 \<and> r_float R = id \<and> r_long R = id \<longrightarrow>
                load = rat_of_nat (busy s2 - busy s1) / rat_of_nat (total s2 - total s1) * 100)
         else total s2 - total s1 < 2 ^ 32 \<longrightarrow> load \<le> 0))"
proof -
  let ?d = "rat_of_nat (wrap32 (total s2)) - rat_of_nat (wrap32 (total s1))"
  let ?q = "(rat_of_nat (wrap32 (busy s2)) - rat_of_nat (wrap32 (busy s1))) / ?d"
  define load where "load = (if ?d = 0 then 0 else r_float R (r_long R (r_long R ?q * 100)))"
  have eq: "sarah_cal_cpu_occupy R s1 s2 = Some load" by (simp add: occupy_eq Let_def load_def)
  have same: "total s2 mod 2 ^ 32 = total s1 mod 2 ^ 32 \<longrightarrow> load = 0" by (simp add: load_def wrap32_def)
  have grown: "if total s2 < 2 ^ 32
         then 0 \<le> load \<and> load \<le> 100
            \<and> (total s1 < total s2 \<and> r_float R = id \<and> r_long R = id \<longrightarrow>
                load = rat_of_nat (busy s2 - busy s1) / rat_of_nat (total s2 - total s1) * 100)
         else total s2 - total s1 < 2 ^ 32 \<longrightarrow> load \<le> 0"
    if g: "busy s1 \<le> busy s2" "ct_idle s1 \<le> ct_idle s2" "busy s2 < 2 ^ 32" "total s1 < 2 ^ 32"
  proof (cases "total s2 < 2 ^ 32")
    case True
    let ?x = "(rat_of_nat (busy s2) - rat_of_nat (busy s1)) / (rat_of_nat (total s2) - rat_of_nat (total s1))"
    have le: "total s1 \<le> total s2" "busy s2 - busy s1 \<le> total s2 - total s1" using g by (auto simp: total_def)
    have x: "?x = rat_of_nat (busy s2 - busy s1) / rat_of_nat (total s2 - total s1)"
      using le g(1) by (simp add: of_nat_diff)
    have "0 \<le> ?x" "?x \<le> 1" unfolding x using le by (auto simp: divide_le_eq_1 simp del: of_nat_diff)
    then have b: "0 \<le> r_float R (r_long R (r_long R ?x * 100)) \<and> r_float R (r_long R (r_long R ?x * 100)) \<le> 100"
      by (rule sound_percent [OF assms(1)])
    have "load = (if total s2 = total s1 then 0 else r_float R (r_long R (r_long R ?x * 100)))"
      using True g(1,3,4) by (simp add: load_def)
    with b x True show ?thesis by (cases "total s2 = total s1") (simp_all del: of_nat_diff)
  next
    case False
    have "wrap32 (total s2) < wrap32 (total s1)" if "total s2 - total s1 < 2 ^ 32"
      using that False g(4) by (simp add: wrap32_def le_mod_geq)
    moreover have "rat_of_nat (busy s1) \<le> rat_of_nat (busy s2)" using g(1) by simp
    ultimately have "?q \<le> 0" if "total s2 - total s1 < 2 ^ 32"
      using that g(1,3) by (simp add: divide_nonneg_neg)
    from sound_negative [OF assms(1) this] False show ?thesis by (auto simp: load_def)
  qed
  show ?thesis using eq same grown by (intro exI [of _ load]) (auto simp: sarah_cal_cpu_stat_def)
qed

lemma sound_exact: "sound \<lparr>r_float = id, r_double = id, r_long = id\<rparr>"
  by (simp add: sound_def sound_round_def mono_def)

lemma cpu_load_witness:
  "sarah_cal_cpu_occupy \<lparr>r_float = id, r_double = id, r_long = id\<rparr>
     \<lparr>ct_user = 10, ct_nice = 0, ct_system = 5, ct_idle = 100, ct_name = []\<rparr>
     \<lparr>ct_user = 30, ct_nice = 0, ct_system = 15, ct_idle = 190, ct_name = []\<rparr> = Some 25"
  using cpu_load [OF sound_exact,
      of "\<lparr>ct_user = 10, ct_nice = 0, ct_system = 5, ct_idle = 100, ct_name = []\<rparr>"
         "\<lparr>ct_user = 30, ct_nice = 0, ct_system = 15, ct_idle = 190, ct_name = []\<rparr>"]
  by (simp add: busy_def total_def)

section \<open>The kernel's tables\<close>

text \<open>Columns of numbers, each behind at least one blank, and the directives that read \<open>n\<close> of them.\<close>

fun columns :: "(nat \<times> nat) list \<Rightarrow> bytes" where
  "columns [] = []"
| "columns ((k, n) # cs) = replicate (Suc k) 32 @ dec_digits n @ columns cs"

fun longs :: "nat \<Rightarrow> directive list" where
  "longs 0 = []"
| "longs (Suc n) = (if n = 0 then [Long] else Long # White # longs n)"

lemma white_long: "sscanf (White # Long # ds) s = sscanf (Long # ds) s"
proof -
  have "dropWhile is_space (dropWhile is_space s) = dropWhile is_space s" by (induction s) auto
  then show ?thesis by (simp only: sscanf.simps)
qed

lemma columns_stop: "\<not> is_digit (hd (columns cs @ [10]))"
  by (cases cs rule: columns.cases) (auto simp: is_digit_def)

lemma sscanf_columns:
  "n \<le> length cs \<Longrightarrow> list_all (\<lambda>(k, v). v < 2 ^ 63) cs \<Longrightarrow>
   sscanf (longs n) (columns cs @ [10]) = Some (map (\<lambda>(k, v). FNum v) (take n cs))"
proof (induction n arbitrary: cs)
  case 0
  then show ?case by simp
next
  case (Suc n)
  then obtain k v cs' where cs: "cs = (k, v) # cs'" by (cases cs) auto
  have "sscanf (Long # ds) (columns cs @ [10]) = map_option (Cons (FNum v)) (sscanf ds (columns cs' @ [10]))" for ds
    using Suc.prems cs sscanf_long [of v "columns cs' @ [10]" ds "Suc k"] columns_stop [of cs'] by simp
  moreover have "sscanf (White # longs n) (columns cs' @ [10]) = sscanf (longs n) (columns cs' @ [10])" if "n \<noteq> 0"
    using that white_long by (cases n) (auto simp del: sscanf.simps)
  ultimately show ?case using Suc cs by (auto simp del: sscanf.simps simp: sscanf.simps(1))
qed

text \<open>A line of \<open>/proc/net/dev\<close>: \<open>k\<close> blanks, the name, a colon and at least ten numbers.\<close>

definition net_dev_line :: "nat \<times> bytes \<times> (nat \<times> nat) list \<Rightarrow> bytes" where
  "net_dev_line d = (case d of (k, name, cs) \<Rightarrow> replicate k 32 @ name @ 58 # columns cs)"

definition net_dev_ok :: "nat \<times> bytes \<times> (nat \<times> nat) list \<Rightarrow> bool" where
  "net_dev_ok d = (case d of (k, name, cs) \<Rightarrow>
     name \<noteq> [] \<and> list_all (\<lambda>c. c \<notin> set [58, 32, 9, 13, 10, 0]) name \<and> length name < 16 \<and> k + length name \<le> 47
     \<and> 10 \<le> length cs \<and> list_all (\<lambda>(k, v). v < 2 ^ 63) cs \<and> length (net_dev_line d) < 255)"

definition net_dev_entry :: "nics \<Rightarrow> nat \<times> bytes \<times> (nat \<times> nat) list \<Rightarrow> net_stat" where
  "net_dev_entry nc d = (case d of (k, name, cs) \<Rightarrow>
     \<lparr>nt_receive = snd (cs ! 0), nt_r_packets = snd (cs ! 1), nt_transmit = snd (cs ! 8), nt_t_packets = snd (cs ! 9),
      nt_hd_addr = (case (if nc_socket nc then nc_addr nc name else None) of None \<Rightarrow> replicate 6 0 | Some a \<Rightarrow> take 6 a),
      nt_device = name\<rparr>)"

lemma net_format_longs: "net_format = Until 47 58 # Lit 58 # longs 10"
  by (simp add: net_format_def eval_nat_numeral)

lemma left_trimmed_law: "no_nul w \<Longrightarrow> left_trimmed w = Some (dropWhile blank w)"
proof -
  assume "no_nul w"
  then obtain g where "cel_left_trim (w @ 0 # []) = Some (dropWhile blank w @ 0 # g @ [])"
    using left_trim_terminated [of w "[]"] by blast
  moreover have "no_nul (dropWhile blank w)"
    using \<open>no_nul w\<close> unfolding no_nul_def by (meson set_dropWhileD)
  ultimately show ?thesis by (simp add: left_trimmed_def)
qed

lemma right_trimmed_length: "no_nul w \<Longrightarrow> \<exists>v. right_trimmed w = Some v \<and> length v \<le> length w"
proof -
  assume w: "no_nul w"
  then obtain g where g: "length (right_strip w) + length g = length w"
    "cel_right_trim (w @ 0 # []) = Some (if list_all blank w then w @ 0 # [] else right_strip w @ 0 # g @ [])"
    using right_trim_terminated [of w "[]"] by blast
  have "no_nul (right_strip w)" using w right_strip_prefix [of w] by (metis no_nul_simps(3))
  with g w show ?thesis by (auto simp: right_trimmed_def)
qed

lemma columns_plain: "10 \<notin> set (columns cs) \<and> no_nul (columns cs)"
proof (induction cs rule: columns.induct)
  case (2 k n cs)
  have "10 \<notin> set (dec_digits n)" using dec_digits_read [of n] by (auto simp: list_all_iff is_digit_def)
  with 2 show ?case by (auto simp: no_nul_def dest: dec_digits_no_nul [unfolded no_nul_def, THEN notE, rotated])
qed simp

lemma net_dev_plain: "net_dev_ok d \<Longrightarrow> plain_line 255 (net_dev_line d)"
  using columns_plain by (auto simp: net_dev_ok_def plain_line_def net_dev_line_def list_all_iff no_nul_def)

lemma net_line_reads:
  assumes "al 88" "net_dev_ok d" "\<And>name a. nc_addr nc name = Some a \<Longrightarrow> 6 \<le> length a"
  shows "net_line al nc list (net_dev_line d @ [10]) = Some (list @ [net_dev_entry nc d])"
proof -
  obtain k name cs where d: "d = (k, name, cs)" by (cases d) auto
  have ok: "name \<noteq> []" "58 \<notin> set name" "no_nul name" "\<not> blank (hd name)" "length name < 16" "k + length name \<le> 47"
    "10 \<le> length cs" "list_all (\<lambda>(k, v). v < 2 ^ 63) cs"
    using assms(2) by (auto simp: net_dev_ok_def d list_all_iff no_nul_def blank_def dest: hd_in_set)
  let ?w = "replicate k 32 @ name"
  let ?t = "map (\<lambda>(k, v). FNum v) (take 10 cs)"
  have w: "?w \<noteq> []" "58 \<notin> set ?w" "length ?w \<le> 47" "no_nul ?w" using ok by (auto simp: no_nul_def)
  have "sscanf net_format (net_dev_line d @ [10]) = Some (FStr ?w # ?t)"
    using sscanf_until [OF w(1-3), of "Lit 58 # longs 10" "columns cs @ [10]"] sscanf_columns [OF ok(7,8)]
    by (simp add: net_format_longs net_dev_line_def d del: longs.simps sscanf.simps(6))
  moreover obtain a b c1 c2 c3 c4 c5 c6 e f r where
    "cs = a # b # c1 # c2 # c3 # c4 # c5 # c6 # e # f # r"
    using ok(7) by (auto simp: eval_nat_numeral Suc_le_length_iff)
  moreover have "left_trimmed ?w = Some name"
  proof -
    have "dropWhile blank ?w = name" using ok(1,4) by (induction k) (auto simp: blank_def neq_Nil_conv)
    then show ?thesis using left_trimmed_law [OF w(4)] by simp
  qed
  moreover have "sarah_get_hardware_addr nc (replicate 6 0) name
      = Some (nt_hd_addr (net_dev_entry nc d), if nc_socket nc then 0 else 1)"
    using ok(5) assms(3) [of name]
    by (auto simp: sarah_get_hardware_addr_def net_dev_entry_def d blit_def split: option.split)
  moreover have "replicate 6 (\<lambda>(s :: net_stat) (f :: field). s)
      = [\<lambda>s f. s, \<lambda>s f. s, \<lambda>s f. s, \<lambda>s f. s, \<lambda>s f. s, \<lambda>s f. s]"
    by (simp add: eval_nat_numeral)
  ultimately show ?thesis
    using assms(1) by (simp add: net_line_def new_net_stat_entry_def net_dev_entry_def d Let_def split: prod.splits)
qed

lemma net_table_law:
  assumes "al 88" "list_all net_dev_ok devs" "plain_line 255 h1" "plain_line 255 h2"
    and "\<And>name a. nc_addr nc name = Some a \<Longrightarrow> 6 \<le> length a"
  shows "sarah_get_net_stat al nc (Some (lines_text (h1 # h2 # map net_dev_line devs))) list
       = Some (list @ map (net_dev_entry nc) devs, 0)"
proof -
  have "over_lines (net_line al nc) (map net_dev_line devs) list = Some (list @ map (net_dev_entry nc) devs)"
    using assms(2)
  proof (induction devs arbitrary: list)
    case (Cons d devs)
    then show ?case using net_line_reads [of al d nc list] assms(1,5) by simp
  qed simp
  moreover have "plain_line 255 (net_dev_line d)" if "d \<in> set devs" for d
    using assms(2) that by (intro net_dev_plain) (auto simp: list_all_iff)
  then have "list_all (plain_line 255) (map net_dev_line devs)" by (simp add: list_all_iff)
  note each_line_lines [OF this, of "net_line al nc" list]
  moreover have "fgets 255 (lines_text (h1 # t)) = (h1 @ [10], lines_text t)" if "plain_line 255 h1" for h1 t
    using that fgets_line [of h1 255 "lines_text t"] by (simp add: plain_line_def lines_text_def)
  ultimately show ?thesis
    using assms(3,4) by (simp add: sarah_get_net_stat_def Let_def) (simp add: lines_text_def)
qed


text \<open>A table with one device that received \<open>r\<close> and sent \<open>t\<close> bytes.\<close>

definition sample_device :: "nat \<Rightarrow> nat \<Rightarrow> nat \<times> bytes \<times> (nat \<times> nat) list" where
  "sample_device r t = (2, bytes_of ''eth0'', [(0, r), (3, 1), (0, 0), (0, 0), (0, 0), (0, 0), (0, 0), (0, 0), (0, t), (1, 2)])"

definition sample_table :: "nat \<Rightarrow> nat \<Rightarrow> bytes" where
  "sample_table r t = lines_text (bytes_of ''Inter'' # bytes_of '' face'' # map net_dev_line [sample_device r t])"

definition sample_nics :: nics where
  "sample_nics = \<lparr>nc_socket = True, nc_addr = \<lambda>_. Some [2, 66, 0, 0, 0, 1]\<rparr>"

lemma sample_device_ok:
  assumes "r < 10" "t < 10"
  shows "list_all net_dev_ok [sample_device r t]" "plain_line 255 (bytes_of ''Inter'')" "plain_line 255 (bytes_of '' face'')"
    "nc_addr sample_nics name = Some a \<Longrightarrow> 6 \<le> length a"
    "net_dev_entry sample_nics (sample_device r t) = \<lparr>nt_receive = r, nt_r_packets = 1, nt_transmit = t, nt_t_packets = 2,
      nt_hd_addr = [2, 66, 0, 0, 0, 1], nt_device = bytes_of ''eth0''\<rparr>"
proof -
  have "length (dec_digits r) = 1" "length (dec_digits t) = 1"
    using assms by (subst dec_digits_rec, simp)+
  then show "list_all net_dev_ok [sample_device r t]"
    using assms by (simp add: sample_device_def net_dev_ok_def net_dev_line_def) (simp add: bytes_of_def dec_digits_def digits_of.simps)
qed (auto simp: plain_line_def bytes_of_def no_nul_def sample_nics_def net_dev_entry_def sample_device_def)


section \<open>Samples and rates\<close>

lemma sscanf_word:
  assumes "w \<noteq> []" "list_all (\<lambda>c. \<not> is_space c) w" "length w \<le> n" "t = [] \<or> is_space (hd t)"
  shows "sscanf (Str n # ds) (w @ t) = map_option (Cons (FStr w)) (sscanf ds t)"
    and "sscanf (SkipStr # ds) (w @ t) = sscanf ds t"
proof -
  have "dropWhile is_space (w @ t) = w @ t" using assms(1,2) by (cases w) auto
  moreover have "takeWhile (\<lambda>c. \<not> is_space c) (w @ t) = w \<and> dropWhile (\<lambda>c. \<not> is_space c) (w @ t) = t"
    using assms(2,4) by (induction w) (cases t; auto)+
  ultimately show "sscanf (Str n # ds) (w @ t) = map_option (Cons (FStr w)) (sscanf ds t)"
    "sscanf (SkipStr # ds) (w @ t) = sscanf ds t"
    using assms(1,3) by (auto simp: Let_def)
qed

lemma white_uint: "sscanf (White # Uint # ds) s = sscanf (Uint # ds) s"
proof -
  have "dropWhile is_space (dropWhile is_space s) = dropWhile is_space s" by (induction s) auto
  then show ?thesis by (simp only: sscanf.simps)
qed

text \<open>The first line of \<open>/proc/stat\<close>: the name and at least four numbers.\<close>

lemma cpu_time_read:
  assumes "name \<noteq> []" "list_all (\<lambda>c. \<not> is_space c) name" "no_nul name" "length name \<le> 15"
    and "list_all (\<lambda>(k, v). v < 2 ^ 32) [u, n, s, i]" "length (name @ columns (u # n # s # i # cs)) < 255"
  shows "sarah_get_cpu_time (Some ((name @ columns (u # n # s # i # cs)) @ 10 # rest)) st
       = Some (st\<lparr>ct_name := name, ct_user := snd u, ct_nice := snd n, ct_system := snd s, ct_idle := snd i\<rparr>, 0)"
proof -
  let ?l = "name @ columns (u # n # s # i # cs)"
  have sp: "10 \<notin> set ?l" "no_nul ?l"
    using assms(2,3) columns_plain [of "u # n # s # i # cs"] by (auto simp: list_all_iff is_space_def)
  have word: "is_space (hd (columns (u # n # s # i # cs) @ [10]))" by (cases u) (simp add: is_space_def)
  have uint: "sscanf (White # Uint # ds) (columns (v # t) @ [10]) = map_option (Cons (FNum (snd v))) (sscanf ds (columns t @ [10]))"
    if "snd v < 2 ^ 32" for v t ds
    using that sscanf_uint [of "snd v" "columns t @ [10]" ds "Suc (fst v)"] columns_stop [of t]
    by (cases v) (simp add: white_uint del: sscanf.simps)
  have "sscanf [Str 15, White, Uint, White, Uint, White, Uint, White, Uint] (?l @ [10])
      = Some [FStr name, FNum (snd u), FNum (snd n), FNum (snd s), FNum (snd i)]"
    using assms(5) sscanf_word(1) [OF assms(1,2,4), of "columns (u # n # s # i # cs) @ [10]"] word uint
    by (simp add: case_prod_beta del: sscanf.simps columns.simps) (simp add: uint)
  moreover have "cstr (?l @ [10]) = ?l @ [10]" using sp by simp
  moreover have "fgets 255 (?l @ 10 # rest) = (?l @ [10], rest)" using fgets_line [OF sp(1) assms(6)] .
  ultimately show ?thesis by (simp add: sarah_get_cpu_time_def)
qed

lemma ram_field_read:
  assumes "label \<noteq> []" "list_all (\<lambda>c. \<not> is_space c) label" "no_nul label" "v < 2 ^ 63"
    and "length (label @ columns [(k, v)]) + 3 < 255"
  shows "ram_field arg ((label @ columns [(k, v)] @ bytes_of '' kB'') @ 10 # rest) m = Some (arg m (FNum v))
    \<and> snd (fgets 255 ((label @ columns [(k, v)] @ bytes_of '' kB'') @ 10 # rest)) = rest"
proof -
  let ?l = "label @ columns [(k, v)] @ bytes_of '' kB''"
  have sp: "10 \<notin> set ?l" "no_nul ?l"
    using assms(2,3) columns_plain [of "[(k, v)]"] by (auto simp: list_all_iff is_space_def bytes_of_def)
  have len: "length ?l < 255" using assms(5) by (simp add: bytes_of_def)
  have word: "is_space (hd (columns [(k, v)] @ bytes_of '' kB'' @ [10]))" by (simp add: is_space_def)
  have "sscanf [SkipStr, White, Long] (?l @ [10]) = sscanf [Long] (columns [(k, v)] @ bytes_of '' kB'' @ [10])"
    using sscanf_word(2) [OF assms(1,2) le_refl, of "columns [(k, v)] @ bytes_of '' kB'' @ [10]"] word
    by (simp add: white_long del: sscanf.simps columns.simps)
  moreover have "\<not> is_digit (hd (bytes_of '' kB'' @ [10]))" by (simp add: bytes_of_def is_digit_def)
  then have "sscanf [Long] (columns [(k, v)] @ bytes_of '' kB'' @ [10]) = Some [FNum v]"
    using sscanf_long [OF assms(4), of "bytes_of '' kB'' @ [10]" "[]" "Suc k"] by simp
  moreover have "cstr (?l @ [10]) = ?l @ [10]" using sp by simp
  moreover have "fgets 255 (?l @ 10 # rest) = (?l @ [10], rest)" using fgets_line [OF sp(1) len] .
  ultimately show ?thesis by (simp add: ram_field_def del: sscanf.simps)
qed

text \<open>The listing itself is not listed.\<close>

lemma each_line_inv:
  "(\<And>st l st'. P st \<Longrightarrow> body st l = Some st' \<Longrightarrow> P st') \<Longrightarrow> each_line n body s st = Some st' \<Longrightarrow> P st \<Longrightarrow> P st'"
proof (induction n body s st rule: each_line.induct)
  case (1 n body s st)
  show ?case
  proof (cases "s = [] \<or> n = 0")
    case True
    then have "each_line n body s st = Some st" by (simp add: each_line.simps)
    then show ?thesis using "1.prems" by simp
  next
    case False
    then have "each_line n body s st = body st (cstr (fst (fgets n s))) \<bind> each_line n body (snd (fgets n s))"
      by (subst each_line.simps) simp
    then obtain st1 where "body st (cstr (fst (fgets n s))) = Some st1" "each_line n body (snd (fgets n s)) st1 = Some st'"
      using "1.prems"(2) by (cases "body st (cstr (fst (fgets n s)))") simp_all
    then show ?thesis using "1.IH" [OF False] "1.prems" by blast
  qed
qed

text \<open>The listing itself is not listed.\<close>

lemma process_list_without_listing:
  assumes "sarah_get_process_list al R fd [] = Some (list, c)" "ps \<in> set list"
  shows "ps_command ps \<noteq> bytes_of ''ps -aux'' \<and> ps_command ps \<noteq> bytes_of ''sh -c ps -aux''"
proof -
  let ?P = "\<lambda>list. \<forall>ps \<in> set list. ps_command ps \<noteq> bytes_of ''ps -aux'' \<and> ps_command ps \<noteq> bytes_of ''sh -c ps -aux''"
  have step: "\<And>l b l'. ?P l \<Longrightarrow> process_line al R l b = Some l' \<Longrightarrow> ?P l'"
    by (auto simp: process_line_def Let_def split: bind_splits if_splits)
  consider "list = []" | data where "each_line 1023 (process_line al R) data [] = Some list"
    using assms(1) by (auto simp: sarah_get_process_list_def split: option.splits if_splits bind_splits)
  then show ?thesis
  proof cases
    case 2
    have "?P list" by (rule each_line_inv [of ?P "process_line al R", OF step 2]) simp_all
    then show ?thesis using assms(2) by blast
  qed (use assms(2) in simp)
qed

lemma bandwidth_loop_law:
  "al 184 \<Longrightarrow> bandwidth_loop al rates list l1 l2 = Some (list @ map (\<lambda>(n1, n2). \<lparr>bd_round_1 = n1, bd_round_2 = n2,
     bd_incoming = fst (rates n1 n2), bd_outgoing = snd (rates n1 n2)\<rparr>) (zip l1 l2))"
proof (induction l1 arbitrary: l2 list)
  case (Cons n1 l1)
  then show ?case by (cases l2) (simp_all add: new_bandwidth_stat_entry_def)
qed simp

lemma diff64_advance: "n < 2 ^ 64 \<Longrightarrow> diff64 ((a + n) mod 2 ^ 64) (a mod 2 ^ 64) = n"
  by (simp add: diff64_def zmod_int mod_diff_eq)

lemma diff64_same [simp]: "diff64 a a = 0"
  by (simp add: diff64_def)

end
