(* ===== verification/Hardware.thy ===== *)
theory Hardware
  imports Scan CelText
begin

text \<open>
  \<open>src/main/hardware.c\<close>: the BIOS, system and board structs, filled from the output of \<open>dmidecode\<close>.

  A character array is the block of its bytes: the parsers copy values without a NUL into arrays that
  were zeroed once.  The output of the command is an input.  The three parsers share their loop,
  \<open>parse_section\<close>, and differ in what they do with an attribute; the key, the value and (for the BIOS) the unit are
  variables that live through the loop.

  Shown: a section is read attribute by attribute up to its empty line; an attribute without a value gets the
  value of the attribute before it; what the arrays hold afterwards, and which values leave them.
\<close>

section \<open>The structs\<close>

record hd_bios =
  hb_vendor :: bytes
  hb_version :: bytes
  hb_release_date :: bytes
  hb_runtime_size :: nat
  hb_rom_size :: nat

record hd_system =
  hs_manufacturer :: bytes
  hs_product_name :: bytes
  hs_version :: bytes
  hs_serial_no :: bytes
  hs_uuid :: bytes

record hd_board =
  hd_manufacturer :: bytes
  hd_product_name :: bytes
  hd_version :: bytes
  hd_serial_no :: bytes

definition sarah_hd_bios_init :: hd_bios where
  "sarah_hd_bios_init = \<lparr>hb_vendor = replicate 40 0, hb_version = replicate 64 0, hb_release_date = replicate 12 0,
     hb_runtime_size = 0, hb_rom_size = 0\<rparr>"

definition sarah_hd_system_init :: hd_system where
  "sarah_hd_system_init = \<lparr>hs_manufacturer = replicate 40 0, hs_product_name = replicate 24 0, hs_version = replicate 24 0,
     hs_serial_no = replicate 40 0, hs_uuid = replicate 40 0\<rparr>"

definition sarah_hd_board_init :: hd_board where
  "sarah_hd_board_init = \<lparr>hd_manufacturer = replicate 40 0, hd_product_name = replicate 24 0, hd_version = replicate 24 0,
     hd_serial_no = replicate 40 0\<rparr>"

section \<open>Attributes\<close>

text \<open>\<open>memcpy(field, val, val_len >= cap ? n : val_len)\<close>.\<close>

definition put_value :: "nat \<Rightarrow> nat \<Rightarrow> bytes \<Rightarrow> bytes \<Rightarrow> bytes option" where
  "put_value cap n field val = blit field 0 val (if length val \<ge> cap then n else length val)"

text \<open>A serial number is lowered over the length of the value, whatever was copied of it.\<close>

definition put_lowered :: "bytes \<Rightarrow> bytes \<Rightarrow> bytes option" where
  "put_lowered field val = do {
     field \<leftarrow> put_value 40 39 field val;
     cel_strtolower field (length val) }"

text \<open>\<open>sscanf(val, "%u %s", &size, unit)\<close> and the scaling by the unit; \<open>unit\<close> has three bytes.\<close>

definition put_size :: "nat \<Rightarrow> bytes \<Rightarrow> bytes \<Rightarrow> (nat \<times> bytes) option" where
  "put_size n unit val = do {
     fs \<leftarrow> sscanf [Uint, White, Str (length val)] val;
     let (n, unit) = store [\<lambda>s f. (f_num f, snd s), \<lambda>s f. (fst s, f_txt f)] fs (n, unit);
     (if length unit \<ge> 3 then None
      else
        let c = (if unit = [] then 0 else hd unit) in
        Some (if c = 107 \<or> c = 75 then wrap32 (n * 1024)
              else if c = 77 \<or> c = 109 then wrap32 (wrap32 (n * 1024) * 1024) else n, unit)) }"

definition bios_attribute :: "hd_bios \<times> bytes \<Rightarrow> bytes \<Rightarrow> bytes \<Rightarrow> (hd_bios \<times> bytes) option" where
  "bios_attribute st key val = (case st of (bios, unit) \<Rightarrow>
     if key = bytes_of ''Vendor'' then map_option (\<lambda>f. (bios\<lparr>hb_vendor := f\<rparr>, unit)) (put_value 40 39 (hb_vendor bios) val)
     else if key = bytes_of ''Version'' then map_option (\<lambda>f. (bios\<lparr>hb_version := f\<rparr>, unit)) (put_value 64 63 (hb_version bios) val)
     else if key = bytes_of ''Release Date''
       then map_option (\<lambda>f. (bios\<lparr>hb_release_date := f\<rparr>, unit)) (put_value 12 12 (hb_release_date bios) val)
     else if key = bytes_of ''Runtime Size''
       then map_option (\<lambda>(n, unit). (bios\<lparr>hb_runtime_size := n\<rparr>, unit)) (put_size (hb_runtime_size bios) unit val)
     else if key = bytes_of ''ROM Size''
       then map_option (\<lambda>(n, unit). (bios\<lparr>hb_rom_size := n\<rparr>, unit)) (put_size (hb_rom_size bios) unit val)
     else Some (bios, unit))"

definition system_attribute :: "hd_system \<Rightarrow> bytes \<Rightarrow> bytes \<Rightarrow> hd_system option" where
  "system_attribute sys key val =
     (if key = bytes_of ''Manufacturer'' then map_option (\<lambda>f. sys\<lparr>hs_manufacturer := f\<rparr>) (put_value 40 39 (hs_manufacturer sys) val)
      else if key = bytes_of ''Product Name'' then map_option (\<lambda>f. sys\<lparr>hs_product_name := f\<rparr>) (put_value 24 23 (hs_product_name sys) val)
      else if key = bytes_of ''Version'' then map_option (\<lambda>f. sys\<lparr>hs_version := f\<rparr>) (put_value 24 23 (hs_version sys) val)
      else if key = bytes_of ''Serial Number'' then map_option (\<lambda>f. sys\<lparr>hs_serial_no := f\<rparr>) (put_lowered (hs_serial_no sys) val)
      else if key = bytes_of ''UUID'' then map_option (\<lambda>f. sys\<lparr>hs_uuid := f\<rparr>) (put_lowered (hs_uuid sys) val)
      else Some sys)"

definition board_attribute :: "hd_board \<Rightarrow> bytes \<Rightarrow> bytes \<Rightarrow> hd_board option" where
  "board_attribute board key val =
     (if key = bytes_of ''Manufacturer'' then map_option (\<lambda>f. board\<lparr>hd_manufacturer := f\<rparr>) (put_value 40 39 (hd_manufacturer board) val)
      else if key = bytes_of ''Product Name'' then map_option (\<lambda>f. board\<lparr>hd_product_name := f\<rparr>) (put_value 24 23 (hd_product_name board) val)
      else if key = bytes_of ''Version'' then map_option (\<lambda>f. board\<lparr>hd_version := f\<rparr>) (put_value 24 23 (hd_version board) val)
      else if key = bytes_of ''Serial Number'' then map_option (\<lambda>f. board\<lparr>hd_serial_no := f\<rparr>) (put_lowered (hd_serial_no board) val)
      else Some board)"

section \<open>Sections\<close>

definition attribute_format :: "directive list" where
  "attribute_format = [Until 32 58, Lit 58, SkipRun 32, Until 255 10]"

text \<open>The body of the loop for a line with a colon: the struct, the key and the value, which keep what an
  earlier line left when the line has none.\<close>

definition section_line :: "('s \<Rightarrow> bytes \<Rightarrow> bytes \<Rightarrow> 's option) \<Rightarrow> 's \<times> bytes \<times> bytes \<Rightarrow> bytes \<Rightarrow> ('s \<times> bytes \<times> bytes) option" where
  "section_line attribute st buffer = (case st of (h, key, val) \<Rightarrow> do {
     fs \<leftarrow> sscanf attribute_format buffer;
     let (key, val) = store [\<lambda>s f. (f_txt f, snd s), \<lambda>s f. (fst s, f_txt f)] fs (key, val);
     kbuf \<leftarrow> cel_left_trim (key @ [0]);
     vbuf \<leftarrow> cel_right_trim (val @ [0]);
     h \<leftarrow> attribute h (cstr kbuf) (cstr vbuf);
     Some (h, cstr kbuf, cstr vbuf) })"

function parse_section :: "('s \<Rightarrow> bytes \<Rightarrow> bytes \<Rightarrow> 's option) \<Rightarrow> 's \<times> bytes \<times> bytes \<Rightarrow> bytes \<Rightarrow> ('s \<times> bytes) option" where
  "parse_section attribute st fd =
     (if fd = [] then Some (fst st, [])
      else
        let buffer = cstr (fst (fgets 255 fd)); fd' = snd (fgets 255 fd) in
        if length buffer < 2 then Some (fst st, fd')
        else if 58 \<notin> set buffer then parse_section attribute st fd'
        else do {
          st \<leftarrow> section_line attribute st buffer;
          parse_section attribute st fd' })"
  by pat_completeness auto
termination
proof (relation "measure (\<lambda>(attribute, st, fd). length fd)", goal_cases)
  case (2 attribute st fd)
  then show ?case using fgets_split [of 255 fd] by (cases "fgets 255 fd") auto
next
  case (3 attribute st fd)
  then show ?case using fgets_split [of 255 fd] by (cases "fgets 255 fd") auto
qed simp

declare parse_section.simps [simp del]

lemma parse_section_rest: "parse_section attribute st fd = Some (h, r) \<Longrightarrow> length r \<le> length fd"
proof (induction attribute st fd arbitrary: h r rule: parse_section.induct)
  case (1 attribute st fd)
  show ?case
  proof (cases "fd = []")
    case True
    then show ?thesis using "1.prems" by (simp add: parse_section.simps)
  next
    case False
    obtain l t where lt: "fgets 255 fd = (l, t)" by fastforce
    then have "length t \<le> length fd" using fgets_split [OF lt] by simp
    then show ?thesis
      using "1.prems" "1.IH" [OF False refl refl] lt False
      by (subst (asm) parse_section.simps) (fastforce simp: Let_def split: if_splits bind_splits)
  qed
qed

text \<open>The three parsers, each with fresh variables.\<close>

definition parse_bios_info :: "hd_bios \<Rightarrow> bytes \<Rightarrow> (hd_bios \<times> bytes) option" where
  "parse_bios_info bios fd = map_option (\<lambda>((bios, _), fd). (bios, fd)) (parse_section bios_attribute ((bios, []), [], []) fd)"

definition parse_system_info :: "hd_system \<Rightarrow> bytes \<Rightarrow> (hd_system \<times> bytes) option" where
  "parse_system_info sys fd = parse_section system_attribute (sys, [], []) fd"

definition pase_board_info :: "hd_board \<Rightarrow> bytes \<Rightarrow> (hd_board \<times> bytes) option" where
  "pase_board_info board fd = parse_section board_attribute (board, [], []) fd"

text \<open>One line of the loop of \<open>sarah_get_hd_info\<close>: the structs and the rest of the stream.\<close>

definition hd_line :: "hd_bios \<times> hd_system \<times> hd_board \<Rightarrow> bytes \<Rightarrow> bytes \<Rightarrow> ((hd_bios \<times> hd_system \<times> hd_board) \<times> bytes) option" where
  "hd_line st buffer fd = (case st of (bios, sys, board) \<Rightarrow>
     if same_start buffer ''BIOS Info'' then map_option (\<lambda>(bios, fd). ((bios, sys, board), fd)) (parse_bios_info bios fd)
     else if same_start buffer ''System Info'' then map_option (\<lambda>(sys, fd). ((bios, sys, board), fd)) (parse_system_info sys fd)
     else if same_start buffer ''Base Board Info'' then map_option (\<lambda>(board, fd). ((bios, sys, board), fd)) (pase_board_info board fd)
     else Some (st, fd))"

lemma hd_line_rest: "hd_line st buffer fd = Some (st', r) \<Longrightarrow> length r \<le> length fd"
  by (auto simp: hd_line_def parse_bios_info_def parse_system_info_def pase_board_info_def
      dest: parse_section_rest split: prod.splits if_splits)

function hd_loop :: "hd_bios \<times> hd_system \<times> hd_board \<Rightarrow> bytes \<Rightarrow> (hd_bios \<times> hd_system \<times> hd_board) option" where
  "hd_loop st fd =
     (if fd = [] then Some st
      else case hd_line st (cstr (fst (fgets 255 fd))) (snd (fgets 255 fd)) of
        None \<Rightarrow> None
      | Some (st, fd) \<Rightarrow> hd_loop st fd)"
  by pat_completeness auto
termination
proof (relation "measure (\<lambda>(st, fd). length fd)", goal_cases)
  case (2 st fd r st' fd')
  then have "length (snd (fgets 255 fd)) < length fd"
    using fgets_split [of 255 fd] by (cases "fgets 255 fd") (auto simp flip: length_greater_0_conv)
  with 2 show ?case using hd_line_rest [of st "cstr (fst (fgets 255 fd))" "snd (fgets 255 fd)" st' fd'] by auto
qed simp

declare hd_loop.simps [simp del]

text \<open>\<open>fd\<close> is the output of \<open>dmidecode\<close>, null when it cannot be started.\<close>

definition sarah_get_hd_info ::
  "bytes option \<Rightarrow> hd_bios \<times> hd_system \<times> hd_board \<Rightarrow> ((hd_bios \<times> hd_system \<times> hd_board) \<times> int) option" where
  "sarah_get_hd_info fd st =
     (case fd of None \<Rightarrow> Some (st, 1) | Some data \<Rightarrow> map_option (\<lambda>st. (st, 0)) (hd_loop st data))"

section \<open>Reading a section\<close>

text \<open>A line of a section: blanks, the key, a colon and, after a blank, the value if there is one.\<close>

definition attribute_line :: "bytes \<times> bytes option \<Rightarrow> bytes" where
  "attribute_line a = 9 # fst a @ 58 # (case snd a of None \<Rightarrow> [] | Some v \<Rightarrow> 32 # v)"

definition attribute_ok :: "bytes \<times> bytes option \<Rightarrow> bool" where
  "attribute_ok a \<longleftrightarrow> fst a \<noteq> [] \<and> list_all (\<lambda>c. c \<notin> set [58, 10, 0]) (fst a) \<and> \<not> blank (hd (fst a)) \<and> length (fst a) < 32
     \<and> (case snd a of None \<Rightarrow> True | Some v \<Rightarrow>
          v \<noteq> [] \<and> list_all (\<lambda>c. c \<notin> set [10, 0]) v \<and> hd v \<noteq> 32 \<and> \<not> blank (last v))
     \<and> length (attribute_line a) < 255"

text \<open>What the code makes of the attributes: \<open>val\<close> is the value of the last line that had one.\<close>

fun read_attributes :: "('s \<Rightarrow> bytes \<Rightarrow> bytes \<Rightarrow> 's option) \<Rightarrow> 's \<Rightarrow> bytes \<Rightarrow> (bytes \<times> bytes option) list \<Rightarrow> 's option" where
  "read_attributes attribute h val [] = Some h"
| "read_attributes attribute h val ((key, v) # as) =
     (let val = (case v of None \<Rightarrow> val | Some v \<Rightarrow> v) in do {
        h \<leftarrow> attribute h key val;
        read_attributes attribute h val as })"

lemma right_trim_done: "no_nul v \<Longrightarrow> v = [] \<or> \<not> blank (last v) \<Longrightarrow> cel_right_trim (v @ [0]) = Some (v @ [0])"
proof -
  assume v: "no_nul v" "v = [] \<or> \<not> blank (last v)"
  then have "right_strip v = v" by (cases v rule: rev_cases) (auto simp: right_strip_snoc right_strip_def)
  then show ?thesis using right_trim_terminated [OF v(1), of "[]"] by auto
qed

lemma section_line_law:
  assumes "attribute_ok a" "no_nul val" "val = [] \<or> \<not> blank (last val)"
  defines "v \<equiv> (case snd a of None \<Rightarrow> val | Some v \<Rightarrow> v)"
  shows "section_line attribute (h, key, val) (attribute_line a @ [10])
         = map_option (\<lambda>h. (h, fst a, v)) (attribute h (fst a) v)"
    and "no_nul v" "v = [] \<or> \<not> blank (last v)" "plain_line 255 (attribute_line a)" "2 \<le> length (attribute_line a @ [10])"
proof -
  obtain k u where a: "a = (k, u)" by (cases a)
  have k: "k \<noteq> []" "58 \<notin> set (9 # k)" "no_nul (9 # k)" "\<not> blank (hd k)" "length (9 # k) \<le> 32"
    using assms(1) by (auto simp: attribute_ok_def a list_all_iff no_nul_def)
  have "sscanf attribute_format (attribute_line a @ [10])
      = Some (FStr (9 # k) # (case u of None \<Rightarrow> [] | Some w \<Rightarrow> [FStr w]))"
  proof -
    have "sscanf [SkipRun 32, Until 255 10] ((case u of None \<Rightarrow> [] | Some w \<Rightarrow> 32 # w) @ [10])
        = Some (case u of None \<Rightarrow> [] | Some w \<Rightarrow> [FStr w])"
    proof (cases u)
      case (Some w)
      then have w: "w \<noteq> []" "10 \<notin> set w" "hd w \<noteq> 32" "length w \<le> 255"
        using assms(1) by (auto simp: attribute_ok_def attribute_line_def a list_all_iff)
      then have "dropWhile (\<lambda>d. d = 32) (32 # w @ [10]) = w @ [10]" by (cases w) auto
      then show ?thesis using Some sscanf_until [OF w(1,2,4), of "[]" "[]"] by simp
    qed simp
    then show ?thesis
      using sscanf_until [OF _ k(2,5), of "[Lit 58, SkipRun 32, Until 255 10]" "(case u of None \<Rightarrow> [] | Some w \<Rightarrow> 32 # w) @ [10]"]
      by (simp add: attribute_format_def attribute_line_def a del: sscanf.simps(6,7))
  qed
  moreover obtain g where "cel_left_trim ((9 # k) @ 0 # []) = Some (k @ 0 # g @ [])"
    using left_trim_terminated [OF k(3), of "[]"] k(1,4) by (cases k) (auto simp: blank_def)
  moreover show v: "no_nul v" "v = [] \<or> \<not> blank (last v)"
    using assms(1-3) by (auto simp: attribute_ok_def a v_def list_all_iff no_nul_def split: option.splits)
  note right_trim_done [OF v]
  ultimately show "section_line attribute (h, key, val) (attribute_line a @ [10])
      = map_option (\<lambda>h. (h, fst a, v)) (attribute h (fst a) v)"
    using k(3) v(1) by (cases u) (auto simp: section_line_def a v_def map_option_case split: option.splits)
  show "plain_line 255 (attribute_line a)" "2 \<le> length (attribute_line a @ [10])"
    using assms(1) by (auto simp: attribute_ok_def plain_line_def attribute_line_def list_all_iff no_nul_def split: option.splits)
qed

lemma parse_section_law:
  "list_all attribute_ok as \<Longrightarrow> no_nul val \<Longrightarrow> val = [] \<or> \<not> blank (last val) \<Longrightarrow>
   parse_section attribute (h, key, val) (lines_text (map attribute_line as @ [[]]) @ rest)
   = map_option (\<lambda>h. (h, rest)) (read_attributes attribute h val as)"
proof (induction as arbitrary: h key val)
  case Nil
  have "fgets 255 (10 # rest) = ([10], rest)" using fgets_line [of "[]" 255 rest] by simp
  then show ?case by (simp add: lines_text_def parse_section.simps)
next
  case (Cons a as)
  let ?v = "case snd a of None \<Rightarrow> val | Some v \<Rightarrow> v"
  let ?t = "lines_text (map attribute_line as @ [[]]) @ rest"
  have ok: "attribute_ok a" "list_all attribute_ok as" using Cons.prems by auto
  note law = section_line_law [OF ok(1) Cons.prems(2,3)]
  have pl: "10 \<notin> set (attribute_line a)" "no_nul (attribute_line a)" "length (attribute_line a) < 255"
    using law(4) by (auto simp: plain_line_def)
  have "parse_section attribute (h, key, val) (attribute_line a @ 10 # ?t)
      = section_line attribute (h, key, val) (attribute_line a @ [10]) \<bind> (\<lambda>st. parse_section attribute st ?t)"
    using fgets_line [OF pl(1,3), of ?t] pl(2) law(5)
    by (subst parse_section.simps) (simp add: attribute_line_def)
  also have "\<dots> = map_option (\<lambda>h. (h, rest)) (read_attributes attribute h val (a # as))"
    using law(1) [of attribute h key] Cons.IH [OF ok(2) law(2,3)]
    by (cases a; cases "attribute h (fst a) ?v") (simp_all add: Let_def)
  finally show ?case by (simp add: lines_text_def)
qed

text \<open>C31: the lines of a section are read up to its empty line, whatever follows is left in the stream, and the
  struct is filled attribute by attribute; an attribute without a value is stored with the value of the last
  line that had one.\<close>

theorem hd_sections_read:
  assumes "list_all attribute_ok as" "data = lines_text (map attribute_line as @ [[]]) @ rest"
  shows "parse_bios_info bios data = map_option (\<lambda>(b, unit). (b, rest)) (read_attributes bios_attribute (bios, []) [] as)
    \<and> parse_system_info sys data = map_option (\<lambda>s. (s, rest)) (read_attributes system_attribute sys [] as)
    \<and> pase_board_info board data = map_option (\<lambda>b. (b, rest)) (read_attributes board_attribute board [] as)"
  using parse_section_law [OF assms(1), of "[]" bios_attribute "(bios, [])" "[]" rest]
    parse_section_law [OF assms(1), of "[]" system_attribute sys "[]" rest]
    parse_section_law [OF assms(1), of "[]" board_attribute board "[]" rest] assms(2)
  by (simp add: parse_bios_info_def parse_system_info_def pase_board_info_def option.map_comp comp_def case_prod_unfold)

lemma hd_sections_read_witness:
  "map_option (\<lambda>(s, r). (cstr (hs_product_name s), cstr (hs_version s), r))
     (parse_system_info sarah_hd_system_init
        (lines_text (map attribute_line [(bytes_of ''Product Name'', Some (bytes_of ''X1'')), (bytes_of ''Version'', None)] @ [[]])
         @ bytes_of ''End''))
   = Some (bytes_of ''X1'', bytes_of ''X1'', bytes_of ''End'')"
proof -
  let ?as = "[(bytes_of ''Product Name'', Some (bytes_of ''X1'')), (bytes_of ''Version'', None)]"
  have ok: "list_all attribute_ok ?as"
    by (simp add: attribute_ok_def attribute_line_def bytes_of_def blank_def)
  have block: "replicate 24 0 = [0, 0] @ replicate 22 (0 :: u8)" by (simp add: eval_nat_numeral)
  have "\<exists>s. read_attributes system_attribute sarah_hd_system_init [] ?as = Some s
      \<and> cstr (hs_product_name s) = bytes_of ''X1'' \<and> cstr (hs_version s) = bytes_of ''X1''"
    unfolding sarah_hd_system_init_def block
    by (simp add: system_attribute_def put_value_def blit_def bytes_of_def cstr_def)
  then show ?thesis using hd_sections_read [OF ok refl, where rest = "bytes_of ''End''" and sys = sarah_hd_system_init]
    by auto
qed

section \<open>What the arrays take\<close>

definition hd_system_wf :: "hd_system \<Rightarrow> bool" where
  "hd_system_wf s \<longleftrightarrow> length (hs_manufacturer s) = 40 \<and> length (hs_product_name s) = 24 \<and> length (hs_version s) = 24
     \<and> length (hs_serial_no s) = 40 \<and> length (hs_uuid s) = 40"

definition hd_bios_wf :: "hd_bios \<Rightarrow> bool" where
  "hd_bios_wf b \<longleftrightarrow> length (hb_vendor b) = 40 \<and> length (hb_version b) = 64 \<and> length (hb_release_date b) = 12"

lemma put_value_law:
  assumes "n \<le> cap" "cap \<le> length field"
  shows "\<exists>f. put_value cap n field val = Some f \<and> length f = length field
    \<and> f = take (if cap \<le> length val then n else length val) val @ drop (if cap \<le> length val then n else length val) field"
  using assms by (auto simp: put_value_def blit_def)

lemma case_loop_end: "i \<le> length src \<Longrightarrow> length src < i + n \<Longrightarrow> case_loop f src i n = None"
proof (induction n arbitrary: src i)
  case (Suc n)
  then show ?case
    by (cases "i < length src") (simp_all add: rd_def wr_def)
qed simp

lemma put_lowered_law:
  assumes "length field = 40"
  shows "if length val \<le> 40 then \<exists>f. put_lowered field val = Some f \<and> length f = 40 else put_lowered field val = None"
proof -
  obtain f where f: "put_value 40 39 field val = Some f" "length f = 40"
    using put_value_law [of 39 40 field val] assms by auto
  then show ?thesis
    using case_loop_map [of "length val" f to_lower "[]"] case_loop_end [of 0 f "length val" to_lower]
    by (auto simp: put_lowered_def cel_strtolower_def)
qed

text \<open>The attributes of the system stay inside of their arrays except a serial number or UUID of more than
  40 characters, which is lowered beyond the array; a vendor or version of the BIOS is cut and stays a string,
  while a release date of 12 characters or more fills its array and leaves it without a NUL.\<close>

theorem hd_fields:
  assumes "hd_system_wf sys" "hd_bios_wf bios"
  shows "(system_attribute sys key val = None
        \<longleftrightarrow> (key = bytes_of ''Serial Number'' \<or> key = bytes_of ''UUID'') \<and> 40 < length val)
    \<and> (\<forall>s. system_attribute sys key val = Some s \<longrightarrow> hd_system_wf s)
    \<and> (\<exists>b. bios_attribute (bios, unit) (bytes_of ''Vendor'') val = Some (b, unit) \<and> hd_bios_wf b
          \<and> hb_vendor b = (if length val < 40 then val @ drop (length val) (hb_vendor bios)
                            else take 39 val @ drop 39 (hb_vendor bios)))
    \<and> (\<exists>b. bios_attribute (bios, unit) (bytes_of ''Release Date'') val = Some (b, unit) \<and> hd_bios_wf b
          \<and> hb_release_date b = (if length val < 12 then val @ drop (length val) (hb_release_date bios) else take 12 val))"
proof -
  have wf: "length (hs_manufacturer sys) = 40" "length (hs_product_name sys) = 24" "length (hs_version sys) = 24"
    "length (hs_serial_no sys) = 40" "length (hs_uuid sys) = 40"
    using assms(1) by (auto simp: hd_system_wf_def)
  have keys: "bytes_of ''Vendor'' \<noteq> bytes_of ''Release Date''" "bytes_of ''Version'' \<noteq> bytes_of ''Release Date''"
    by (simp_all add: bytes_of_def)
  obtain f1 f2 f3 where f: "put_value 40 39 (hs_manufacturer sys) val = Some f1" "length f1 = 40"
    "put_value 24 23 (hs_product_name sys) val = Some f2" "length f2 = 24"
    "put_value 24 23 (hs_version sys) val = Some f3" "length f3 = 24"
    using put_value_law [of 39 40 "hs_manufacturer sys" val] put_value_law [of 23 24 "hs_product_name sys" val]
      put_value_law [of 23 24 "hs_version sys" val] wf by auto
  have keys2: "bytes_of ''Manufacturer'' \<noteq> bytes_of ''Serial Number''" "bytes_of ''Manufacturer'' \<noteq> bytes_of ''UUID''"
    "bytes_of ''Product Name'' \<noteq> bytes_of ''Serial Number''" "bytes_of ''Product Name'' \<noteq> bytes_of ''UUID''"
    "bytes_of ''Version'' \<noteq> bytes_of ''Serial Number''" "bytes_of ''Version'' \<noteq> bytes_of ''UUID''"
    by (simp_all add: bytes_of_def)
  have sys: "(system_attribute sys key val = None
        \<longleftrightarrow> (key = bytes_of ''Serial Number'' \<or> key = bytes_of ''UUID'') \<and> 40 < length val)"
    "system_attribute sys key val = Some s \<Longrightarrow> hd_system_wf s" for s
    using f keys2 wf put_lowered_law [OF wf(4), of val] put_lowered_law [OF wf(5), of val]
    by (auto simp: system_attribute_def hd_system_wf_def split: if_splits)
  have bios: "\<exists>b. bios_attribute (bios, unit) (bytes_of ''Vendor'') val = Some (b, unit) \<and> hd_bios_wf b
      \<and> hb_vendor b = (if length val < 40 then val @ drop (length val) (hb_vendor bios)
                        else take 39 val @ drop 39 (hb_vendor bios))"
    using put_value_law [of 39 40 "hb_vendor bios" val] assms(2)
    by (auto simp: bios_attribute_def hd_bios_wf_def)
  have date: "\<exists>b. bios_attribute (bios, unit) (bytes_of ''Release Date'') val = Some (b, unit) \<and> hd_bios_wf b
      \<and> hb_release_date b = (if length val < 12 then val @ drop (length val) (hb_release_date bios) else take 12 val)"
    using put_value_law [of 12 12 "hb_release_date bios" val] assms(2) keys
    by (auto simp: bios_attribute_def hd_bios_wf_def)
  from sys bios date show ?thesis by blast
qed

lemma hd_fields_witness:
  "system_attribute sarah_hd_system_init (bytes_of ''UUID'') (replicate 41 65) = None"
proof -
  have "hd_system_wf sarah_hd_system_init" "hd_bios_wf sarah_hd_bios_init"
    by (simp_all add: hd_system_wf_def hd_bios_wf_def sarah_hd_system_init_def sarah_hd_bios_init_def)
  from hd_fields [OF this, of "bytes_of ''UUID''" "replicate 41 65"] show ?thesis by simp
qed

end
