(* ===== verification/DiskList.thy ===== *)
theory DiskList
  imports Stats Smartdisk
begin

text \<open>
  The list of block devices (\<open>sarah_get_disk_list\<close> of \<open>src/main/disk.c\<close>), which the collector and the disk
  application sample.

  The directory, the answers of the devices and the outputs of \<open>fdisk\<close> and \<open>lsblk\<close> are a record of inputs.  The
  character arrays of \<open>sarah_disk_t\<close> are zeroed before they are filled, so they are the strings in them;
  \<open>overlay\<close> is a \<open>memcpy\<close> without the NUL.  The struct \<open>_dtp\<close> and \<open>block_size\<close> of the source keep what an
  earlier step left in them and are passed along.

  Shown: the list has one entry per device that is kept, in the order of the directory, and every string fits
  its array; the formats and mount points are those that \<open>lsblk\<close> prints.
\<close>

section \<open>Entries\<close>

record disk =
  dk_wwn :: bytes
  dk_serial_no :: bytes
  dk_model :: bytes
  dk_name :: bytes
  dk_format :: bytes
  dk_mount :: bytes
  dk_part_no :: int
  dk_p_start :: nat
  dk_p_blocks :: nat
  dk_p_size :: nat
  dk_inode :: nat
  dk_ifree :: nat
  dk_size :: nat
  dk_free :: nat

definition sarah_disk_init :: disk where
  "sarah_disk_init = \<lparr>dk_wwn = [], dk_serial_no = [], dk_model = [], dk_name = [], dk_format = [], dk_mount = [],
     dk_part_no = 0, dk_p_start = 0, dk_p_blocks = 0, dk_p_size = 0, dk_inode = 0, dk_ifree = 0, dk_size = 0, dk_free = 0\<rparr>"

text \<open>The copy is null when \<open>malloc\<close> fails, and its caller writes through it.\<close>

definition clone_disk_entry :: "(nat \<Rightarrow> bool) \<Rightarrow> disk \<Rightarrow> disk option" where
  "clone_disk_entry al d = (if al 400 then Some d else None)"

definition overlay :: "bytes \<Rightarrow> bytes \<Rightarrow> bytes" where
  "overlay new old = new @ drop (length new) old"

definition signed64 :: "nat \<Rightarrow> int" where
  "signed64 n = (if n < 2 ^ 63 then int n else int n - 2 ^ 64)"

definition int64 :: "int \<Rightarrow> int option" where
  "int64 i = (if - (2 ^ 63) \<le> i \<and> i < 2 ^ 63 then Some i else None)"

section \<open>Devices\<close>

text \<open>What \<open>HDIO_GET_IDENTITY\<close> delivers: serial number (20 bytes), model (40 bytes), four words of the name.\<close>

record hd_driveid =
  id_serial_no :: bytes
  id_model :: bytes
  id_words :: "nat list"

record fs_stat =
  f_files :: nat
  f_ffree :: nat
  f_blocks :: nat
  f_bfree :: nat
  f_bsize :: nat

record disk_env =
  dv_dev :: "(bytes \<times> bool) list option"
  dv_open :: "bytes \<Rightarrow> bool"
  dv_identity :: "bytes \<Rightarrow> hd_driveid option"
  dv_start :: "bytes \<Rightarrow> nat option"
  dv_sectors :: "bytes \<Rightarrow> nat option"
  dv_fdisk :: "bytes option"
  dv_lsblk :: "bytes option"
  dv_statvfs :: "bytes \<Rightarrow> fs_stat option"

type_synonym disk_filter = "(bytes \<Rightarrow> bytes \<Rightarrow> int \<Rightarrow> nat) option"

text \<open>A filter looks at the name and the format; a null filter drops nothing.\<close>

definition dropped :: "disk_filter \<Rightarrow> disk \<Rightarrow> int \<Rightarrow> bool" where
  "dropped flt d step = (case flt of None \<Rightarrow> False | Some f \<Rightarrow> f (dk_name d) (dk_format d) step > 0)"

definition hex4 :: "nat \<Rightarrow> bytes" where
  "hex4 w = hex2 (word_of_nat (w div 256)) @ hex2 (word_of_nat (w mod 256))"

definition identify :: "hd_driveid option \<Rightarrow> disk \<Rightarrow> disk" where
  "identify drive d =
     (case drive of
        None \<Rightarrow> d\<lparr>dk_serial_no := bytes_of ''0x00000000'', dk_model := bytes_of ''Unknow model'',
                  dk_wwn := bytes_of ''0x0000000000000000''\<rparr>
      | Some drv \<Rightarrow> d\<lparr>dk_serial_no := cstr (take 20 (id_serial_no drv)), dk_model := cstr (take 40 (id_model drv)),
                  dk_wwn := bytes_of ''0x'' @ concat (map hex4 (take 4 (id_words drv)))\<rparr>)"

text \<open>The sizes: \<open>block_size * 512\<close> is a signed product.\<close>

definition measure_disk :: "nat option \<Rightarrow> nat option \<Rightarrow> disk \<Rightarrow> disk option" where
  "measure_disk start sectors d =
     (let d = (case start of None \<Rightarrow> d | Some n \<Rightarrow> d\<lparr>dk_p_start := n\<rparr>) in
      case sectors of
        None \<Rightarrow> Some d
      | Some n \<Rightarrow> do {
          b \<leftarrow> int64 (signed64 n * 512);
          Some (d\<lparr>dk_p_blocks := n, dk_p_size := nat (b mod 2 ^ 64)\<rparr>) })"

text \<open>One entry of the directory: \<open>_dtp\<close> as it leaves it, and the clone for the list unless the device is dropped.\<close>

definition dev_entry :: "(nat \<Rightarrow> bool) \<Rightarrow> disk_env \<Rightarrow> disk_filter \<Rightarrow> bytes \<Rightarrow> (disk \<times> disk option) option" where
  "dev_entry al env flt d_name = do {
     let d = sarah_disk_init\<lparr>dk_name := bytes_of ''/dev/'' @ take 58 d_name\<rparr>;
     (_, part_no) \<leftarrow> get_tailing_integer d_name;
     let d = d\<lparr>dk_part_no := (case part_no of Some n \<Rightarrow> n | None \<Rightarrow> - 1)\<rparr>;
     (if dropped flt d (- 1) then Some (d, None)
      else if \<not> dv_open env (dk_name d) then Some (d, None)
      else do {
        d \<leftarrow> measure_disk (dv_start env (dk_name d)) (dv_sectors env (dk_name d)) (identify (dv_identity env (dk_name d)) d);
        disk \<leftarrow> clone_disk_entry al d;
        serial_no \<leftarrow> right_trimmed (dk_serial_no disk);
        model \<leftarrow> right_trimmed (dk_model disk);
        Some (d, Some (disk\<lparr>dk_serial_no := serial_no, dk_model := model\<rparr>)) }) }"

text \<open>The state of the scan: the list, \<open>active_backup_strategy\<close>, \<open>_dtp\<close> and \<open>block_size\<close>.\<close>

record scan =
  sc_list :: "disk list"
  sc_backup :: bool
  sc_dtp :: disk
  sc_block_size :: nat

fun scan_dev :: "(nat \<Rightarrow> bool) \<Rightarrow> disk_env \<Rightarrow> disk_filter \<Rightarrow> (bytes \<times> bool) list \<Rightarrow> scan \<Rightarrow> scan option" where
  "scan_dev al env flt [] s = Some s"
| "scan_dev al env flt ((d_name, blk) # es) s =
     (if d_name = bytes_of ''.'' \<or> d_name = bytes_of ''..'' then scan_dev al env flt es s
      else if \<not> blk then scan_dev al env flt es s
      else do {
        (dtp, e) \<leftarrow> dev_entry al env flt d_name;
        let s = s\<lparr>sc_dtp := dtp\<rparr>;
        scan_dev al env flt es
          (case e of
             None \<Rightarrow> s
           | Some d \<Rightarrow> s\<lparr>sc_list := sc_list s @ [d],
               sc_backup := (sc_backup s \<and> dv_identity env (dk_name d) = None),
               sc_block_size := (case dv_sectors env (dk_name d) of None \<Rightarrow> sc_block_size s | Some n \<Rightarrow> n)\<rparr>) })"

section \<open>The output of fdisk\<close>

definition fdisk_disk_format :: "directive list" where
  "fdisk_disk_format = map Lit (bytes_of ''Disk'') @ [White, Until 63 58, Lit 58, SkipOther [44], Lit 44, White, Long,
     SkipOther [44], Lit 44, White, Long]"

definition fdisk_part_format :: "directive list" where
  "fdisk_part_format = [Str 63, SkipOther (bytes_of ''0123456789''), Long, White, Long]"

text \<open>The entries with the name of \<open>_dtp\<close> are overridden.\<close>

definition override :: "(disk \<Rightarrow> disk) \<Rightarrow> scan \<Rightarrow> scan" where
  "override f s = s\<lparr>sc_list := map (\<lambda>d. if dk_name d = dk_name (sc_dtp s) then f d else d) (sc_list s)\<rparr>"

text \<open>The identifier of a disk, read by \<open>%s\<close> into 41 bytes.\<close>

definition fdisk_identifier :: "scan \<Rightarrow> bytes \<Rightarrow> scan option" where
  "fdisk_identifier s buffer = do {
     fs \<leftarrow> sscanf [SkipOther [58], Lit 58, White, Str 255] buffer;
     let s = s\<lparr>sc_dtp := store [\<lambda>d f. d\<lparr>dk_wwn := f_txt f\<rparr>] fs (sc_dtp s)\<rparr>;
     (if length (dk_wwn (sc_dtp s)) < 41
      then Some (override (\<lambda>d. d\<lparr>dk_wwn := dk_wwn (sc_dtp s), dk_p_size := dk_p_size (sc_dtp s),
                             dk_p_blocks := dk_p_blocks (sc_dtp s)\<rparr>) s)
      else None) }"

text \<open>A line of the table of partitions; \<open>block_size\<close> is the last sector.\<close>

definition fdisk_partition :: "scan \<Rightarrow> bytes \<Rightarrow> scan option" where
  "fdisk_partition s buffer = do {
     fs \<leftarrow> sscanf fdisk_part_format buffer;
     let s = store [\<lambda>s f. s\<lparr>sc_dtp := (sc_dtp s)\<lparr>dk_name := f_txt f\<rparr>\<rparr>, \<lambda>s f. s\<lparr>sc_dtp := (sc_dtp s)\<lparr>dk_p_start := f_num f\<rparr>\<rparr>,
       \<lambda>s f. s\<lparr>sc_block_size := f_num f\<rparr>] fs s;
     let blocks = wrap64 (sc_block_size s + (2 ^ 64 - dk_p_start (sc_dtp s)) + 1);
     let s = s\<lparr>sc_dtp := (sc_dtp s)\<lparr>dk_p_blocks := blocks, dk_p_size := wrap64 (blocks * 512)\<rparr>\<rparr>;
     Some (override (\<lambda>d. d\<lparr>dk_wwn := dk_wwn (sc_dtp s), dk_p_start := dk_p_start (sc_dtp s),
             dk_p_blocks := dk_p_blocks (sc_dtp s), dk_p_size := dk_p_size (sc_dtp s)\<rparr>) s) }"

text \<open>The line that heads the table of partitions, or an empty line, or null; blank lines before it are skipped.\<close>

definition table_head :: "bytes \<Rightarrow> bytes option \<times> bytes" where
  "table_head fd =
     (let head = (\<lambda>l. strstr l ''Device'' \<or> length l < 2);
          (line, fd) = lines_until 255 (\<lambda>l. length l > 1) fd
      in case line of
           None \<Rightarrow> lines_until 255 head fd
         | Some l \<Rightarrow> if head l then (Some l, fd) else lines_until 255 head fd)"

text \<open>The part about one disk, from its first line \<open>buffer\<close> to the end of its partitions.\<close>

definition fdisk_disk :: "scan \<Rightarrow> bytes \<Rightarrow> bytes \<Rightarrow> (scan \<times> bytes) option" where
  "fdisk_disk s buffer fd = do {
     fs \<leftarrow> sscanf fdisk_disk_format buffer;
     let s = s\<lparr>sc_dtp := store [\<lambda>d f. d\<lparr>dk_name := f_txt f\<rparr>, \<lambda>d f. d\<lparr>dk_p_size := f_num f\<rparr>, \<lambda>d f. d\<lparr>dk_p_blocks := f_num f\<rparr>]
       fs sarah_disk_init\<rparr>;
     let (line, fd) = lines_until 255 (\<lambda>l. same_start l ''Disk id'' \<or> length l < 2) fd;
     s \<leftarrow> (case line of
         None \<Rightarrow> Some s
       | Some l \<Rightarrow> if same_start l ''Disk id'' then fdisk_identifier s l else Some s);
     let (line, fd) = table_head fd;
     (case line of
        None \<Rightarrow> Some (s, fd)
      | Some l \<Rightarrow> if strstr l ''Device'' then lines_do 255 (\<lambda>l. length l < 2) fdisk_partition fd s else Some (s, fd)) }"

lemma table_head_rest: "length (snd (table_head fd)) \<le> length fd"
proof -
  obtain l r where lr: "lines_until 255 (\<lambda>l. length l > 1) fd = (l, r)" by fastforce
  have r: "length r \<le> length fd" using lines_until_rest [of 255 "\<lambda>l. length l > 1" fd] lr by simp
  have "length (snd (lines_until 255 h r)) \<le> length fd" for h using lines_until_rest [of 255 h r] r by simp
  then show ?thesis using lr r by (cases l) (simp_all add: table_head_def Let_def)
qed

text \<open>What a disk and its partitions change: the scan, up to the fields that the output names.\<close>

lemma fdisk_disk_inv:
  assumes "fdisk_disk s buffer fd = Some (s', r)"
    and "\<And>d. I s \<Longrightarrow> I (s\<lparr>sc_dtp := store [\<lambda>d f. d\<lparr>dk_name := f_txt f\<rparr>, \<lambda>d f. d\<lparr>dk_p_size := f_num f\<rparr>, \<lambda>d f. d\<lparr>dk_p_blocks := f_num f\<rparr>]
       d sarah_disk_init\<rparr>)"
    and "\<And>s l s'. I s \<Longrightarrow> no_nul l \<Longrightarrow> fdisk_identifier s l = Some s' \<Longrightarrow> I s'" "\<And>s l s'. I s \<Longrightarrow> fdisk_partition s l = Some s' \<Longrightarrow> I s'"
    and "I s"
  shows "I s' \<and> length r \<le> length fd"
proof -
  obtain l1 r1 where 1: "lines_until 255 (\<lambda>l. same_start l ''Disk id'' \<or> length l < 2) fd = (l1, r1)" by fastforce
  obtain l2 r2 where 2: "table_head r1 = (l2, r2)" by fastforce
  have len: "length r2 \<le> length fd"
    using lines_until_rest [of 255 "\<lambda>l. same_start l ''Disk id'' \<or> length l < 2" fd] 1 table_head_rest [of r1] 2 by simp
  from assms(1) obtain fs s1 where
    s1: "(case l1 of None \<Rightarrow> Some (s\<lparr>sc_dtp := store [\<lambda>d f. d\<lparr>dk_name := f_txt f\<rparr>, \<lambda>d f. d\<lparr>dk_p_size := f_num f\<rparr>, \<lambda>d f. d\<lparr>dk_p_blocks := f_num f\<rparr>]
       fs sarah_disk_init\<rparr>) | Some l \<Rightarrow> if same_start l ''Disk id'' then fdisk_identifier (s\<lparr>sc_dtp := store [\<lambda>d f. d\<lparr>dk_name := f_txt f\<rparr>, \<lambda>d f. d\<lparr>dk_p_size := f_num f\<rparr>, \<lambda>d f. d\<lparr>dk_p_blocks := f_num f\<rparr>]
       fs sarah_disk_init\<rparr>) l else Some (s\<lparr>sc_dtp := store [\<lambda>d f. d\<lparr>dk_name := f_txt f\<rparr>, \<lambda>d f. d\<lparr>dk_p_size := f_num f\<rparr>, \<lambda>d f. d\<lparr>dk_p_blocks := f_num f\<rparr>]
       fs sarah_disk_init\<rparr>)) = Some s1"
    and s2: "(case l2 of None \<Rightarrow> Some (s1, r2)
      | Some l \<Rightarrow> if strstr l ''Device'' then lines_do 255 (\<lambda>l. length l < 2) fdisk_partition r2 s1 else Some (s1, r2)) = Some (s', r)"
    unfolding fdisk_disk_def 1 Let_def prod.case 2 by (auto simp: bind_eq_Some_conv)
  have "no_nul l" if "l1 = Some l" for l using lines_until_string 1 that by blast
  then have "I s1" using s1 assms(2) [OF assms(5), of fs] assms(3) by (auto split: option.splits if_splits)
  then show ?thesis
    using s2 len lines_do_inv [of 255 "\<lambda>l. length l < 2" fdisk_partition r2 s1 s' r I] assms(4)
    by (auto split: option.splits if_splits)
qed

lemma fdisk_disk_rest: "fdisk_disk s buffer fd = Some (s', r) \<Longrightarrow> length r \<le> length fd"
  using fdisk_disk_inv [of s buffer fd s' r "\<lambda>_. True"] by simp

function fdisk_loop :: "bytes \<Rightarrow> scan \<Rightarrow> scan option" where
  "fdisk_loop fd s =
     (if fd = [] then Some s
      else if \<not> same_start (cstr (fst (fgets 255 fd))) ''Disk'' then fdisk_loop (snd (fgets 255 fd)) s
      else do {
        (s, fd) \<leftarrow> fdisk_disk s (cstr (fst (fgets 255 fd))) (snd (fgets 255 fd));
        fdisk_loop fd s })"
  by pat_completeness auto
termination
proof (relation "measure (\<lambda>(fd, s). length fd)", goal_cases)
  case (2 fd s)
  then show ?case by (simp add: fgets_rest)
next
  case (3 fd s p s' fd')
  then show ?case using fdisk_disk_rest fgets_rest [of fd 255] by fastforce
qed simp

declare fdisk_loop.simps [simp del]

section \<open>Formats, mount points and storage\<close>

text \<open>The first entry of the device \<open>dev\<close> takes the format and the mount point.\<close>

fun fill_format :: "bytes \<Rightarrow> bytes \<Rightarrow> bytes \<Rightarrow> disk list \<Rightarrow> disk list" where
  "fill_format dev format mount [] = []"
| "fill_format dev format mount (d # ds) =
     (if same_start (dk_name d) ''/dev/'' \<and> drop 5 (dk_name d) = dev
      then d\<lparr>dk_format := overlay format (dk_format d),
             dk_mount := (if mount \<noteq> [] then overlay mount (dk_mount d) else dk_mount d),
             dk_part_no := (if dk_part_no d = - 1 then 0 else dk_part_no d)\<rparr> # ds
      else d # fill_format dev format mount ds)"

text \<open>A line of \<open>lsblk\<close>; the widths of the format exceed the arrays of 48 and 64 bytes.\<close>

definition lsblk_format :: "directive list" where
  "lsblk_format = [Str 63, White, Str 15, White, Str 155]"

definition lsblk_line :: "disk_filter \<Rightarrow> scan \<Rightarrow> bytes \<Rightarrow> scan option" where
  "lsblk_line flt s buffer = do {
     fs \<leftarrow> sscanf lsblk_format buffer;
     let (device, format, mount) = store [\<lambda>(d, f, m) x. (f_txt x, f, m), \<lambda>(d, f, m) x. (d, f_txt x, m), \<lambda>(d, f, m) x. (d, f, f_txt x)]
       fs ([], [], []);
     (if length device \<ge> 48 \<or> length mount \<ge> 64 then None
      else if length format < 2 then Some s
      else
        let s = s\<lparr>sc_dtp := (sc_dtp s)\<lparr>dk_format := format\<rparr>\<rparr> in
        Some (if dropped flt (sc_dtp s) 1 then s
              else s\<lparr>sc_list := fill_format device format mount (sc_list s)\<rparr>)) }"

definition fill_storage :: "disk_env \<Rightarrow> disk \<Rightarrow> disk" where
  "fill_storage env d =
     (if dk_mount d = [] then d
      else (case dv_statvfs env (dk_mount d) of
          None \<Rightarrow> d
        | Some st \<Rightarrow> d\<lparr>dk_inode := f_files st, dk_ifree := f_ffree st, dk_size := wrap64 (f_blocks st * f_bsize st),
                       dk_free := wrap64 (f_bfree st * f_bsize st)\<rparr>))"

section \<open>The list\<close>

text \<open>The three steps after the scan of the directory.  Bit 0 of the mask asks for the formats, bit 1 for the storage.\<close>

definition fdisk_fill :: "disk_env \<Rightarrow> scan \<Rightarrow> scan option" where
  "fdisk_fill env s = (if sc_backup s then (case dv_fdisk env of None \<Rightarrow> Some s | Some out \<Rightarrow> fdisk_loop out s) else Some s)"

definition lsblk_fill :: "disk_env \<Rightarrow> disk_filter \<Rightarrow> scan \<Rightarrow> scan option" where
  "lsblk_fill env flt s =
     (case dv_lsblk env of None \<Rightarrow> Some s | Some out \<Rightarrow> each_line 255 (lsblk_line flt) (snd (fgets 255 out)) s)"

definition sarah_get_disk_list ::
  "(nat \<Rightarrow> bool) \<Rightarrow> disk_env \<Rightarrow> nat \<Rightarrow> disk_filter \<Rightarrow> disk list \<Rightarrow> (disk list \<times> nat) option" where
  "sarah_get_disk_list al env fill_mask flt list =
     (case dv_dev env of
        None \<Rightarrow> Some (list, 1)
      | Some es \<Rightarrow> do {
          s \<leftarrow> scan_dev al env flt es \<lparr>sc_list = list, sc_backup = True, sc_dtp = sarah_disk_init, sc_block_size = 0\<rparr>;
          s \<leftarrow> fdisk_fill env s;
          s \<leftarrow> (if bit fill_mask 0 then lsblk_fill env flt s else Some s);
          Some (if bit fill_mask 1 then map (fill_storage env) (sc_list s) else sc_list s, 0) })"

section \<open>What the list keeps\<close>

definition disk_fits :: "disk \<Rightarrow> bool" where
  "disk_fits d \<longleftrightarrow> length (dk_wwn d) \<le> 40 \<and> length (dk_serial_no d) \<le> 20 \<and> length (dk_model d) \<le> 40 \<and> length (dk_name d) \<le> 63
     \<and> length (dk_format d) \<le> 15 \<and> length (dk_mount d) \<le> 63 \<and> - 1 \<le> dk_part_no d \<and> dk_part_no d < 2 ^ 31 \<and> no_nul (dk_wwn d)"

definition wwn_fits :: "disk \<Rightarrow> bool" where
  "wwn_fits d \<longleftrightarrow> length (dk_wwn d) \<le> 40 \<and> no_nul (dk_wwn d)"

definition bare :: "disk \<Rightarrow> bool" where
  "bare d \<longleftrightarrow> dk_format d = [] \<and> dk_mount d = []"

text \<open>The names of the devices that the filter lets through and that can be opened.\<close>

definition dev_name :: "bytes \<Rightarrow> bytes" where
  "dev_name n = bytes_of ''/dev/'' @ take 58 n"

definition kept_devices :: "disk_env \<Rightarrow> disk_filter \<Rightarrow> (bytes \<times> bool) list \<Rightarrow> bytes list" where
  "kept_devices env flt es =
     filter (\<lambda>name. \<not> dropped flt (sarah_disk_init\<lparr>dk_name := name\<rparr>) (- 1) \<and> dv_open env name)
       (map (\<lambda>(n, blk). dev_name n) (filter (\<lambda>(n, blk). blk \<and> n \<noteq> bytes_of ''.'' \<and> n \<noteq> bytes_of ''..'') es))"

lemma tailing_integer_nat: "get_tailing_integer src = Some (r, Some n) \<Longrightarrow> 0 \<le> n \<and> n < 2 ^ 31"
  by (auto simp: get_tailing_integer_def Let_def int32_def split: if_splits bind_splits)

lemma hex4_length: "length (concat (map hex4 (take 4 ws))) \<le> 16" "no_nul (concat (map hex4 ws))"
proof -
  have "length (concat (map hex4 ws)) = 4 * length ws" for ws
    by (induction ws) (simp_all add: hex4_def)
  then show "length (concat (map hex4 (take 4 ws))) \<le> 16" by simp
  show "no_nul (concat (map hex4 ws))" by (induction ws) (simp_all add: hex4_def)
qed

lemma length_cstr_take: "length (cstr (take n s)) \<le> n"
  using length_takeWhile_le [of _ "take n s"] by (metis cstr_def length_take min.bounded_iff)

lemma dev_entry_law:
  assumes "dev_entry al env flt n = Some (dtp, e)"
  shows "(case e of
       None \<Rightarrow> dropped flt (sarah_disk_init\<lparr>dk_name := dev_name n\<rparr>) (- 1) \<or> \<not> dv_open env (dev_name n)
     | Some d \<Rightarrow> \<not> dropped flt (sarah_disk_init\<lparr>dk_name := dev_name n\<rparr>) (- 1) \<and> dv_open env (dev_name n)
         \<and> dk_name d = dev_name n \<and> disk_fits d \<and> bare d) \<and> wwn_fits dtp"
proof -
  obtain r p where p: "get_tailing_integer n = Some (r, p)"
    using assms by (auto simp: dev_entry_def split: bind_splits)
  let ?d = "sarah_disk_init\<lparr>dk_name := dev_name n, dk_part_no := (case p of Some n \<Rightarrow> n | None \<Rightarrow> - 1)\<rparr>"
  have dr: "dropped flt ?d (- 1) \<longleftrightarrow> dropped flt (sarah_disk_init\<lparr>dk_name := dev_name n\<rparr>) (- 1)"
    by (cases flt) (simp_all add: dropped_def)
  show ?thesis
  proof (cases "dropped flt ?d (- 1) \<or> \<not> dv_open env (dev_name n)")
    case True
    then show ?thesis using assms p dr by (auto simp: dev_entry_def dev_name_def sarah_disk_init_def wwn_fits_def)
  next
    case False
    let ?i = "identify (dv_identity env (dev_name n)) ?d"
    obtain d0 dk sn md where c: "measure_disk (dv_start env (dev_name n)) (dv_sectors env (dev_name n)) ?i = Some d0"
      "clone_disk_entry al d0 = Some dk" "right_trimmed (dk_serial_no dk) = Some sn" "right_trimmed (dk_model dk) = Some md"
      "dtp = d0" "e = Some (dk\<lparr>dk_serial_no := sn, dk_model := md\<rparr>)"
      using assms p False by (auto simp: dev_entry_def dev_name_def split: bind_splits)
    have dk: "dk = d0" using c(2) by (simp add: clone_disk_entry_def split: if_splits)
    have same: "dk_wwn d0 = dk_wwn ?i" "dk_serial_no d0 = dk_serial_no ?i" "dk_model d0 = dk_model ?i" "dk_name d0 = dev_name n"
      "dk_format d0 = []" "dk_mount d0 = []" "dk_part_no d0 = dk_part_no ?d"
      using c(1) by (auto simp: measure_disk_def identify_def sarah_disk_init_def Let_def split: option.splits bind_splits)
    have i: "length (dk_wwn ?i) \<le> 40" "length (dk_serial_no ?i) \<le> 20" "length (dk_model ?i) \<le> 40"
      "no_nul (dk_serial_no ?i)" "no_nul (dk_model ?i)" "no_nul (dk_wwn ?i)"
      using hex4_length length_cstr_take
      by (auto simp: identify_def split: option.splits) (auto simp: bytes_of_def intro: order_trans [OF hex4_length(1)])
    have "length sn \<le> 20" "length md \<le> 40"
      using c(3,4) right_trimmed_length [OF i(4)] right_trimmed_length [OF i(5)] i(2,3) by (auto simp: dk same)
    moreover have "- 1 \<le> dk_part_no ?d \<and> dk_part_no ?d < 2 ^ 31" using p tailing_integer_nat [of n r] by (cases p) fastforce+
    ultimately show ?thesis
      using False dr same i(1,6) by (simp add: c(5,6) dk disk_fits_def wwn_fits_def bare_def dev_name_def)
  qed
qed


lemma scan_dev_law:
  "scan_dev al env flt es s = Some s' \<Longrightarrow> list_all disk_fits (sc_list s) \<Longrightarrow> wwn_fits (sc_dtp s) \<Longrightarrow>
   map dk_name (sc_list s') = map dk_name (sc_list s) @ kept_devices env flt es
   \<and> list_all disk_fits (sc_list s') \<and> wwn_fits (sc_dtp s') \<and> (list_all bare (sc_list s) \<longrightarrow> list_all bare (sc_list s'))"
proof (induction al env flt es s rule: scan_dev.induct)
  case (2 al env flt n blk es s)
  show ?case
  proof (cases "n = bytes_of ''.'' \<or> n = bytes_of ''..'' \<or> \<not> blk")
    case True
    then show ?thesis using "2.IH"(1,2) "2.prems" by (auto simp: kept_devices_def split: if_splits)
  next
    case False
    then obtain dtp e where e: "dev_entry al env flt n = Some (dtp, e)"
      using "2.prems"(1) by (auto split: bind_splits)
    let ?s = "s\<lparr>sc_dtp := dtp\<rparr>"
    let ?t = "case e of None \<Rightarrow> ?s | Some d \<Rightarrow> ?s\<lparr>sc_list := sc_list ?s @ [d],
               sc_backup := (sc_backup ?s \<and> dv_identity env (dk_name d) = None),
               sc_block_size := (case dv_sectors env (dk_name d) of None \<Rightarrow> sc_block_size ?s | Some n \<Rightarrow> n)\<rparr>"
    have "scan_dev al env flt es ?t = Some s'" using "2.prems"(1) e False by (simp add: Let_def)
    moreover have "list_all disk_fits (sc_list ?t)" "wwn_fits (sc_dtp ?t)"
      using dev_entry_law [OF e] "2.prems"(2) by (cases e; simp)+
    ultimately have "map dk_name (sc_list s') = map dk_name (sc_list ?t) @ kept_devices env flt es"
      "list_all disk_fits (sc_list s')" "wwn_fits (sc_dtp s')"
      "list_all bare (sc_list ?t) \<longrightarrow> list_all bare (sc_list s')"
      using "2.IH"(3) [of "(dtp, e)" dtp e ?s] e False by auto
    moreover have "map dk_name (sc_list ?t) @ kept_devices env flt es = map dk_name (sc_list s) @ kept_devices env flt ((n, blk) # es)"
      using dev_entry_law [OF e] False by (cases e) (auto simp: kept_devices_def)
    moreover have "list_all bare (sc_list s) \<longrightarrow> list_all bare (sc_list ?t)"
      using dev_entry_law [OF e] by (cases e) auto
    ultimately show ?thesis by simp
  qed
qed (simp add: kept_devices_def)

text \<open>What the later steps keep.\<close>

definition scan_ok :: "bool \<Rightarrow> bytes list \<Rightarrow> scan \<Rightarrow> bool" where
  "scan_ok fresh names s \<longleftrightarrow> map dk_name (sc_list s) = names \<and> list_all disk_fits (sc_list s) \<and> wwn_fits (sc_dtp s)
     \<and> (fresh \<longrightarrow> list_all bare (sc_list s))"

lemma override_ok:
  "scan_ok fresh names s \<Longrightarrow> (\<And>d. disk_fits d \<Longrightarrow> disk_fits (f d) \<and> dk_name (f d) = dk_name d \<and> bare (f d) = bare d) \<Longrightarrow> scan_ok fresh names (override f s)"
  by (auto simp: scan_ok_def override_def list_all_iff)

lemma fdisk_identifier_ok: "scan_ok fresh names s \<Longrightarrow> no_nul l \<Longrightarrow> fdisk_identifier s l = Some s' \<Longrightarrow> scan_ok fresh names s'"
proof -
  assume a: "scan_ok fresh names s" "fdisk_identifier s l = Some s'" "no_nul l"
  obtain fs where fs: "sscanf [SkipOther [58], Lit 58, White, Str 255] l = Some fs"
    using a(2) by (auto simp: fdisk_identifier_def simp del: sscanf.simps split: bind_splits)
  obtain t where st: "t = store [\<lambda>d f. d\<lparr>dk_wwn := f_txt f\<rparr>] fs (sc_dtp s)" by blast
  have len: "length (dk_wwn t) < 41" and
    s': "s' = override (\<lambda>d. d\<lparr>dk_wwn := dk_wwn t, dk_p_size := dk_p_size t, dk_p_blocks := dk_p_blocks t\<rparr>) (s\<lparr>sc_dtp := t\<rparr>)"
    using a(2) unfolding fdisk_identifier_def fs Let_def st by (simp_all split: if_splits)
  have "no_nul (dk_wwn t)"
  proof (cases fs)
    case (Cons f gs)
    then have "set (f_txt f) \<subseteq> set l" using sscanf_chars [OF fs, of f] by simp
    then show ?thesis using a(3) by (auto simp: st Cons no_nul_def)
  qed (use a(1) in \<open>simp add: st scan_ok_def wwn_fits_def\<close>)
  with len have w: "wwn_fits t" by (simp add: wwn_fits_def)
  have t: "scan_ok fresh names (s\<lparr>sc_dtp := t\<rparr>)" using a(1) w by (simp add: scan_ok_def)
  show ?thesis unfolding s' using t w by (intro override_ok) (auto simp: disk_fits_def bare_def wwn_fits_def)
qed

lemma fdisk_partition_ok: "scan_ok fresh names s \<Longrightarrow> fdisk_partition s l = Some s' \<Longrightarrow> scan_ok fresh names s'"
proof -
  assume a: "scan_ok fresh names s" "fdisk_partition s l = Some s'"
  let ?args = "[\<lambda>s f. s\<lparr>sc_dtp := (sc_dtp s)\<lparr>dk_name := f_txt f\<rparr>\<rparr>, \<lambda>s f. s\<lparr>sc_dtp := (sc_dtp s)\<lparr>dk_p_start := f_num f\<rparr>\<rparr>,
       \<lambda>s f. s\<lparr>sc_block_size := f_num f\<rparr>] :: (scan \<Rightarrow> field \<Rightarrow> scan) list"
  obtain fs where fs: "sscanf fdisk_part_format l = Some fs" using a(2) by (auto simp: fdisk_partition_def split: bind_splits)
  obtain t where t: "t = store ?args fs s" by blast
  have ok: "scan_ok fresh names t" unfolding t by (rule store_inv [where I = "scan_ok fresh names"]) (use a(1) in \<open>auto simp: scan_ok_def wwn_fits_def\<close>)
  let ?b = "wrap64 (sc_block_size t + (2 ^ 64 - dk_p_start (sc_dtp t)) + 1)"
  let ?t = "t\<lparr>sc_dtp := (sc_dtp t)\<lparr>dk_p_blocks := ?b, dk_p_size := wrap64 (?b * 512)\<rparr>\<rparr>"
  have "s' = override (\<lambda>d. d\<lparr>dk_wwn := dk_wwn (sc_dtp ?t), dk_p_start := dk_p_start (sc_dtp ?t),
             dk_p_blocks := dk_p_blocks (sc_dtp ?t), dk_p_size := dk_p_size (sc_dtp ?t)\<rparr>) ?t"
    using a(2) unfolding fdisk_partition_def fs Let_def t by simp
  moreover have "scan_ok fresh names ?t" "wwn_fits (sc_dtp ?t)" using ok by (simp_all add: scan_ok_def wwn_fits_def)
  ultimately show ?thesis by (simp only:) (intro override_ok; auto simp: disk_fits_def bare_def wwn_fits_def)
qed

lemma fdisk_disk_ok: "fdisk_disk s l fd = Some (s', r) \<Longrightarrow> scan_ok fresh names s \<Longrightarrow> scan_ok fresh names s'"
proof -
  assume a: "fdisk_disk s l fd = Some (s', r)" "scan_ok fresh names s"
  have st: "scan_ok fresh names (s\<lparr>sc_dtp := store [\<lambda>d f. d\<lparr>dk_name := f_txt f\<rparr>, \<lambda>d f. d\<lparr>dk_p_size := f_num f\<rparr>, \<lambda>d f. d\<lparr>dk_p_blocks := f_num f\<rparr>]
       fs sarah_disk_init\<rparr>)" if "scan_ok fresh names s" for fs
  proof -
    have "wwn_fits (store [\<lambda>d f. d\<lparr>dk_name := f_txt f\<rparr>, \<lambda>d f. d\<lparr>dk_p_size := f_num f\<rparr>, \<lambda>d f. d\<lparr>dk_p_blocks := f_num f\<rparr>]
       fs sarah_disk_init)"
      by (rule store_inv [where I = wwn_fits]) (auto simp: sarah_disk_init_def wwn_fits_def)
    with that show ?thesis by (simp add: scan_ok_def)
  qed
  show ?thesis
    using fdisk_disk_inv [OF a(1), of "scan_ok fresh names"] st fdisk_identifier_ok fdisk_partition_ok a(2) by blast
qed

lemma fdisk_loop_ok: "fdisk_loop fd s = Some s' \<Longrightarrow> scan_ok fresh names s \<Longrightarrow> scan_ok fresh names s'"
proof (induction fd s rule: fdisk_loop.induct)
  case (1 fd s)
  let ?l = "cstr (fst (fgets 255 fd))" and ?r = "snd (fgets 255 fd)"
  consider "fd = []" | "fd \<noteq> []" "\<not> same_start ?l ''Disk''" | "fd \<noteq> []" "same_start ?l ''Disk''" by blast
  then show ?case
  proof cases
    case 1
    then show ?thesis using "1.prems" by (simp add: fdisk_loop.simps)
  next
    case 2
    then have "fdisk_loop ?r s = Some s'" using "1.prems"(1) by (simp add: fdisk_loop.simps [of fd s])
    then show ?thesis using "1.IH"(1) [OF 2] "1.prems"(2) by blast
  next
    case 3
    then have "do { (s, fd) \<leftarrow> fdisk_disk s ?l ?r; fdisk_loop fd s } = Some s'"
      using "1.prems"(1) by (simp add: fdisk_loop.simps [of fd s])
    then obtain s1 fd1 where f: "fdisk_disk s ?l ?r = Some (s1, fd1)" "fdisk_loop fd1 s1 = Some s'"
      by (auto simp: bind_eq_Some_conv)
    have "scan_ok fresh names s1" using f(1) "1.prems"(2) by (rule fdisk_disk_ok)
    then show ?thesis using "1.IH"(2) [of "(s1, fd1)" s1 fd1] 3 f by simp
  qed
qed

lemma fill_format_ok:
  "list_all disk_fits ds \<Longrightarrow> length format \<le> 15 \<Longrightarrow> length mount \<le> 63 \<Longrightarrow>
   list_all disk_fits (fill_format dev format mount ds) \<and> map dk_name (fill_format dev format mount ds) = map dk_name ds"
  by (induction dev format mount ds rule: fill_format.induct) (auto simp: disk_fits_def overlay_def)

lemma lsblk_line_ok: "scan_ok False names s \<Longrightarrow> lsblk_line flt s l = Some s' \<Longrightarrow> scan_ok False names s'"
proof -
  assume a: "scan_ok False names s" "lsblk_line flt s l = Some s'"
  then obtain fs where fs: "sscanf lsblk_format l = Some fs" by (auto simp: lsblk_line_def split: bind_splits)
  let ?args = "[\<lambda>(d, f, m) x. (f_txt x, f, m), \<lambda>(d, f, m) x. (d, f_txt x, m), \<lambda>(d, f, m) x. (d, f, f_txt x)]"
  obtain d f m where st: "store ?args fs ([], [], []) = (d, f, m)" by (cases "store ?args fs ([], [], [])")
  have w: "length fs \<le> 3" "\<forall>i < length fs. length (f_txt (fs ! i)) \<le> [63, 15, 155] ! i"
    using sscanf_widths [OF fs] by (simp_all add: lsblk_format_def)
  have "length f \<le> 15"
  proof (cases "2 \<le> length fs")
    case True
    then obtain x y zs where "fs = x # y # zs" by (metis Suc_le_length_iff numeral_2_eq_2)
    moreover from this w(1) have "length zs \<le> 1" by simp
    ultimately have "f = f_txt (fs ! 1)" using st by (cases zs) auto
    then show ?thesis using w(2) [rule_format, of 1] True by simp
  next
    case False
    then have "f = []" using st by (cases fs) (auto simp: Suc_le_eq)
    then show ?thesis by simp
  qed
  with a show ?thesis
    using fill_format_ok [of "sc_list s" f m d] unfolding lsblk_line_def fs st
    by (auto simp: scan_ok_def wwn_fits_def Let_def st split: if_splits)
qed

lemma fill_storage_ok: "disk_fits (fill_storage env d) = disk_fits d" "dk_name (fill_storage env d) = dk_name d"
  by (auto simp: fill_storage_def disk_fits_def split: option.splits)


lemma each_line_ok:
  "each_line 255 (lsblk_line flt) out s = Some s' \<Longrightarrow> scan_ok False names s \<Longrightarrow> scan_ok False names s'"
  using each_line_inv [of "scan_ok False names" "lsblk_line flt" 255 out s s'] lsblk_line_ok by blast

text \<open>The list before the formats are filled in.\<close>

lemma devices_law:
  assumes "scan_dev al env flt es \<lparr>sc_list = list, sc_backup = True, sc_dtp = sarah_disk_init, sc_block_size = 0\<rparr> = Some s"
    and "fdisk_fill env s = Some s'" "list_all disk_fits list"
  shows "scan_ok (list_all bare list) (map dk_name list @ kept_devices env flt es) s'"
proof -
  have "wwn_fits sarah_disk_init" by (simp add: sarah_disk_init_def wwn_fits_def)
  then have "scan_ok (list_all bare list) (map dk_name list @ kept_devices env flt es) s"
    using scan_dev_law [OF assms(1)] assms(3) by (simp add: scan_ok_def)
  then show ?thesis
    using assms(2) fdisk_loop_ok by (auto simp: fdisk_fill_def split: if_splits option.splits)
qed

lemma disk_list_law:
  assumes "sarah_get_disk_list al env m flt list = Some (ds, e)" "list_all disk_fits list"
  shows "list_all disk_fits ds \<and> (case dv_dev env of
       None \<Rightarrow> e = 1 \<and> ds = list
     | Some es \<Rightarrow> e = 0 \<and> map dk_name ds = map dk_name list @ kept_devices env flt es)"
proof (cases "dv_dev env")
  case None
  then show ?thesis using assms by (simp add: sarah_get_disk_list_def)
next
  case (Some es)
  let ?names = "map dk_name list @ kept_devices env flt es"
  obtain s1 s2 s3 where s: "scan_dev al env flt es \<lparr>sc_list = list, sc_backup = True, sc_dtp = sarah_disk_init, sc_block_size = 0\<rparr> = Some s1"
    "fdisk_fill env s1 = Some s2" "(if bit m 0 then lsblk_fill env flt s2 else Some s2) = Some s3"
    "ds = (if bit m 1 then map (fill_storage env) (sc_list s3) else sc_list s3)" "e = 0"
    using assms(1) Some by (auto simp: sarah_get_disk_list_def split: bind_splits)
  have "scan_ok False ?names s2" using devices_law [OF s(1,2) assms(2)] by (simp add: scan_ok_def)
  then have "scan_ok False ?names s3"
    using s(3) each_line_ok by (auto simp: lsblk_fill_def split: if_splits option.splits)
  then show ?thesis
    using Some s(4,5) by (auto simp: scan_ok_def list_all_iff fill_storage_ok comp_def)
qed


section \<open>The rows of lsblk\<close>


text \<open>A row of \<open>lsblk\<close>: the columns device, format and mount point, of which the last two may be empty, with the
  blanks between them.  What the code takes for format and mount point are the first two words behind the device, the
  first of them cut at 15 bytes and continued as the second: a row without a format has its mount point read as the
  format.\<close>

definition lsblk_row :: "bytes \<times> bytes \<times> bytes \<times> nat \<times> nat \<Rightarrow> bytes" where
  "lsblk_row r = (case r of (dev, f, mt, k, j) \<Rightarrow> dev @ replicate (Suc k) 32 @ f @ replicate (Suc j) 32 @ mt)"

definition row_read :: "bytes \<Rightarrow> bytes \<Rightarrow> bytes \<times> bytes" where
  "row_read f mt =
     (let (w, v) = (if f = [] then (mt, []) else (f, mt)) in (take 15 w, if 15 < length w then drop 15 w else v))"

definition lsblk_row_ok :: "bytes \<times> bytes \<times> bytes \<times> nat \<times> nat \<Rightarrow> bool" where
  "lsblk_row_ok r \<longleftrightarrow> (case r of (dev, f, mt, k, j) \<Rightarrow>
     dev \<noteq> [] \<and> length dev < 48 \<and> length (snd (row_read f mt)) < 64
     \<and> list_all (\<lambda>c. \<not> is_space c \<and> c \<noteq> 0) (dev @ f @ mt) \<and> length (lsblk_row r) < 255)"

lemma row_read_plain: "2 \<le> length f \<Longrightarrow> length f \<le> 15 \<Longrightarrow> row_read f mt = (f, mt)"
  by (auto simp: row_read_def)

lemma spaces_then: "\<not> is_space (hd t) \<or> t = [] \<Longrightarrow> dropWhile is_space (replicate k 32 @ t) = t"
  using drop_spaces [of k t] by (cases t) auto

lemma takeWhile_word:
  "list_all (\<lambda>c. \<not> is_space c) w \<Longrightarrow> t = [] \<or> is_space (hd t) \<Longrightarrow> takeWhile (\<lambda>c. \<not> is_space c) (w @ t) = w"
  by (induction w) (cases t; auto)+

text \<open>A word that is longer than its array is cut; what is left of it is the next word.\<close>

lemma sscanf_cut:
  assumes "w \<noteq> []" "list_all (\<lambda>c. \<not> is_space c) w" "0 < n" "t = [] \<or> is_space (hd t)"
  shows "sscanf (White # Str n # ds) (replicate k 32 @ w @ t) = map_option (Cons (FStr (take n w))) (sscanf ds (drop n w @ t))"
proof -
  have d: "dropWhile is_space (replicate k 32 @ w @ t) = w @ t" "dropWhile is_space (w @ t) = w @ t"
    using assms(1,2) by (auto intro: spaces_then simp: drop_spaces) (cases w; auto)+
  have "take n w \<noteq> []" using assms(1,3) by simp
  moreover have "drop (length (take n w)) (w @ t) = drop n w @ t" by (cases "n \<le> length w") simp_all
  ultimately show ?thesis using takeWhile_word [OF assms(2,4)] by (simp add: d Let_def)
qed

lemma sscanf_blank: "sscanf [White, Str n, White, Str m] (replicate k 32 @ [10]) = Some []" "sscanf [White, Str n] (replicate k 32 @ [10]) = Some []"
  by (simp_all add: drop_spaces is_space_def)

text \<open>The columns behind the device.\<close>

lemma columns_read:
  assumes "list_all (\<lambda>c. \<not> is_space c) (f @ mt)" "row_read f mt = (x, y)" "length y < 64"
  shows "sscanf [White, Str 15, White, Str 155] (replicate (Suc k) 32 @ f @ replicate (Suc j) 32 @ mt @ [10])
     = Some (if x = [] then [] else FStr x # (if y = [] then [] else [FStr y]))"
proof -
  have sp: "is_space 10" "is_space 32" by (simp_all add: is_space_def)
  have last: "sscanf [White, Str 155] (replicate i 32 @ v @ [10]) = Some (if v = [] then [] else [FStr v])"
    if "list_all (\<lambda>c. \<not> is_space c) v" "length v < 64" for i v
    using sscanf_cut [OF _ that(1), of 155 "[10]" "[]" i] sscanf_blank(2) [of 155 i] that(2) sp by (cases "v = []") simp_all
  have read: "sscanf [White, Str 15, White, Str 155] (replicate i 32 @ w @ t)
      = Some (FStr (take 15 w) # (if y' = [] then [] else [FStr y']))"
    if w: "w \<noteq> []" "list_all (\<lambda>c. \<not> is_space c) w" and y': "y' = (if 15 < length w then drop 15 w else v)" "length y' < 64"
      and t: "t = replicate n 32 @ v @ [10]" "list_all (\<lambda>c. \<not> is_space c) v" "v = [] \<or> 0 < n" for i w v t y' n
  proof -
    have t0: "t = [] \<or> is_space (hd t)" using t(1,3) sp by (cases n) auto
    have "sscanf [White, Str 155] (drop 15 w @ t) = Some (if y' = [] then [] else [FStr y'])"
    proof (cases "15 < length w")
      case True
      have "list_all (\<lambda>c. \<not> is_space c) (drop 15 w)" using w(2) by (auto simp: list_all_iff dest: in_set_dropD)
      then show ?thesis using sscanf_cut [of "drop 15 w" 155 t "[]" 0] True y' t0 by simp
    next
      case False
      then show ?thesis using last [OF t(2), of n] y' t(1) by simp
    qed
    then show ?thesis using sscanf_cut [OF w _ t0, of 15 "[White, Str 155]" i] by simp
  qed
  have two: "replicate (Suc k) (32 :: u8) @ replicate (Suc j) 32 @ t = replicate (Suc k + Suc j) 32 @ t" for t
    by (simp only: replicate_add append_assoc)
  show ?thesis
  proof (cases "f = []")
    case f: True
    show ?thesis
    proof (cases "mt = []")
      case True
      then have "x = []" using assms(2) f by (simp add: row_read_def)
      then show ?thesis using sscanf_blank(1) [of 15 155 "Suc k + Suc j"] unfolding f True append_Nil two by simp
    next
      case False
      have xy: "x = take 15 mt" "y = (if 15 < length mt then drop 15 mt else [])" using assms(2) f by (auto simp: row_read_def split: if_splits)
      have "x \<noteq> []" using False xy(1) by simp
      then show ?thesis
        using read [of mt y "[]" "[10]" 0 "Suc k + Suc j"] False assms(1,3) xy
        unfolding f append_Nil two by simp
    qed
  next
    case False
    have xy: "x = take 15 f" "y = (if 15 < length f then drop 15 f else mt)" using assms(2) False by (auto simp: row_read_def split: if_splits)
    have "x \<noteq> []" using False xy(1) by simp
    then show ?thesis
      using read [of f y mt "replicate (Suc j) 32 @ mt @ [10]" "Suc j" "Suc k"] False assms(1,3) xy
      by (simp del: sscanf.simps replicate_Suc)
  qed
qed

lemma row_line:
  assumes "lsblk_row_ok (dev, f, mt, k, j)" "row_read f mt = (x, y)"
  shows "lsblk_line flt s (lsblk_row (dev, f, mt, k, j) @ [10]) = Some
    (if length x < 2 then s else let s = s\<lparr>sc_dtp := (sc_dtp s)\<lparr>dk_format := x\<rparr>\<rparr> in
     if dropped flt (sc_dtp s) 1 then s else s\<lparr>sc_list := fill_format dev x y (sc_list s)\<rparr>)"
proof -
  have ok: "dev \<noteq> []" "length dev < 48" "length y < 64" "list_all (\<lambda>c. \<not> is_space c) dev" "list_all (\<lambda>c. \<not> is_space c) (f @ mt)"
    using assms by (auto simp: lsblk_row_ok_def list_all_iff)
  have y: "x = [] \<longrightarrow> y = []" using assms(2) by (auto simp: row_read_def split: if_splits)
  have "sscanf lsblk_format (lsblk_row (dev, f, mt, k, j) @ [10])
      = Some (FStr dev # (if x = [] then [] else FStr x # (if y = [] then [] else [FStr y])))"
    using sscanf_word(1) [OF ok(1,4), of 63 "replicate (Suc k) 32 @ f @ replicate (Suc j) 32 @ mt @ [10]" "[White, Str 15, White, Str 155]"]
      columns_read [OF ok(5) assms(2) ok(3), of k j] ok(2)
    unfolding lsblk_format_def lsblk_row_def by (simp add: is_space_def del: sscanf.simps)
  then show ?thesis using ok(2,3) y unfolding lsblk_line_def by (auto simp: Let_def)
qed

lemma row_plain: "lsblk_row_ok r \<Longrightarrow> plain_line 255 (lsblk_row r)"
  by (cases r) (auto simp: lsblk_row_ok_def plain_line_def lsblk_row_def list_all_iff is_space_def no_nul_def)

text \<open>What a row makes of the format and the mount point of its device: they are written over the old ones.\<close>

definition row_fill :: "disk_filter \<Rightarrow> bytes \<times> bytes \<times> bytes \<times> nat \<times> nat \<Rightarrow> bytes \<times> bytes \<Rightarrow> bytes \<times> bytes" where
  "row_fill flt r old = (case r of (dev, f, mt, k, j) \<Rightarrow> case row_read f mt of (x, y) \<Rightarrow>
     if length x < 2 \<or> dropped flt (sarah_disk_init\<lparr>dk_format := x\<rparr>) 1 then old
     else (overlay x (fst old), if y = [] then snd old else overlay y (snd old)))"

definition rows_of :: "bytes \<Rightarrow> (bytes \<times> bytes \<times> bytes \<times> nat \<times> nat) list \<Rightarrow> (bytes \<times> bytes \<times> bytes \<times> nat \<times> nat) list" where
  "rows_of name rows = filter (\<lambda>r. fst r = drop 5 name) rows"

definition by_format :: "disk_filter \<Rightarrow> bool" where
  "by_format flt \<longleftrightarrow> (\<forall>d d'. dk_format d = dk_format d' \<longrightarrow> dropped flt d 1 = dropped flt d' 1)"

abbreviation formats_of :: "disk \<Rightarrow> bytes \<times> bytes" where
  "formats_of d \<equiv> (dk_format d, dk_mount d)"

lemma dev_start: "same_start n ''/dev/'' \<longleftrightarrow> take 5 n = bytes_of ''/dev/''"
  by (simp add: same_start_def eval_nat_numeral)

lemma fill_format_distinct:
  assumes "distinct (map dk_name ds)" "list_all (\<lambda>d. same_start (dk_name d) ''/dev/'') ds"
  shows "map dk_name (fill_format dev x y ds) = map dk_name ds
     \<and> map formats_of (fill_format dev x y ds) = map (\<lambda>d. if drop 5 (dk_name d) = dev
         then (overlay x (dk_format d), if y = [] then dk_mount d else overlay y (dk_mount d)) else formats_of d) ds"
  using assms
proof (induction ds)
  case (Cons d ds)
  show ?case
  proof (cases "drop 5 (dk_name d) = dev")
    case True
    have "drop 5 (dk_name z) \<noteq> dev" if "z \<in> set ds" for z
    proof
      assume "drop 5 (dk_name z) = dev"
      moreover have "take 5 (dk_name z) = take 5 (dk_name d)" using Cons.prems(2) that unfolding dev_start by (simp add: list_all_iff)
      ultimately have "dk_name z = dk_name d" using True by (metis append_take_drop_id)
      with Cons.prems(1) that show False by (auto simp: image_iff)
    qed
    then have "map (\<lambda>d. if drop 5 (dk_name d) = dev
         then (overlay x (dk_format d), if y = [] then dk_mount d else overlay y (dk_mount d)) else formats_of d) ds = map formats_of ds"
      by simp
    then show ?thesis using Cons.prems(2) True by simp
  next
    case False
    then show ?thesis using Cons by simp
  qed
qed simp

lemma rows_law:
  assumes "list_all lsblk_row_ok rows" "by_format flt" "distinct (map dk_name (sc_list s))"
    and "list_all (\<lambda>d. same_start (dk_name d) ''/dev/'') (sc_list s)"
  shows "\<exists>s'. over_lines (lsblk_line flt) (map lsblk_row rows) s = Some s' \<and> map dk_name (sc_list s') = map dk_name (sc_list s)
     \<and> map formats_of (sc_list s') = map (\<lambda>d. fold (row_fill flt) (rows_of (dk_name d) rows) (formats_of d)) (sc_list s)"
  using assms
proof (induction rows arbitrary: s)
  case Nil
  then show ?case by (simp add: rows_of_def)
next
  case (Cons r rows)
  obtain dev f mt k j where r: "r = (dev, f, mt, k, j)" by (cases r)
  obtain x y where xy: "row_read f mt = (x, y)" by fastforce
  let ?s = "s\<lparr>sc_dtp := (sc_dtp s)\<lparr>dk_format := x\<rparr>\<rparr>"
  have drp: "dropped flt (sc_dtp ?s) 1 = dropped flt (sarah_disk_init\<lparr>dk_format := x\<rparr>) 1"
    using Cons.prems(2) unfolding by_format_def by (elim allE [of _ "sc_dtp ?s"] allE [of _ "sarah_disk_init\<lparr>dk_format := x\<rparr>"]) simp
  have "\<exists>t. lsblk_line flt s (lsblk_row r @ [10]) = Some t \<and> map dk_name (sc_list t) = map dk_name (sc_list s)
      \<and> map formats_of (sc_list t) = map (\<lambda>d. if drop 5 (dk_name d) = dev then row_fill flt r (formats_of d) else formats_of d) (sc_list s)"
    using row_line [of dev f mt k j x y flt s] Cons.prems(1) xy drp fill_format_distinct [OF Cons.prems(3,4), of dev x y]
    by (auto simp: r row_fill_def Let_def)
  then obtain t where t: "lsblk_line flt s (lsblk_row r @ [10]) = Some t" "map dk_name (sc_list t) = map dk_name (sc_list s)"
    "map formats_of (sc_list t) = map (\<lambda>d. if drop 5 (dk_name d) = dev then row_fill flt r (formats_of d) else formats_of d) (sc_list s)" by blast
  have "list_all (\<lambda>n. same_start n ''/dev/'') (map dk_name (sc_list t))"
    using Cons.prems(4) unfolding t(2) by (simp add: list_all_iff)
  then have "list_all (\<lambda>d. same_start (dk_name d) ''/dev/'') (sc_list t)"
    by (simp add: list_all_iff)
  then obtain s' where s': "over_lines (lsblk_line flt) (map lsblk_row rows) t = Some s'" "map dk_name (sc_list s') = map dk_name (sc_list t)"
    "map formats_of (sc_list s') = map (\<lambda>d. fold (row_fill flt) (rows_of (dk_name d) rows) (formats_of d)) (sc_list t)"
    using Cons.IH [of t] Cons.prems(1-3) t(2) by auto
  have len: "length (sc_list t) = length (sc_list s)" using t(2) by (metis length_map)
  have "map (\<lambda>d. fold (row_fill flt) (rows_of (dk_name d) rows) (formats_of d)) (sc_list t)
      = map (\<lambda>d. fold (row_fill flt) (rows_of (dk_name d) (r # rows)) (formats_of d)) (sc_list s)"
  proof (rule nth_equalityI)
    fix i assume "i < length (map (\<lambda>d. fold (row_fill flt) (rows_of (dk_name d) rows) (formats_of d)) (sc_list t))"
    then have i: "i < length (sc_list t)" "i < length (sc_list s)" using len by simp_all
    have n: "dk_name (sc_list t ! i) = dk_name (sc_list s ! i)" using arg_cong [OF t(2), of "\<lambda>l. l ! i"] i by simp
    have "formats_of (sc_list t ! i) = (if drop 5 (dk_name (sc_list s ! i)) = dev
        then row_fill flt r (formats_of (sc_list s ! i)) else formats_of (sc_list s ! i))"
      using arg_cong [OF t(3), of "\<lambda>l. l ! i"] i by simp
    then show "map (\<lambda>d. fold (row_fill flt) (rows_of (dk_name d) rows) (formats_of d)) (sc_list t) ! i
        = map (\<lambda>d. fold (row_fill flt) (rows_of (dk_name d) (r # rows)) (formats_of d)) (sc_list s) ! i"
      using i n by (simp add: rows_of_def r)
  qed (simp add: len)
  then show ?case using t(1,2) s' by simp
qed

text \<open>The scan is defined when the copies get their memory, the numbers at the ends of the names fit, the sizes
  in bytes are below \<open>2\<^sup>6\<^sup>3\<close>, \<open>fdisk\<close> is not asked or prints nothing, and the columns of \<open>lsblk\<close> fit.\<close>

definition dev_fine :: "disk_env \<Rightarrow> bytes \<times> bool \<Rightarrow> bool" where
  "dev_fine env x \<longleftrightarrow> (case x of (n, blk) \<Rightarrow> get_tailing_integer n \<noteq> None
     \<and> (case dv_sectors env (dev_name n) of None \<Rightarrow> True | Some k \<Rightarrow> k < 2 ^ 54))"

definition lsblk_rows :: "bytes \<Rightarrow> bool" where
  "lsblk_rows out \<longleftrightarrow> (\<exists>h rows. out = lines_text (h # map lsblk_row rows) \<and> plain_line 255 h \<and> list_all lsblk_row_ok rows)"

definition scan_safe :: "(nat \<Rightarrow> bool) \<Rightarrow> disk_env \<Rightarrow> disk_filter \<Rightarrow> (bytes \<times> bool) list \<Rightarrow> bool" where
  "scan_safe al env flt es \<longleftrightarrow> al 400 \<and> list_all (dev_fine env) es
     \<and> (dv_fdisk env = None \<or> list_ex (\<lambda>name. dv_identity env name \<noteq> None) (kept_devices env flt es))
     \<and> (dv_lsblk env = None \<or> lsblk_rows (the (dv_lsblk env)))"

lemma dev_entry_made: "al 400 \<Longrightarrow> dev_fine env (n, blk) \<Longrightarrow> \<exists>x. dev_entry al env flt n = Some x"
proof -
  assume a: "al 400" "dev_fine env (n, blk)"
  then obtain r p where p: "get_tailing_integer n = Some (r, p)" by (auto simp: dev_fine_def)
  let ?d = "identify (dv_identity env (dev_name n)) (sarah_disk_init\<lparr>dk_name := dev_name n, dk_part_no := (case p of Some n \<Rightarrow> n | None \<Rightarrow> - 1)\<rparr>)"
  have "\<exists>d. measure_disk (dv_start env (dev_name n)) (dv_sectors env (dev_name n)) ?d = Some d
      \<and> dk_serial_no d = dk_serial_no ?d \<and> dk_model d = dk_model ?d"
    using a(2) by (auto simp: dev_fine_def measure_disk_def int64_def signed64_def Let_def split: option.splits)
  then obtain d where d: "measure_disk (dv_start env (dev_name n)) (dv_sectors env (dev_name n)) ?d = Some d"
    "dk_serial_no d = dk_serial_no ?d" "dk_model d = dk_model ?d" by blast
  have nn: "no_nul (dk_serial_no ?d)" "no_nul (dk_model ?d)"
    by (auto simp: identify_def split: option.splits) (auto simp: bytes_of_def)
  obtain sn md where "right_trimmed (dk_serial_no d) = Some sn" "right_trimmed (dk_model d) = Some md"
    using right_trimmed_length [OF nn(1)] right_trimmed_length [OF nn(2)] d(2,3) by auto
  then show ?thesis using a(1) p d(1) by (simp add: dev_entry_def clone_disk_entry_def Let_def flip: dev_name_def)
qed

lemma scan_dev_made:
  "al 400 \<Longrightarrow> list_all (dev_fine env) es \<Longrightarrow> \<exists>s'. scan_dev al env flt es s = Some s'"
proof (induction al env flt es s rule: scan_dev.induct)
  case (2 al env flt n blk es s)
  obtain dtp e where e: "dev_entry al env flt n = Some (dtp, e)" using dev_entry_made [of al env n blk flt] "2.prems" by auto
  show ?case
    using "2.IH"(1,2) "2.IH"(3) [of "(dtp, e)" dtp e] e "2.prems" by (simp add: Let_def)
qed simp

text \<open>\<open>fdisk\<close> is asked when no device answered.\<close>

lemma scan_dev_backup:
  "scan_dev al env flt es s = Some s' \<Longrightarrow>
   sc_backup s' = (sc_backup s \<and> list_all (\<lambda>name. dv_identity env name = None) (kept_devices env flt es))"
proof (induction al env flt es s rule: scan_dev.induct)
  case (2 al env flt n blk es s)
  show ?case
  proof (cases "n = bytes_of ''.'' \<or> n = bytes_of ''..'' \<or> \<not> blk")
    case True
    then show ?thesis using "2.IH"(1,2) "2.prems" by (auto simp: kept_devices_def split: if_splits)
  next
    case False
    then obtain dtp e where e: "dev_entry al env flt n = Some (dtp, e)"
      using "2.prems"(1) by (auto split: bind_splits)
    then show ?thesis
      using "2.IH"(3) [of "(dtp, e)" dtp e "s\<lparr>sc_dtp := dtp\<rparr>"] "2.prems" dev_entry_law [OF e] False
      by (cases e) (auto simp: kept_devices_def Let_def)
  qed
qed (simp add: kept_devices_def)

lemma rows_made: "list_all lsblk_row_ok rows \<Longrightarrow> \<exists>s'. over_lines (lsblk_line flt) (map lsblk_row rows) s = Some s'"
proof (induction rows arbitrary: s)
  case (Cons r rows)
  obtain dev f mt k j where r: "r = (dev, f, mt, k, j)" by (cases r)
  obtain x y where xy: "row_read f mt = (x, y)" by fastforce
  show ?case using row_line [of dev f mt k j x y flt s] Cons xy by (auto simp: r)
qed simp

lemma lsblk_text:
  assumes "plain_line 255 h" "list_all lsblk_row_ok rows"
  shows "each_line 255 (lsblk_line flt) (snd (fgets 255 (lines_text (h # map lsblk_row rows)))) s
     = over_lines (lsblk_line flt) (map lsblk_row rows) s"
proof -
  have "fgets 255 (lines_text (h # map lsblk_row rows)) = (h @ [10], lines_text (map lsblk_row rows))"
    using assms(1) fgets_line [of h 255] by (simp add: lines_text_def plain_line_def)
  moreover have "list_all (plain_line 255) (map lsblk_row rows)" using assms(2) row_plain by (simp add: list_all_iff)
  ultimately show ?thesis using each_line_lines [of 255 "map lsblk_row rows" "lsblk_line flt" s] by (simp del: list.pred_map)
qed

lemma disk_list_made:
  assumes "dv_dev env = Some es" "scan_safe al env flt es"
  shows "\<exists>r. sarah_get_disk_list al env m flt list = Some r"
proof -
  let ?s = "\<lparr>sc_list = list, sc_backup = True, sc_dtp = sarah_disk_init, sc_block_size = 0\<rparr>"
  obtain s1 where s1: "scan_dev al env flt es ?s = Some s1"
    using scan_dev_made [of al env es flt ?s] assms(2) by (auto simp: scan_safe_def)
  have f: "fdisk_fill env s1 = Some s1"
    using scan_dev_backup [OF s1] assms(2) by (auto simp: fdisk_fill_def scan_safe_def list_all_iff list_ex_iff)
  have "\<exists>s2. lsblk_fill env flt s1 = Some s2"
    using assms(2) lsblk_text rows_made by (cases "dv_lsblk env") (auto simp: lsblk_fill_def scan_safe_def lsblk_rows_def)
  then show ?thesis using s1 f assms(1) by (auto simp: sarah_get_disk_list_def)
qed

lemma kept_start: "n \<in> set (kept_devices env flt es) \<Longrightarrow> same_start n ''/dev/''"
  by (auto simp: kept_devices_def dev_name_def same_start_def)

section \<open>Properties\<close>


lemma formatted_storage [simp]:
  "dk_format (fill_storage env d) = dk_format d" "dk_mount (fill_storage env d) = dk_mount d" "dk_name (fill_storage env d) = dk_name d"
  "dk_part_no (fill_storage env d) = dk_part_no d" "dk_wwn (fill_storage env d) = dk_wwn d" "dk_p_blocks (fill_storage env d) = dk_p_blocks d"
  by (auto simp: fill_storage_def split: option.splits)

text \<open>C22: The format and the mount point of an entry are what the rows of its device in the output of \<open>lsblk\<close> make of
  empty ones, in their order, on a fresh list with distinct names: the first two words behind the device, unless the
  first has fewer than two bytes or the filter drops it.  So a single row with a format of 2 to 15 bytes gives its format and its mount
  point; a row without both leaves them empty; and one with a mount point but no format has the first
  15 bytes of the mount point stored as the format, and the rest of it as the mount point.\<close>

theorem disk_formats_read:
  assumes "sarah_get_disk_list al env m flt [] = Some (ds, e)" "dv_dev env = Some es" "distinct (kept_devices env flt es)"
    and "dv_lsblk env = Some (lines_text (h # map lsblk_row rows))" "plain_line 255 h" "bit m 0"
    and "list_all lsblk_row_ok rows" "by_format flt"
  shows "map dk_name ds = kept_devices env flt es
     \<and> map (\<lambda>d. (dk_format d, dk_mount d)) ds = map (\<lambda>name. fold (row_fill flt) (rows_of name rows) ([], [])) (kept_devices env flt es)
     \<and> (\<forall>d \<in> set ds. \<forall>f mt k j. rows_of (dk_name d) rows = [(drop 5 (dk_name d), f, mt, k, j)] \<longrightarrow>
          (dk_format d, dk_mount d) =
            (let (x, y) = (if f = [] then (take 15 mt, drop 15 mt) else if length f \<le> 15 then (f, mt) else (take 15 f, drop 15 f))
             in if length x < 2 \<or> dropped flt (sarah_disk_init\<lparr>dk_format := x\<rparr>) 1 then ([], []) else (x, y)))"
proof -
  obtain s1 s2 s3 where s: "scan_dev al env flt es \<lparr>sc_list = [], sc_backup = True, sc_dtp = sarah_disk_init, sc_block_size = 0\<rparr> = Some s1"
    "fdisk_fill env s1 = Some s2" "lsblk_fill env flt s2 = Some s3"
    "ds = (if bit m 1 then map (fill_storage env) (sc_list s3) else sc_list s3)"
    using assms(1,2,6) by (auto simp: sarah_get_disk_list_def split: bind_splits)
  have ok: "scan_ok True (kept_devices env flt es) s2" using devices_law [OF s(1,2)] by simp
  have "list_all (\<lambda>n. same_start n ''/dev/'') (map dk_name (sc_list s2))"
    using ok kept_start by (auto simp: scan_ok_def list_all_iff simp del: list.set_map)
  then have start: "list_all (\<lambda>d. same_start (dk_name d) ''/dev/'') (sc_list s2)" by (simp add: list_all_iff)
  have "distinct (map dk_name (sc_list s2))" using ok assms(3) by (simp add: scan_ok_def)
  then have law: "map dk_name (sc_list s3) = map dk_name (sc_list s2)"
    "map formats_of (sc_list s3) = map (\<lambda>d. fold (row_fill flt) (rows_of (dk_name d) rows) (formats_of d)) (sc_list s2)"
    using rows_law [OF assms(7,8) _ start] s(3) assms(4) lsblk_text [OF assms(5,7), of flt s2] by (auto simp: lsblk_fill_def)
  have "map (\<lambda>d. fold (row_fill flt) (rows_of (dk_name d) rows) (formats_of d)) (sc_list s2)
      = map (\<lambda>d. fold (row_fill flt) (rows_of (dk_name d) rows) ([], [])) (sc_list s2)"
    using ok by (auto simp: scan_ok_def list_all_iff bare_def)
  moreover have names: "kept_devices env flt es = map dk_name (sc_list s2)" using ok by (simp add: scan_ok_def)
  ultimately have all: "map dk_name ds = kept_devices env flt es"
    "map formats_of ds = map (\<lambda>name. fold (row_fill flt) (rows_of name rows) ([], [])) (kept_devices env flt es)"
    using s(4) law by (auto simp: comp_def)
  then have "formats_of d = fold (row_fill flt) (rows_of (dk_name d) rows) ([], [])" if "d \<in> set ds" for d
    using that by (metis (no_types, lifting) list.map_comp comp_apply map_eq_conv)
  then have "formats_of d = (let (x, y) = (if f = [] then (take 15 mt, drop 15 mt) else if length f \<le> 15 then (f, mt) else (take 15 f, drop 15 f))
             in if length x < 2 \<or> dropped flt (sarah_disk_init\<lparr>dk_format := x\<rparr>) 1 then ([], []) else (x, y))"
    if "d \<in> set ds" "rows_of (dk_name d) rows = [(drop 5 (dk_name d), f, mt, k, j)]" for d f mt k j
    using that by (auto simp: row_fill_def row_read_def overlay_def Let_def)
  with all show ?thesis by blast
qed

section \<open>A sample\<close>

text \<open>A disk with one partition, which \<open>lsblk\<close> knows.\<close>

definition sample_rows :: "string \<Rightarrow> (bytes \<times> bytes \<times> bytes \<times> nat \<times> nat) list" where
  "sample_rows mt = [(bytes_of ''sda1'', bytes_of ''ext4'', bytes_of mt, 1, 0)]"

definition sample_disks :: "string \<Rightarrow> disk_env" where
  "sample_disks mt = \<lparr>dv_dev = Some [(bytes_of ''tty'', False), (bytes_of ''sda'', True), (bytes_of ''sda1'', True)], dv_open = \<lambda>_. True,
     dv_identity = \<lambda>_. Some \<lparr>id_serial_no = bytes_of ''S1'', id_model = bytes_of ''M1'', id_words = [20480, 1, 2, 3]\<rparr>,
     dv_start = \<lambda>_. None, dv_sectors = \<lambda>_. Some 2048, dv_fdisk = None,
     dv_lsblk = Some (lines_text (bytes_of ''NAME'' # map lsblk_row (sample_rows mt))), dv_statvfs = \<lambda>_. None\<rparr>"

lemma smartdisk_by_format: "by_format (Some smartdisk_scan_filter)"
  by (simp add: by_format_def dropped_def smartdisk_scan_filter_def)

lemma sample_rows_ok:
  assumes "mt \<in> {'''', ''/home''}"
  shows "list_all lsblk_row_ok (sample_rows mt)" "distinct (map fst (sample_rows mt))" "plain_line 255 (bytes_of ''NAME'')"
  using assms by (auto simp: sample_rows_def row_read_def lsblk_row_ok_def lsblk_row_def is_space_def plain_line_def no_nul_def) (auto simp: bytes_of_def)

lemma sample_listed:
  assumes "mt \<in> {'''', ''/home''}"
  obtains ds where "sarah_get_disk_list (\<lambda>_. True) (sample_disks mt) 3 (Some smartdisk_scan_filter) [] = Some (ds, 0)"
    "map dk_name ds = [bytes_of ''/dev/sda'', bytes_of ''/dev/sda1'']"
proof -
  let ?flt = "Some smartdisk_scan_filter"
  let ?es = "[(bytes_of ''tty'', False), (bytes_of ''sda'', True), (bytes_of ''sda1'', True)]"
  let ?s = "\<lparr>sc_list = [], sc_backup = True, sc_dtp = sarah_disk_init, sc_block_size = 0\<rparr>"
  have "get_tailing_integer (bytes_of ''tty'') = Some (1, None)" "get_tailing_integer (bytes_of ''sda'') = Some (1, None)"
    "get_tailing_integer (bytes_of ''sda1'') = Some (0, Some 1)" by code_simp+
  then have fine: "list_all (dev_fine (sample_disks mt)) ?es" by (simp add: dev_fine_def sample_disks_def)
  have kept: "kept_devices (sample_disks mt) ?flt ?es = [bytes_of ''/dev/sda'', bytes_of ''/dev/sda1'']"
    by (simp add: kept_devices_def sample_disks_def dropped_def smartdisk_scan_filter_def dev_name_def) (simp add: bytes_of_def)
  obtain s1 where s1: "scan_dev (\<lambda>_. True) (sample_disks mt) ?flt ?es ?s = Some s1" using scan_dev_made [OF TrueI fine] by blast
  have f: "fdisk_fill (sample_disks mt) s1 = Some s1" by (simp add: fdisk_fill_def sample_disks_def)
  have ok: "scan_ok True [bytes_of ''/dev/sda'', bytes_of ''/dev/sda1''] s1" using devices_law [OF s1 f] kept by simp
  have "distinct (map dk_name (sc_list s1))" using ok by (simp add: scan_ok_def) (simp add: bytes_of_def)
  moreover have "list_all (\<lambda>d. same_start (dk_name d) ''/dev/'') (sc_list s1)"
  proof -
    have "list_all (\<lambda>n. same_start n ''/dev/'') (map dk_name (sc_list s1))"
      using ok by (simp add: scan_ok_def) (simp add: same_start_def bytes_of_def)
    then show ?thesis by (simp add: list_all_iff)
  qed
  ultimately obtain s2 where s2: "over_lines (lsblk_line ?flt) (map lsblk_row (sample_rows mt)) s1 = Some s2"
    "map dk_name (sc_list s2) = map dk_name (sc_list s1)"
    using rows_law [OF sample_rows_ok(1) [OF assms] smartdisk_by_format, of s1] by blast
  have l: "lsblk_fill (sample_disks mt) ?flt s1 = Some s2"
    using s2(1) lsblk_text [OF sample_rows_ok(3) [OF assms] sample_rows_ok(1) [OF assms], of ?flt s1] by (simp add: lsblk_fill_def sample_disks_def)
  have "sarah_get_disk_list (\<lambda>_. True) (sample_disks mt) 3 ?flt [] = Some (map (fill_storage (sample_disks mt)) (sc_list s2), 0)"
  proof -
    have "dv_dev (sample_disks mt) = Some ?es" by (simp add: sample_disks_def)
    moreover have "bit (3 :: nat) 0" "bit (3 :: nat) 1" by (simp_all add: bit_iff_odd)
    ultimately show ?thesis using s1 f l by (simp add: sarah_get_disk_list_def del: scan_dev.simps)
  qed
  moreover have "map dk_name (map (fill_storage (sample_disks mt)) (sc_list s2)) = map dk_name (sc_list s1)"
    by (simp add: s2(2) comp_def)
  ultimately show ?thesis using that ok by (simp add: scan_ok_def)
qed



lemma disk_formats_read_witness:
  "\<exists>ds. sarah_get_disk_list (\<lambda>_. True) (sample_disks ''/home'') 3 (Some smartdisk_scan_filter) [] = Some (ds, 0)
     \<and> map (\<lambda>d. (dk_format d, dk_mount d)) ds = [([], []), (bytes_of ''ext4'', bytes_of ''/home'')]"
proof -
  let ?es = "[(bytes_of ''tty'', False), (bytes_of ''sda'', True), (bytes_of ''sda1'', True)]"
  obtain ds where ds: "sarah_get_disk_list (\<lambda>_. True) (sample_disks ''/home'') 3 (Some smartdisk_scan_filter) [] = Some (ds, 0)"
    using sample_listed [of "''/home''"] by blast
  have h: "list_all lsblk_row_ok (sample_rows ''/home'')" "plain_line 255 (bytes_of ''NAME'')"
    using sample_rows_ok [of "''/home''"] by simp_all
  have kept: "kept_devices (sample_disks ''/home'') (Some smartdisk_scan_filter) ?es = [bytes_of ''/dev/sda'', bytes_of ''/dev/sda1'']"
    by (simp add: kept_devices_def sample_disks_def dropped_def smartdisk_scan_filter_def dev_name_def) (simp add: bytes_of_def)
  have "dv_dev (sample_disks ''/home'') = Some ?es" "dv_lsblk (sample_disks ''/home'') = Some (lines_text (bytes_of ''NAME'' # map lsblk_row (sample_rows ''/home'')))"
    "bit (3 :: nat) 0" "distinct (kept_devices (sample_disks ''/home'') (Some smartdisk_scan_filter) ?es)"
    unfolding kept by (simp_all add: sample_disks_def bit_iff_odd) (simp add: bytes_of_def)
  from disk_formats_read [OF ds this(1,4,2) h(2) this(3) h(1) smartdisk_by_format]
  have "map (\<lambda>d. (dk_format d, dk_mount d)) ds
      = map (\<lambda>name. fold (row_fill (Some smartdisk_scan_filter)) (rows_of name (sample_rows ''/home'')) ([], [])) [bytes_of ''/dev/sda'', bytes_of ''/dev/sda1'']"
    unfolding kept by blast
  moreover have "\<not> dropped (Some smartdisk_scan_filter) (sarah_disk_init\<lparr>dk_format := bytes_of ''ext4''\<rparr>) 1"
  proof -
    have "sarah_is_valid_disk_type (bytes_of ''ext4'') = 0" by code_simp
    then show ?thesis by (simp add: dropped_def smartdisk_scan_filter_def)
  qed
  moreover have "drop 5 (bytes_of ''/dev/sda1'') = bytes_of ''sda1''" "drop 5 (bytes_of ''/dev/sda'') \<noteq> bytes_of ''sda1''"
    "bytes_of ''ext4'' \<noteq> []" "bytes_of ''/home'' \<noteq> []"
    by (simp_all add: bytes_of_def)
  ultimately show ?thesis using ds
    by (auto simp: sample_rows_def rows_of_def row_fill_def row_read_def overlay_def Let_def)
qed

end
