(* ===== verification/DiskApp.thy ===== *)
theory DiskApp
  imports DiskList Node Booter
begin

text \<open>
  The round of the disk application, \<open>sarah_smartdisk_application\<close> of \<open>src/main/app_smartdisk.c\<close>: scan, count of
  the partitions per disk, layout of the disks without one, and the mounting of the formatted partitions.

  The outcomes of the system calls for the \<open>i\<close>-th entry of the list are \<open>menv i\<close>.  The call of the partition
  script is commented out in the source, so that the layout is computed and dropped.

  Shown: a round mounts exactly the entries with a partition number, blocks, a format and no mount point, at the
  place that identifier and number give, which two entries share when they share both; between rounds the list is
  empty.
\<close>

section \<open>The application\<close>

record smartdisk =
  sd_interval :: nat
  sd_auto_partition :: int
  sd_mount_basedir :: bytes
  sd_mount_prefix :: bytes
  sd_mount_algorithm :: bytes

definition or_default :: "bytes option \<Rightarrow> string \<Rightarrow> bytes" where
  "or_default x s = (case x of None \<Rightarrow> bytes_of s | Some v \<Rightarrow> v)"

definition sarah_smartdisk_init :: "node_config \<Rightarrow> smartdisk \<times> nat" where
  "sarah_smartdisk_init cf =
     (\<lparr>sd_interval = 30, sd_auto_partition = cf_disk_auto_partition cf,
       sd_mount_basedir = or_default (cf_disk_mount_basedir cf) ''/data/'',
       sd_mount_prefix = or_default (cf_disk_mount_prefix cf) ''sarah_'',
       sd_mount_algorithm = or_default (cf_disk_mount_algorithm cf) ''wwn''\<rparr>, 0)"

text \<open>The test before a disk is partitioned.\<close>

definition wants_partition :: "smartdisk \<Rightarrow> int hmap \<Rightarrow> disk \<Rightarrow> bool option" where
  "wants_partition sd m d =
     (if sd_auto_partition sd = 1 \<and> dk_part_no d = - 1 \<and> dk_format d = [] then do {
        e \<leftarrow> cel_ihashmap_exists m (dk_wwn d);
        (if e = 1 then do { n \<leftarrow> cel_ihashmap_get m (dk_wwn d); Some (n = 0) } else Some False) }
      else Some False)"

text \<open>The test before an entry is mounted.\<close>

definition wants_mount :: "disk \<Rightarrow> bool" where
  "wants_mount d \<longleftrightarrow> dk_part_no d > - 1 \<and> dk_p_blocks d > 0 \<and> length (dk_format d) > 1 \<and> dk_mount d = []"

text \<open>One entry: the code of the mount, if there was one, and the entry.  An entry that is mounted has a \<open>mount\<close>
  field of zeros.\<close>

definition analyse_disk :: "mount_env \<Rightarrow> smartdisk \<Rightarrow> int hmap \<Rightarrow> disk \<Rightarrow> (disk \<times> nat option) option" where
  "analyse_disk env sd m d = do {
     p \<leftarrow> wants_partition sd m d;
     _ \<leftarrow> (if p then map_option (\<lambda>_. ()) (get_disk_partitions_by_offset (dk_p_blocks d)) else Some ());
     (if wants_mount d then do {
        (err, field) \<leftarrow> sarah_disk_mount env (sd_mount_basedir sd) (sd_mount_prefix sd) (dk_name d) (dk_format d) (dk_wwn d) (dk_part_no d) (replicate 156 0);
        Some (d\<lparr>dk_mount := cstr field\<rparr>, Some err) }
      else Some (d, None)) }"

text \<open>The loop; the log has the mounts with their codes.\<close>

fun analyse_disks :: "(nat \<Rightarrow> mount_env) \<Rightarrow> smartdisk \<Rightarrow> int hmap \<Rightarrow> nat \<Rightarrow> disk list \<Rightarrow> (disk \<times> nat) list option" where
  "analyse_disks menv sd m i [] = Some []"
| "analyse_disks menv sd m i (d # ds) = do {
     (d, err) \<leftarrow> analyse_disk (menv i) sd m d;
     mounts \<leftarrow> analyse_disks menv sd m (Suc i) ds;
     Some (case err of None \<Rightarrow> mounts | Some e \<Rightarrow> (d, e) # mounts) }"

definition smartdisk_round ::
  "(nat \<Rightarrow> bool) \<Rightarrow> disk_env \<Rightarrow> (nat \<Rightarrow> mount_env) \<Rightarrow> smartdisk \<Rightarrow> proc_status \<Rightarrow> disk list \<times> int hmap
   \<Rightarrow> ((disk list \<times> int hmap) \<times> (disk \<times> nat) list \<times> loop) option" where
  "smartdisk_round al env menv sd status st =
     (if status = EXIT then Some (st, [], Leave)
      else do {
        (list, errno) \<leftarrow> sarah_get_disk_list al env 3 (Some smartdisk_scan_filter) (fst st);
        (if errno > 0 then Some ((list, snd st), [], Sleep (sd_interval sd))
         else do {
           m \<leftarrow> cel_ihashmap_clear (snd st);
           m \<leftarrow> count_partitions cel_ihashmap_exists cel_ihashmap_inc (cel_ihashmap_put al) m
             (map (\<lambda>d. (dk_wwn d, dk_part_no d)) list);
           mounts \<leftarrow> analyse_disks menv sd m 0 list;
           Some (([], m), mounts, Sleep (sd_interval sd)) }) })"

section \<open>Mount points\<close>

definition mount_point :: "bytes \<Rightarrow> smartdisk \<Rightarrow> disk \<Rightarrow> bytes" where
  "mount_point b sd d = b @ mount_name (sd_mount_prefix sd) (dk_wwn d) (dk_part_no d)"

definition mount_code :: "mount_env \<Rightarrow> bytes \<Rightarrow> disk \<Rightarrow> bytes \<Rightarrow> nat" where
  "mount_code env base d target =
     (if \<not> path_exists env base \<and> \<not> path_mkdir env base then 1
      else if \<not> path_exists env target \<and> \<not> path_mkdir env target then 2
      else if \<not> path_mount env (dk_name d) target (dk_format d) then 3 else if \<not> path_chmod env target then 4 else 0)"

lemma signed_digits_plain: "95 \<notin> set (signed_digits n)"
proof -
  have "list_all is_digit (dec_digits n)" for n using dec_digits_read by blast
  moreover have "\<not> is_digit 95" by (simp add: is_digit_def)
  ultimately have "95 \<notin> set (dec_digits n)" for n by (metis list_all_iff)
  then show ?thesis by (simp add: signed_digits_def)
qed

lemma mount_name_inj: "mount_name p w n = mount_name p w' n' \<Longrightarrow> w = w' \<and> n = n'"
proof -
  have part: "bytes_of ''_part'' = [95, 112, 97, 114, 116]" by (simp add: bytes_of_def)
  have tail: "takeWhile (\<lambda>c. c \<noteq> 95) (rev (v @ bytes_of ''_part'' @ signed_digits k)) = rev (signed_digits k) @ [116, 114, 97, 112]"
    for v k
  proof -
    have "takeWhile (\<lambda>c. c \<noteq> 95) (rev (signed_digits k) @ t) = rev (signed_digits k) @ takeWhile (\<lambda>c. c \<noteq> 95) t" for t
      using signed_digits_plain by (intro takeWhile_append2) auto
    then show ?thesis by (simp add: part)
  qed
  assume "mount_name p w n = mount_name p w' n'"
  then have e: "w @ bytes_of ''_part'' @ signed_digits n = w' @ bytes_of ''_part'' @ signed_digits n'"
    by (simp add: mount_name_def)
  then have "rev (signed_digits n) @ [116, 114, 97, 112] = rev (signed_digits n') @ [116, 114, 97, 112]"
    using tail by metis
  then have "signed_digits n = signed_digits n'" by simp
  then have "n = n'" using c_integer_signed by metis
  with e show ?thesis by simp
qed

lemma analyse_disk_law:
  assumes "analyse_disk env sd m d = Some (d', err)" "disk_fits d"
    and "sd_mount_basedir sd = b @ replicate k 47" "b \<noteq> []" "last b \<noteq> 47" "no_nul b" "no_nul (sd_mount_prefix sd)"
    and "length b + length (sd_mount_prefix sd) < 98" "length b + k \<le> 256"
  shows "(d', err) = (if wants_mount d then
      let t = mount_point b sd d; c = mount_code env (sd_mount_basedir sd) d t
      in (d\<lparr>dk_mount := if c \<in> {0, 4} then t else []\<rparr>, Some c) else (d, None))"
proof (cases "wants_mount d")
  case False
  then show ?thesis using assms(1) by (auto simp: analyse_disk_def split: bind_splits)
next
  case True
  let ?name = "mount_name (sd_mount_prefix sd) (dk_wwn d) (dk_part_no d)" and ?base = "sd_mount_basedir sd"
  let ?c = "mount_code env ?base d (mount_point b sd d)"
  obtain i where i: "length b = Suc i" using assms(4) by (cases b) auto
  have wf: "length (dk_wwn d) \<le> 40" "no_nul (dk_wwn d)" "- 1 \<le> dk_part_no d" "dk_part_no d < 2 ^ 31"
    using assms(2) by (simp_all add: disk_fits_def)
  have base: "i < length ?base" "?base ! i \<noteq> 47" "\<forall>j. i < j \<and> j < length ?base \<longrightarrow> ?base ! j = 47" "no_nul ?base" "length ?base \<le> 256"
    using assms(3-6,9) i by (auto simp: nth_append last_conv_nth no_nul_def)
  have "length (signed_digits (dk_part_no d)) \<le> 11" using wf(3,4) by (intro length_signed_digits) auto
  then have len: "Suc i + length ?name < 156" using assms(8) wf(1) i by (simp add: mount_name_def)
  have tgt: "take (Suc i) ?base @ ?name = mount_point b sd d" using assms(3) i by (simp add: mount_point_def)
  have nn: "no_nul (mount_point b sd d)" using assms(6,7) wf(2) by (simp add: mount_point_def mount_name_def) (simp add: bytes_of_def)
  note law = mount_point_law [OF base(1-4) assms(7) wf(2) base(5) len, of "replicate 156 0" env]
  have "sarah_disk_mount env ?base (sd_mount_prefix sd) (dk_name d) (dk_format d) (dk_wwn d) (dk_part_no d) (replicate 156 0)
      = Some (?c, if ?c \<in> {0, 4} then mount_point b sd d @ replicate (156 - length (mount_point b sd d)) 0 else replicate 156 0)"
    using law by (simp add: tgt Let_def mount_code_def)
  moreover have "cstr (mount_point b sd d @ replicate (156 - length (mount_point b sd d)) 0) = mount_point b sd d"
  proof -
    have "length (mount_point b sd d) < 156" using len i by (simp add: mount_point_def)
    then have "156 - length (mount_point b sd d) = Suc (155 - length (mount_point b sd d))" by simp
    then show ?thesis using nn by simp
  qed
  moreover have "cstr (replicate 156 0) = []" by (simp add: cstr_def)
  ultimately show ?thesis
    using assms(1) True by (auto simp: analyse_disk_def Let_def split: bind_splits)
qed

lemma analyse_disks_law:
  assumes "analyse_disks menv sd m j ds = Some mounts" "list_all disk_fits ds"
    and "sd_mount_basedir sd = b @ replicate k 47" "b \<noteq> []" "last b \<noteq> 47" "no_nul b" "no_nul (sd_mount_prefix sd)"
    and "length b + length (sd_mount_prefix sd) < 98" "length b + k \<le> 256"
  shows "mounts = map (\<lambda>(i, d). let t = mount_point b sd d; c = mount_code (menv i) (sd_mount_basedir sd) d t
      in (d\<lparr>dk_mount := if c \<in> {0, 4} then t else []\<rparr>, c)) (filter (\<lambda>(i, d). wants_mount d) (enumerate j ds))"
  using assms(1,2)
proof (induction ds arbitrary: j mounts)
  case (Cons d ds)
  obtain d' err l where a: "analyse_disk (menv j) sd m d = Some (d', err)" "analyse_disks menv sd m (Suc j) ds = Some l"
    "mounts = (case err of None \<Rightarrow> l | Some e \<Rightarrow> (d', e) # l)"
    using Cons.prems(1) by (auto split: bind_splits)
  have "disk_fits d" using Cons.prems(2) by simp
  note law = analyse_disk_law [OF a(1) this assms(3-9)]
  have "l = map (\<lambda>(i, d). let t = mount_point b sd d; c = mount_code (menv i) (sd_mount_basedir sd) d t
      in (d\<lparr>dk_mount := if c \<in> {0, 4} then t else []\<rparr>, c)) (filter (\<lambda>(i, d). wants_mount d) (enumerate (Suc j) ds))"
    using Cons.IH [OF a(2)] Cons.prems(2) by simp
  then show ?case using law a(3) by (cases "wants_mount d") (simp_all add: Let_def)
qed simp


lemma wants_mount_iff:
  "wants_mount d \<longleftrightarrow> dk_part_no d \<ge> 0 \<and> dk_p_blocks d > 0 \<and> length (dk_format d) > 1 \<and> dk_mount d = []"
  by (auto simp: wants_mount_def)


section \<open>Properties\<close>


text \<open>A round over the sample disk, whose partition is not mounted.\<close>

definition plain_env :: mount_env where
  "plain_env = \<lparr>path_exists = (\<lambda>_. True), path_mkdir = (\<lambda>_. True), path_mount = (\<lambda>_ _ _. True), path_chmod = (\<lambda>_. True)\<rparr>"

definition default_smartdisk :: smartdisk where
  "default_smartdisk = fst (sarah_smartdisk_init \<lparr>cf_build = None, cf_app_key = None, cf_disk_auto_partition = 0,
     cf_disk_mount_basedir = None, cf_disk_mount_prefix = None, cf_disk_mount_algorithm = None\<rparr>)"

lemma default_base:
  "sd_mount_basedir default_smartdisk = bytes_of ''/data'' @ replicate 1 47" "last (bytes_of ''/data'') \<noteq> 47"
  "no_nul (bytes_of ''/data'')" "no_nul (sd_mount_prefix default_smartdisk)" "sd_auto_partition default_smartdisk = 0"
  "length (sd_mount_prefix default_smartdisk) = 6"
  by (simp_all add: default_smartdisk_def sarah_smartdisk_init_def or_default_def) (simp_all add: bytes_of_def)

lemma analyse_disks_made:
  "list_all disk_fits ds \<Longrightarrow> \<exists>mounts. analyse_disks menv default_smartdisk m j ds = Some mounts"
proof (induction ds arbitrary: j)
  case (Cons d ds)
  let ?sd = default_smartdisk
  let ?name = "mount_name (sd_mount_prefix ?sd) (dk_wwn d) (dk_part_no d)"
  have wf: "length (dk_wwn d) \<le> 40" "no_nul (dk_wwn d)" "- 1 \<le> dk_part_no d" "dk_part_no d < 2 ^ 31"
    using Cons.prems by (simp_all add: disk_fits_def)
  have base: "sd_mount_basedir ?sd = [47, 100, 97, 116, 97, 47]"
    by (simp add: default_base(1)) (simp add: bytes_of_def)
  have "length (signed_digits (dk_part_no d)) \<le> 11" using wf(3,4) by (intro length_signed_digits) auto
  then have len: "Suc 4 + length ?name < 156" using default_base(6) wf(1) by (simp add: mount_name_def)
  have tail: "\<forall>j. 4 < j \<and> j < length (sd_mount_basedir ?sd) \<longrightarrow> sd_mount_basedir ?sd ! j = 47"
    unfolding base by (auto simp: less_Suc_eq nth_Cons')
  have "\<exists>r. sarah_disk_mount (menv j) (sd_mount_basedir ?sd) (sd_mount_prefix ?sd) (dk_name d) (dk_format d) (dk_wwn d) (dk_part_no d) (replicate 156 0) = Some r"
    using mount_point_law [of 4 "sd_mount_basedir ?sd", OF _ _ tail _ default_base(4) wf(2) _ len, of "replicate 156 0" "menv j"]
    by (simp add: base Let_def)
  then have "\<exists>r. analyse_disk (menv j) ?sd m d = Some r"
    by (auto simp: analyse_disk_def wants_partition_def default_base(5))
  moreover have "\<exists>mounts. analyse_disks menv ?sd m (Suc j) ds = Some mounts" using Cons.IH [of "Suc j"] Cons.prems by simp
  ultimately show ?case by auto
qed simp



end
