(* ===== verification/DiskTools.thy ===== *)
theory DiskTools
  imports Scan CelText Smartdisk
begin

text \<open>
  The shell commands of \<open>src/main/disk.c\<close>: the storage statistics of \<open>df\<close>, and the partitioning and formatting of
  a disk with \<open>parted\<close> and \<open>mkfs\<close>.

  The output of \<open>df\<close> is an input; the struct it is read into is a local variable without initial value, whose
  fields are null until they are read.  The commands are written into arrays of fixed length; what they do is a
  record of outcomes, and a run leaves the list of the commands it started.

  A stream is null, a running command, an open file or closed; \<open>pclose\<close> is defined on a running command only.

  Shown: the partitioning never reports success, since after the last partition the stream is closed twice; which
  commands are run before a failure, and the code of each step that can fail.
\<close>

section \<open>Storage statistics\<close>

record disk_stat =
  ds_inode :: "nat option"
  ds_iused :: "nat option"
  ds_size :: "nat option"
  ds_used :: "nat option"
  ds_type :: "bytes option"
  ds_name :: "bytes option"

definition new_disk_stat_entry :: "(nat \<Rightarrow> bool) \<Rightarrow> disk_stat option" where
  "new_disk_stat_entry al = (if al 96 then Some \<lparr>ds_inode = Some 0, ds_iused = Some 0, ds_size = Some 0, ds_used = Some 0,
     ds_type = Some [], ds_name = Some []\<rparr> else None)"

definition clone_disk_stat_entry :: "(nat \<Rightarrow> bool) \<Rightarrow> disk_stat \<Rightarrow> disk_stat option" where
  "clone_disk_stat_entry al d = (case new_disk_stat_entry al of None \<Rightarrow> None | Some _ \<Rightarrow> Some d)"

definition df_format :: "directive list" where
  "df_format = [Str 47, White, Str 15, White, Long, White, Long, White, Long, White, Long]"

text \<open>A line; an entry that got no memory is null in the list.\<close>

definition df_line :: "(nat \<Rightarrow> bool) \<Rightarrow> disk_stat option list \<times> disk_stat \<Rightarrow> bytes \<Rightarrow> (disk_stat option list \<times> disk_stat) option" where
  "df_line al st buff = (case st of (list, d) \<Rightarrow> do {
     fs \<leftarrow> sscanf df_format buff;
     let d = store [\<lambda>d f. d\<lparr>ds_name := Some (f_txt f)\<rparr>, \<lambda>d f. d\<lparr>ds_type := Some (f_txt f)\<rparr>, \<lambda>d f. d\<lparr>ds_inode := Some (f_num f)\<rparr>,
       \<lambda>d f. d\<lparr>ds_iused := Some (f_num f)\<rparr>, \<lambda>d f. d\<lparr>ds_size := Some (f_num f)\<rparr>, \<lambda>d f. d\<lparr>ds_used := Some (f_num f)\<rparr>] fs d;
     type \<leftarrow> ds_type d;
     Some (if sarah_is_valid_disk_type type = 0 then list @ [clone_disk_stat_entry al d] else list, d) })"

definition sarah_get_disk_stat :: "(nat \<Rightarrow> bool) \<Rightarrow> bytes option \<Rightarrow> disk_stat option list \<Rightarrow> (disk_stat option list \<times> int) option" where
  "sarah_get_disk_stat al fd list =
     (case fd of None \<Rightarrow> Some (list, 1) | Some data \<Rightarrow>
        if data = [] then Some (list, 2)
        else do {
          (list, _) \<leftarrow> each_line 255 (df_line al) (snd (fgets 255 data))
            (list, \<lparr>ds_inode = None, ds_iused = None, ds_size = None, ds_used = None, ds_type = None, ds_name = None\<rparr>);
          Some (list, 0) })"

section \<open>Formatting\<close>

text \<open>The outcomes of the commands: whether \<open>popen\<close> starts them, what the temporary file holds afterwards, null when
  it cannot be opened, and whether the \<open>t\<close>-th look finds the device file of a partition.\<close>

record shell =
  sh_popen :: "bytes \<Rightarrow> bool"
  sh_tmpfile :: "bytes \<Rightarrow> bytes option"
  sh_access :: "bytes \<Rightarrow> nat \<Rightarrow> bool"

text \<open>\<open>sprintf\<close> into an array of \<open>n\<close> bytes.\<close>

definition sprintf :: "nat \<Rightarrow> bytes \<Rightarrow> bytes option" where
  "sprintf n s = (if length s < n then Some s else None)"

definition format_cmd :: "bytes \<Rightarrow> bytes" where
  "format_cmd part = bytes_of ''mkfs.ext4 '' @ part @ bytes_of '' > /tmp/smartdisk.txt''"

text \<open>\<open>pclose\<close> of a null stream when \<open>popen\<close> fails, \<open>fclose\<close> of one when the file cannot be opened.  The read of one
  item of nine bytes succeeds when the file has them.\<close>

definition sarah_disk_format_shell :: "shell \<Rightarrow> bytes \<Rightarrow> (bytes list \<times> nat) option" where
  "sarah_disk_format_shell sh part = do {
     cmd \<leftarrow> sprintf 80 (format_cmd part);
     (if \<not> sh_popen sh cmd then None
      else do {
        out \<leftarrow> sh_tmpfile sh cmd;
        Some ([cmd], if 9 \<le> length out \<and> cstr (take 9 out) \<noteq> [] then 0 else 1) }) }"

section \<open>Partitioning\<close>

datatype stream = Null_stream | Pipe | Text_file | Closed

definition pclose :: "stream \<Rightarrow> stream option" where
  "pclose fp = (case fp of Pipe \<Rightarrow> Some Closed | _ \<Rightarrow> None)"

definition mklabel_cmd :: "bytes \<Rightarrow> bytes" where
  "mklabel_cmd disk = bytes_of ''parted -s '' @ disk @ bytes_of '' mklabel gpt > /tmp/smartdisk.txt 2>&1''"

text \<open>The command for partition \<open>i\<close>; the size \<open>-1\<close> is the largest \<open>unsigned long\<close>.\<close>

definition mkpart_cmd :: "bytes \<Rightarrow> nat \<Rightarrow> nat \<times> nat \<Rightarrow> bytes" where
  "mkpart_cmd disk i p = (case p of (start, blocks) \<Rightarrow>
     bytes_of ''parted -s '' @ disk @ bytes_of '' mkpart sarahos_'' @ dec_digits i @ bytes_of '' ext4 '' @
     (if start = 0 \<and> blocks = 2 ^ 64 - 1 then bytes_of ''2048s 100%''
      else if start = 0 then bytes_of ''1049k '' @ dec_digits (blocks div 2097152) @ bytes_of ''G''
      else if blocks = 2 ^ 64 - 1 then dec_digits (start div 2097152) @ bytes_of ''G 100%''
      else dec_digits (start div 2097152) @ bytes_of ''G '' @ dec_digits (wrap64 (start + blocks) div 2097152) @ bytes_of ''G''))"

text \<open>The loop \<open>while ( access(partition_name, F_OK) == -1 )\<close> with \<open>timeout - t = n\<close>.\<close>

fun wait_device :: "shell \<Rightarrow> bytes \<Rightarrow> nat \<Rightarrow> nat \<Rightarrow> bool" where
  "wait_device sh name t 0 \<longleftrightarrow> sh_access sh name t"
| "wait_device sh name t (Suc n) \<longleftrightarrow> sh_access sh name t \<or> wait_device sh name (Suc t) n"

text \<open>The loop over the partitions up to the label \<open>failed\<close>: the commands, the code and the stream.\<close>

fun make_partitions :: "shell \<Rightarrow> bytes \<Rightarrow> nat \<Rightarrow> stream \<Rightarrow> (nat \<times> nat) list \<Rightarrow> (bytes list \<times> nat \<times> stream) option" where
  "make_partitions sh disk i fp [] = Some ([], 0, fp)"
| "make_partitions sh disk i fp (p # ps) = do {
     cmd \<leftarrow> sprintf 200 (mkpart_cmd disk i p);
     (if \<not> sh_popen sh cmd then Some ([cmd], 4, Null_stream)
      else do {
        name \<leftarrow> sprintf 80 (disk @ dec_digits (i + 1));
        (if \<not> wait_device sh name 0 10 then Some ([cmd], 5, Pipe)
         else do {
           (cs, e) \<leftarrow> sarah_disk_format_shell sh name;
           (if e \<noteq> 0 then Some (cmd # cs, 6, Pipe)
            else do {
              fp \<leftarrow> pclose Pipe;
              (cmds, e, fp) \<leftarrow> make_partitions sh disk (Suc i) fp ps;
              Some (cmd # cs @ cmds, e, fp) }) }) }) }"

text \<open>What stands behind the label \<open>failed\<close>.\<close>

definition failed :: "bytes list \<Rightarrow> nat \<Rightarrow> stream \<Rightarrow> (bytes list \<times> nat) option" where
  "failed cmds errno fp = (if fp \<noteq> Null_stream then do { _ \<leftarrow> pclose fp; Some (cmds, errno) } else Some (cmds, errno))"

definition sarah_disk_partition_shell :: "shell \<Rightarrow> bytes \<Rightarrow> (nat \<times> nat) list option \<Rightarrow> (bytes list \<times> nat) option" where
  "sarah_disk_partition_shell sh disk partitions =
     (case partitions of None \<Rightarrow> failed [] 1 Null_stream | Some ps \<Rightarrow>
        if ps = [] then failed [] 1 Null_stream
        else do {
          label \<leftarrow> sprintf 100 (mklabel_cmd disk);
          (if \<not> sh_popen sh label then failed [label] 2 Null_stream
           else do {
             _ \<leftarrow> pclose Pipe;
             out \<leftarrow> sh_tmpfile sh label;
             (if out \<noteq> [] \<and> strstr (cstr (fst (fgets 99 out))) ''Error:'' then failed [label] 3 Text_file
              else do {
                (cmds, e, fp) \<leftarrow> make_partitions sh disk 0 Closed ps;
                failed (label # cmds) e fp }) }) })"

section \<open>Properties\<close>

definition part_name :: "bytes \<Rightarrow> nat \<Rightarrow> bytes" where
  "part_name disk i = disk @ dec_digits (i + 1)"

text \<open>The step that fails for partition \<open>i\<close>: the command that makes it, the eleven looks for its device, or the formatting.\<close>

definition formats :: "shell \<Rightarrow> bytes \<Rightarrow> bool" where
  "formats sh name = (case sh_tmpfile sh (format_cmd name) of None \<Rightarrow> False | Some out \<Rightarrow> 9 \<le> length out \<and> hd out \<noteq> 0)"

definition step_code :: "shell \<Rightarrow> bytes \<Rightarrow> nat \<times> nat \<times> nat \<Rightarrow> nat" where
  "step_code sh disk x = (case x of (i, p) \<Rightarrow>
     if \<not> sh_popen sh (mkpart_cmd disk i p) then 4
     else if list_all (\<lambda>t. \<not> sh_access sh (part_name disk i) t) [0..<11] then 5
     else if formats sh (part_name disk i) then 0 else 6)"

definition step_cmds :: "shell \<Rightarrow> bytes \<Rightarrow> nat \<times> nat \<times> nat \<Rightarrow> bytes list" where
  "step_cmds sh disk x = (case x of (i, p) \<Rightarrow> if step_code sh disk x \<in> {4, 5} then [mkpart_cmd disk i p]
     else [mkpart_cmd disk i p, format_cmd (part_name disk i)])"

text \<open>The first partition with a step that fails: the commands up to it, and its code.\<close>

fun first_failure :: "shell \<Rightarrow> bytes \<Rightarrow> (nat \<times> nat \<times> nat) list \<Rightarrow> (bytes list \<times> nat) option" where
  "first_failure sh disk [] = None"
| "first_failure sh disk (x # xs) =
     (if step_code sh disk x \<noteq> 0 then Some (step_cmds sh disk x, step_code sh disk x)
      else map_option (\<lambda>(cs, e). (step_cmds sh disk x @ cs, e)) (first_failure sh disk xs))"

lemma wait_device_law: "wait_device sh name t n \<longleftrightarrow> (\<exists>k. t \<le> k \<and> k \<le> t + n \<and> sh_access sh name k)"
proof (induction n arbitrary: t)
  case (Suc n)
  have "(\<exists>k. t \<le> k \<and> k \<le> t + Suc n \<and> sh_access sh name k)
      \<longleftrightarrow> sh_access sh name t \<or> (\<exists>k. Suc t \<le> k \<and> k \<le> Suc t + n \<and> sh_access sh name k)"
    by (metis Suc_leD add_Suc add_Suc_right le_add1 not_less_eq_eq order_antisym)
  then show ?case using Suc.IH [of "Suc t"] by simp
qed (auto dest: le_antisym)

lemma wait_list: "wait_device sh name 0 10 \<longleftrightarrow> \<not> list_all (\<lambda>t. \<not> sh_access sh name t) [0..<11]"
proof -
  have "(0 :: nat) \<le> k \<and> k \<le> 0 + 10 \<longleftrightarrow> k \<in> set [0..<11]" for k by auto
  then have "(\<exists>k. (0 :: nat) \<le> k \<and> k \<le> 0 + 10 \<and> sh_access sh name k) \<longleftrightarrow> (\<exists>k \<in> set [0..<11]. sh_access sh name k)" by blast
  then show ?thesis by (simp add: wait_device_law list_all_iff del: set_upt)
qed

lemma format_law: "sarah_disk_format_shell sh name = Some (cs, e) \<Longrightarrow> cs = [format_cmd name] \<and> (e = 0 \<longleftrightarrow> formats sh name)"
proof -
  have "cstr (take 9 out) = [] \<longleftrightarrow> hd out = 0" if "9 \<le> length out" for out :: bytes
    using that by (cases out) (auto simp: cstr_def)
  then show "sarah_disk_format_shell sh name = Some (cs, e) \<Longrightarrow> cs = [format_cmd name] \<and> (e = 0 \<longleftrightarrow> formats sh name)"
    by (auto simp: sarah_disk_format_shell_def formats_def sprintf_def split: bind_splits if_splits)
qed

text \<open>The loop stops at the first step that fails, or ends with the stream closed.\<close>

lemma make_partitions_law:
  "make_partitions sh disk i fp ps = Some (cmds, e, fp') \<Longrightarrow>
     (case first_failure sh disk (enumerate i ps) of
        None \<Rightarrow> e = 0 \<and> fp' = (if ps = [] then fp else Closed)
      | Some (cs, c) \<Rightarrow> cmds = cs \<and> e = c \<and> e \<noteq> 0 \<and> fp' = (if e = 4 then Null_stream else Pipe))"
proof (induction sh disk i fp ps arbitrary: cmds e fp' rule: make_partitions.induct)
  case (2 sh disk i fp p ps)
  let ?cmd = "mkpart_cmd disk i p" and ?name = "part_name disk i"
  have cmd: "sprintf 200 ?cmd = Some ?cmd" using "2.prems" by (auto simp: sprintf_def split: bind_splits if_splits)
  have name_def: "disk @ dec_digits (Suc i) = part_name disk i" by (simp add: part_name_def)
  show ?case
  proof (cases "sh_popen sh ?cmd")
    case False
    then have "step_code sh disk (i, p) = 4" by (simp add: step_code_def)
    with "2.prems" cmd False show ?thesis by (auto simp: step_cmds_def)
  next
    case run: True
    have name: "sprintf 80 ?name = Some ?name"
      using "2.prems" cmd run by (auto simp: sprintf_def part_name_def split: bind_splits if_splits)
    show ?thesis
    proof (cases "wait_device sh ?name 0 10")
      case False
      then have "step_code sh disk (i, p) = 5" using run wait_list by (simp add: step_code_def)
      with "2.prems" cmd run name False show ?thesis by (auto simp: step_cmds_def name_def simp del: wait_device.simps)
    next
      case there: True
      obtain cs c where f: "sarah_disk_format_shell sh ?name = Some (cs, c)"
        using "2.prems" cmd run name there by (auto simp: name_def simp del: wait_device.simps split: bind_splits)
      note fl = format_law [OF f]
      show ?thesis
      proof (cases "c = 0")
        case False
        then have "step_code sh disk (i, p) = 6" using run there wait_list fl by (simp add: step_code_def)
        with "2.prems" cmd run name there f fl False show ?thesis by (auto simp: step_cmds_def name_def simp del: wait_device.simps)
      next
        case True
        then have ok: "step_code sh disk (i, p) = 0" using run there wait_list fl by (simp add: step_code_def)
        obtain cmds2 where r: "make_partitions sh disk (Suc i) Closed ps = Some (cmds2, e, fp')" "cmds = ?cmd # cs @ cmds2"
          using "2.prems" cmd run name there f True by (auto simp: pclose_def name_def simp del: wait_device.simps split: bind_splits)
        have "case first_failure sh disk (enumerate (Suc i) ps) of
            None \<Rightarrow> e = 0 \<and> fp' = (if ps = [] then Closed else Closed)
          | Some (cs, c) \<Rightarrow> cmds2 = cs \<and> e = c \<and> e \<noteq> 0 \<and> fp' = (if e = 4 then Null_stream else Pipe)"
          by (rule "2.IH" [of ?cmd ?name "(cs, c)" cs c Closed]) (use cmd run name there f True r(1) in \<open>simp_all add: name_def pclose_def\<close>)
        moreover have "step_cmds sh disk (i, p) = ?cmd # cs" using ok fl by (simp add: step_cmds_def)
        ultimately show ?thesis using ok r(2) by (auto split: option.splits)
      qed
    qed
  qed
qed simp

text \<open>C32: no run of the partitioning ends with success: when every step succeeds, the last stream is closed a second time.  A
  run that ends without undefined behaviour has the code 1 for no partitions, 2 for a label command that does not
  start, and otherwise stops at the first partition with a failing step, with the code 4 for a command that does not start, 5 for a
  device that none of eleven looks finds and 6 for a formatting that wrote fewer than nine bytes or a NUL first; the
  commands run are the label and those of the partitions up to that one.  A label that is refused, code 3, ends in
  \<open>pclose\<close> on a file that \<open>fopen\<close> opened; a name of 52 bytes or more overflows the first command.\<close>

theorem partition_never_succeeds:
  "case sarah_disk_partition_shell sh disk (Some ps) of
     None \<Rightarrow> ps \<noteq> [] \<and> (52 \<le> length disk \<or> sh_popen sh (mklabel_cmd disk))
   | Some (cmds, e) \<Rightarrow>
       if ps = [] then e = 1 \<and> cmds = []
       else if \<not> sh_popen sh (mklabel_cmd disk) then e = 2 \<and> cmds = [mklabel_cmd disk]
       else e \<in> {4, 5, 6} \<and> (\<exists>cs. cmds = mklabel_cmd disk # cs \<and> first_failure sh disk (enumerate 0 ps) = Some (cs, e))"
proof -
  have len: "sprintf 100 (mklabel_cmd disk) = (if length disk < 52 then Some (mklabel_cmd disk) else None)"
    by (simp add: sprintf_def mklabel_cmd_def)
  have codes: "first_failure sh disk xs = Some (cs, e) \<Longrightarrow> e \<in> {4, 5, 6}" for xs cs e
    by (induction xs arbitrary: cs) (auto simp: step_code_def split: if_splits prod.splits)
  show ?thesis
  proof (cases "sarah_disk_partition_shell sh disk (Some ps)")
    case None
    then show ?thesis by (auto simp: sarah_disk_partition_shell_def len failed_def split: if_splits)
  next
    case (Some r)
    obtain cmds e where r: "r = (cmds, e)" by fastforce
    show ?thesis
    proof (cases "ps = [] \<or> \<not> sh_popen sh (mklabel_cmd disk)")
      case True
      then show ?thesis using Some r by (auto simp: sarah_disk_partition_shell_def len failed_def split: if_splits)
    next
      case False
      then obtain cs fp where m: "make_partitions sh disk 0 Closed ps = Some (cs, e, fp)" "cmds = mklabel_cmd disk # cs"
        "fp = Null_stream \<or> fp = Pipe"
        using Some r by (auto simp: sarah_disk_partition_shell_def len failed_def pclose_def split: if_splits bind_splits stream.splits)
      then show ?thesis using make_partitions_law [OF m(1)] False Some r codes by (auto split: option.splits)
    qed
  qed
qed

lemma partition_never_succeeds_witness:
  "sarah_disk_partition_shell \<lparr>sh_popen = \<lambda>_. False, sh_tmpfile = \<lambda>_. None, sh_access = \<lambda>_ _. False\<rparr> (bytes_of ''/dev/sda'') (Some [(0, 5)])
   = Some ([mklabel_cmd (bytes_of ''/dev/sda'')], 2)"
  using partition_never_succeeds [where sh = "\<lparr>sh_popen = \<lambda>_. False, sh_tmpfile = \<lambda>_. None, sh_access = \<lambda>_ _. False\<rparr>"
    and disk = "bytes_of ''/dev/sda''" and ps = "[(0, 5)]"]
  by (auto simp: sarah_disk_partition_shell_def failed_def sprintf_def mklabel_cmd_def)

end
