(* ===== verification/Package.thy ===== *)
theory Package
  imports JsonItems Stats Hardware Node DiskList
begin

text \<open>
  The package the collector uploads: \<open>_make_json_package\<close> of \<open>src/main/app_collector.c\<close>, over the constructors of
  JSON items of \<open>src/main/cJSON.c\<close>.

  A null item is \<open>None\<close>; adding to or adding a null item changes nothing, and neither does an item whose key
  cannot be copied, so that a failed allocation leaves entries out.  A section is a function of the outcomes of its own
  calls of \<open>malloc\<close>, each of which may fail alone.  The code adds an object to its parent before it fills it, the model
  after; the outcomes are the same, as each call has its own.  The conversion of NaN to \<open>int\<close> and reading a
  character array without a NUL are undefined.

  Shown: whichever allocations fail, the package is well-formed and the names in each object differ, also without
  regard to case, so that the look-up by name finds what was stored; with enough memory it has all sections with all their
  fields, and an entry for every processor, disk, device and process.
\<close>

section \<open>The sections of the package\<close>

abbreviation str :: "bytes \<Rightarrow> mallocs \<Rightarrow> fp json option" where
  "str s \<equiv> \<lambda>al. cJSON_CreateString al (Some s)"

abbreviation dbl :: "rat \<Rightarrow> mallocs \<Rightarrow> fp json option" where
  "dbl q \<equiv> \<lambda>al. number_item al q"

abbreviation num :: "nat \<Rightarrow> mallocs \<Rightarrow> fp json option" where
  "num n \<equiv> dbl (rat_of_nat n)"

text \<open>An \<open>unsigned long\<close> becomes a \<open>double\<close>.\<close>

abbreviation num64 :: "rounding \<Rightarrow> nat \<Rightarrow> mallocs \<Rightarrow> fp json option" where
  "num64 R n \<equiv> dbl (r_double R (rat_of_nat n))"

text \<open>The parts of \<open>sarah_node_t\<close> that only the collector fills or reads.\<close>

record utsname =
  ut_sysname :: bytes
  ut_nodename :: bytes
  ut_release :: bytes
  ut_version :: bytes
  ut_machine :: bytes

record monitored = node +
  nd_last_stat_begin :: nat
  nd_last_stat_end :: nat
  nd_kernel_info :: utsname

definition node_json :: "monitored \<Rightarrow> (mallocs \<Rightarrow> fp json option) option" where
  "node_json nd = do {
     id \<leftarrow> text_of (nd_node_id nd);
     Some (object_of
       [(''id'', str id),
        (''created_at'', num (unat (nd_created_at nd))),
        (''last_boot_at'', num (unat (nd_last_boot_at nd))),
        (''interval'', num (unat (nd_interval nd))),
        (''last_stat_begin'', num (nd_last_stat_begin nd)),
        (''last_stat_end'', num (nd_last_stat_end nd)),
        (''storage_media'', \<lambda>al. cJSON_CreateString al (nd_base_dir nd))]) }"

definition bios_json :: "hd_bios \<Rightarrow> (mallocs \<Rightarrow> fp json option) option" where
  "bios_json hb = do {
     vendor \<leftarrow> text_of (hb_vendor hb);
     version \<leftarrow> text_of (hb_version hb);
     date \<leftarrow> text_of (hb_release_date hb);
     Some (object_of
       [(''vendor'', str vendor), (''version'', str version), (''r_date'', str date),
        (''run_size'', num (hb_runtime_size hb)), (''rom_size'', num (hb_rom_size hb))]) }"

definition system_json :: "hd_system \<Rightarrow> (mallocs \<Rightarrow> fp json option) option" where
  "system_json hs = do {
     manufacturer \<leftarrow> text_of (hs_manufacturer hs);
     product \<leftarrow> text_of (hs_product_name hs);
     version \<leftarrow> text_of (hs_version hs);
     serial \<leftarrow> text_of (hs_serial_no hs);
     uuid \<leftarrow> text_of (hs_uuid hs);
     Some (object_of
       [(''manufacturer'', str manufacturer), (''pro_name'', str product), (''version'', str version),
        (''serial_no'', str serial), (''uuid'', str uuid)]) }"

definition board_json :: "hd_board \<Rightarrow> (mallocs \<Rightarrow> fp json option) option" where
  "board_json board = do {
     manufacturer \<leftarrow> text_of (hd_manufacturer board);
     product \<leftarrow> text_of (hd_product_name board);
     version \<leftarrow> text_of (hd_version board);
     serial \<leftarrow> text_of (hd_serial_no board);
     Some (object_of
       [(''manufacturer'', str manufacturer), (''pro_name'', str product), (''version'', str version),
        (''serial_no'', str serial)]) }"

definition cpu_entry_json :: "cpu_info \<Rightarrow> mallocs \<Rightarrow> fp json option" where
  "cpu_entry_json c = object_of
     [(''vendor_id'', str (ci_vendor_id c)), (''model'', num (ci_model c)), (''model_name'', str (ci_model_name c)),
      (''mhz'', dbl (ci_mhz c)), (''cache_size'', num (ci_cache_size c)),
      (''physical_id'', num (ci_physical_id c)), (''core_id'', num (ci_core_id c)), (''cores'', num (ci_cores c))]"

definition cpu_time_json :: "cpu_time \<Rightarrow> mallocs \<Rightarrow> fp json option" where
  "cpu_time_json t = object_of
     [(''name'', str (ct_name t)), (''user'', num (ct_user t)), (''nice'', num (ct_nice t)),
      (''system'', num (ct_system t)), (''idle'', num (ct_idle t))]"

definition cpu_json :: "cpu_info list \<Rightarrow> cpu_stat \<Rightarrow> cpu_loadavg \<Rightarrow> mallocs \<Rightarrow> fp json option" where
  "cpu_json cpus st la = object_of
     [(''list'', array_of (map cpu_entry_json cpus)),
      (''stat'', object_of
         [(''round_1'', cpu_time_json (cs_round_1 st)), (''round_2'', cpu_time_json (cs_round_2 st)),
          (''load_avg'', dbl (cs_load_avg st)),
          (''sys_loadavg'', object_of
             [(''t_1m'', dbl (la_1m la)), (''t_5m'', dbl (la_5m la)),
              (''t_15m'', dbl (la_15m la))])])]"

definition ram_json :: "rounding \<Rightarrow> ram_stat \<Rightarrow> mallocs \<Rightarrow> fp json option" where
  "ram_json R m = object_of
     [(''total'', num64 R (rm_total m)), (''free'', num64 R (rm_free m)), (''available'', num64 R (rm_available m))]"

definition disk_json :: "rounding \<Rightarrow> disk \<Rightarrow> mallocs \<Rightarrow> fp json option" where
  "disk_json R d = object_of
     [(''wwn'', str (dk_wwn d)), (''serial_no'', str (dk_serial_no d)), (''model'', str (dk_model d)),
      (''name'', str (dk_name d)), (''pt_no'', dbl (rat_of_int (dk_part_no d))),
      (''format'', str (dk_format d)), (''mount'', str (dk_mount d)),
      (''p_start'', num64 R (dk_p_start d)), (''p_blocks'', num64 R (dk_p_blocks d)),
      (''p_size'', num64 R (dk_p_size d)), (''inode'', num64 R (dk_inode d)), (''ifree'', num64 R (dk_ifree d)),
      (''size'', num64 R (dk_size d)), (''free'', num64 R (dk_free d))]"

definition net_round_json :: "rounding \<Rightarrow> net_stat \<Rightarrow> mallocs \<Rightarrow> fp json option" where
  "net_round_json R n = object_of
     [(''receive'', num64 R (nt_receive n)), (''r_packets'', num64 R (nt_r_packets n)),
      (''transmit'', num64 R (nt_transmit n)), (''t_packets'', num64 R (nt_t_packets n))]"

definition net_json :: "mallocs \<Rightarrow> rounding \<Rightarrow> bandwidth \<Rightarrow> fp json option option" where
  "net_json al R b = do {
     incoming \<leftarrow> cJSON_CreateNumber (call 0 al) (bd_incoming b);
     outgoing \<leftarrow> cJSON_CreateNumber (call 1 al) (bd_outgoing b);
     Some (object_of
       [(''name'', str (nt_device (bd_round_1 b))),
        (''hd_addr'', str (sarah_hardware_addr_print (nt_hd_addr (bd_round_1 b)))),
        (''round_1'', net_round_json R (bd_round_1 b)), (''round_2'', net_round_json R (bd_round_2 b)),
        (''incoming'', \<lambda>_. incoming), (''outgoing'', \<lambda>_. outgoing)] (call 2 al)) }"

definition uts_json :: "utsname \<Rightarrow> mallocs \<Rightarrow> fp json option" where
  "uts_json u = object_of
     [(''pre_def'', str (bytes_of ''Linux'')), (''sys_name'', str (ut_sysname u)), (''node_name'', str (ut_nodename u)),
      (''release'', str (ut_release u)), (''version'', str (ut_version u)), (''machine'', str (ut_machine u))]"

definition process_json :: "process \<Rightarrow> mallocs \<Rightarrow> fp json option" where
  "process_json p = object_of
     [(''user'', str (ps_user p)), (''pid'', num (ps_pid p)), (''cpu'', dbl (ps_cpu_percent p)),
      (''mem'', dbl (ps_mem_percent p)), (''vsz'', num (ps_vir_mem p)), (''rss'', num (ps_rss_mem p)),
      (''tty'', str (ps_tty p)), (''stat'', str (ps_status p)), (''start'', str (ps_start p)),
      (''time'', str (ps_time p)), (''cmd'', str (ps_command p))]"

fun all_some :: "'a option list \<Rightarrow> 'a list option" where
  "all_some [] = Some []"
| "all_some (x # xs) = do { y \<leftarrow> x; ys \<leftarrow> all_some xs; Some (y # ys) }"

definition make_json_package ::
  "mallocs \<Rightarrow> rounding \<Rightarrow> monitored \<Rightarrow> hd_bios \<times> hd_system \<times> hd_board \<Rightarrow> cpu_info option list \<Rightarrow> cpu_stat \<Rightarrow> cpu_loadavg
   \<Rightarrow> ram_stat \<Rightarrow> disk list \<Rightarrow> bandwidth list \<Rightarrow> process list \<Rightarrow> fp json option option" where
  "make_json_package al R nd hw cpus st la ram disks bws procs = (case hw of (hd_bios, hd_sys, hd_board) \<Rightarrow> do {
     node \<leftarrow> node_json nd;
     bios \<leftarrow> bios_json hd_bios;
     sys \<leftarrow> system_json hd_sys;
     board \<leftarrow> board_json hd_board;
     infos \<leftarrow> all_some cpus;
     nets \<leftarrow> all_some (map (\<lambda>(i, b). net_json (call i (call 0 al)) R b) (enumerate 0 bws));
     Some (object_of
       [(''version'', dbl (sarah_version R)), (''node'', node),
        (''hd_bios'', bios), (''hd_sys'', sys), (''hd_board'', board),
        (''cpu'', cpu_json infos st la), (''ram'', ram_json R ram),
        (''disk'', array_of (map (disk_json R) disks)), (''network'', array_of (map (\<lambda>n _. n) nets)),
        (''system'', uts_json (nd_kernel_info nd)), (''process'', array_of (map process_json procs))] (call 1 al)) })"

section \<open>Well-formed documents\<close>

definition same_key :: "fp json \<Rightarrow> bytes" where
  "same_key j = (case js_name j of None \<Rightarrow> [] | Some n \<Rightarrow> map to_lower n)"

text \<open>Numbers, strings, arrays of unnamed items, and objects of items whose names differ without regard to case.\<close>

fun json_wf :: "fp json \<Rightarrow> bool" where
  "json_wf (Json name t s i x cs) \<longleftrightarrow>
     (case t of
        cJSON_Number \<Rightarrow> s = None \<and> cs = [] \<and> int_of_double x = Some i
      | cJSON_String \<Rightarrow> s \<noteq> None \<and> cs = []
      | cJSON_Array \<Rightarrow> s = None \<and> list_all (\<lambda>c. js_name c = None) cs
      | cJSON_Object \<Rightarrow> s = None \<and> list_all (\<lambda>c. js_name c \<noteq> None) cs \<and> distinct (map same_key cs)
      | _ \<Rightarrow> False)
     \<and> (\<forall>c \<in> set cs. json_wf c)"

definition item_wf :: "fp json option \<Rightarrow> bool" where
  "item_wf v \<longleftrightarrow> (case v of None \<Rightarrow> True | Some j \<Rightarrow> json_wf j \<and> js_name j = None)"

definition lower_key :: "string \<Rightarrow> bool" where
  "lower_key k \<longleftrightarrow> list_all (\<lambda>c. (of_char c :: nat) < 65 \<or> 90 < (of_char c :: nat)) k"

definition keys_ok :: "(string \<times> 'a) list \<Rightarrow> bool" where
  "keys_ok kvs \<longleftrightarrow> distinct (map fst kvs) \<and> list_all (\<lambda>kv. lower_key (fst kv)) kvs"

lemma unat_of_char: "unat (of_char c :: u8) = of_char c"
  by (simp add: of_char_of of_char_def)

lemma bytes_of_inj: "bytes_of s = bytes_of t \<longleftrightarrow> s = t"
  unfolding bytes_of_def by (rule inj_map_eq_map) (auto intro!: injI simp: word_unat_eq_iff unat_of_char)

lemma lower_key_law: "lower_key k \<Longrightarrow> map to_lower (bytes_of k) = bytes_of k"
  by (induction k) (auto simp: lower_key_def bytes_of_def to_lower_def word_le_nat_alt unat_of_char)


lemma new_item_eq: "cJSON_New_Item al = (if malloc al 64 then Some (Json None cJSON_Invalid None 0 (Fin 0) []) else None)"
  by (simp add: cJSON_New_Item_def)

lemma string_wf: "item_wf (cJSON_CreateString al s)"
  by (auto simp: cJSON_CreateString_def cJSON_strdup_def new_item_eq item_wf_def split: option.splits bind_splits)

lemma number_wf: "item_wf (number_item al q)"
  by (simp add: number_item_def with_number_def int_of_double_def new_item_eq item_wf_def)

lemma any_number_wf: "cJSON_CreateNumber al x = Some v \<Longrightarrow> item_wf v"
  by (auto simp: cJSON_CreateNumber_def with_number_def new_item_eq item_wf_def split: option.splits if_splits)

lemma named_wf [simp]: "json_wf (named k j) = json_wf j" "js_name (named k j) = Some k"
  by (cases j; simp add: named_def)+

abbreviation object_with :: "fp json list \<Rightarrow> fp json" where
  "object_with cs \<equiv> Json None cJSON_Object None 0 (Fin 0) cs"

lemma object_created: "cJSON_CreateObject al = (if malloc al 64 then Some (object_with []) else None)"
  by (simp add: cJSON_CreateObject_def new_item_eq with_type_def)

abbreviation members :: "(string \<times> fp json) list \<Rightarrow> fp json list" where
  "members kjs \<equiv> map (\<lambda>(k, j). named (bytes_of k) j) kjs"

text \<open>An entry whose item is well-formed whatever is allocated.\<close>

definition entry_wf :: "(mallocs \<Rightarrow> fp json option) \<Rightarrow> bool" where
  "entry_wf v \<longleftrightarrow> (\<forall>al. item_wf (v al))"

lemma object_fold:
  "distinct (map fst kjs @ map fst kvs) \<Longrightarrow> list_all lower_key (map fst kjs @ map fst kvs) \<Longrightarrow>
   list_all json_wf (map snd kjs) \<Longrightarrow> list_all entry_wf (map snd kvs) \<Longrightarrow>
   \<exists>kjs'. fill_object al i (Some (object_with (members kjs))) kvs = Some (object_with (members kjs'))
     \<and> distinct (map fst kjs') \<and> list_all lower_key (map fst kjs') \<and> list_all json_wf (map snd kjs')"
proof (induction kvs arbitrary: kjs i)
  case Nil
  then show ?case by auto
next
  case (Cons kv kvs)
  obtain k v where kv: "kv = (k, v)" by (cases kv)
  let ?add = "cJSON_AddItemToObject (call (i + 1) al) (Some (object_with (members kjs))) (bytes_of k) (v (call i al))"
  have wf: "item_wf (v (call i al))" using Cons.prems(4) kv by (simp add: entry_wf_def)
  have *: "?add = Some (object_with (members kjs))
    \<or> (\<exists>j. v (call i al) = Some j \<and> ?add = Some (object_with (members (kjs @ [(k, j)]))))"
    by (auto simp: cJSON_AddItemToObject_def cJSON_strdup_def add_child_def split: option.splits)
  show ?case
    using *
  proof (elim disjE exE conjE)
    assume "?add = Some (object_with (members kjs))"
    then show ?thesis using Cons.IH [of kjs] Cons.prems kv by simp
  next
    fix j
    assume j: "v (call i al) = Some j" "?add = Some (object_with (members (kjs @ [(k, j)])))"
    then show ?thesis
      using Cons.IH [of "kjs @ [(k, j)]"] Cons.prems kv wf by (simp add: item_wf_def)
  qed
qed

lemma no_object: "fill_object al i None kvs = None"
  by (induction kvs arbitrary: i) (auto simp: cJSON_AddItemToObject_def)

lemma members_keys: "list_all lower_key (map fst kjs) \<Longrightarrow> map same_key (members kjs) = map bytes_of (map fst kjs)"
  by (induction kjs) (auto simp: same_key_def lower_key_law)

lemma object_wf:
  assumes "keys_ok kvs" "list_all entry_wf (map snd kvs)"
  shows "item_wf (object_of kvs al)"
proof (cases "malloc (call 0 al) 64")
  case True
  have "distinct (map fst [] @ map fst kvs)" "list_all lower_key (map fst [] @ map fst kvs)"
    using assms(1) by (auto simp: keys_ok_def list_all_iff)
  from object_fold [OF this, of al 1] assms(2) True obtain kjs where o: "object_of kvs al = Some (object_with (members kjs))"
    and k: "distinct (map fst kjs)" "list_all lower_key (map fst kjs)" "list_all json_wf (map snd kjs)"
    by (simp add: object_of_def object_created) blast
  have "distinct (map same_key (members kjs))"
    unfolding members_keys [OF k(2)] by (subst distinct_map) (auto simp: k(1) inj_on_def bytes_of_inj)
  moreover have "list_all (\<lambda>c. js_name c \<noteq> None) (members kjs)" "\<forall>c \<in> set (members kjs). json_wf c"
    using k(3) by (induction kjs) auto
  ultimately show ?thesis unfolding o item_wf_def by simp
next
  case False
  then show ?thesis by (simp add: object_of_def object_created no_object item_wf_def)
qed

definition is_array :: "fp json option \<Rightarrow> bool" where
  "is_array a \<longleftrightarrow> (case a of None \<Rightarrow> True | Some j \<Rightarrow> json_wf j \<and> js_name j = None \<and> js_type j = cJSON_Array)"

lemma add_child_array:
  "json_wf a \<Longrightarrow> js_type a = cJSON_Array \<Longrightarrow> json_wf v \<Longrightarrow> js_name v = None \<Longrightarrow>
   json_wf (add_child a v) \<and> js_type (add_child a v) = cJSON_Array \<and> js_name (add_child a v) = js_name a"
  by (cases a) (simp add: add_child_def)

lemma array_wf:
  assumes "list_all entry_wf vs"
  shows "item_wf (array_of vs al)"
proof -
  have "is_array (fill_array al i a vs)" if "is_array a" for a i
    using that assms
  proof (induction vs arbitrary: a i)
    case (Cons v vs)
    have "item_wf (v (call i al))" using Cons.prems(2) by (simp add: entry_wf_def)
    then have "is_array (cJSON_AddItemToArray a (v (call i al)))"
      using Cons.prems(1) add_child_array
      by (auto simp: cJSON_AddItemToArray_def is_array_def item_wf_def split: option.splits)
    then show ?case using Cons by simp
  qed simp
  moreover have "is_array (cJSON_CreateArray (call 0 al))"
    by (simp add: cJSON_CreateArray_def new_item_eq with_type_def is_array_def)
  ultimately have "is_array (array_of vs al)" by (simp add: array_of_def)
  then show ?thesis by (cases "array_of vs al") (simp_all add: is_array_def item_wf_def)
qed

named_theorems json_sections

lemma entries_wf [json_sections]:
  "keys_ok kvs \<Longrightarrow> list_all entry_wf (map snd kvs) \<Longrightarrow> entry_wf (object_of kvs)"
  "list_all entry_wf vs \<Longrightarrow> entry_wf (array_of vs)"
  "entry_wf (\<lambda>al. cJSON_CreateString al s)"
  "entry_wf (dbl q)"
  by (simp_all add: entry_wf_def object_wf array_wf string_wf number_wf)

lemmas key_ok = keys_ok_def lower_key_def

lemma all_some_wf: "all_some xs = Some ys \<Longrightarrow> (\<And>v. Some v \<in> set xs \<Longrightarrow> P v) \<Longrightarrow> list_all P ys \<and> length ys = length xs"
  by (induction xs arbitrary: ys) (auto split: bind_splits)

lemma cpu_entry_wf: "entry_wf (cpu_entry_json c)"
  unfolding cpu_entry_json_def by (rule entries_wf) (simp_all add: key_ok json_sections)

lemma cpu_time_wf: "entry_wf (cpu_time_json t)"
  unfolding cpu_time_json_def by (rule entries_wf) (simp_all add: key_ok json_sections)

lemma cpu_wf: "entry_wf (cpu_json cpus st la)"
  unfolding cpu_json_def by (rule entries_wf) (simp_all add: key_ok json_sections cpu_time_wf cpu_entry_wf list_all_iff)

lemma ram_wf: "entry_wf (ram_json R m)"
  unfolding ram_json_def by (rule entries_wf) (simp_all add: key_ok json_sections)

lemma disk_wf: "entry_wf (disk_json R d)"
  unfolding disk_json_def by (rule entries_wf) (simp_all add: key_ok json_sections)

lemma net_round_wf: "entry_wf (net_round_json R n)"
  unfolding net_round_json_def by (rule entries_wf) (simp_all add: key_ok json_sections)

lemma net_wf: "net_json al R b = Some v \<Longrightarrow> item_wf v"
  by (auto simp: net_json_def key_ok json_sections net_round_wf entry_wf_def [of "\<lambda>_. v" for v]
      dest!: any_number_wf intro!: object_wf split: bind_splits)

lemma uts_wf: "entry_wf (uts_json u)"
  unfolding uts_json_def by (rule entries_wf) (simp_all add: key_ok json_sections)

lemma process_wf: "entry_wf (process_json p)"
  unfolding process_json_def by (rule entries_wf) (simp_all add: key_ok json_sections)

lemma node_wf: "node_json nd = Some v \<Longrightarrow> entry_wf v"
  by (auto simp: node_json_def key_ok json_sections intro!: entries_wf(1) split: bind_splits)

lemma bios_wf: "bios_json hb = Some v \<Longrightarrow> entry_wf v"
  by (auto simp: bios_json_def key_ok json_sections intro!: entries_wf(1) split: bind_splits)

lemma system_wf: "system_json hs = Some v \<Longrightarrow> entry_wf v"
  by (auto simp: system_json_def key_ok json_sections intro!: entries_wf(1) split: bind_splits)

lemma board_wf: "board_json hb = Some v \<Longrightarrow> entry_wf v"
  by (auto simp: board_json_def key_ok json_sections intro!: entries_wf(1) split: bind_splits)

text \<open>C24: whichever calls of \<open>malloc\<close> fail, in whatever combination, a package that is made is a well-formed document: what could
  not be allocated is missing, and nothing else.\<close>

theorem package_wf:
  assumes "make_json_package al R nd hw cpus st la ram disks bws procs = Some (Some j)"
  shows "json_wf j"
proof -
  obtain node bios sys board infos nets where
    n: "node_json nd = Some node" and b: "bios_json (fst hw) = Some bios" and s: "system_json (fst (snd hw)) = Some sys"
    and d: "board_json (snd (snd hw)) = Some board"
    and t: "all_some (map (\<lambda>(i, b). net_json (call i (call 0 al)) R b) (enumerate 0 bws)) = Some nets"
    and j: "object_of [(''version'', dbl (sarah_version R)), (''node'', node),
        (''hd_bios'', bios), (''hd_sys'', sys), (''hd_board'', board),
        (''cpu'', cpu_json infos st la), (''ram'', ram_json R ram),
        (''disk'', array_of (map (disk_json R) disks)), (''network'', array_of (map (\<lambda>n _. n) nets)),
        (''system'', uts_json (nd_kernel_info nd)), (''process'', array_of (map process_json procs))] (call 1 al) = Some j"
    using assms by (auto simp: make_json_package_def split: bind_splits prod.splits)
  have "item_wf v" if "Some v \<in> set (map (\<lambda>(i, b). net_json (call i (call 0 al)) R b) (enumerate 0 bws))" for v
    using that net_wf by (auto simp: image_iff dest: sym)
  from all_some_wf [where P = item_wf, OF t this] have "list_all entry_wf (map (\<lambda>n _. n) nets)" by (simp add: list_all_iff entry_wf_def)
  then have "item_wf (Some j)"
    unfolding j [symmetric]
    by (intro object_wf) (simp_all add: key_ok json_sections list_all_iff disk_wf process_wf node_wf [OF n] bios_wf [OF b]
      system_wf [OF s] board_wf [OF d] cpu_wf ram_wf uts_wf)
  then show ?thesis by (simp add: item_wf_def)
qed

section \<open>Look-up in the package\<close>

text \<open>With enough memory an object has a member for every item that is not null.\<close>

fun present :: "entry list \<Rightarrow> (string \<times> fp json) list" where
  "present [] = []"
| "present ((k, v) # kvs) = (case v plenty of None \<Rightarrow> present kvs | Some j \<Rightarrow> (k, j) # present kvs)"

lemma object_full: "object_of kvs plenty = Some (object_with (members (present kvs)))"
proof -
  have "fill_object plenty i (Some (object_with cs)) kvs = Some (object_with (cs @ members (present kvs)))" for cs i
    by (induction kvs arbitrary: cs i rule: present.induct)
      (auto simp: cJSON_AddItemToObject_def cJSON_strdup_def add_child_def split: option.splits)
  from this [of 1 "[]"] show ?thesis by (simp add: object_of_def object_created)
qed

lemma array_full:
  assumes "\<And>x. x \<in> set xs \<Longrightarrow> \<exists>y. g x plenty = Some y"
  shows "array_of (map g xs) plenty = Some (Json None cJSON_Array None 0 (Fin 0) (map (\<lambda>x. the (g x plenty)) xs))"
proof -
  have "fill_array plenty i (Some (Json None cJSON_Array None 0 (Fin 0) cs)) (map g xs)
      = Some (Json None cJSON_Array None 0 (Fin 0) (cs @ map (\<lambda>x. the (g x plenty)) xs))" for cs i
    using assms by (induction xs arbitrary: cs i) (force simp: cJSON_AddItemToArray_def add_child_def)+
  from this [of 1 "[]"] show ?thesis by (simp add: array_of_def cJSON_CreateArray_def new_item_eq with_type_def)
qed

lemma find_member:
  "list_all lower_key (map fst kjs) \<Longrightarrow> lower_key k \<Longrightarrow>
   find_item (members kjs) (bytes_of k) = map_option (named (bytes_of k)) (map_of kjs k)"
  by (induction kjs) (auto simp: lower_key_law bytes_of_inj)

lemma present_keys: "list_all lower_key (map fst kvs) \<Longrightarrow> list_all lower_key (map fst (present kvs))"
  by (induction kvs rule: present.induct) (auto split: option.splits)

lemma present_map: "distinct (map fst kvs) \<Longrightarrow> map_of (present kvs) k = (case map_of kvs k of None \<Rightarrow> None | Some v \<Rightarrow> v plenty)"
proof (induction kvs rule: present.induct)
  case (2 k' v kvs)
  then have "map_of kvs k' = None" by (simp add: map_of_eq_None_iff)
  with 2 show ?case by (cases "v plenty"; cases "k = k'") simp_all
qed simp

text \<open>The look-up in an object that was just filled, and in one that got a name itself.\<close>

definition look :: "fp json option \<Rightarrow> string \<Rightarrow> fp json option" where
  "look j k = cJSON_GetObjectItem j (bytes_of k)"

lemma look_object:
  "keys_ok kvs \<Longrightarrow> lower_key k \<Longrightarrow>
   look (object_of kvs plenty) k = (case map_of kvs k of None \<Rightarrow> None | Some v \<Rightarrow> map_option (named (bytes_of k)) (v plenty))"
proof -
  assume k: "keys_ok kvs" "lower_key k"
  then have "distinct (map fst kvs)" "list_all lower_key (map fst (present kvs))"
    using present_keys [of kvs] by (simp_all add: keys_ok_def list.pred_map comp_def)
  with find_member [OF _ k(2), of "present kvs"] show ?thesis
    by (simp add: look_def object_full cJSON_GetObjectItem_def present_map split: option.split)
qed

lemma look_named [simp]: "look (map_option (named n) j) k = look j k"
  by (cases j) (auto simp: look_def cJSON_GetObjectItem_def named_def)

definition look_text :: "fp json option \<Rightarrow> string \<Rightarrow> bytes option" where
  "look_text j k = (case look j k of None \<Rightarrow> None | Some i \<Rightarrow> js_string i)"

definition look_num :: "fp json option \<Rightarrow> string \<Rightarrow> fp option" where
  "look_num j k = (case look j k of None \<Rightarrow> None | Some i \<Rightarrow> if js_type i = cJSON_Number then Some (js_num i) else None)"

definition entries :: "fp json option \<Rightarrow> string \<Rightarrow> fp json list" where
  "entries j k = (case look j k of None \<Rightarrow> [] | Some i \<Rightarrow> js_child i)"

text \<open>An object has these texts and these numbers under these names.\<close>

definition says :: "fp json option \<Rightarrow> (string \<times> bytes) list \<Rightarrow> (string \<times> fp) list \<Rightarrow> bool" where
  "says j ts ns \<longleftrightarrow> map (look_text j \<circ> fst) ts = map (Some \<circ> snd) ts \<and> map (look_num j \<circ> fst) ns = map (Some \<circ> snd) ns"

lemma look_field_named [simp]:
  "look_text (map_option (named n) j) k = look_text j k" "look_num (map_option (named n) j) k = look_num j k"
  by (simp_all add: look_text_def look_num_def)

lemma says_named [simp]: "says (map_option (named n) j) ts ns = says j ts ns"
  by (simp add: says_def look_text_def look_num_def comp_def)

lemma look_text_object:
  "keys_ok kvs \<Longrightarrow> lower_key k \<Longrightarrow> look_text (object_of kvs plenty) k
   = (case map_of kvs k of None \<Rightarrow> None | Some v \<Rightarrow> (case v plenty of None \<Rightarrow> None | Some i \<Rightarrow> js_string i))"
  by (simp add: look_text_def look_object named_def split: option.split)

lemma look_num_object:
  "keys_ok kvs \<Longrightarrow> lower_key k \<Longrightarrow> look_num (object_of kvs plenty) k
   = (case map_of kvs k of None \<Rightarrow> None | Some v \<Rightarrow>
       (case v plenty of None \<Rightarrow> None | Some i \<Rightarrow> if js_type i = cJSON_Number then Some (js_num i) else None))"
  by (simp add: look_num_def look_object named_def split: option.split)

lemma entries_object:
  "keys_ok kvs \<Longrightarrow> lower_key k \<Longrightarrow> entries (object_of kvs plenty) k
   = (case map_of kvs k of None \<Rightarrow> [] | Some v \<Rightarrow> (case v plenty of None \<Rightarrow> [] | Some i \<Rightarrow> js_child i))"
  by (simp add: entries_def look_object named_def split: option.split)

lemma items_full:
  "cJSON_CreateString plenty (Some s) = Some (Json None cJSON_String (Some s) 0 (Fin 0) [])"
  "cJSON_CreateString plenty None = None"
  "number_item plenty q = Some (Json None cJSON_Number None (saturated q) (Fin q) [])"
  by (simp_all add: cJSON_CreateString_def cJSON_strdup_def number_item_def with_number_def new_item_eq)

lemmas key_eval = key_ok items_full

lemma says_object:
  assumes "keys_ok kvs" "list_all lower_key (map fst ts)" "list_all lower_key (map fst ns)"
    and "map (\<lambda>(k, _). case map_of kvs k of None \<Rightarrow> None | Some v \<Rightarrow> (case v plenty of None \<Rightarrow> None | Some i \<Rightarrow> js_string i)) ts
      = map (Some \<circ> snd) ts"
    and "map (\<lambda>(k, _). case map_of kvs k of None \<Rightarrow> None | Some v \<Rightarrow> (case v plenty of None \<Rightarrow> None | Some i \<Rightarrow>
        if js_type i = cJSON_Number then Some (js_num i) else None)) ns = map (Some \<circ> snd) ns"
  shows "says (object_of kvs plenty) ts ns"
proof -
  have "map (look_text (object_of kvs plenty) \<circ> fst) ts = map (Some \<circ> snd) ts"
    unfolding assms(4) [symmetric] using assms(2) look_text_object [OF assms(1)] by (auto simp: list_all_iff)
  moreover have "map (look_num (object_of kvs plenty) \<circ> fst) ns = map (Some \<circ> snd) ns"
    unfolding assms(5) [symmetric] using assms(3) look_num_object [OF assms(1)] by (auto simp: list_all_iff)
  ultimately show ?thesis by (simp add: says_def)
qed

lemma all_some_map: "all_some (map f xs) = Some ys \<Longrightarrow> map f xs = map Some ys"
  by (induction xs arbitrary: ys) (auto split: bind_splits)

lemma object_there: "\<exists>j. object_of kvs plenty = Some j"
  by (simp add: object_full)

section \<open>What the sections say\<close>

abbreviation whole :: "nat \<Rightarrow> fp" where
  "whole n \<equiv> Fin (rat_of_nat n)"

abbreviation whole64 :: "rounding \<Rightarrow> nat \<Rightarrow> fp" where
  "whole64 R n \<equiv> Fin (r_double R (rat_of_nat n))"

definition node_says :: "monitored \<Rightarrow> fp json option \<Rightarrow> bool" where
  "node_says nd j \<longleftrightarrow> says j [(''id'', cstr (nd_node_id nd))]
     [(''created_at'', whole (unat (nd_created_at nd))), (''last_boot_at'', whole (unat (nd_last_boot_at nd))),
      (''interval'', whole (unat (nd_interval nd))), (''last_stat_begin'', whole (nd_last_stat_begin nd)),
      (''last_stat_end'', whole (nd_last_stat_end nd))]
     \<and> look_text j ''storage_media'' = nd_base_dir nd"

definition bios_says :: "hd_bios \<Rightarrow> fp json option \<Rightarrow> bool" where
  "bios_says hb j \<longleftrightarrow> says j
     [(''vendor'', cstr (hb_vendor hb)), (''version'', cstr (hb_version hb)), (''r_date'', cstr (hb_release_date hb))]
     [(''run_size'', whole (hb_runtime_size hb)), (''rom_size'', whole (hb_rom_size hb))]"

definition system_says :: "hd_system \<Rightarrow> fp json option \<Rightarrow> bool" where
  "system_says hs j \<longleftrightarrow> says j
     [(''manufacturer'', cstr (hs_manufacturer hs)), (''pro_name'', cstr (hs_product_name hs)),
      (''version'', cstr (hs_version hs)), (''serial_no'', cstr (hs_serial_no hs)), (''uuid'', cstr (hs_uuid hs))] []"

definition board_says :: "hd_board \<Rightarrow> fp json option \<Rightarrow> bool" where
  "board_says b j \<longleftrightarrow> says j
     [(''manufacturer'', cstr (hd_manufacturer b)), (''pro_name'', cstr (hd_product_name b)),
      (''version'', cstr (hd_version b)), (''serial_no'', cstr (hd_serial_no b))] []"

definition cpu_says :: "cpu_info \<Rightarrow> fp json option \<Rightarrow> bool" where
  "cpu_says c j \<longleftrightarrow> says j [(''vendor_id'', ci_vendor_id c), (''model_name'', ci_model_name c)]
     [(''model'', whole (ci_model c)), (''mhz'', Fin (ci_mhz c)), (''cache_size'', whole (ci_cache_size c)),
      (''physical_id'', whole (ci_physical_id c)), (''core_id'', whole (ci_core_id c)), (''cores'', whole (ci_cores c))]"

definition time_says :: "cpu_time \<Rightarrow> fp json option \<Rightarrow> bool" where
  "time_says t j \<longleftrightarrow> says j [(''name'', ct_name t)]
     [(''user'', whole (ct_user t)), (''nice'', whole (ct_nice t)), (''system'', whole (ct_system t)), (''idle'', whole (ct_idle t))]"

definition stat_says :: "cpu_stat \<Rightarrow> cpu_loadavg \<Rightarrow> fp json option \<Rightarrow> bool" where
  "stat_says st la j \<longleftrightarrow> time_says (cs_round_1 st) (look j ''round_1'') \<and> time_says (cs_round_2 st) (look j ''round_2'')
     \<and> look_num j ''load_avg'' = Some (Fin (cs_load_avg st))
     \<and> says (look j ''sys_loadavg'') [] [(''t_1m'', Fin (la_1m la)), (''t_5m'', Fin (la_5m la)), (''t_15m'', Fin (la_15m la))]"

definition ram_says :: "rounding \<Rightarrow> ram_stat \<Rightarrow> fp json option \<Rightarrow> bool" where
  "ram_says R m j \<longleftrightarrow> says j []
     [(''total'', whole64 R (rm_total m)), (''free'', whole64 R (rm_free m)), (''available'', whole64 R (rm_available m))]"

definition disk_says :: "rounding \<Rightarrow> disk \<Rightarrow> fp json option \<Rightarrow> bool" where
  "disk_says R d j \<longleftrightarrow> says j
     [(''wwn'', dk_wwn d), (''serial_no'', dk_serial_no d), (''model'', dk_model d), (''name'', dk_name d),
      (''format'', dk_format d), (''mount'', dk_mount d)]
     [(''pt_no'', Fin (rat_of_int (dk_part_no d))), (''p_start'', whole64 R (dk_p_start d)),
      (''p_blocks'', whole64 R (dk_p_blocks d)), (''p_size'', whole64 R (dk_p_size d)), (''inode'', whole64 R (dk_inode d)),
      (''ifree'', whole64 R (dk_ifree d)), (''size'', whole64 R (dk_size d)), (''free'', whole64 R (dk_free d))]"

definition round_says :: "rounding \<Rightarrow> net_stat \<Rightarrow> fp json option \<Rightarrow> bool" where
  "round_says R n j \<longleftrightarrow> says j []
     [(''receive'', whole64 R (nt_receive n)), (''r_packets'', whole64 R (nt_r_packets n)),
      (''transmit'', whole64 R (nt_transmit n)), (''t_packets'', whole64 R (nt_t_packets n))]"

definition net_says :: "rounding \<Rightarrow> bandwidth \<Rightarrow> fp json option \<Rightarrow> bool" where
  "net_says R b j \<longleftrightarrow> says j
     [(''name'', nt_device (bd_round_1 b)), (''hd_addr'', sarah_hardware_addr_print (nt_hd_addr (bd_round_1 b)))]
     [(''incoming'', bd_incoming b), (''outgoing'', bd_outgoing b)]
     \<and> round_says R (bd_round_1 b) (look j ''round_1'') \<and> round_says R (bd_round_2 b) (look j ''round_2'')"

definition uts_says :: "utsname \<Rightarrow> fp json option \<Rightarrow> bool" where
  "uts_says u j \<longleftrightarrow> says j
     [(''pre_def'', bytes_of ''Linux''), (''sys_name'', ut_sysname u), (''node_name'', ut_nodename u),
      (''release'', ut_release u), (''version'', ut_version u), (''machine'', ut_machine u)] []"

definition process_says :: "process \<Rightarrow> fp json option \<Rightarrow> bool" where
  "process_says p j \<longleftrightarrow> says j
     [(''user'', ps_user p), (''tty'', ps_tty p), (''stat'', ps_status p), (''start'', ps_start p), (''time'', ps_time p),
      (''cmd'', ps_command p)]
     [(''pid'', whole (ps_pid p)), (''cpu'', Fin (ps_cpu_percent p)), (''mem'', Fin (ps_mem_percent p)),
      (''vsz'', whole (ps_vir_mem p)), (''rss'', whole (ps_rss_mem p))]"

lemma node_told: "node_json nd = Some v \<Longrightarrow> node_says nd (v plenty)"
  by (cases "nd_base_dir nd")
    (auto simp: node_json_def node_says_def text_of_def look_text_object key_eval split: bind_splits if_splits intro!: says_object)

lemma bios_told: "bios_json hb = Some v \<Longrightarrow> bios_says hb (v plenty)"
  by (auto simp: bios_json_def bios_says_def text_of_def key_eval split: bind_splits if_splits intro!: says_object)

lemma system_told: "system_json hs = Some v \<Longrightarrow> system_says hs (v plenty)"
  by (auto simp: system_json_def system_says_def text_of_def key_eval split: bind_splits if_splits intro!: says_object)

lemma board_told: "board_json b = Some v \<Longrightarrow> board_says b (v plenty)"
  by (auto simp: board_json_def board_says_def text_of_def key_eval split: bind_splits if_splits intro!: says_object)

lemma cpu_told: "cpu_says c (cpu_entry_json c plenty)"
  unfolding cpu_entry_json_def cpu_says_def by (rule says_object) (simp_all add: key_eval)

lemma time_told: "time_says t (cpu_time_json t plenty)"
  unfolding cpu_time_json_def time_says_def by (rule says_object) (simp_all add: key_eval)

lemma time_says_named [simp]: "time_says t (map_option (named n) j) = time_says t j"
  by (simp add: time_says_def)

lemma ram_told: "ram_says R m (ram_json R m plenty)"
  unfolding ram_json_def ram_says_def by (rule says_object) (simp_all add: key_eval)

lemma disk_told: "disk_says R d (disk_json R d plenty)"
  unfolding disk_json_def disk_says_def by (rule says_object) (simp_all add: key_eval)

lemma round_told: "round_says R n (net_round_json R n plenty)"
  unfolding net_round_json_def round_says_def by (rule says_object) (simp_all add: key_eval)

lemma round_says_named [simp]: "round_says R t (map_option (named n) j) = round_says R t j"
  by (simp add: round_says_def)

lemma uts_told: "uts_says u (uts_json u plenty)"
  unfolding uts_json_def uts_says_def by (rule says_object) (simp_all add: key_eval)

lemma process_told: "process_says p (process_json p plenty)"
  unfolding process_json_def process_says_def by (rule says_object) (simp_all add: key_eval)

lemma net_told: "net_json plenty R b = Some v \<Longrightarrow> net_says R b v \<and> (\<exists>j. v = Some j)"
  by (auto simp: net_json_def net_says_def cJSON_CreateNumber_def with_number_def new_item_eq look_object key_eval round_told object_there
      split: bind_splits option.splits if_splits intro!: says_object)

lemma entries_told:
  assumes "\<And>x. x \<in> set xs \<Longrightarrow> P x (Some (f x))"
  shows "list_all2 (\<lambda>e x. P x (Some e)) (map f xs) xs"
  using assms by (induction xs) auto

lemma array_told:
  assumes "\<And>x. P x (g x plenty)" "\<And>x. \<exists>j. g x plenty = Some j"
  shows "\<exists>es. array_of (map g xs) plenty = Some (Json None cJSON_Array None 0 (Fin 0) es) \<and> list_all2 (\<lambda>e x. P x (Some e)) es xs"
proof -
  have "P x (Some (the (g x plenty)))" for x using assms [of x] by auto
  then show ?thesis using array_full [of xs g] assms(2) entries_told [of xs P "\<lambda>x. the (g x plenty)"] by auto
qed

lemma stat_told: "stat_says st la (look (cpu_json cpus st la plenty) ''stat'')"
  by (simp add: cpu_json_def stat_says_def look_object look_num_object key_eval time_told) (auto simp: key_eval intro!: says_object)

lemma cpus_told: "list_all2 (\<lambda>e c. cpu_says c (Some e)) (entries (cpu_json cpus st la plenty) ''list'') cpus"
proof -
  have "\<exists>j. cpu_entry_json c plenty = Some j" for c by (simp add: cpu_entry_json_def object_there)
  from array_told [of cpu_says cpu_entry_json cpus, OF cpu_told this]
  show ?thesis by (auto simp: cpu_json_def entries_object key_eval)
qed

lemma nets_told:
  assumes "map (\<lambda>(i, b). net_json (call i (call 0 plenty)) R b) (enumerate n bws) = map Some nets"
  shows "\<exists>es. nets = map Some es \<and> list_all2 (\<lambda>e b. net_says R b (Some e)) es bws"
  using assms
proof (induction bws arbitrary: nets n)
  case (Cons b bws)
  then obtain v vs where v: "nets = v # vs" "net_json plenty R b = Some v"
    "map (\<lambda>(i, b). net_json (call i (call 0 plenty)) R b) (enumerate (Suc n) bws) = map Some vs"
    by auto
  from Cons.IH [OF v(3)] obtain es where "vs = map Some es" "list_all2 (\<lambda>e b. net_says R b (Some e)) es bws" by blast
  with net_told [OF v(2)] v(1) show ?case by (auto intro!: exI [of _ "the v # es"])
qed simp

lemma ids_full: "array_of (map (\<lambda>n _. n) (map Some es)) plenty = Some (Json None cJSON_Array None 0 (Fin 0) es)"
  using array_full [of es "\<lambda>e _. Some e"] by (simp add: comp_def)

text \<open>C23: with enough memory and no rate that is NaN, every section is found by its name with all its fields: the version, the
  node, the three parts of the hardware, the processors and their load, the memory, the disks, the devices with both
  rounds, the kernel and the processes, those in lists one entry each in the order of the samples.\<close>

theorem package_contents:
  assumes "make_json_package plenty R nd hw cpus st la ram disks bws procs = Some pkg"
  shows "look_num pkg ''version'' = Some (Fin (sarah_version R))
    \<and> node_says nd (look pkg ''node'')
    \<and> bios_says (fst hw) (look pkg ''hd_bios'')
    \<and> system_says (fst (snd hw)) (look pkg ''hd_sys'')
    \<and> board_says (snd (snd hw)) (look pkg ''hd_board'')
    \<and> list_all2 (\<lambda>e c. cpu_says (the c) (Some e)) (entries (look pkg ''cpu'') ''list'') cpus
    \<and> stat_says st la (look (look pkg ''cpu'') ''stat'')
    \<and> ram_says R ram (look pkg ''ram'')
    \<and> list_all2 (\<lambda>e d. disk_says R d (Some e)) (entries pkg ''disk'') disks
    \<and> list_all2 (\<lambda>e b. net_says R b (Some e)) (entries pkg ''network'') bws
    \<and> uts_says (nd_kernel_info nd) (look pkg ''system'')
    \<and> list_all2 (\<lambda>e p. process_says p (Some e)) (entries pkg ''process'') procs"
proof -
  obtain node bios sys board infos nets where
    told: "node_json nd = Some node" "bios_json (fst hw) = Some bios" "system_json (fst (snd hw)) = Some sys"
      "board_json (snd (snd hw)) = Some board"
    and c: "all_some cpus = Some infos"
    and t: "all_some (map (\<lambda>(i, b). net_json (call i (call 0 plenty)) R b) (enumerate 0 bws)) = Some nets"
    and j: "pkg = object_of [(''version'', dbl (sarah_version R)), (''node'', node),
        (''hd_bios'', bios), (''hd_sys'', sys), (''hd_board'', board),
        (''cpu'', cpu_json infos st la), (''ram'', ram_json R ram),
        (''disk'', array_of (map (disk_json R) disks)), (''network'', array_of (map (\<lambda>n _. n) nets)),
        (''system'', uts_json (nd_kernel_info nd)), (''process'', array_of (map process_json procs))] plenty"
      (is "_ = object_of ?kvs plenty")
    using assms by (auto simp: make_json_package_def split: bind_splits prod.splits)
  have ok: "keys_ok ?kvs" by (simp add: key_eval)
  have found: "look_num pkg ''version'' = Some (Fin (sarah_version R))"
    "look pkg ''node'' = map_option (named (bytes_of ''node'')) (node plenty)"
    "look pkg ''hd_bios'' = map_option (named (bytes_of ''hd_bios'')) (bios plenty)"
    "look pkg ''hd_sys'' = map_option (named (bytes_of ''hd_sys'')) (sys plenty)"
    "look pkg ''hd_board'' = map_option (named (bytes_of ''hd_board'')) (board plenty)"
    "look pkg ''cpu'' = map_option (named (bytes_of ''cpu'')) (cpu_json infos st la plenty)"
    "look pkg ''ram'' = map_option (named (bytes_of ''ram'')) (ram_json R ram plenty)"
    "look pkg ''system'' = map_option (named (bytes_of ''system'')) (uts_json (nd_kernel_info nd) plenty)"
    unfolding j by (simp_all add: look_object [OF ok] look_num_object [OF ok] key_ok items_full)
  have listed: "entries pkg ''disk'' = (case array_of (map (disk_json R) disks) plenty of None \<Rightarrow> [] | Some i \<Rightarrow> js_child i)"
    "entries pkg ''network'' = (case array_of (map (\<lambda>n _. n) nets) plenty of None \<Rightarrow> [] | Some i \<Rightarrow> js_child i)"
    "entries pkg ''process'' = (case array_of (map process_json procs) plenty of None \<Rightarrow> [] | Some i \<Rightarrow> js_child i)"
    unfolding j by (simp_all add: entries_object [OF ok] key_ok)
  have "\<exists>j. disk_json R d plenty = Some j" "\<exists>j. process_json p plenty = Some j" for d p
    by (simp_all add: disk_json_def process_json_def object_there)
  note lists = array_told [of "disk_says R" "disk_json R" disks, OF disk_told this(1)]
    array_told [of process_says process_json procs, OF process_told this(2)]
  obtain es where nets: "nets = map Some es" "list_all2 (\<lambda>e b. net_says R b (Some e)) es bws"
    using nets_told [OF all_some_map [OF t]] by blast
  have cpus: "cpus = map Some infos" using all_some_map [of id cpus infos] c by simp
  note sections = node_told [OF told(1)] bios_told [OF told(2)] system_told [OF told(3)] board_told [OF told(4)]
  have named: "node_says nd (map_option (named n) v) = node_says nd v" "bios_says hb (map_option (named n) v) = bios_says hb v"
    "system_says hs (map_option (named n) v) = system_says hs v" "board_says hd (map_option (named n) v) = board_says hd v"
    "ram_says R m (map_option (named n) v) = ram_says R m v" "uts_says u (map_option (named n) v) = uts_says u v"
    "entries (map_option (named n) v) k = entries v k" for n v hb hs hd m u k
    by (simp_all add: node_says_def bios_says_def system_says_def board_says_def ram_says_def uts_says_def look_text_def entries_def)
  show ?thesis
    using sections lists nets ids_full [of es] cpus_told [of infos st la] stat_told [of st la infos] ram_told [of R ram]
      uts_told [of "nd_kernel_info nd"]
    by (auto simp: found listed named cpus list.rel_map)
qed

lemma all_some_made: "(\<And>x. x \<in> set xs \<Longrightarrow> \<exists>y. f x = Some y) \<Longrightarrow> \<exists>ys. all_some (map f xs) = Some ys"
  by (induction xs) fastforce+

lemma package_made:
  assumes "0 \<in> set (nd_node_id nd)" "None \<notin> set cpus" "\<And>b. b \<in> set bws \<Longrightarrow> bd_incoming b \<noteq> NaN \<and> bd_outgoing b \<noteq> NaN"
  shows "\<exists>pkg. make_json_package al R nd (sarah_hd_bios_init, sarah_hd_system_init, sarah_hd_board_init) cpus st la ram disks bws procs
    = Some pkg"
proof -
  have "\<exists>v. net_json al' R b = Some v" if "b \<in> set bws" for b al'
    using assms(3) [OF that] by (cases "bd_incoming b"; cases "bd_outgoing b") (auto simp: net_json_def cJSON_CreateNumber_def int_of_double_def)
  then have "\<exists>v. (\<lambda>(i, b). net_json (call i (call 0 al)) R b) x = Some v" if "x \<in> set (enumerate 0 bws)" for x
  proof -
    have "snd x \<in> set bws" using that by (metis imageI list.set_map map_snd_enumerate)
    then show ?thesis using \<open>\<And>b al'. b \<in> set bws \<Longrightarrow> \<exists>v. net_json al' R b = Some v\<close> by (cases x) simp
  qed
  then obtain nets where "all_some (map (\<lambda>(i, b). net_json (call i (call 0 al)) R b) (enumerate 0 bws)) = Some nets"
    using all_some_made by blast
  moreover have "\<exists>infos. all_some cpus = Some infos"
    using assms(2) all_some_made [of cpus id] by (metis id_apply list.map_id not_None_eq)
  ultimately show ?thesis
    using assms(1) by (auto simp: make_json_package_def node_json_def bios_json_def system_json_def board_json_def text_of_def
      sarah_hd_bios_init_def sarah_hd_system_init_def sarah_hd_board_init_def)
qed

section \<open>A sample\<close>

definition sample_monitored :: monitored where
  "sample_monitored = node.extend zero_node
     \<lparr>nd_last_stat_begin = 1, nd_last_stat_end = 2,
      nd_kernel_info = \<lparr>ut_sysname = [], ut_nodename = [], ut_release = [], ut_version = [], ut_machine = []\<rparr>\<rparr>"

definition sample_round :: net_stat where
  "sample_round = \<lparr>nt_receive = 7, nt_r_packets = 1, nt_transmit = 9, nt_t_packets = 2, nt_hd_addr = replicate 6 0,
     nt_device = bytes_of ''eth0''\<rparr>"

definition sample_stat :: cpu_stat where
  "sample_stat = (let t = \<lparr>ct_user = 1, ct_nice = 0, ct_system = 0, ct_idle = 1, ct_name = bytes_of ''cpu''\<rparr>
     in \<lparr>cs_round_1 = t, cs_round_2 = t, cs_load_avg = 0\<rparr>)"

definition sample_package :: "fp json option option" where
  "sample_package = make_json_package plenty \<lparr>r_float = id, r_double = id, r_long = id\<rparr> sample_monitored
     (sarah_hd_bios_init, sarah_hd_system_init, sarah_hd_board_init) [] sample_stat \<lparr>la_1m = 0, la_5m = 0, la_15m = 0\<rparr>
     \<lparr>rm_total = 3, rm_free = 2, rm_available = 1\<rparr> []
     [\<lparr>bd_round_1 = sample_round, bd_round_2 = sample_round, bd_incoming = Fin 0, bd_outgoing = Fin 0\<rparr>] []"

lemma sample_made: "\<exists>j. sample_package = Some (Some j)"
  by (simp add: sample_package_def make_json_package_def node_json_def bios_json_def system_json_def board_json_def text_of_def
      sample_monitored_def node.defs zero_node_def sarah_hd_bios_init_def sarah_hd_system_init_def sarah_hd_board_init_def
      net_json_def cJSON_CreateNumber_def int_of_double_def object_there)

lemma package_wf_witness: "\<exists>j. sample_package = Some (Some j) \<and> json_wf j"
proof -
  obtain j where j: "sample_package = Some (Some j)" using sample_made by blast
  then show ?thesis using package_wf [OF j [unfolded sample_package_def]] by blast
qed

lemma package_contents_witness:
  "map_option (\<lambda>pkg. list_all2 (\<lambda>e b. net_says \<lparr>r_float = id, r_double = id, r_long = id\<rparr> b (Some e)) (entries pkg ''network'')
       [\<lparr>bd_round_1 = sample_round, bd_round_2 = sample_round, bd_incoming = Fin 0, bd_outgoing = Fin 0\<rparr>]
     \<and> uts_says (nd_kernel_info sample_monitored) (look pkg ''system'')) sample_package = Some True"
proof -
  obtain j where j: "sample_package = Some (Some j)" using sample_made by blast
  show ?thesis using package_contents [OF j [unfolded sample_package_def]] unfolding j option.map by blast
qed

end
