(* ===== verification/Collector.thy ===== *)
theory Collector
  imports Package CelMd5 Booter Smartdisk JsonTrip "HOL-Library.Sublist"
begin

text \<open>
  The collector application of \<open>src/main/app_collector.c\<close>: its upload entry, the bandwidth of two network
  samples, the upload of a package and the round of the main loop.

  A round gets what its system calls read and deliver as a record.  The listing of the disks is an input, a
  list of entries.  The round returns the new state, what it uploaded and whether the loop ends or sleeps; a run keeps
  with each upload what its round read.  HTTP headers and console output are left out; lengths of strings are taken to
  be below \<open>2 ^ 32\<close>.

  Shown: an upload rewrites the address in place with the time and the signature of the package and judges the
  reply to this upload alone; the samples of a round reach its package, and the next round starts from the sample
  taken after the upload with every list empty.
\<close>

section \<open>The upload entry\<close>

record collector =
  co_api_url :: "bytes option"
  co_seed_offset :: nat
  co_sign_offset :: nat
  co_strbuff :: "strbuff option"

definition collector_post_url :: bytes where
  "collector_post_url = bytes_of ''http://sarah.grandhelmsman.com/api/collector/post''"

text \<open>The address as \<open>sprintf\<close> writes it; afterwards its last character is overwritten by a NUL.\<close>

definition sarah_collector_init :: "(nat \<Rightarrow> bool) \<Rightarrow> bytes option \<Rightarrow> (collector \<times> nat) option" where
  "sarah_collector_init al app_key = do {
     key \<leftarrow> app_key;
     let url_len = length collector_post_url + length (bytes_of ''?app_key='') + length key + length (bytes_of ''&seed='');
     let co = \<lparr>co_api_url = None, co_seed_offset = url_len, co_sign_offset = 0, co_strbuff = None\<rparr>;
     let url_len = url_len + 10 + length (bytes_of ''&sign='');
     let co = co\<lparr>co_sign_offset := url_len\<rparr>;
     let url_len = url_len + 32;
     (if \<not> al (url_len + 1) then Some (co, 1)
      else do {
        let url = collector_post_url @ bytes_of ''?app_key='' @ key @ bytes_of ''&seed='' @ ten_digits 0 @ bytes_of ''&sign=''
          @ bytes_of ''7f9106d9a1fa6d0f3550cc1783342638'';
        api_url \<leftarrow> blit (replicate (url_len + 1) 0) 0 (url @ [0]) (length url + 1);
        api_url \<leftarrow> wr api_url (url_len - 1) 0;
        let co = co\<lparr>co_api_url := Some api_url\<rparr>;
        (case new_cel_strbuff_opacity al 256 of
           Inl _ \<Rightarrow> Some (co, 2)
         | Inr sb \<Rightarrow> Some (co\<lparr>co_strbuff := Some sb\<rparr>, 0)) }) }"

definition sarah_collector_destroy :: "collector \<Rightarrow> collector" where
  "sarah_collector_destroy co = co\<lparr>co_api_url := None, co_strbuff := None\<rparr>"

section \<open>Bandwidth\<close>

definition cal_bandwidth_stat ::
  "(nat \<Rightarrow> bool) \<Rightarrow> rounding \<Rightarrow> bandwidth list \<Rightarrow> net_stat list \<Rightarrow> net_stat list \<Rightarrow> rat \<Rightarrow> bandwidth list option" where
  "cal_bandwidth_stat al R list l1 l2 cost_secs =
     bandwidth_loop al (\<lambda>n1 n2. (rate R (diff64 (nt_receive n2) (nt_receive n1)) cost_secs,
       rate R (diff64 (nt_transmit n2) (nt_transmit n1)) cost_secs)) list l1 l2"

section \<open>The upload\<close>

record upload =
  up_curl :: bool
  up_sec :: nat
  up_chunks :: "bytes list"
  up_perform :: bool
  up_code :: int
  up_round :: "rat \<Rightarrow> rat"

definition upload_errno :: "fp json option \<Rightarrow> int" where
  "upload_errno j = (case j of None \<Rightarrow> 4 | Some j \<Rightarrow>
     (case cJSON_GetObjectItem (Some j) (bytes_of ''errno'') of
        None \<Rightarrow> 4 | Some cursor \<Rightarrow> if js_int cursor \<noteq> 0 then 4 else 0))"

definition do_json_upload ::
  "mallocs \<Rightarrow> md5 \<Rightarrow> upload \<Rightarrow> bytes option \<Rightarrow> collector \<Rightarrow> bytes option \<Rightarrow> (collector \<times> int) option" where
  "do_json_upload al context up app_key co json_string =
     (if \<not> up_curl up then Some (co, 2)
      else do {
        let time = ten_digits (up_sec up);
        seed \<leftarrow> blit (replicate 11 0) 0 (time @ [0]) (length time + 1);
        url \<leftarrow> co_api_url co;
        url \<leftarrow> blit url (co_seed_offset co) seed 10;
        js \<leftarrow> json_string;
        key \<leftarrow> app_key;
        pms \<leftarrow> md5_chunks (cel_md5_init context) [take 10 seed, js, key];
        (_, digest) \<leftarrow> cel_md5_final pms;
        md5_str \<leftarrow> cel_md5_print digest (replicate 33 0);
        url \<leftarrow> blit url (co_sign_offset co) md5_str 32;
        sb \<leftarrow> co_strbuff co;
        (sb, _) \<leftarrow> cel_strbuff_clear sb;
        (sb, _) \<leftarrow> deliver (post_recv_callback (\<lambda>sb b. cel_strbuff_append_from (malloc (call 0 al)) sb b (length b) 1)) sb (up_chunks up);
        let co = co\<lparr>co_api_url := Some url, co_strbuff := Some sb\<rparr>;
        (if \<not> up_perform up \<or> up_code up \<noteq> 200 then Some (co, 3)
         else do {
           reply \<leftarrow> cJSON_Parse (call 1 al) (up_round up) (Some (sb_buffer sb));
           Some (co, upload_errno reply) }) })"

section \<open>The disk filter\<close>

definition collector_disk_filter :: "bytes \<Rightarrow> bytes \<Rightarrow> int \<Rightarrow> nat" where
  "collector_disk_filter name format stage =
     (if stage = - 1 then (if same_start name ''/dev/loop'' \<or> same_start name ''/dev/ram'' then 1 else 0)
      else if stage = 1 then (if sarah_is_valid_disk_type format > 0 then 1 else 0)
      else 0)"

section \<open>The round\<close>

text \<open>The variables of the application that live through its loop.\<close>

record collecting =
  cl_node :: monitored
  cl_collector :: collector
  cl_hw :: "hd_bios \<times> hd_system \<times> hd_board"
  cl_cpus :: "cpu_info option list"
  cl_time_r1 :: cpu_time
  cl_time_r2 :: cpu_time
  cl_loadavg :: cpu_loadavg
  cl_ram :: ram_stat
  cl_disks :: "disk list"
  cl_net_l1 :: "net_stat list"
  cl_net_l2 :: "net_stat list"
  cl_bandwidth :: "bandwidth list"
  cl_procs :: "process list"
  cl_tv_s :: "int \<times> int"
  cl_to_go :: bool

text \<open>What a round reads and delivers: the status of the booter at its start and its end, the devices, outputs and files
  of the single samples, and up to three readings of the clock, the processor times and the network.\<close>

record reading =
  rg_clock :: "int \<times> int"
  rg_stat :: "bytes option"
  rg_net :: "bytes option"

record sampling =
  sm_status :: proc_status
  sm_status_end :: proc_status
  sm_nics :: nics
  sm_dmi :: "bytes option"
  sm_cpuinfo :: "bytes option"
  sm_meminfo :: "bytes option"
  sm_disks :: disk_env
  sm_ps :: "bytes option"
  sm_first :: reading
  sm_second :: reading
  sm_loadavg :: "bytes option"
  sm_fresh :: u8
  sm_upload :: upload
  sm_third :: reading

text \<open>Processor times and network counters of one reading.\<close>

definition take_reading ::
  "(nat \<Rightarrow> bool) \<Rightarrow> nics \<Rightarrow> reading \<Rightarrow> cpu_time \<Rightarrow> net_stat list \<Rightarrow> (cpu_time \<times> net_stat list) option" where
  "take_reading al nc rg t list = do {
     (t, _) \<leftarrow> sarah_get_cpu_time (rg_stat rg) t;
     (list, _) \<leftarrow> sarah_get_net_stat al nc (rg_net rg) list;
     Some (t, list) }"

text \<open>The statistics and the package of a round: the state with the filled lists, and the package.\<close>

definition collect_stats ::
  "mallocs \<Rightarrow> rounding \<Rightarrow> sampling \<Rightarrow> collecting \<Rightarrow> (collecting \<times> fp json option) option" where
  "collect_stats al R sm st = do {
     (hw, _) \<leftarrow> sarah_get_hd_info (sm_dmi sm) (cl_hw st);
     (cpus, _) \<leftarrow> sarah_get_cpu_info (malloc (call 0 al)) R (sm_cpuinfo sm) (cl_cpus st);
     (ram, _) \<leftarrow> sarah_get_ram_stat (sm_meminfo sm) (cl_ram st);
     (disks, _) \<leftarrow> sarah_get_disk_list (malloc (call 1 al)) (sm_disks sm) 3 (Some collector_disk_filter) (cl_disks st);
     (procs, _) \<leftarrow> sarah_get_process_list (malloc (call 2 al)) R (sm_ps sm) (cl_procs st);
     (tv_s, t1, l1) \<leftarrow> (if \<not> cl_to_go st
        then map_option (Pair (rg_clock (sm_first sm))) (take_reading (malloc (call 3 al)) (sm_nics sm) (sm_first sm) (cl_time_r1 st) (cl_net_l1 st))
        else Some (cl_tv_s st, cl_time_r1 st, cl_net_l1 st));
     (t2, l2) \<leftarrow> take_reading (malloc (call 4 al)) (sm_nics sm) (sm_second sm) (cl_time_r2 st) (cl_net_l2 st);
     let tv_e = rg_clock (sm_second sm);
     let nd = (cl_node st)\<lparr>nd_last_stat_begin := to_uint32 (fst tv_s), nd_last_stat_end := to_uint32 (fst tv_e)\<rparr>;
     (la, _) \<leftarrow> sarah_get_cpu_loadavg R (sm_loadavg sm) (cl_loadavg st);
     bws \<leftarrow> cal_bandwidth_stat (malloc (call 5 al)) R (cl_bandwidth st) l1 l2 (seconds_between R tv_s tv_e);
     cpu_stat \<leftarrow> sarah_cal_cpu_stat R t1 t2;
     pkg \<leftarrow> make_json_package (call 6 al) R nd hw cpus cpu_stat la ram disks bws procs;
     Some (st\<lparr>cl_node := nd, cl_hw := hw, cl_cpus := cpus, cl_ram := ram, cl_disks := disks, cl_procs := procs,
              cl_tv_s := tv_s, cl_time_r1 := t1, cl_net_l1 := l1, cl_time_r2 := t2, cl_net_l2 := l2, cl_loadavg := la,
              cl_bandwidth := bws\<rparr>, pkg) }"

text \<open>All lists are cleared.\<close>

definition clear_lists :: "collecting \<Rightarrow> collecting" where
  "clear_lists st = st\<lparr>cl_cpus := [], cl_disks := [], cl_net_l1 := [], cl_net_l2 := [], cl_bandwidth := [], cl_procs := []\<rparr>"

text \<open>What a round uploaded: what it read, the state with the filled lists, the package and the code of the upload.\<close>

type_synonym uploaded = "sampling \<times> collecting \<times> fp json option \<times> int"

definition collector_round ::
  "mallocs \<Rightarrow> md5 \<Rightarrow> rounding \<Rightarrow> sampling \<Rightarrow> collecting \<Rightarrow> (collecting \<times> uploaded option \<times> loop) option" where
  "collector_round al context R sm st =
     (if sm_status sm = EXIT then Some (st, None, Leave)
      else if sm_status sm = STOP then Some (st, None, Sleep 10)
      else do {
        (full, pkg) \<leftarrow> collect_stats (call 0 al) R sm st;
        json_string \<leftarrow> cJSON_PrintUnformatted (malloc (call 1 al)) (sm_fresh sm) (r_double R) pkg;
        let st = clear_lists full;
        (co, ret) \<leftarrow> do_json_upload (call 2 al) context (sm_upload sm) (cf_app_key (nd_config (cl_node st))) (cl_collector st)
                      (map_option cstr json_string);
        (t1, l1) \<leftarrow> take_reading (malloc (call 3 al)) (sm_nics sm) (sm_third sm) (cl_time_r1 st) (cl_net_l1 st);
        let st = st\<lparr>cl_collector := co, cl_tv_s := rg_clock (sm_third sm), cl_time_r1 := t1, cl_net_l1 := l1, cl_to_go := True\<rparr>;
        Some (st, Some (sm, full, pkg, ret),
              if sm_status_end sm = EXIT then Leave else Sleep (unat (nd_interval (cl_node st)))) })"

text \<open>Rounds until the loop is left, and what they uploaded.\<close>

fun collector_run ::
  "mallocs \<Rightarrow> md5 \<Rightarrow> rounding \<Rightarrow> sampling list \<Rightarrow> collecting \<Rightarrow> (collecting \<times> uploaded list) option" where
  "collector_run al context R [] st = Some (st, [])"
| "collector_run al context R (sm # sms) st = do {
     (st, out, l) \<leftarrow> collector_round (call 0 al) context R sm st;
     (st, outs) \<leftarrow> (case l of Leave \<Rightarrow> Some (st, []) | Sleep _ \<Rightarrow> collector_run (call 1 al) context R sms st);
     Some (st, case out of None \<Rightarrow> outs | Some u \<Rightarrow> u # outs) }"

section \<open>The address\<close>

definition collector_url :: "bytes \<Rightarrow> bytes \<Rightarrow> bytes \<Rightarrow> bytes" where
  "collector_url key seed sign = collector_post_url @ bytes_of ''?app_key='' @ key @ bytes_of ''&seed='' @ seed
     @ bytes_of ''&sign='' @ sign"

text \<open>An address with its two variable parts, and a buffer for the reply.\<close>

definition url_ready :: "bytes \<Rightarrow> collector \<Rightarrow> bool" where
  "url_ready key co \<longleftrightarrow>
     (\<exists>sd sg. co_api_url co = Some (collector_url key sd sg @ [0]) \<and> length sd = 10 \<and> length sg = 32)
     \<and> co_seed_offset co = length collector_post_url + length key + 15
     \<and> co_sign_offset co = length collector_post_url + length key + 31
     \<and> (\<exists>sb. co_strbuff co = Some sb \<and> sb_wf sb)"

lemma ten_digits_len: "n < 10 ^ 10 \<Longrightarrow> length (ten_digits n) = 10"
  using length_dec_digits [of n 10] by (simp add: ten_digits_def length_pad_left max_def)

lemma two_slots:
  assumes "length sd = 10" "length sg = 32" "10 \<le> length seed" "32 \<le> length sign"
  shows "blit (h @ sd @ m @ sg @ [0]) (length h) seed 10 = Some (h @ take 10 seed @ m @ sg @ [0])"
    and "blit (h @ sd @ m @ sg @ [0]) (length h + 10 + length m) sign 32 = Some (h @ sd @ m @ take 32 sign @ [0])"
  using assms by (simp_all add: blit_def)

lemma url_parts:
  assumes "length sd = 10" "length sg = 32" "10 \<le> length seed" "32 \<le> length sign"
  shows "blit (collector_url key sd sg @ [0]) (length collector_post_url + length key + 15) seed 10
      = Some (collector_url key (take 10 seed) sg @ [0])"
    and "blit (collector_url key sd sg @ [0]) (length collector_post_url + length key + 31) sign 32
      = Some (collector_url key sd (take 32 sign) @ [0])"
proof -
  let ?h = "collector_post_url @ bytes_of ''?app_key='' @ key @ bytes_of ''&seed=''" and ?m = "bytes_of ''&sign=''"
  have h: "length ?h = length collector_post_url + length key + 15"
    "length collector_post_url + length key + 15 + 10 + length ?m = length collector_post_url + length key + 31" by simp_all
  have u: "collector_url key sd sg @ [0] = ?h @ sd @ ?m @ sg @ [0]" for sd sg by (simp add: collector_url_def)
  show "blit (collector_url key sd sg @ [0]) (length collector_post_url + length key + 15) seed 10
      = Some (collector_url key (take 10 seed) sg @ [0])"
    "blit (collector_url key sd sg @ [0]) (length collector_post_url + length key + 31) sign 32
      = Some (collector_url key sd (take 32 sign) @ [0])"
    using two_slots [OF assms, of ?h ?m] unfolding u h by blast+
qed

lemma collector_made:
  "sarah_collector_init al None = None"
  "\<exists>co code. sarah_collector_init al (Some key) = Some (co, code)
     \<and> code = (if \<not> al (length collector_post_url + length key + 64) then 1 else if \<not> al 256 \<or> \<not> al 16 then 2 else 0)
     \<and> (code = 0 \<longrightarrow> url_ready key co)"
proof -
  show "sarah_collector_init al None = None" by (simp add: sarah_collector_init_def)
  let ?n = "length collector_post_url + length key + 63"
  let ?sg = "bytes_of ''7f9106d9a1fa6d0f3550cc1783342638''"
  let ?u = "collector_url key (ten_digits 0) ?sg"
  let ?v = "collector_url key (ten_digits 0) (take 31 ?sg @ [0]) @ [0]"
  have len: "length ?u = ?n" by (simp add: collector_url_def ten_digits_len)
  have n1: "?n + 1 = length collector_post_url + length key + 64" by simp
  have b: "blit (replicate (length collector_post_url + length key + 64) 0) 0 (?u @ [0]) (length collector_post_url + length key + 64)
      = Some (?u @ [0])"
    using len by (simp add: blit_def)
  obtain c where "?sg = take 31 ?sg @ [c]" using take_Suc_conv_app_nth [of 31 ?sg] by simp
  let ?X = "collector_url key (ten_digits 0) (take 31 ?sg)"
  have "collector_url key (ten_digits 0) (x @ y) = collector_url key (ten_digits 0) x @ y" for x y
    by (simp add: collector_url_def)
  then have "?u = ?X @ [c]" "?v = ?X @ [0, 0]" using \<open>?sg = take 31 ?sg @ [c]\<close> by (metis append.assoc, simp)
  moreover have "length ?X = ?n - 1" by (simp add: collector_url_def ten_digits_len)
  ultimately have w: "wr (?u @ [0]) (?n - 1) 0 = Some ?v"
    by (simp add: wr_def list_update_append)
  have ready: "url_ready key \<lparr>co_api_url = Some ?v, co_seed_offset = length collector_post_url + length key + 15,
      co_sign_offset = length collector_post_url + length key + 31, co_strbuff = Some sb\<rparr>" if "sb_wf sb" for sb
  proof -
    have "\<exists>sd sg. Some ?v = Some (collector_url key sd sg @ [0]) \<and> length sd = 10 \<and> length sg = 32"
      by (rule exI [of _ "ten_digits 0"], rule exI [of _ "take 31 ?sg @ [0]"]) (simp add: ten_digits_len)
    with that show ?thesis by (simp add: url_ready_def)
  qed
  have sizes: "length collector_post_url + length (bytes_of ''?app_key='') + length key + length (bytes_of ''&seed='')
      = length collector_post_url + length key + 15"
    "length collector_post_url + length key + 15 + 10 + length (bytes_of ''&sign='') = length collector_post_url + length key + 31"
    "length collector_post_url + length key + 31 + 32 = ?n" by simp_all
  have u: "collector_post_url @ bytes_of ''?app_key='' @ key @ bytes_of ''&seed='' @ ten_digits 0 @ bytes_of ''&sign='' @ ?sg = ?u"
    by (simp add: collector_url_def)
  have buf: "(case new_cel_strbuff_opacity al 256 of Inl _ \<Rightarrow> \<not> al 256 \<or> \<not> al 16 | Inr sb \<Rightarrow> al 256 \<and> al 16 \<and> sb_wf sb)"
    using new_opacity_wf [of 256 al]
    by (auto simp: new_cel_strbuff_opacity_def create_buffer_def split: sum.splits option.splits if_splits)
  show "\<exists>co code. sarah_collector_init al (Some key) = Some (co, code)
     \<and> code = (if \<not> al (length collector_post_url + length key + 64) then 1 else if \<not> al 256 \<or> \<not> al 16 then 2 else 0)
     \<and> (code = 0 \<longrightarrow> url_ready key co)"
  proof (cases "al (length collector_post_url + length key + 64)")
    case False
    then show ?thesis unfolding sarah_collector_init_def Option.bind_lunit Let_def sizes n1 by simp
  next
    case True
    have n: "length ?u + 1 = ?n + 1" using len by simp
    have eq: "sarah_collector_init al (Some key) = (case new_cel_strbuff_opacity al 256 of
        Inl _ \<Rightarrow> Some (\<lparr>co_api_url = Some ?v, co_seed_offset = length collector_post_url + length key + 15,
          co_sign_offset = length collector_post_url + length key + 31, co_strbuff = None\<rparr>, 2)
      | Inr sb \<Rightarrow> Some (\<lparr>co_api_url = Some ?v, co_seed_offset = length collector_post_url + length key + 15,
          co_sign_offset = length collector_post_url + length key + 31, co_strbuff = Some sb\<rparr>, 0))"
      using True unfolding sarah_collector_init_def Option.bind_lunit Let_def sizes u n n1 b w
      by (cases "new_cel_strbuff_opacity al 256") simp_all
    show ?thesis
      using True buf ready unfolding eq by (cases "new_cel_strbuff_opacity al 256") simp_all
  qed
qed

section \<open>Uploads\<close>

text \<open>C18: an upload rewrites the address in place: as a string it is the fixed part with the time in ten digits
  and the MD5 of time, package and key, and it is ready for the next upload.  The reply that is judged is the body
  of this upload alone, whatever the buffer held; the code is 3 for a failed transfer or a status that is not 200,
  4 for a reply that is no JSON or has no \<open>errno\<close> of 0, and 0 otherwise.\<close>

theorem upload_signed:
  assumes "url_ready key co" "up_curl up" "up_sec up < 10 ^ 10" "length (md_buf context) = 64"
    and "length js < 2 ^ 28" "length key < 2 ^ 28" "no_nul key"
    and "length (concat (up_chunks up)) < 2 ^ 30" "no_nul (concat (up_chunks up))"
  shows "\<exists>co' url. do_json_upload plenty context up (Some key) co (Some js)
        = Some (co', if \<not> up_perform up then 3 else if up_code up \<noteq> 200 then 3
                     else upload_errno (parsed plenty (up_round up) (concat (up_chunks up))))
     \<and> url_ready key co' \<and> co_api_url co' = Some url
     \<and> cstr url = collector_url key (ten_digits (up_sec up)) (md5_hex (ten_digits (up_sec up) @ js @ key))"
proof -
  let ?t = "ten_digits (up_sec up)"
  let ?sig = "md5_hex (?t @ js @ key)"
  obtain sd sg sb where co: "co_api_url co = Some (collector_url key sd sg @ [0])" "length sd = 10" "length sg = 32"
    "co_seed_offset co = length collector_post_url + length key + 15"
    "co_sign_offset co = length collector_post_url + length key + 31" "co_strbuff co = Some sb" "sb_wf sb"
    using assms(1) unfolding url_ready_def by blast
  have t: "length ?t = 10" using assms(3) by (rule ten_digits_len)
  then have seed: "blit (replicate 11 0) 0 (?t @ [0]) (length ?t + 1) = Some (?t @ [0])" by (simp add: blit_def)
  have "\<forall>c \<in> set [?t, js, key]. length c < 2 ^ 28" using assms(5,6) t by simp
  then obtain p p' where p: "md5_chunks (cel_md5_init context) [?t, js, key] = Some p"
    "cel_md5_final p = Some (p', md5_spec (concat [?t, js, key]))"
    using md5_parts_law [OF assms(4)] by blast
  have pr: "cel_md5_print (md5_spec (concat [?t, js, key])) (replicate 33 0) = Some (?sig @ [0])"
    using md5_print_law [of "replicate 33 0" "concat [?t, js, key]"] by simp
  let ?u = "collector_url key ?t ?sig @ [0]"
  have b: "blit (collector_url key sd sg @ [0]) (length collector_post_url + length key + 15) (?t @ [0]) 10
      = Some (collector_url key ?t sg @ [0])"
    "blit (collector_url key ?t sg @ [0]) (length collector_post_url + length key + 31) (?sig @ [0]) 32 = Some ?u"
    using url_parts(1) [OF co(2,3), of "?t @ [0]" "?sig @ [0]"] url_parts(2) [OF t co(3), of "?t @ [0]" "?sig @ [0]"] t by simp_all
  obtain sb1 where sb1: "cel_strbuff_clear sb = Some (sb1, 1)" "sb_wf sb1" "content sb1 = []"
    using clear_content [OF co(7)] by blast
  obtain sb2 where sb2: "deliver (post_recv_callback strbuff_put) sb1 (up_chunks up) = Some (sb2, True)"
    "sb_wf sb2" "content sb2 = concat (up_chunks up)"
    using sink.deliver_all [OF sb1(2)] sb1(3) assms(8) by auto
  have put: "(\<lambda>sb b. cel_strbuff_append_from (\<lambda>_. True) sb b (length b) 1) = strbuff_put"
    by (simp add: strbuff_put_def fun_eq_iff)
  have body: "cstr (sb_buffer sb2) = concat (up_chunks up)" using sb_wf_cstr [OF sb2(2)] sb2(3) assms(9) by simp
  let ?co = "co\<lparr>co_api_url := Some ?u, co_strbuff := Some sb2\<rparr>"
  have "take 10 (?t @ [0]) = ?t" using t by simp
  then have "do_json_upload plenty context up (Some key) co (Some js)
        = Some (?co, if \<not> up_perform up then 3 else if up_code up \<noteq> 200 then 3
                     else upload_errno (parsed plenty (up_round up) (concat (up_chunks up))))"
    unfolding do_json_upload_def plenty_calls put using assms(2) co seed p pr b sb1(1) sb2(1) parse_block [OF sb_wf_cstr(1) [OF sb2(2)]]
    by (simp add: body Let_def del: md5_chunks.simps)
  moreover have "no_nul (collector_url key ?t ?sig)"
    using assms(7) by (simp add: collector_url_def) (simp add: collector_post_url_def bytes_of_def)
  then have "cstr ?u = collector_url key ?t ?sig" by simp
  moreover have "url_ready key ?co"
  proof -
    have "\<exists>sd sg. collector_url key ?t ?sig = collector_url key sd sg \<and> length sd = 10 \<and> length sg = 32"
      by (rule exI [of _ ?t], rule exI [of _ ?sig]) (simp add: t)
    with co sb2(2) show ?thesis by (simp add: url_ready_def)
  qed
  ultimately show ?thesis by (intro exI [of _ ?co] exI [of _ ?u]) simp
qed

section \<open>Bandwidth of two samples\<close>

lemma bandwidth_entries:
  "bandwidth_loop al rates list l1 l2 = Some r \<Longrightarrow> r = list @ map (\<lambda>(n1, n2). \<lparr>bd_round_1 = n1, bd_round_2 = n2,
     bd_incoming = fst (rates n1 n2), bd_outgoing = snd (rates n1 n2)\<rparr>) (zip l1 l2)"
proof (cases "al 184")
  case True
  assume "bandwidth_loop al rates list l1 l2 = Some r"
  with bandwidth_loop_law [where al = al, OF True] show ?thesis by simp
next
  case False
  assume "bandwidth_loop al rates list l1 l2 = Some r"
  with False have "(l1 = [] \<or> l2 = []) \<and> r = list"
    by (cases l1; cases l2) (auto simp: new_bandwidth_stat_entry_def)
  then show ?thesis by auto
qed

text \<open>C33: with roundings that keep 0, the collector computes both rates of every device from the bytes that passed between the
  samples, over a wrap of the 64-bit counters too: infinite when bytes passed in no time, NaN when neither passed, the rounded
  quotient otherwise.  The library function \<open>sarah_get_bandwidth_stat_for\<close> gives the same entries on the same samples,
  except that its outgoing rate is 0 whatever was sent, and NaN when no time passed.\<close>

theorem bandwidth_rates:
  assumes "cal_bandwidth_stat al R [] l1 l2 secs = Some bws" "secs = seconds_between R tv_s tv_e" "sound R"
    and "sarah_get_net_stat al nc fd1 [] = Some (l1, c1)" "sarah_get_net_stat al nc fd2 [] = Some (l2, c2)"
  shows "sarah_get_bandwidth_stat_for al R nc tv_s fd1 fd2 tv_e []
        = Some (map (\<lambda>b. b\<lparr>bd_outgoing := if secs = 0 then NaN else Fin 0\<rparr>) bws, 0)
    \<and> length bws = min (length l1) (length l2)
    \<and> (\<forall>i < length bws. \<forall>a b. bws ! i = b \<and> nt_receive (l1 ! i) < 2 ^ 64 \<and> a < 2 ^ 64
          \<and> nt_receive (l2 ! i) = (nt_receive (l1 ! i) + a) mod 2 ^ 64 \<longrightarrow>
          bd_incoming b = (if secs = 0 then if a = 0 then NaN else Inf else Fin (r_float R (r_double R (r_double R (rat_of_nat a) / secs)))))
    \<and> (\<forall>i < length bws. \<forall>a b. bws ! i = b \<and> nt_transmit (l1 ! i) < 2 ^ 64 \<and> a < 2 ^ 64
          \<and> nt_transmit (l2 ! i) = (nt_transmit (l1 ! i) + a) mod 2 ^ 64 \<longrightarrow>
          bd_outgoing b = (if secs = 0 then if a = 0 then NaN else Inf else Fin (r_float R (r_double R (r_double R (rat_of_nat a) / secs)))))"
proof -
  have bws: "bws = map (\<lambda>(n1, n2). \<lparr>bd_round_1 = n1, bd_round_2 = n2, bd_incoming = rate R (diff64 (nt_receive n2) (nt_receive n1)) secs,
      bd_outgoing = rate R (diff64 (nt_transmit n2) (nt_transmit n1)) secs\<rparr>) (zip l1 l2)"
    using bandwidth_entries [OF assms(1) [unfolded cal_bandwidth_stat_def]] by simp
  have al: "al 184 \<or> zip l1 l2 = []"
    using assms(1) by (cases l1; cases l2) (auto simp: cal_bandwidth_stat_def new_bandwidth_stat_entry_def split: if_splits)
  have "bandwidth_loop al (\<lambda>n1 n2. (rate R (diff64 (nt_receive n2) (nt_receive n1)) secs, rate R 0 secs)) [] l1 l2
      = Some (map (\<lambda>b. b\<lparr>bd_outgoing := rate R 0 secs\<rparr>) bws)"
  proof (cases "al 184")
    case True
    from bandwidth_loop_law [where al = al, OF True] show ?thesis by (simp add: bws comp_def case_prod_beta)
  next
    case False
    with al have "l1 = [] \<or> l2 = []" by (cases l1; cases l2) auto
    then show ?thesis by (cases l1; cases l2) (simp_all add: bws)
  qed
  then have lib: "sarah_get_bandwidth_stat_for al R nc tv_s fd1 fd2 tv_e [] = Some (map (\<lambda>b. b\<lparr>bd_outgoing := rate R 0 secs\<rparr>) bws, 0)"
    using assms(4,5) by (simp add: sarah_get_bandwidth_stat_for_def flip: assms(2))
  have "r_double R 0 = 0" "r_float R 0 = 0" using assms(3) by (auto simp: sound_def sound_round_def dest: spec [of _ 0])
  then have "rate R 0 secs = (if secs = 0 then NaN else Fin 0)" by (simp add: rate_def)
  moreover have "diff64 ((x + a) mod 2 ^ 64) x = a" if "x < 2 ^ 64" "a < 2 ^ 64" for x a
    using diff64_advance [OF that(2), of x] that(1) by simp
  ultimately show ?thesis using lib by (simp add: bws rate_def)
qed

lemma sample_table_read:
  assumes "r < 10" "t < 10" "al 88"
  shows "sarah_get_net_stat al sample_nics (Some (sample_table r t)) []
       = Some ([\<lparr>nt_receive = r, nt_r_packets = 1, nt_transmit = t, nt_t_packets = 2, nt_hd_addr = [2, 66, 0, 0, 0, 1],
            nt_device = bytes_of ''eth0''\<rparr>], 0)"
  using net_table_law [of al "[sample_device r t]" "bytes_of ''Inter''" "bytes_of '' face''" sample_nics "[]"]
    sample_device_ok [OF assms(1,2)] assms(3) by (simp add: sample_table_def)

lemma bandwidth_rates_witness:
  "map_option (\<lambda>(l, c). (map bd_incoming l, map bd_outgoing l, c))
     (sarah_get_bandwidth_stat_for (\<lambda>_. True) \<lparr>r_float = id, r_double = id, r_long = id\<rparr> sample_nics (5, 0)
        (Some (sample_table 3 2)) (Some (sample_table 9 8)) (7, 0) []) = Some ([Fin 3], [Fin 0], 0)"
proof -
  let ?R = "\<lparr>r_float = id, r_double = id, r_long = id\<rparr>"
  have s: "seconds_between ?R (5, 0) (7, 0) = 2" by (simp add: seconds_between_def)
  have r: "rate ?R n 2 = Fin (rat_of_nat n / 2)" for n by (simp add: rate_def)
  have d: "diff64 9 3 = 6" "diff64 8 2 = 6" by (simp_all add: diff64_def)
  obtain n1 where n1: "sarah_get_net_stat (\<lambda>_. True) sample_nics (Some (sample_table 3 2)) [] = Some ([n1], 0)"
    "nt_receive n1 = 3" "nt_transmit n1 = 2" using sample_table_read [of 3 2 "\<lambda>_. True"] by auto
  obtain n2 where n2: "sarah_get_net_stat (\<lambda>_. True) sample_nics (Some (sample_table 9 8)) [] = Some ([n2], 0)"
    "nt_receive n2 = 9" "nt_transmit n2 = 8" using sample_table_read [of 9 8 "\<lambda>_. True"] by auto
  have c: "cal_bandwidth_stat (\<lambda>_. True) ?R [] [n1] [n2] (seconds_between ?R (5, 0) (7, 0))
      = Some [\<lparr>bd_round_1 = n1, bd_round_2 = n2, bd_incoming = Fin 3, bd_outgoing = Fin 3\<rparr>]"
    by (simp add: cal_bandwidth_stat_def new_bandwidth_stat_entry_def s r d n1 n2)
  from bandwidth_rates [OF c refl sound_exact n1(1) n2(1)] show ?thesis by (simp add: s r)
qed

lemma upload_signed_witness:
  "\<exists>co co' url. sarah_collector_init (\<lambda>_. True) (Some (bytes_of ''k1'')) = Some (co, 0)
     \<and> do_json_upload plenty fresh_md5 \<lparr>up_curl = True, up_sec = 1500000000, up_chunks = [bytes_of ''{}''], up_perform = True,
          up_code = 404, up_round = id\<rparr> (Some (bytes_of ''k1'')) co (Some (bytes_of ''{}'')) = Some (co', 3)
     \<and> co_api_url co' = Some url
     \<and> cstr url = collector_url (bytes_of ''k1'') (ten_digits 1500000000) (md5_hex (ten_digits 1500000000 @ bytes_of ''{}'' @ bytes_of ''k1''))"
proof -
  let ?up = "\<lparr>up_curl = True, up_sec = 1500000000, up_chunks = [bytes_of ''{}''], up_perform = True,
          up_code = 404, up_round = id\<rparr>"
  obtain co where co: "sarah_collector_init (\<lambda>_. True) (Some (bytes_of ''k1'')) = Some (co, 0)" "url_ready (bytes_of ''k1'') co"
    using collector_made(2) [of "\<lambda>_. True" "bytes_of ''k1''"] by auto
  have nn: "no_nul (bytes_of ''k1'')" "no_nul (bytes_of ''{}'')" by (simp_all add: bytes_of_def)
  have "length (md_buf fresh_md5) = 64" by (simp add: fresh_md5_def cel_md5_init_def)
  from upload_signed [OF co(2), of ?up fresh_md5 "bytes_of ''{}''", OF _ _ this] nn co(1) show ?thesis
    by (auto simp: upload_errno_def)
qed

section \<open>Rounds\<close>

text \<open>Between two rounds every list is empty except the network sample to start from.\<close>

definition between :: "collecting \<Rightarrow> bool" where
  "between st \<longleftrightarrow> cl_cpus st = [] \<and> cl_disks st = [] \<and> cl_net_l2 st = [] \<and> cl_bandwidth st = [] \<and> cl_procs st = []
     \<and> (\<not> cl_to_go st \<longrightarrow> cl_net_l1 st = [])"

lemma collect_law:
  assumes "collect_stats al R sm st = Some (full, pkg)"
  shows "(\<exists>load. sarah_cal_cpu_stat R (cl_time_r1 full) (cl_time_r2 full) = Some load
      \<and> make_json_package (call 6 al) R (cl_node full) (cl_hw full) (cl_cpus full) load
          (cl_loadavg full) (cl_ram full) (cl_disks full) (cl_bandwidth full) (cl_procs full) = Some pkg)
    \<and> (\<exists>e. sarah_get_disk_list (malloc (call 1 al)) (sm_disks sm) 3 (Some collector_disk_filter) (cl_disks st) = Some (cl_disks full, e))
    \<and> cl_collector full = cl_collector st
    \<and> cal_bandwidth_stat (malloc (call 5 al)) R (cl_bandwidth st) (cl_net_l1 full) (cl_net_l2 full)
        (seconds_between R (cl_tv_s full) (rg_clock (sm_second sm))) = Some (cl_bandwidth full)
    \<and> take_reading (malloc (call 4 al)) (sm_nics sm) (sm_second sm) (cl_time_r2 st) (cl_net_l2 st) = Some (cl_time_r2 full, cl_net_l2 full)
    \<and> (if cl_to_go st then (cl_tv_s full, cl_time_r1 full, cl_net_l1 full) = (cl_tv_s st, cl_time_r1 st, cl_net_l1 st)
       else cl_tv_s full = rg_clock (sm_first sm)
         \<and> take_reading (malloc (call 3 al)) (sm_nics sm) (sm_first sm) (cl_time_r1 st) (cl_net_l1 st) = Some (cl_time_r1 full, cl_net_l1 full))"
proof (cases "cl_to_go st")
  case True
  then show ?thesis
    using assms unfolding collect_stats_def Let_def by (clarsimp split: bind_splits)
next
  case False
  then show ?thesis
    using assms unfolding collect_stats_def Let_def by (clarsimp split: bind_splits)
qed

text \<open>An upload packs the samples its round took after the ones it started from; the rate of every device is over the time between
  them.\<close>

definition packed :: "rounding \<Rightarrow> uploaded \<Rightarrow> bool" where
  "packed R u = (case u of (sm, full, pkg, ret) \<Rightarrow>
     sm_status sm \<noteq> EXIT \<and> sm_status sm \<noteq> STOP
     \<and> (\<exists>al load. sarah_cal_cpu_stat R (cl_time_r1 full) (cl_time_r2 full) = Some load
          \<and> make_json_package al R (cl_node full) (cl_hw full) (cl_cpus full) load
              (cl_loadavg full) (cl_ram full) (cl_disks full) (cl_bandwidth full) (cl_procs full) = Some pkg)
     \<and> (\<exists>al t. take_reading al (sm_nics sm) (sm_second sm) t [] = Some (cl_time_r2 full, cl_net_l2 full))
     \<and> (\<exists>al. cal_bandwidth_stat al R [] (cl_net_l1 full) (cl_net_l2 full)
          (seconds_between R (cl_tv_s full) (rg_clock (sm_second sm))) = Some (cl_bandwidth full))
     \<and> map bd_round_1 (cl_bandwidth full) = take (length (cl_bandwidth full)) (cl_net_l1 full)
     \<and> map bd_round_2 (cl_bandwidth full) = take (length (cl_bandwidth full)) (cl_net_l2 full)
     \<and> list_all disk_fits (cl_disks full))"

text \<open>An upload that starts from the first reading of its own round, and one that starts from the third reading of the round that made
  the upload before it.\<close>

definition starts_fresh :: "uploaded \<Rightarrow> bool" where
  "starts_fresh u = (case u of (sm, full, _) \<Rightarrow> cl_tv_s full = rg_clock (sm_first sm)
     \<and> (\<exists>al t. take_reading al (sm_nics sm) (sm_first sm) t [] = Some (cl_time_r1 full, cl_net_l1 full)))"

definition chained :: "uploaded \<Rightarrow> uploaded \<Rightarrow> bool" where
  "chained u1 u2 = (case (u1, u2) of ((sm1, full1, _), (_, full2, _)) \<Rightarrow> cl_tv_s full2 = rg_clock (sm_third sm1)
     \<and> (\<exists>al. take_reading al (sm_nics sm1) (sm_third sm1) (cl_time_r1 full1) [] = Some (cl_time_r1 full2, cl_net_l1 full2)))"

text \<open>Where the next upload starts.\<close>

definition start_point :: "collecting \<Rightarrow> (int \<times> int) \<times> cpu_time \<times> net_stat list" where
  "start_point st = (cl_tv_s st, cl_time_r1 st, cl_net_l1 st)"

lemma round_law:
  assumes "between st" "collector_round al context R sm st = Some (st', out, l)"
  shows "between st' \<and> (case out of None \<Rightarrow> st' = st | Some u \<Rightarrow> fst u = sm \<and> packed R u \<and> cl_to_go st'
       \<and> (if cl_to_go st then start_point (fst (snd u)) = start_point st else starts_fresh u)
       \<and> cl_tv_s st' = rg_clock (sm_third sm)
       \<and> take_reading (malloc (call 3 al)) (sm_nics sm) (sm_third sm) (cl_time_r1 (fst (snd u))) [] = Some (cl_time_r1 st', cl_net_l1 st'))"
proof (cases "sm_status sm = EXIT \<or> sm_status sm = STOP")
  case True
  then show ?thesis using assms by (auto simp: collector_round_def split: if_splits)
next
  case False
  then obtain full pkg co ret t1 l1 where c: "collect_stats (call 0 al) R sm st = Some (full, pkg)"
    and t: "take_reading (malloc (call 3 al)) (sm_nics sm) (sm_third sm) (cl_time_r1 full) [] = Some (t1, l1)"
    and o: "out = Some (sm, full, pkg, ret)"
    and st': "st' = (clear_lists full)\<lparr>cl_collector := co, cl_tv_s := rg_clock (sm_third sm), cl_time_r1 := t1, cl_net_l1 := l1, cl_to_go := True\<rparr>"
    using assms(2) unfolding collector_round_def Let_def by (clarsimp split: bind_splits simp: clear_lists_def)
  note law = collect_law [OF c]
  have e: "cl_disks st = []" "cl_net_l2 st = []" "cl_bandwidth st = []" "\<not> cl_to_go st \<longrightarrow> cl_net_l1 st = []"
    using assms(1) by (simp_all add: between_def)
  have b: "cal_bandwidth_stat (malloc (call 5 (call 0 al))) R [] (cl_net_l1 full) (cl_net_l2 full)
      (seconds_between R (cl_tv_s full) (rg_clock (sm_second sm))) = Some (cl_bandwidth full)"
    using law by (simp add: e)
  then have "map bd_round_1 (cl_bandwidth full) = take (length (cl_bandwidth full)) (cl_net_l1 full)
      \<and> map bd_round_2 (cl_bandwidth full) = take (length (cl_bandwidth full)) (cl_net_l2 full)"
    unfolding cal_bandwidth_stat_def
    by (drule_tac bandwidth_entries) (simp add: comp_def case_prod_beta map_fst_zip_take map_snd_zip_take min.commute)
  moreover have "list_all disk_fits (cl_disks full)"
    using law disk_list_law [of "malloc (call 1 (call 0 al))" "sm_disks sm" 3 "Some collector_disk_filter" "[]"] by (auto simp: e)
  moreover have "\<exists>al load. sarah_cal_cpu_stat R (cl_time_r1 full) (cl_time_r2 full) = Some load
      \<and> make_json_package al R (cl_node full) (cl_hw full) (cl_cpus full) load
          (cl_loadavg full) (cl_ram full) (cl_disks full) (cl_bandwidth full) (cl_procs full) = Some pkg"
    using law by blast
  moreover have "\<exists>al t. take_reading al (sm_nics sm) (sm_second sm) t [] = Some (cl_time_r2 full, cl_net_l2 full)"
    using law by (auto simp: e)
  ultimately have p: "packed R (sm, full, pkg, ret)" using False b unfolding packed_def prod.case by blast
  have s: "if cl_to_go st then start_point full = start_point st else starts_fresh (sm, full, pkg, ret)"
  proof (cases "cl_to_go st")
    case True
    then show ?thesis using law by (simp add: start_point_def)
  next
    case False
    then have f: "cl_tv_s full = rg_clock (sm_first sm)"
      "take_reading (malloc (call 3 (call 0 al))) (sm_nics sm) (sm_first sm) (cl_time_r1 st) [] = Some (cl_time_r1 full, cl_net_l1 full)"
      using law e(4) by simp_all
    show ?thesis using False f(1) by (simp add: starts_fresh_def) (rule exI, rule exI, rule f(2))
  qed
  show ?thesis using p s t o st' by (simp add: between_def clear_lists_def)
qed

lemma run_law:
  assumes "between st" "collector_run al context R sms st = Some (st', outs)"
  shows "between st' \<and> subseq (map fst outs) sms \<and> list_all (packed R) outs \<and> successively chained outs
    \<and> (outs \<noteq> [] \<longrightarrow> (if cl_to_go st then start_point (fst (snd (hd outs))) = start_point st else starts_fresh (hd outs)))"
  using assms
proof (induction sms arbitrary: al st st' outs)
  case Nil
  then show ?case by simp
next
  case (Cons sm sms)
  obtain st1 out l where r: "collector_round (call 0 al) context R sm st = Some (st1, out, l)"
    and rest: "(case l of Leave \<Rightarrow> Some (st1, []) | Sleep _ \<Rightarrow> collector_run (call 1 al) context R sms st1) \<bind>
      (\<lambda>(st, outs). Some (st, case out of None \<Rightarrow> outs | Some u \<Rightarrow> u # outs)) = Some (st', outs)"
    using Cons.prems(2) by (cases "collector_round (call 0 al) context R sm st") auto
  note law = round_law [OF Cons.prems(1) r]
  obtain os where os: "collector_run (call 1 al) context R (if l = Leave then [] else sms) st1 = Some (st', os)"
    "outs = (case out of None \<Rightarrow> os | Some u \<Rightarrow> u # os)"
    using rest by (cases l) (auto split: bind_splits)
  have b: "between st1" using law by simp
  have ih: "between st' \<and> subseq (map fst os) sms \<and> list_all (packed R) os \<and> successively chained os
    \<and> (os \<noteq> [] \<longrightarrow> (if cl_to_go st1 then start_point (fst (snd (hd os))) = start_point st1 else starts_fresh (hd os)))"
  proof (cases "l = Leave")
    case True
    then show ?thesis using os(1) b by simp
  next
    case False
    then show ?thesis using Cons.IH [OF b] os(1) by simp
  qed
  show ?case
  proof (cases out)
    case None
    then show ?thesis using ih os(2) law by auto
  next
    case (Some u)
    have "chained u (hd os)" if "os \<noteq> []"
    proof -
      have "start_point (fst (snd (hd os))) = start_point st1" using that ih law Some by simp
      then show ?thesis using law Some by (cases u; cases "hd os") (auto simp: chained_def start_point_def)
    qed
    then have "successively chained (u # os)" using ih by (cases os) auto
    then show ?thesis using ih os(2) law Some by simp
  qed
qed

text \<open>C20: in every run of the loop the uploads are made by rounds of the run in their order, none of them stopped, and each packs
  the samples of its own round, with the two network samples paired device by device.  The first upload of a loop that has
  just begun starts from the first reading of its round; every later one starts, in clock, processor times and network, from
  the reading that the round of the upload just before it took after uploading, however many rounds were stopped in
  between; and between rounds all lists are empty but that reading.\<close>

theorem rounds_chain:
  assumes "between st" "\<not> cl_to_go st" "collector_run al context R sms st = Some (st', outs)"
  shows "between st' \<and> subseq (map fst outs) sms \<and> list_all (packed R) outs
    \<and> (outs = [] \<or> starts_fresh (hd outs)) \<and> successively chained outs"
  using run_law [OF assms(1,3)] assms(2) by auto

text \<open>A collector that has just started, and a run of three rounds, the second one stopped.  There is no block of 256 bytes for the
  printer, so nothing is uploaded but the rounds go on.\<close>

definition scarce :: mallocs where
  "scarce = (\<lambda>_ n. n \<noteq> 256)"

lemma scarce_calls [simp]: "call i scarce = scarce" "malloc scarce n \<longleftrightarrow> n \<noteq> 256"
  by (simp_all add: call_def malloc_def scarce_def)

definition sample_collecting :: collecting where
  "sample_collecting = (let t = \<lparr>ct_user = 0, ct_nice = 0, ct_system = 0, ct_idle = 0, ct_name = []\<rparr> in
     \<lparr>cl_node = sample_monitored\<lparr>nd_config := (nd_config sample_monitored)\<lparr>cf_app_key := Some (bytes_of ''k1'')\<rparr>\<rparr>,
      cl_collector = fst (the (sarah_collector_init (\<lambda>_. True) (Some (bytes_of ''k1'')))),
      cl_hw = (sarah_hd_bios_init, sarah_hd_system_init, sarah_hd_board_init), cl_cpus = [], cl_time_r1 = t, cl_time_r2 = t,
      cl_loadavg = \<lparr>la_1m = 0, la_5m = 0, la_15m = 0\<rparr>, cl_ram = \<lparr>rm_total = 0, rm_free = 0, rm_available = 0\<rparr>,
      cl_disks = [], cl_net_l1 = [], cl_net_l2 = [], cl_bandwidth = [], cl_procs = [], cl_tv_s = (0, 0), cl_to_go = False\<rparr>)"

definition no_devices :: disk_env where
  "no_devices = \<lparr>dv_dev = None, dv_open = \<lambda>_. False, dv_identity = \<lambda>_. None, dv_start = \<lambda>_. None, dv_sectors = \<lambda>_. None,
     dv_fdisk = None, dv_lsblk = None, dv_statvfs = \<lambda>_. None\<rparr>"

definition sample_sampling :: "proc_status \<Rightarrow> nat \<Rightarrow> sampling" where
  "sample_sampling status n = \<lparr>sm_status = status, sm_status_end = status, sm_nics = sample_nics, sm_dmi = None, sm_cpuinfo = None,
     sm_meminfo = None, sm_disks = no_devices, sm_ps = None, sm_first = \<lparr>rg_clock = (10, 0), rg_stat = None, rg_net = Some (sample_table 1 1)\<rparr>,
     sm_second = \<lparr>rg_clock = (20 + int n, 0), rg_stat = None, rg_net = Some (sample_table n n)\<rparr>, sm_loadavg = None,
     sm_fresh = 7,
     sm_upload = \<lparr>up_curl = False, up_sec = 0, up_chunks = [], up_perform = True, up_code = 200, up_round = id\<rparr>,
     sm_third = \<lparr>rg_clock = (20 + int n, 5), rg_stat = None, rg_net = Some (sample_table n n)\<rparr>\<rparr>"

lemma sample_reading:
  assumes "n < 10"
  shows "take_reading (malloc scarce) sample_nics \<lparr>rg_clock = c, rg_stat = None, rg_net = Some (sample_table n n)\<rparr> t []
    = Some (t, [sample_round\<lparr>nt_receive := n, nt_transmit := n, nt_hd_addr := [2, 66, 0, 0, 0, 1]\<rparr>])"
  using sample_table_read [OF assms assms, of "malloc scarce"] by (simp add: take_reading_def sarah_get_cpu_time_def sample_round_def)

lemma bandwidth_numbers:
  assumes "secs \<noteq> 0" "al 184"
  shows "\<exists>bws. cal_bandwidth_stat al R [] l1 l2 secs = Some bws
    \<and> (\<forall>b \<in> set bws. bd_incoming b \<noteq> NaN \<and> bd_outgoing b \<noteq> NaN)"
  using assms(1) unfolding cal_bandwidth_stat_def bandwidth_loop_law [where al = al, OF assms(2)] by (auto simp: rate_def)

definition sample_ready :: "collecting \<Rightarrow> bool" where
  "sample_ready st \<longleftrightarrow> between st \<and> cl_hw st = (sarah_hd_bios_init, sarah_hd_system_init, sarah_hd_board_init)
     \<and> 0 \<in> set (nd_node_id (cl_node st))"

lemma sample_collects:
  assumes "sample_ready st" "n < 10"
    and "seconds_between exact (if cl_to_go st then cl_tv_s st else (10, 0)) (20 + int n, 0) \<noteq> 0"
  shows "\<exists>full pkg. collect_stats scarce exact (sample_sampling RUNNING n) st = Some (full, pkg)
    \<and> cl_hw full = cl_hw st \<and> nd_node_id (cl_node full) = nd_node_id (cl_node st)
    \<and> nd_interval (cl_node full) = nd_interval (cl_node st)"
proof -
  let ?sm = "sample_sampling RUNNING n"
  let ?l = "\<lambda>n. [sample_round\<lparr>nt_receive := n, nt_transmit := n, nt_hd_addr := [2, 66, 0, 0, 0, 1]\<rparr>]"
  let ?s = "if cl_to_go st then (cl_tv_s st, cl_time_r1 st, cl_net_l1 st) else ((10, 0), cl_time_r1 st, ?l 1)"
  obtain tv t1 l1 where s: "?s = (tv, t1, l1)" by (cases ?s)
  then have tv: "seconds_between exact tv (20 + int n, 0) \<noteq> 0" using assms(3) by (auto split: if_splits)
  have e: "cl_net_l2 st = []" "cl_bandwidth st = []" "\<not> cl_to_go st \<Longrightarrow> cl_net_l1 st = []"
    using assms(1) by (auto simp: sample_ready_def between_def)
  have first: "(if \<not> cl_to_go st then map_option (Pair (rg_clock (sm_first ?sm)))
      (take_reading (malloc scarce) (sm_nics ?sm) (sm_first ?sm) (cl_time_r1 st) (cl_net_l1 st))
      else Some (cl_tv_s st, cl_time_r1 st, cl_net_l1 st)) = Some (tv, t1, l1)"
    using s e(3) sample_reading [of 1] by (auto simp: sample_sampling_def split: if_splits)
  have second: "take_reading (malloc scarce) (sm_nics ?sm) (sm_second ?sm) (cl_time_r2 st) (cl_net_l2 st) = Some (cl_time_r2 st, ?l n)"
    using e(1) sample_reading [OF assms(2)] by (simp add: sample_sampling_def)
  obtain bws where b: "cal_bandwidth_stat (malloc scarce) exact [] l1 (?l n) (seconds_between exact tv (20 + int n, 0)) = Some bws"
    and nn: "\<And>b. b \<in> set bws \<Longrightarrow> bd_incoming b \<noteq> NaN \<and> bd_outgoing b \<noteq> NaN"
    using bandwidth_numbers [OF tv, of "malloc scarce" exact l1 "?l n"] by auto
  let ?nd = "(cl_node st)\<lparr>nd_last_stat_begin := to_uint32 (fst tv), nd_last_stat_end := to_uint32 (20 + int n)\<rparr>"
  obtain load where load: "sarah_cal_cpu_stat exact t1 (cl_time_r2 st) = Some load" using cpu_stat_made by blast
  have "0 \<in> set (nd_node_id ?nd)" "None \<notin> set (cl_cpus st)" using assms(1) by (simp_all add: sample_ready_def between_def)
  from package_made [OF this nn] obtain pkg where
    "make_json_package scarce exact ?nd (sarah_hd_bios_init, sarah_hd_system_init, sarah_hd_board_init) (cl_cpus st)
       load (cl_loadavg st) (cl_ram st) (cl_disks st) bws (cl_procs st) = Some pkg" by blast
  then show ?thesis
    using assms(1) first second b e(2) load unfolding collect_stats_def Let_def scarce_calls
    by (simp add: sample_ready_def sarah_get_hd_info_def sarah_get_cpu_info_def sarah_get_ram_stat_def sarah_get_process_list_def
      sarah_get_cpu_loadavg_def sarah_get_disk_list_def) (simp add: sample_sampling_def no_devices_def)
qed

lemma sample_rounds:
  assumes "sample_ready st" "n < 10"
    and "seconds_between exact (if cl_to_go st then cl_tv_s st else (10, 0)) (20 + int n, 0) \<noteq> 0"
  shows "\<exists>st' u k. collector_round scarce fresh_md5 exact (sample_sampling RUNNING n) st = Some (st', Some u, Sleep k)
    \<and> sample_ready st' \<and> cl_to_go st' \<and> cl_tv_s st' = (20 + int n, 5)"
proof -
  obtain full pkg where c: "collect_stats scarce exact (sample_sampling RUNNING n) st = Some (full, pkg)"
    "cl_hw full = cl_hw st" "nd_node_id (cl_node full) = nd_node_id (cl_node st)"
    using sample_collects [OF assms] by blast
  let ?sm = "sample_sampling RUNNING n"
  have "\<exists>l. take_reading (malloc scarce) (sm_nics ?sm) (sm_third ?sm) t [] = Some (t, l)" for t
    using sample_reading [OF assms(2)] by (simp add: sample_sampling_def)
  then obtain l where l: "take_reading (malloc scarce) (sm_nics ?sm) (sm_third ?sm) (cl_time_r1 full) [] = Some (cl_time_r1 full, l)"
    by blast
  let ?st = "(clear_lists full)\<lparr>cl_tv_s := (20 + int n, 5), cl_net_l1 := l, cl_to_go := True\<rparr>"
  have p: "cJSON_PrintUnformatted (malloc scarce) fresh r pkg = Some None" for fresh r
    by (simp add: cJSON_PrintUnformatted_def print_json_def)
  have r: "collector_round scarce fresh_md5 exact ?sm st
      = Some (?st, Some (?sm, full, pkg, 2), Sleep (unat (nd_interval (cl_node ?st))))"
    using c(1) l p unfolding collector_round_def scarce_calls by (simp add: clear_lists_def do_json_upload_def)
      (simp add: sample_sampling_def)
  moreover have "sample_ready ?st"
    using assms(1) c(2,3) by (simp add: sample_ready_def clear_lists_def between_def)
  ultimately show ?thesis by auto
qed

lemma rounds_chain_witness:
  "\<exists>st u1 u2. collector_run scarce fresh_md5 exact (map (case_prod sample_sampling) [(RUNNING, 3), (STOP, 0), (RUNNING, 5)])
        sample_collecting = Some (st, [u1, u2])
     \<and> between st \<and> starts_fresh u1 \<and> chained u1 u2"
proof -
  have ready: "sample_ready sample_collecting" "\<not> cl_to_go sample_collecting"
    by (simp_all add: sample_ready_def between_def sample_collecting_def sample_monitored_def node.defs zero_node_def Let_def)
  have e: "seconds_between exact (10, 0) (23, 0) \<noteq> 0" "seconds_between exact (23, 5) (25, 0) \<noteq> 0"
    by (simp_all add: seconds_between_def exact_def)
  obtain st1 u1 k1 where 1: "collector_round scarce fresh_md5 exact (sample_sampling RUNNING 3) sample_collecting = Some (st1, Some u1, Sleep k1)"
    "sample_ready st1" "cl_to_go st1" "cl_tv_s st1 = (23, 5)"
    using sample_rounds [OF ready(1), of 3] ready(2) e(1) by auto
  have 2: "collector_round scarce fresh_md5 exact (sample_sampling STOP 0) st1 = Some (st1, None, Sleep 10)"
    by (simp add: collector_round_def sample_sampling_def)
  obtain st2 u2 k2 where 3: "collector_round scarce fresh_md5 exact (sample_sampling RUNNING 5) st1 = Some (st2, Some u2, Sleep k2)"
    using sample_rounds [OF 1(2), of 5] 1(3,4) e(2) by auto
  let ?sms = "map (case_prod sample_sampling) [(RUNNING, 3), (STOP, 0), (RUNNING, 5)]"
  have run: "collector_run scarce fresh_md5 exact ?sms sample_collecting = Some (st2, [u1, u2])"
    using 1(1) 2 3 by simp
  have "between sample_collecting" using ready(1) by (simp add: sample_ready_def)
  from rounds_chain [OF this ready(2) run] run show ?thesis by auto
qed

end
