(* ===== verification/Spec2Isabelle.thy ===== *)
theory Spec2Isabelle
  imports Prelude CelMath CelHash CelStrbuff CelText Sequence CelArray CelLink CelHashmap CelMd5 BloomFilter Numerals
    FourBytes Floats Scan Files Node Ip2region Smartdisk Json JsonItems JsonPrint JsonParse JsonTrip Executor Execution TaskLoop Booter Supervisor Updater
    Stats Hardware DiskList DiskApp DiskTools Package Collector
begin

text \<open>
  Verification library of the Sarah client, a monitoring and remote-execution agent for Linux written in C
  (\<open>src/main\<close>, \<open>src/include\<close>, \<open>src/ext\<close>).

  \<^bold>\<open>The program.\<close>  \<open>src/main/sarah.c\<close> is the booter: it makes its directory and pid file, refuses to start
  twice, starts one child process per application and supervises them by signals.  The applications are
  \<open>app_collector.c\<close> (samples the machine and uploads a JSON package), \<open>app_executor.c\<close> (pulls signed
  tasks, runs them in a child and reports), \<open>app_smartdisk.c\<close> (partitions and mounts disks) and \<open>app_updater.c\<close>
  (downloads a newer booter, verifies and installs it).  They share the node identity and configuration of \<open>node.c\<close>
  and the helpers of \<open>utils.c\<close>, and stand on a small C library, \<open>cel_*.c\<close>: string buffer, arrays, linked
  list, hash maps, MD5, hashes, Bloom filter.  The replies of the console are JSON, read by the bundled
  \<open>cJSON.c\<close>.

  \<^bold>\<open>Conventions\<close> (\<open>Prelude\<close>).  A C function is a HOL function to an \<open>option\<close>: \<open>None\<close> is undefined behaviour
  (a block left, null read, \<open>int\<close> overflow), everything the code returns, its error codes included, is
  under \<open>Some\<close>.  A struct is a record with the fields of the source, a block of memory the list of its
  cells, an \<open>unsigned int\<close> a \<open>32 word\<close> where bits matter and a \<open>nat\<close> with \<open>wrap32\<close> where sizes do.  What comes
  from outside (which \<open>malloc\<close> succeeds, what \<open>read\<close>, curl, \<open>fork\<close>, the clock, the JSON parser deliver) is an
  argument, a function or a record of outcomes, so that every theorem is about all of them.

  \<^bold>\<open>The library.\<close>
  \<^item> \<open>CelMath\<close>, \<open>CelHash\<close>: \<open>cel_math.c\<close> (the primes of the table sizes; which numbers are accepted, the search
    returns), \<open>cel_hash.c\<close> (string and block hashes).
  \<^item> \<open>CelStrbuff\<close>, \<open>CelText\<close>: \<open>cel_string.c\<close>.  Every buffer operation keeps the buffer well-formed and is
    the list operation on its contents; UTF-8 is decoded to what was encoded.
  \<^item> \<open>Sequence\<close> is the contract of an indexed list; \<open>CelArray\<close> (\<open>cel_array.c\<close>) and \<open>CelLink\<close> (\<open>cel_link.c\<close>,
    over an explicit heap of nodes) implement it.
  \<^item> \<open>CelHashmap\<close>: \<open>cel_hashmap.c\<close> refines a finite map, rehashing keeps it.
  \<^item> \<open>CelMd5\<close>: \<open>cel_md5.c\<close> computes the MD5 of RFC 1321 however the input is cut.
  \<^item> \<open>BloomFilter\<close>, \<open>Ip2region\<close>: \<open>src/ext\<close>.  The filter answers by covering; both address searches agree.
  \<^item> \<open>Numerals\<close>, \<open>FourBytes\<close>, \<open>Files\<close>: numbers in text and in memory, the file helpers of \<open>utils.c\<close>.
  \<^item> \<open>Node\<close>: \<open>node.c\<close>.  Identity over reboots, the setters and the file, the configuration text.
  \<^item> \<open>Smartdisk\<close>: partition count and layout and the mount point of \<open>app_smartdisk.c\<close>, with \<open>disk.c\<close>.
  \<^item> \<open>Json\<close>, \<open>Executor\<close>, \<open>Execution\<close>, \<open>TaskLoop\<close>: replies, tasks and their signatures, execution and
    report (\<open>executor.c\<close>, \<open>script_bash.c\<close>), the round of \<open>app_executor.c\<close>.
  \<^item> \<open>Booter\<close>, \<open>Supervisor\<close>: \<open>sarah.c\<close>; the supervision is a step relation over the process table and the
    children of the kernel.
  \<^item> \<open>Updater\<close>: \<open>app_updater.c\<close>.
  \<^item> \<open>Scan\<close>: the part of the C library the samplers use (\<open>fgets\<close>, \<open>strstr\<close>, \<open>strncmp\<close>, the \<open>sscanf\<close>
    directives of their formats, with the widths of what they store).  \<open>Stats\<close> (\<open>cpu.c\<close>, \<open>ram.c\<close>,
    \<open>network.c\<close>), \<open>Hardware\<close> (\<open>hardware.c\<close>) and \<open>DiskList\<close>, \<open>DiskTools\<close> (\<open>disk.c\<close>) read the tables of the
    kernel and of the commands: what is stored is what the lines say, inside the fields of the records.
  \<^item> \<open>Package\<close>, \<open>Collector\<close>: \<open>app_collector.c\<close>, the JSON package and the round that samples, packs and uploads;
    \<open>DiskApp\<close>: the round of \<open>app_smartdisk.c\<close> over \<open>Smartdisk\<close> and \<open>DiskList\<close>.

  \<^bold>\<open>Interfaces\<close> are locales, each interpreted on the code's model: \<open>sequence\<close>, \<open>tally_map\<close> (counting
  clients of the hash map), \<open>byte_sink\<close> (receive callbacks on the string buffer), \<open>chunked_digest\<close>
  (signatures), \<open>bit_set\<close> (Bloom filter).

  \<^bold>\<open>Bounds and fuel.\<close>  Loops are recursions with a termination proof.  Only \<open>config_lines\<close> of \<open>Node\<close> has
  fuel, the length of the file plus 2, since every line read takes a byte of the file or ends it.  Lengths of
  strings are below \<open>2 ^ 30\<close> where sums of them have to fit an \<open>int\<close>.

  \<^bold>\<open>Not modelled.\<close>  The JSON parser and printer of \<open>cJSON.c\<close> (parameters of \<open>Updater\<close>, \<open>Executor\<close> and
  \<open>Collector\<close>, which work on the parsed tree) and \<open>cJSON_Utils.c\<close>; the copied mbedtls digests; the Lua
  bindings and the command line tools, which only call what is modelled; \<open>cel_stdio.c\<close>; the version file of the
  updater; the build variants with a hidden disk (\<open>make ghost\<close>); the tree index of the address database;
  everything under \<open>src/third_parties\<close> and the test programs.
\<close>

end
